(* ===== verification/Prelude.thy ===== *)
theory Prelude
  imports Main "HOL-Library.Word"
begin

unbundle bit_operations_syntax

text \<open>
  Shared vocabulary of the development.  A Rust \<open>Result<T, E>\<close> is the sum \<open>'e + 'a\<close> with
  \<open>Err\<close> for \<open>Inl\<close> and \<open>Ok\<close> for \<open>Inr\<close>; the \<open>?\<close> operator is \<open>and_then\<close>.  Fixed-width
  integers are words, \<open>usize\<close> is \<open>nat\<close> (with the 64-bit bound written out where the code
  checks it).  A mask is read as the set of the indices of its set bits (\<open>bits_of\<close>), and the
  collection \<open>mask_simps\<close> turns the bitwise operators into set operations on it.
\<close>

type_synonym u8 = "8 word"
type_synonym u16 = "16 word"
type_synonym u32 = "32 word"
type_synonym u64 = "64 word"
type_synonym u128 = "128 word"
type_synonym i8 = "8 word"

abbreviation Ok :: "'a \<Rightarrow> 'e + 'a" where "Ok \<equiv> Inr"
abbreviation Err :: "'e \<Rightarrow> 'e + 'a" where "Err \<equiv> Inl"

named_theorems mask_simps \<open>bitwise operators as set operations on \<open>bits_of\<close>\<close>

section \<open>Results\<close>

definition and_then :: "'e + 'a \<Rightarrow> ('a \<Rightarrow> 'e + 'b) \<Rightarrow> 'e + 'b" where
  "and_then r f = (case r of Inl e \<Rightarrow> Inl e | Inr a \<Rightarrow> f a)"

definition map_err :: "('e \<Rightarrow> 'f) \<Rightarrow> 'e + 'a \<Rightarrow> 'f + 'a" where
  "map_err f r = (case r of Inl e \<Rightarrow> Inl (f e) | Inr a \<Rightarrow> Inr a)"

definition ok_or :: "'e \<Rightarrow> 'a option \<Rightarrow> 'e + 'a" where
  "ok_or e x = (case x of None \<Rightarrow> Inl e | Some a \<Rightarrow> Inr a)"

definition is_ok :: "'e + 'a \<Rightarrow> bool" where
  "is_ok r = (case r of Inl _ \<Rightarrow> False | Inr _ \<Rightarrow> True)"

lemma and_then_simps [simp]:
  "and_then (Err e) f = Err e"
  "and_then (Ok a) f = f a"
  by (simp_all add: and_then_def)

lemma and_then_cong [fundef_cong]:
  "r = r' \<Longrightarrow> (\<And>a. r' = Ok a \<Longrightarrow> f a = g a) \<Longrightarrow> and_then r f = and_then r' g"
  by (cases r') simp_all

lemma and_then_assoc: "and_then (and_then r f) g = and_then r (\<lambda>a. and_then (f a) g)"
  by (auto simp: and_then_def split: sum.split)

lemma and_then_Ok [simp]: "and_then r Ok = r"
  by (simp add: and_then_def split: sum.split)

lemma and_then_eq_Ok_iff: "and_then r f = Ok b \<longleftrightarrow> (\<exists>a. r = Ok a \<and> f a = Ok b)"
  by (cases r) auto

lemma and_then_eq_Err_iff:
  "and_then r f = Err e \<longleftrightarrow> r = Err e \<or> (\<exists>a. r = Ok a \<and> f a = Err e)"
  by (cases r) auto

lemma map_err_simps [simp]:
  "map_err f (Err e) = Err (f e)"
  "map_err f (Ok a) = Ok a"
  by (simp_all add: map_err_def)

lemma map_err_eq_Ok_iff [simp]: "map_err f r = Ok a \<longleftrightarrow> r = Ok a"
  by (cases r) auto

lemma ok_or_simps [simp]:
  "ok_or e None = Err e"
  "ok_or e (Some a) = Ok a"
  by (simp_all add: ok_or_def)

lemma ok_or_eq_Ok_iff [simp]: "ok_or e x = Ok a \<longleftrightarrow> x = Some a"
  by (cases x) auto

lemma is_ok_simps [simp]: "\<not> is_ok (Err e)" "is_ok (Ok a)"
  by (simp_all add: is_ok_def)

lemma is_ok_iff: "is_ok r \<longleftrightarrow> (\<exists>a. r = Ok a)"
  by (cases r) auto

text \<open>Collecting an iterator of results stops at the first error.\<close>

primrec try_map :: "('a \<Rightarrow> 'e + 'b) \<Rightarrow> 'a list \<Rightarrow> 'e + 'b list" where
  "try_map f [] = Ok []"
| "try_map f (x # xs) = and_then (f x) (\<lambda>y. and_then (try_map f xs) (\<lambda>ys. Ok (y # ys)))"

lemma try_map_eq_Ok_iff: "try_map f xs = Ok ys \<longleftrightarrow> list_all2 (\<lambda>x y. f x = Ok y) xs ys"
  by (induction xs arbitrary: ys) (auto simp: and_then_eq_Ok_iff list_all2_Cons1)

lemma try_map_Ok: "(\<And>x. x \<in> set xs \<Longrightarrow> f x = Ok (g x)) \<Longrightarrow> try_map f xs = Ok (map g xs)"
  by (induction xs) simp_all

text \<open>A loop whose body may return early with an error.\<close>

primrec try_fold :: "('s \<Rightarrow> 'a \<Rightarrow> 'e + 's) \<Rightarrow> 's \<Rightarrow> 'a list \<Rightarrow> 'e + 's" where
  "try_fold f s [] = Ok s"
| "try_fold f s (x # xs) = and_then (f s x) (\<lambda>s. try_fold f s xs)"

lemma try_fold_append: "try_fold f s (xs @ ys) = and_then (try_fold f s xs) (\<lambda>s. try_fold f s ys)"
proof (induction xs arbitrary: s)
  case (Cons x xs)
  then show ?case by (cases "f s x") simp_all
qed simp

lemma try_fold_map: "try_fold f s (map g xs) = try_fold (\<lambda>s x. f s (g x)) s xs"
  by (induction xs arbitrary: s) (auto intro!: and_then_cong)

lemma try_fold_Ok: "(\<And>s x. x \<in> set xs \<Longrightarrow> f s x = Ok (g s x)) \<Longrightarrow> try_fold f s xs = Ok (foldl g s xs)"
  by (induction xs arbitrary: s) simp_all

section \<open>Comparison\<close>

datatype Ordering = Less | Equal | Greater

definition compare :: "'a::linorder \<Rightarrow> 'a \<Rightarrow> Ordering" where
  "compare a b = (if a < b then Less else if a = b then Equal else Greater)"

lemma compare_cases:
  "compare a b = Less \<longleftrightarrow> a < b" "compare a b = Equal \<longleftrightarrow> a = b" "compare a b = Greater \<longleftrightarrow> b < a"
  by (auto simp: compare_def)

lemma compare_refl [simp]: "compare a a = Equal"
  by (simp add: compare_def)

text \<open>The lexicographic comparison of two iterators.\<close>

fun iter_cmp :: "'a::linorder list \<Rightarrow> 'a list \<Rightarrow> Ordering" where
  "iter_cmp [] [] = Equal"
| "iter_cmp [] (y # ys) = Less"
| "iter_cmp (x # xs) [] = Greater"
| "iter_cmp (x # xs) (y # ys) = (if compare x y = Equal then iter_cmp xs ys else compare x y)"

section \<open>Panics\<close>

text \<open>
  Code that can panic returns a \<open>fault\<close>: an error value of the function's own type, or \<open>Panic\<close>.
  A shift by at least the width of the type panics when the crate is built with overflow checks
  and uses the shift distance modulo the width otherwise.
\<close>

datatype 'e fault = Fault 'e | Panic

definition shl_one :: "bool \<Rightarrow> nat \<Rightarrow> 'e fault + u64" where
  "shl_one overflow_checks n =
     (if n < 64 then Ok (push_bit n 1)
      else if overflow_checks then Err Panic
      else Ok (push_bit (n mod 64) 1))"

text \<open>Signed addition and subtraction on \<open>i8\<close>: an overflow panics with overflow checks and wraps otherwise.\<close>

definition arith_i8 :: "bool \<Rightarrow> int \<Rightarrow> 'e fault + i8" where
  "arith_i8 overflow_checks n =
     (if (- 128 \<le> n \<and> n \<le> 127) \<or> \<not> overflow_checks then Ok (word_of_int n) else Err Panic)"

lemma sint_word_of_int_i8: "- 128 \<le> n \<Longrightarrow> n \<le> 127 \<Longrightarrow> sint (word_of_int n :: i8) = n"
  by (simp add: sint_sbintrunc' signed_take_bit_int_eq_self)

definition USIZE_MAX :: nat where "USIZE_MAX = 18446744073709551615"

definition usize_saturating_mul :: "nat \<Rightarrow> nat \<Rightarrow> nat" where
  "usize_saturating_mul a b = min (a * b) USIZE_MAX"

definition usize_checked_add :: "nat \<Rightarrow> nat \<Rightarrow> nat option" where
  "usize_checked_add a b = (if a + b \<le> USIZE_MAX then Some (a + b) else None)"

definition usize_saturating_add :: "nat \<Rightarrow> nat \<Rightarrow> nat" where
  "usize_saturating_add a b = min (a + b) USIZE_MAX"

definition usize_checked_mul :: "nat \<Rightarrow> nat \<Rightarrow> nat option" where
  "usize_checked_mul a b = (if a * b \<le> USIZE_MAX then Some (a * b) else None)"

definition i64_checked :: "int \<Rightarrow> int option" where
  "i64_checked n = (if - (2 ^ 63) \<le> n \<and> n < 2 ^ 63 then Some n else None)"

section \<open>Checked arithmetic on words\<close>

definition checked_add :: "'a::len word \<Rightarrow> 'a word \<Rightarrow> 'a word option" where
  "checked_add a b = (if unat a + unat b < 2 ^ LENGTH('a) then Some (a + b) else None)"

definition checked_sub :: "'a::len word \<Rightarrow> 'a word \<Rightarrow> 'a word option" where
  "checked_sub a b = (if b \<le> a then Some (a - b) else None)"

definition checked_mul :: "'a::len word \<Rightarrow> 'a word \<Rightarrow> 'a word option" where
  "checked_mul a b = (if unat a * unat b < 2 ^ LENGTH('a) then Some (a * b) else None)"

definition saturating_add :: "'a::len word \<Rightarrow> 'a word \<Rightarrow> 'a word" where
  "saturating_add a b = (if unat a + unat b < 2 ^ LENGTH('a) then a + b else - 1)"

lemma checked_add_eq_Some_iff:
  fixes a b c :: "'a::len word"
  shows "checked_add a b = Some c \<longleftrightarrow> unat c = unat a + unat b"
proof
  assume "checked_add a b = Some c"
  then show "unat c = unat a + unat b"
    by (auto simp: checked_add_def unat_word_ariths split: if_splits)
next
  assume c: "unat c = unat a + unat b"
  then have "unat a + unat b < 2 ^ LENGTH('a)" by (metis unsigned_less)
  moreover from this c have "a + b = c"
    by (metis unat_add_lem word_eq_iff_unsigned)
  ultimately show "checked_add a b = Some c" by (simp add: checked_add_def)
qed

lemma checked_add_eq_None_iff:
  "checked_add (a :: 'a::len word) b = None \<longleftrightarrow> 2 ^ LENGTH('a) \<le> unat a + unat b"
  by (auto simp: checked_add_def)

lemma checked_sub_eq_Some_iff:
  "checked_sub a b = Some c \<longleftrightarrow> unat b \<le> unat a \<and> unat c = unat a - unat b"
  by (metis checked_sub_def option.distinct(1) option.inject unat_sub word_le_nat_alt
      word_eq_iff_unsigned)

lemma checked_mul_eq_Some_iff:
  fixes a b c :: "'a::len word"
  shows "checked_mul a b = Some c \<longleftrightarrow> unat c = unat a * unat b"
proof
  assume "checked_mul a b = Some c"
  then show "unat c = unat a * unat b"
    by (auto simp: checked_mul_def unat_word_ariths split: if_splits)
next
  assume c: "unat c = unat a * unat b"
  then have "unat a * unat b < 2 ^ LENGTH('a)" by (metis unsigned_less)
  moreover from this c have "a * b = c"
    by (metis unat_mult_lem word_eq_iff_unsigned)
  ultimately show "checked_mul a b = Some c" by (simp add: checked_mul_def)
qed

lemma word_eq_unatI: "unat a = unat b \<Longrightarrow> a = b"
  by (rule unsigned_word_eqI)

lemma unat_lt2p: "unat (w :: 'a::len word) < 2 ^ LENGTH('a)"
  by (rule unsigned_less)

lemma unat_bounds [simp]:
  "unat (a :: u8) \<le> 255" "unat (b :: u16) \<le> 65535" "unat (c :: u32) \<le> 4294967295"
  "unat (d :: u64) \<le> 18446744073709551615"
  using unat_lt2p [of a] unat_lt2p [of b] unat_lt2p [of c] unat_lt2p [of d] by simp_all

lemma unat_ucast_up:
  assumes "LENGTH('a) \<le> LENGTH('b)"
  shows "unat (ucast (w :: 'a::len word) :: 'b::len word) = unat w"
proof -
  have "unat w < 2 ^ LENGTH('a)" by (rule unat_lt2p)
  also have "\<dots> \<le> 2 ^ LENGTH('b)" using assms by simp
  finally show ?thesis by (simp add: unsigned_ucast_eq take_bit_nat_eq_self)
qed

section \<open>Masks as sets of bit indices\<close>

definition bits_of :: "'a::len word \<Rightarrow> nat set" where
  "bits_of w = {n. bit w n}"

definition count_ones :: "'a::len word \<Rightarrow> nat" where
  "count_ones w = length (filter (bit w) [0..<LENGTH('a)])"

lemma mem_bits_of [simp]: "n \<in> bits_of w \<longleftrightarrow> bit w n"
  by (simp add: bits_of_def)

lemma bits_of_less: "bits_of (w :: 'a::len word) \<subseteq> {..<LENGTH('a)}"
  by (auto dest: bit_imp_le_length)

lemma finite_bits_of [simp]: "finite (bits_of w)"
  using bits_of_less finite_subset by blast

lemma bits_of_eq_iff: "bits_of a = bits_of b \<longleftrightarrow> a = b"
  by (auto simp: bits_of_def set_eq_iff intro: bit_eqI)

lemma count_ones_card: "count_ones w = card (bits_of w)"
proof -
  have "bits_of w = set (filter (bit w) [0..<LENGTH('a)])"
    using bits_of_less [of w] by auto
  then show ?thesis
    by (simp add: count_ones_def distinct_card del: set_filter)
qed

lemma bits_of_zero [mask_simps]: "bits_of 0 = {}"
  by (simp add: bits_of_def)

lemma bits_of_or [mask_simps]: "bits_of (a OR b) = bits_of a \<union> bits_of b"
  by (auto simp: bit_or_iff)

lemma bits_of_and [mask_simps]: "bits_of (a AND b) = bits_of a \<inter> bits_of b"
  by (auto simp: bit_and_iff)

lemma bits_of_and_not: "bits_of (a AND NOT b) = bits_of a - bits_of b"
  by (auto simp: bit_and_iff bit_not_iff dest: bit_imp_le_length)

lemma Int_bits_of_not [mask_simps]:
  "bits_of (a :: 'a::len word) \<inter> bits_of (NOT b :: 'a word) = bits_of a - bits_of b"
  by (simp only: bits_of_and [symmetric] bits_of_and_not)

lemma bits_of_empty_iff: "bits_of w = {} \<longleftrightarrow> w = 0"
  using bits_of_eq_iff [of w 0] by (simp add: bits_of_zero)

lemma eq_zero_iff_bits [mask_simps]: "w = 0 \<longleftrightarrow> bits_of w = {}"
  by (simp add: bits_of_empty_iff)

lemma bits_of_single [mask_simps]:
  "bits_of (push_bit n (1 :: 'a::len word)) = (if n < LENGTH('a) then {n} else {})"
  "bits_of (2 ^ n :: 'a::len word) = (if n < LENGTH('a) then {n} else {})"
  by (auto simp: bit_exp_iff)

lemma bits_of_mask [mask_simps]:
  "bits_of (mask n :: 'a::len word) = {..<min n LENGTH('a)}"
  by (auto simp: bit_mask_iff)

lemma low_mask_eq: "push_bit n (1 :: 'a::len word) - 1 = mask n"
  by (simp add: mask_eq_exp_minus_1 push_bit_eq_mult)

lemma bits_of_minus_one [mask_simps]: "bits_of (- 1 :: 'a::len word) = {..<LENGTH('a)}"
  by auto

lemma bit_iff_and_single:
  "w AND push_bit n 1 \<noteq> 0 \<longleftrightarrow> bit (w :: 'a::len word) n"
proof -
  have "bits_of (w AND push_bit n 1) = {} \<longleftrightarrow> \<not> bit w n"
    unfolding bits_of_and bits_of_single by (auto dest: bit_imp_le_length)
  then show ?thesis by (simp add: bits_of_empty_iff)
qed

lemma bits_of_less_exp:
  assumes "unat w < 2 ^ n" shows "bits_of w \<subseteq> {..<n}"
proof
  fix k assume "k \<in> bits_of w"
  then have "bit (unat w) k" by (simp add: bit_unsigned_iff bit_imp_le_length)
  moreover have "take_bit n (unat w) = unat w" using assms by (simp add: take_bit_nat_eq_self)
  ultimately have "bit (take_bit n (unat w)) k" by simp
  then show "k \<in> {..<n}" by (simp add: bit_take_bit_iff)
qed

lemma count_ones_zero [simp]: "count_ones 0 = 0"
  by (simp add: count_ones_card mask_simps)

lemma count_ones_le: "count_ones (w :: 'a::len word) \<le> LENGTH('a)"
  using card_mono [OF _ bits_of_less, of w] by (simp add: count_ones_card)

lemma count_ones_or_disjoint:
  "a AND b = 0 \<Longrightarrow> count_ones (a OR b) = count_ones a + count_ones b"
  by (simp add: count_ones_card mask_simps card_Un_disjoint)

section \<open>Lists\<close>

text \<open>\<open>Vec::resize\<close>, and \<open>get(i)\<close> with a default, \<open>position\<close> and \<open>get\<close>.\<close>

definition resize :: "'a list \<Rightarrow> nat \<Rightarrow> 'a \<Rightarrow> 'a list" where
  "resize xs n v = take n xs @ replicate (n - length xs) v"

definition get_or :: "'a \<Rightarrow> 'a list \<Rightarrow> nat \<Rightarrow> 'a" where
  "get_or d xs i = (if i < length xs then xs ! i else d)"

primrec position_of :: "'a \<Rightarrow> 'a list \<Rightarrow> nat option" where
  "position_of x [] = None"
| "position_of x (y # ys) = (if y = x then Some 0 else map_option Suc (position_of x ys))"

definition nth_opt :: "'a list \<Rightarrow> nat \<Rightarrow> 'a option" where
  "nth_opt xs i = (if i < length xs then Some (xs ! i) else None)"

lemma position_of_Some:
  assumes "x \<in> set xs" obtains i where "position_of x xs = Some i" "i < length xs" "xs ! i = x"
proof -
  have "\<exists>i. position_of x xs = Some i \<and> i < length xs \<and> xs ! i = x"
    using assms by (induction xs) auto
  then show ?thesis using that by blast
qed

lemma length_resize [simp]: "length (resize xs n v) = n"
  by (simp add: resize_def)

lemma sorted_wrt_move_to_front:
  assumes sym: "\<And>x y. R x y \<longleftrightarrow> R y x"
  shows "sorted_wrt R (xs @ a # ys) \<longleftrightarrow> sorted_wrt R (a # xs @ ys)"
proof -
  have "(\<forall>x\<in>set xs. R x a) \<longleftrightarrow> (\<forall>x\<in>set xs. R a x)" using sym by blast
  then show ?thesis by (simp add: sorted_wrt_append ball_Un ball_conj_distrib) blast
qed

section \<open>Ranges\<close>

text \<open>The iteration order of a Rust range \<open>0..w\<close>.\<close>

definition word_range :: "'a::len word \<Rightarrow> 'a word list" where
  "word_range w = map word_of_nat [0..<unat w]"

lemma unat_word_of_nat: "k < 2 ^ LENGTH('a) \<Longrightarrow> unat (word_of_nat k :: 'a::len word) = k"
  by (simp add: unat_of_nat)

lemma set_word_range [simp]: "set (word_range w) = {x. x < w}"
proof -
  have "x \<in> word_of_nat ` {0..<unat w} \<longleftrightarrow> x < w" for x
  proof
    assume "x < w"
    then have "unat x \<in> {0..<unat w}" by (simp add: word_less_nat_alt)
    moreover have "x = word_of_nat (unat x)" by simp
    ultimately show "x \<in> word_of_nat ` {0..<unat w}" by blast
  next
    assume "x \<in> word_of_nat ` {0..<unat w}"
    then obtain k where "k < unat w" "x = word_of_nat k" by auto
    then show "x < w" using le_unat_uoi [of k w] by (simp add: word_less_nat_alt)
  qed
  then show ?thesis by (auto simp: word_range_def)
qed

lemma unat_image_less: "unat ` {x :: 'a::len word. x < w} = {0..<unat w}"
proof -
  have "k \<in> unat ` {x. x < w}" if "k < unat w" for k
    using that le_unat_uoi [of k w]
    by (intro image_eqI [of _ _ "word_of_nat k"]) (simp_all add: word_less_nat_alt)
  then show ?thesis by (auto simp: word_less_nat_alt)
qed

end
