(* ===== verification/Pieces.thy ===== *)
theory Pieces
  imports Prelude
begin

text \<open>
  Pieces, rotations and perfect-clear targets of \<open>clearra-core-domain\<close>: \<open>PieceKind\<close> with its derived
  order and ASCII codec, \<open>RotationState\<close> as the cyclic group of order four and the validated
  \<open>PcTarget\<close>.  Accessors of the Rust structs are the record selectors.
  A Rust \<open>char\<close> is an Isabelle \<open>char\<close>; the code only distinguishes ASCII characters.
\<close>

section \<open>Piece kinds\<close>

datatype PieceKind = PieceI | PieceO | PieceT | PieceS | PieceZ | PieceJ | PieceL

datatype UnknownPieceKind = UnknownPieceKind

definition STANDARD_TETROMINOES :: "PieceKind list" where
  "STANDARD_TETROMINOES = [PieceI, PieceO, PieceT, PieceS, PieceZ, PieceJ, PieceL]"

definition to_ascii_uppercase :: "char \<Rightarrow> char" where
  "to_ascii_uppercase c =
     (if 97 \<le> (of_char c :: nat) \<and> (of_char c :: nat) \<le> 122
      then char_of ((of_char c :: nat) - 32) else c)"

definition from_ascii :: "char \<Rightarrow> UnknownPieceKind + PieceKind" where
  "from_ascii value =
     (let c = to_ascii_uppercase value in
      if c = CHR ''I'' then Ok PieceI
      else if c = CHR ''O'' then Ok PieceO
      else if c = CHR ''T'' then Ok PieceT
      else if c = CHR ''S'' then Ok PieceS
      else if c = CHR ''Z'' then Ok PieceZ
      else if c = CHR ''J'' then Ok PieceJ
      else if c = CHR ''L'' then Ok PieceL
      else Err UnknownPieceKind)"

primrec as_ascii :: "PieceKind \<Rightarrow> char" where
  "as_ascii PieceI = CHR ''I''"
| "as_ascii PieceO = CHR ''O''"
| "as_ascii PieceT = CHR ''T''"
| "as_ascii PieceS = CHR ''S''"
| "as_ascii PieceZ = CHR ''Z''"
| "as_ascii PieceJ = CHR ''J''"
| "as_ascii PieceL = CHR ''L''"

text \<open>The discriminant of the enum, on which \<open>derive(Ord)\<close> is based.\<close>

primrec piece_discriminant :: "PieceKind \<Rightarrow> nat" where
  "piece_discriminant PieceI = 0"
| "piece_discriminant PieceO = 1"
| "piece_discriminant PieceT = 2"
| "piece_discriminant PieceS = 3"
| "piece_discriminant PieceZ = 4"
| "piece_discriminant PieceJ = 5"
| "piece_discriminant PieceL = 6"

lemma piece_discriminant_inject [simp]:
  "piece_discriminant a = piece_discriminant b \<longleftrightarrow> a = b"
  by (cases a; cases b) simp_all

lemma piece_discriminant_less: "piece_discriminant k < 7"
  by (cases k) simp_all

instantiation PieceKind :: linorder
begin

definition less_eq_PieceKind :: "PieceKind \<Rightarrow> PieceKind \<Rightarrow> bool" where
  "a \<le> b \<longleftrightarrow> piece_discriminant a \<le> piece_discriminant b"

definition less_PieceKind :: "PieceKind \<Rightarrow> PieceKind \<Rightarrow> bool" where
  "a < b \<longleftrightarrow> piece_discriminant a < piece_discriminant b"

instance
  by standard (auto simp: less_eq_PieceKind_def less_PieceKind_def)

end

lemma UNIV_PieceKind: "UNIV = {PieceI, PieceO, PieceT, PieceS, PieceZ, PieceJ, PieceL}"
  by (auto intro: PieceKind.exhaust)

instantiation PieceKind :: finite
begin

instance
  by standard (simp add: UNIV_PieceKind)

end

lemma as_ascii_inject [simp]: "as_ascii a = as_ascii b \<longleftrightarrow> a = b"
  by (cases a; cases b) simp_all

lemma from_ascii_as_ascii [simp]: "from_ascii (as_ascii k) = Ok k"
  by (cases k) (simp_all add: from_ascii_def to_ascii_uppercase_def)

lemma from_ascii_eq_Ok_iff: "from_ascii c = Ok k \<longleftrightarrow> to_ascii_uppercase c = as_ascii k"
  unfolding from_ascii_def Let_def
  by (cases k; cases "to_ascii_uppercase c"; simp)

section \<open>Rotations\<close>

datatype RotationState = Zero | Right | Two | Left

datatype InvalidRotationQuarterTurns = InvalidRotationQuarterTurns

definition RotationState_ALL :: "RotationState list" where
  "RotationState_ALL = [Zero, Right, Two, Left]"

definition from_quarter_turns :: "u8 \<Rightarrow> InvalidRotationQuarterTurns + RotationState" where
  "from_quarter_turns turns =
     (if turns = 0 then Ok Zero
      else if turns = 1 then Ok Right
      else if turns = 2 then Ok Two
      else if turns = 3 then Ok Left
      else Err InvalidRotationQuarterTurns)"

primrec quarter_turns :: "RotationState \<Rightarrow> u8" where
  "quarter_turns Zero = 0"
| "quarter_turns Right = 1"
| "quarter_turns Two = 2"
| "quarter_turns Left = 3"

primrec clockwise :: "RotationState \<Rightarrow> RotationState" where
  "clockwise Zero = Right"
| "clockwise Right = Two"
| "clockwise Two = Left"
| "clockwise Left = Zero"

primrec counter_clockwise :: "RotationState \<Rightarrow> RotationState" where
  "counter_clockwise Zero = Left"
| "counter_clockwise Right = Zero"
| "counter_clockwise Two = Right"
| "counter_clockwise Left = Two"

lemma from_quarter_turns_roundtrip [simp]: "from_quarter_turns (quarter_turns r) = Ok r"
  by (cases r) (simp_all add: from_quarter_turns_def)

lemma from_quarter_turns_eq_Ok_iff: "from_quarter_turns q = Ok r \<longleftrightarrow> q = quarter_turns r"
  by (cases r) (auto simp: from_quarter_turns_def)

lemma quarter_turns_clockwise: "quarter_turns (clockwise r) = (quarter_turns r + 1) mod 4"
  by (cases r) simp_all

lemma counter_clockwise_clockwise [simp]: "counter_clockwise (clockwise r) = r"
  by (cases r) simp_all

lemma clockwise_counter_clockwise [simp]: "clockwise (counter_clockwise r) = r"
  by (cases r) simp_all

lemma clockwise_order_four: "(clockwise ^^ n) r = r \<longleftrightarrow> 4 dvd n"
proof -
  have four: "(clockwise ^^ 4) s = s" for s
    by (cases s) (simp_all add: numeral_eq_Suc)
  have mult: "(clockwise ^^ (4 * q)) s = s" for q s
    by (induction q) (simp_all add: funpow_add four)
  have "(clockwise ^^ (4 * (n div 4) + n mod 4)) r = (clockwise ^^ (n mod 4)) r"
    by (simp only: funpow_add comp_apply mult)
  then have n: "(clockwise ^^ n) r = (clockwise ^^ (n mod 4)) r" by simp
  have small: "(clockwise ^^ m) r = r \<longleftrightarrow> m = 0" if "m < 4" for m
    using that by (cases r) (auto simp: less_Suc_eq numeral_eq_Suc)
  show ?thesis
    unfolding n by (simp add: small dvd_eq_mod_eq_0)
qed

section \<open>Perfect-clear targets\<close>

definition STANDARD_PC_MAX_LINES :: u8 where "STANDARD_PC_MAX_LINES = 24"

record PcTarget =
  target_lines :: u8

datatype PcTargetError =
    ZeroTargetLines
  | OddLineCount u8
  | TooManyTargetLines u8 u8

definition pc_target_new :: "u8 \<Rightarrow> PcTargetError + PcTarget" where
  "pc_target_new lines =
     (if lines = 0 then Err ZeroTargetLines
      else if lines mod 2 \<noteq> 0 then Err (OddLineCount lines)
      else if lines > STANDARD_PC_MAX_LINES
        then Err (TooManyTargetLines lines STANDARD_PC_MAX_LINES)
      else Ok \<lparr>target_lines = lines\<rparr>)"

lemma even_word_iff: "(n :: u8) mod 2 = 0 \<longleftrightarrow> even (unat n)"
proof -
  have "n mod 2 = 0 \<longleftrightarrow> unat (n mod 2) = 0" by (simp add: unat_eq_zero)
  then show ?thesis by (simp add: unat_mod_distrib even_iff_mod_2_eq_zero)
qed

lemma pc_target_new_eq_Ok_iff:
  "pc_target_new n = Ok t \<longleftrightarrow>
     t = \<lparr>target_lines = n\<rparr> \<and> 0 < unat n \<and> even (unat n) \<and> unat n \<le> 24"
  by (auto simp: pc_target_new_def STANDARD_PC_MAX_LINES_def even_word_iff word_less_nat_alt
      unat_gt_0)

end
