(* ===== verification/CellMasks.thy ===== *)
theory CellMasks
  imports Prelude "HOL-Library.Multiset"
begin

text \<open>
  The interface every occupancy mask of the program offers to its clients: the cells a mask
  covers, and the operations \<open>union\<close>, \<open>without\<close>, \<open>intersects\<close>, \<open>is_empty\<close> and \<open>count_ones\<close> on them.
  The theories \<open>Boards\<close> and \<open>WideBoards\<close> interpret it on the 64-bit and the four-word masks.  The
  client part proves, once for both, what the placement loops of the tiling keys establish: the
  loop that rejects the first overlapping placement accepts exactly the pairwise disjoint lists,
  whatever the order, and the areas then add up.
\<close>

locale cell_mask =
  fixes cells :: "'m \<Rightarrow> nat set"
    and empty :: 'm
    and union :: "'m \<Rightarrow> 'm \<Rightarrow> 'm"
    and without :: "'m \<Rightarrow> 'm \<Rightarrow> 'm"
    and intersects :: "'m \<Rightarrow> 'm \<Rightarrow> bool"
    and is_empty :: "'m \<Rightarrow> bool"
    and count :: "'m \<Rightarrow> nat"
  assumes cells_inject: "cells a = cells b \<Longrightarrow> a = b"
    and finite_cells: "finite (cells a)"
    and cells_empty: "cells empty = {}"
    and cells_union: "cells (union a b) = cells a \<union> cells b"
    and cells_without: "cells (without a b) = cells a - cells b"
    and intersects_iff: "intersects a b \<longleftrightarrow> cells a \<inter> cells b \<noteq> {}"
    and is_empty_iff: "is_empty a \<longleftrightarrow> cells a = {}"
    and count_card: "count a = card (cells a)"
begin

text \<open>The shape of the placement loops: \<open>occupied\<close> grows by each mask that does not meet it.\<close>

primrec accepts :: "'m \<Rightarrow> 'm list \<Rightarrow> bool" where
  "accepts occupied [] \<longleftrightarrow> True"
| "accepts occupied (m # ms) \<longleftrightarrow> \<not> intersects occupied m \<and> accepts (union occupied m) ms"

lemma union_commute: "union a b = union b a"
  by (rule cells_inject) (simp add: cells_union Un_commute)

lemma union_assoc: "union (union a b) c = union a (union b c)"
  by (rule cells_inject) (simp add: cells_union Un_assoc)

lemma union_empty: "union a empty = a"
  by (rule cells_inject) (simp add: cells_union cells_empty)

lemma without_empty_iff: "is_empty (without a b) \<longleftrightarrow> cells a \<subseteq> cells b"
  by (auto simp: is_empty_iff cells_without)

lemma without_union_disjoint: "\<not> intersects a b \<Longrightarrow> without (union a b) b = a"
  by (rule cells_inject) (auto simp: cells_union cells_without intersects_iff)

lemma count_union_disjoint: "\<not> intersects a b \<Longrightarrow> count (union a b) = count a + count b"
  by (simp add: count_card cells_union intersects_iff finite_cells card_Un_disjoint)

lemma count_eq_0_iff: "count a = 0 \<longleftrightarrow> is_empty a"
  by (simp add: count_card is_empty_iff finite_cells)

lemma cells_foldl_union: "cells (foldl union m ms) = cells m \<union> (\<Union>x\<in>set ms. cells x)"
  by (induction ms arbitrary: m) (auto simp: cells_union)

lemma accepts_iff:
  "accepts occupied ms \<longleftrightarrow>
     (\<forall>m\<in>set ms. cells occupied \<inter> cells m = {}) \<and>
     sorted_wrt (\<lambda>a b. cells a \<inter> cells b = {}) ms"
  by (induction ms arbitrary: occupied) (auto simp: intersects_iff cells_union)

lemma accepts_swap: "accepts m (a # b # ms) \<longleftrightarrow> accepts m (b # a # ms)"
  by (auto simp: accepts_iff)

lemma accepts_insert: "accepts m (xs @ a # ys) \<longleftrightarrow> accepts m (a # xs @ ys)"
proof -
  let ?R = "\<lambda>a b. cells a \<inter> cells b = {}"
  have "sorted_wrt ?R (xs @ a # ys) \<longleftrightarrow> sorted_wrt ?R (a # xs @ ys)"
    by (rule sorted_wrt_move_to_front) blast
  moreover have "set (xs @ a # ys) = set (a # xs @ ys)" by simp
  ultimately show ?thesis unfolding accepts_iff by metis
qed

lemma accepts_perm:
  assumes "mset xs = mset ys"
  shows "accepts m xs \<longleftrightarrow> accepts m ys"
  using assms
proof (induction xs arbitrary: ys m)
  case Nil
  then show ?case by simp
next
  case (Cons x xs)
  then have "x \<in> set ys" by (metis list.set_intros(1) set_mset_mset)
  then obtain us vs where ys: "ys = us @ x # vs" by (meson split_list)
  with Cons.prems have "mset xs = mset (us @ vs)" by simp
  then have "accepts (union m x) xs \<longleftrightarrow> accepts (union m x) (us @ vs)" by (rule Cons.IH)
  then show ?case unfolding ys accepts_insert by simp
qed

lemma accepts_count:
  "accepts m ms \<Longrightarrow> count (foldl union m ms) = count m + sum_list (map count ms)"
  by (induction ms arbitrary: m) (simp_all add: count_union_disjoint)

lemma accepts_distinct:
  assumes "accepts m ms" and "\<forall>x\<in>set ms. \<not> is_empty x"
  shows "distinct ms"
  using assms by (induction ms arbitrary: m) (auto simp: accepts_iff is_empty_iff)

end

end
