(* ===== verification/Boards.thy ===== *)
theory Boards
  imports CellMasks
begin

text \<open>
  The Board64 layer of \<open>clearra-core-domain/src/board\<close>: \<open>BoardSize\<close>, \<open>CellCoord\<close> and
  \<open>BoardMask\<close>.  \<open>BoardMask\<close> is a newtype of \<open>u64\<close> and is the word itself here.  The mask operations
  are an instance of \<open>cell_mask\<close> with the set bits as cells, and \<open>cell_index\<close> is shown to address
  the cells of a board injectively.
\<close>

section \<open>Sizes and coordinates\<close>

record BoardSize =
  size_width :: u16
  size_height :: u16

definition board_area :: "BoardSize \<Rightarrow> u32" where
  "board_area sz = ucast (size_width sz) * ucast (size_height sz)"

record CellCoord =
  coord_x :: u16
  coord_y :: u16

definition on_board :: "CellCoord \<Rightarrow> BoardSize \<Rightarrow> bool" where
  "on_board c sz \<longleftrightarrow> coord_x c < size_width sz \<and> coord_y c < size_height sz"

section \<open>Board64 masks\<close>

type_synonym BoardMask = u64

datatype BoardMaskError = BoardTooLarge u32 | CellOutOfMaskRange u32

definition cell_index :: "CellCoord \<Rightarrow> BoardSize \<Rightarrow> BoardMaskError + u32" where
  "cell_index c sz =
     (let area = board_area sz in
      if area > 64 then Err (BoardTooLarge area)
      else
        let index = ucast (coord_y c) * ucast (size_width sz) + ucast (coord_x c) in
        if index \<ge> 64 then Err (CellOutOfMaskRange index) else Ok index)"

definition mask_EMPTY :: BoardMask where "mask_EMPTY = 0"

definition mask_from_cell :: "CellCoord \<Rightarrow> BoardSize \<Rightarrow> BoardMaskError + BoardMask" where
  "mask_from_cell c sz = and_then (cell_index c sz) (\<lambda>index. Ok (push_bit (unat index) 1))"

definition mask_contains :: "BoardMask \<Rightarrow> CellCoord \<Rightarrow> BoardSize \<Rightarrow> bool" where
  "mask_contains m c sz =
     (case cell_index c sz of
        Inl _ \<Rightarrow> False
      | Inr index \<Rightarrow> m AND push_bit (unat index) 1 \<noteq> 0)"

definition mask_intersects :: "BoardMask \<Rightarrow> BoardMask \<Rightarrow> bool" where
  "mask_intersects a b \<longleftrightarrow> a AND b \<noteq> 0"

definition mask_union :: "BoardMask \<Rightarrow> BoardMask \<Rightarrow> BoardMask" where
  "mask_union a b = a OR b"

definition mask_without :: "BoardMask \<Rightarrow> BoardMask \<Rightarrow> BoardMask" where
  "mask_without a b = a AND NOT b"

definition mask_is_empty :: "BoardMask \<Rightarrow> bool" where
  "mask_is_empty m \<longleftrightarrow> m = 0"

section \<open>Laws\<close>

lemmas board_mask_defs = mask_EMPTY_def mask_intersects_def mask_union_def mask_without_def
  mask_is_empty_def

interpretation board64: cell_mask bits_of mask_EMPTY mask_union mask_without mask_intersects
  mask_is_empty count_ones
  by unfold_locales (simp_all add: board_mask_defs mask_simps bits_of_eq_iff count_ones_card)

lemma unat_board_area:
  "unat (board_area sz) = unat (size_width sz) * unat (size_height sz)"
proof -
  have "unat (size_width sz) * unat (size_height sz) \<le> 65535 * 65535"
    by (intro mult_le_mono) auto
  then show ?thesis
    by (simp add: board_area_def unat_word_ariths unat_ucast_up)
qed

lemma unat_cell_index_expr:
  "unat (ucast (y :: u16) * ucast (w :: u16) + ucast (x :: u16) :: u32)
     = unat y * unat w + unat x"
proof -
  have b: "unat x \<le> 65535" by simp
  have "unat y * unat w \<le> 65535 * 65535"
    by (intro mult_le_mono) auto
  with b show ?thesis
    by (simp add: unat_word_ariths unat_ucast_up del: unat_bounds)
qed

lemma cell_index_eq_Ok_iff:
  "cell_index c sz = Ok i \<longleftrightarrow>
     unat (size_width sz) * unat (size_height sz) \<le> 64 \<and>
     unat i = unat (coord_y c) * unat (size_width sz) + unat (coord_x c) \<and> unat i < 64"
  by (auto simp: cell_index_def Let_def word_less_nat_alt word_le_nat_alt unat_board_area
      unat_cell_index_expr intro: word_eq_unatI)

lemma index_less_area:
  "(x :: nat) < w \<Longrightarrow> y < h \<Longrightarrow> y * w + x < w * h"
proof -
  assume "x < w" "y < h"
  then have "y * w + x < Suc y * w" by simp
  also have "\<dots> \<le> h * w" using \<open>y < h\<close> by (intro mult_le_mono) auto
  finally show ?thesis by (simp add: mult.commute)
qed

lemma index_inject:
  assumes "(x :: nat) < w" "x' < w"
  shows "y * w + x = y' * w + x' \<longleftrightarrow> y = y' \<and> x = x'"
proof
  assume eq: "y * w + x = y' * w + x'"
  then have "(y * w + x) div w = (y' * w + x') div w" "(y * w + x) mod w = (y' * w + x') mod w"
    by simp_all
  then show "y = y' \<and> x = x'" using assms by simp
qed simp

lemma cell_index_on_board:
  assumes "on_board c sz" and "unat (size_width sz) * unat (size_height sz) \<le> 64"
  shows "\<exists>i. cell_index c sz = Ok i"
proof -
  have "unat (coord_x c) < unat (size_width sz)" "unat (coord_y c) < unat (size_height sz)"
    using assms(1) by (simp_all add: on_board_def word_less_nat_alt)
  then have "unat (coord_y c) * unat (size_width sz) + unat (coord_x c) < 64"
    using index_less_area assms(2) by (meson order_less_le_trans)
  then have "cell_index c sz =
      Ok (ucast (coord_y c) * ucast (size_width sz) + ucast (coord_x c))"
    using assms(2) by (simp add: cell_index_eq_Ok_iff unat_cell_index_expr)
  then show ?thesis by blast
qed

lemma cell_index_inject:
  assumes "on_board c sz" "on_board d sz" "cell_index c sz = Ok i" "cell_index d sz = Ok i"
  shows "c = d"
proof -
  have "unat (coord_y c) = unat (coord_y d) \<and> unat (coord_x c) = unat (coord_x d)"
    using assms index_inject [of "unat (coord_x c)" "unat (size_width sz)" "unat (coord_x d)"]
    by (simp add: cell_index_eq_Ok_iff on_board_def word_less_nat_alt)
  then show ?thesis by (auto intro!: CellCoord.equality word_eq_unatI)
qed

lemma mask_from_cell_bits:
  "mask_from_cell c sz = Ok m \<longleftrightarrow> (\<exists>i. cell_index c sz = Ok i \<and> m = push_bit (unat i) 1)"
  by (auto simp: mask_from_cell_def and_then_eq_Ok_iff)

lemma mask_contains_iff:
  "mask_contains m c sz \<longleftrightarrow> (\<exists>i. cell_index c sz = Ok i \<and> unat i \<in> bits_of m)"
  by (auto simp: mask_contains_def bit_iff_and_single simp del: push_bit_of_1 split: sum.splits)

text \<open>
  On a board of at most 64 cells every cell has its own mask.  \<open>from_cell\<close> of an on-board cell
  succeeds, the mask has exactly one bit, it contains that cell, and it contains no other cell of
  the board.
\<close>

theorem mask_from_cell_exact:
  assumes "on_board c sz" and "unat (board_area sz) \<le> 64"
  shows "\<exists>m. mask_from_cell c sz = Ok m \<and> count_ones m = 1 \<and>
           (\<forall>d. on_board d sz \<longrightarrow> (mask_contains m d sz \<longleftrightarrow> d = c))"
proof -
  obtain i where i: "cell_index c sz = Ok i"
    using cell_index_on_board assms by (metis unat_board_area)
  then have lt: "unat i < 64" by (simp add: cell_index_eq_Ok_iff)
  define m :: u64 where "m = push_bit (unat i) 1"
  have bits: "bits_of m = {unat i}" using lt by (simp add: m_def bits_of_single)
  have "mask_contains m d sz \<longleftrightarrow> d = c" if "on_board d sz" for d
    using i bits that assms(1) cell_index_inject [of d sz c i]
    by (auto simp: mask_contains_iff dest: word_eq_unatI)
  then show ?thesis using i bits
    by (auto simp: mask_from_cell_bits m_def count_ones_card)
qed

theorem mask_from_cell_exact_witness:
  "\<exists>m. mask_from_cell \<lparr>coord_x = 9, coord_y = 5\<rparr> \<lparr>size_width = 10, size_height = 6\<rparr> = Ok m \<and>
     count_ones m = 1 \<and>
     (\<forall>d. on_board d \<lparr>size_width = 10, size_height = 6\<rparr> \<longrightarrow>
        (mask_contains m d \<lparr>size_width = 10, size_height = 6\<rparr> \<longleftrightarrow> d = \<lparr>coord_x = 9, coord_y = 5\<rparr>))"
  by (rule mask_from_cell_exact) (simp_all add: on_board_def board_area_def)

end
