(* ===== verification/Occupancy.thy ===== *)
theory Occupancy
  imports Boards
begin

text \<open>
  Fields as documents carry them (\<open>clearra-core-domain/src/field\<close>): \<open>OccupancyField\<close>, the text
  parser that reads rows from the top down, and the static parity observation.  The parser shifts
  \<open>1_u64\<close> by a bit index before the size of the field is checked, so its model takes the build
  mode (\<open>overflow_checks\<close>) and can panic.
\<close>

section \<open>Occupancy fields\<close>

record OccupancyField =
  field_width :: u8
  field_height :: u8
  field_cells :: u64

datatype OccupancyFieldError =
    EmptyDimensions
  | Board64LimitExceeded u16
  | FieldMaskOutside u64 u64
  | CoordinateOutOfBounds u8 u8

definition field_mask :: "u16 \<Rightarrow> u64" where
  "field_mask cells = (if cells = 64 then - 1 else push_bit (unat cells) 1 - 1)"

definition occupancy_field_new :: "u8 \<Rightarrow> u8 \<Rightarrow> u64 \<Rightarrow> OccupancyFieldError + OccupancyField" where
  "occupancy_field_new width height m =
     (if width = 0 \<or> height = 0 then Err EmptyDimensions
      else
        let cells = ucast width * ucast height in
        if cells > 64 then Err (Board64LimitExceeded cells)
        else if m AND NOT (field_mask cells) \<noteq> 0 then Err (FieldMaskOutside m (field_mask cells))
        else Ok \<lparr>field_width = width, field_height = height, field_cells = m\<rparr>)"

definition bit_index :: "OccupancyField \<Rightarrow> u8 \<Rightarrow> u8 \<Rightarrow> OccupancyFieldError + u8" where
  "bit_index f x y =
     (if x \<ge> field_width f \<or> y \<ge> field_height f then Err (CoordinateOutOfBounds x y)
      else Ok (y * field_width f + x))"

definition is_occupied :: "OccupancyField \<Rightarrow> u8 \<Rightarrow> u8 \<Rightarrow> OccupancyFieldError + bool" where
  "is_occupied f x y =
     and_then (bit_index f x y) (\<lambda>b. Ok (field_cells f AND push_bit (unat b) 1 \<noteq> 0))"

section \<open>The text parser\<close>

datatype TextFieldParserError =
    EmptyRows
  | WidthTooLarge nat
  | HeightTooLarge nat
  | RowWidthMismatch nat nat
  | InvalidCell nat nat char
  | OccupancyError OccupancyFieldError

definition cell_occupied :: "char \<Rightarrow> bool option" where
  "cell_occupied value =
     (if value \<in> {CHR ''.'', CHR ''0'', CHR ''_'', CHR '' ''} then Some False
      else if value \<in> {CHR ''#'', CHR ''X'', CHR ''x'', CHR ''1''} then Some True
      else None)"

primrec parse_row ::
  "bool \<Rightarrow> nat \<Rightarrow> nat \<Rightarrow> nat \<Rightarrow> nat \<Rightarrow> string \<Rightarrow> u64 \<Rightarrow> TextFieldParserError fault + u64" where
  "parse_row overflow_checks width top_down_row internal_y column [] m = Ok m"
| "parse_row overflow_checks width top_down_row internal_y column (value # row) m =
     (case cell_occupied value of
        None \<Rightarrow> Err (Fault (InvalidCell top_down_row column value))
      | Some occupied \<Rightarrow>
          if occupied then
            and_then (shl_one overflow_checks (internal_y * width + column)) (\<lambda>b.
              parse_row overflow_checks width top_down_row internal_y (Suc column) row (m OR b))
          else parse_row overflow_checks width top_down_row internal_y (Suc column) row m)"

primrec parse_rows ::
  "bool \<Rightarrow> nat \<Rightarrow> nat \<Rightarrow> nat \<Rightarrow> string list \<Rightarrow> u64 \<Rightarrow> TextFieldParserError fault + u64" where
  "parse_rows overflow_checks width height top_down_row [] m = Ok m"
| "parse_rows overflow_checks width height top_down_row (row # rows) m =
     (if length row \<noteq> width then Err (Fault (RowWidthMismatch width (length row)))
      else
        and_then (parse_row overflow_checks width top_down_row (height - 1 - top_down_row) 0 row m)
          (\<lambda>m'. parse_rows overflow_checks width height (Suc top_down_row) rows m'))"

definition parse_top_down_rows ::
  "bool \<Rightarrow> string list \<Rightarrow> TextFieldParserError fault + OccupancyField" where
  "parse_top_down_rows overflow_checks rows =
     (case rows of
        [] \<Rightarrow> Err (Fault EmptyRows)
      | row # _ \<Rightarrow>
          let width = length row; height = length rows in
          if width > 255 then Err (Fault (WidthTooLarge width))
          else if height > 255 then Err (Fault (HeightTooLarge height))
          else
            and_then (parse_rows overflow_checks width height 0 rows 0) (\<lambda>m.
              map_err (\<lambda>e. Fault (OccupancyError e))
                (occupancy_field_new (word_of_nat width) (word_of_nat height) m)))"

section \<open>Static parity\<close>

record StaticParityObservation =
  par_width :: u16
  par_height :: u16
  occupied_cell_count :: nat
  checker_black_count :: nat
  checker_white_count :: nat
  checker_delta :: int
  four_color_counts :: "nat list"
  even_column_count :: nat
  odd_column_count :: nat
  column_parity_delta :: int

datatype StaticParityObservationError =
    ParityEmptyDimensions
  | CellCountOverflow
  | CellCountMismatch nat nat
  | SignedCountOverflow

record parity_counts =
  pc_occupied_cells :: nat
  pc_black :: nat
  pc_white :: nat
  pc_four :: "nat list"
  pc_even :: nat
  pc_odd :: nat

definition parity_step :: "nat \<Rightarrow> nat \<Rightarrow> parity_counts \<Rightarrow> parity_counts" where
  "parity_step width index c =
     (let x = index mod width; y = index div width;
          black = (x + y) mod 2 = 0; even_column = x mod 2 = 0;
          color = x mod 2 + 2 * (y mod 2)
      in c\<lparr>pc_occupied_cells := pc_occupied_cells c + 1,
           pc_black := (if black then pc_black c + 1 else pc_black c),
           pc_white := (if black then pc_white c else pc_white c + 1),
           pc_four := (pc_four c)[color := pc_four c ! color + 1],
           pc_even := (if even_column then pc_even c + 1 else pc_even c),
           pc_odd := (if even_column then pc_odd c else pc_odd c + 1)\<rparr>)"

primrec parity_loop :: "nat \<Rightarrow> nat \<Rightarrow> bool list \<Rightarrow> parity_counts \<Rightarrow> parity_counts" where
  "parity_loop width index [] c = c"
| "parity_loop width index (occupied # rest) c =
     parity_loop width (Suc index) rest (if occupied then parity_step width index c else c)"

definition signed_delta :: "nat \<Rightarrow> nat \<Rightarrow> StaticParityObservationError + int" where
  "signed_delta positive negative =
     (if positive > 9223372036854775807 \<or> negative > 9223372036854775807
      then Err SignedCountOverflow
      else Ok (int positive - int negative))"

definition from_row_major_occupancy ::
  "u16 \<Rightarrow> u16 \<Rightarrow> bool list \<Rightarrow> StaticParityObservationError + StaticParityObservation" where
  "from_row_major_occupancy width height occupancy =
     (if width = 0 \<or> height = 0 then Err ParityEmptyDimensions
      else if unat width * unat height > USIZE_MAX then Err CellCountOverflow
      else if length occupancy \<noteq> unat width * unat height
        then Err (CellCountMismatch (unat width * unat height) (length occupancy))
      else
        let c = parity_loop (unat width) 0 occupancy
                  \<lparr>pc_occupied_cells = 0, pc_black = 0, pc_white = 0, pc_four = [0, 0, 0, 0],
                   pc_even = 0, pc_odd = 0\<rparr>
        in and_then (signed_delta (pc_black c) (pc_white c)) (\<lambda>checker.
           and_then (signed_delta (pc_even c) (pc_odd c)) (\<lambda>column.
             Ok \<lparr>par_width = width, par_height = height,
                 occupied_cell_count = pc_occupied_cells c,
                 checker_black_count = pc_black c, checker_white_count = pc_white c,
                 checker_delta = checker, four_color_counts = pc_four c,
                 even_column_count = pc_even c, odd_column_count = pc_odd c,
                 column_parity_delta = column\<rparr>)))"

section \<open>Laws of occupancy fields\<close>

lemma unat_field_area: "unat (ucast (w :: u8) * ucast (h :: u8) :: u16) = unat w * unat h"
proof -
  have "unat w * unat h \<le> 255 * 255" by (intro mult_le_mono) auto
  then show ?thesis by (simp add: unat_word_ariths unat_ucast_up)
qed

lemma field_mask_eq: "unat n \<le> 64 \<Longrightarrow> field_mask n = mask (unat n)"
  by (auto simp: field_mask_def low_mask_eq mask_eq_exp_minus_1 simp del: push_bit_of_1)

lemma outside_field_iff:
  assumes "unat w * unat h \<le> 64"
  shows "m AND NOT (field_mask (ucast (w :: u8) * ucast (h :: u8))) \<noteq> 0 \<longleftrightarrow>
           \<not> bits_of m \<subseteq> {..<unat w * unat h}"
proof -
  have "field_mask (ucast w * ucast h) = mask (unat w * unat h)"
    using assms field_mask_eq [of "ucast w * ucast h"] by (simp add: unat_field_area)
  then show ?thesis using assms by (simp add: eq_zero_iff_bits bits_of_and_not bits_of_mask)
qed

lemma occupancy_field_new_eq_Ok_iff:
  "occupancy_field_new w h m = Ok f \<longleftrightarrow>
     0 < unat w * unat h \<and> unat w * unat h \<le> 64 \<and> bits_of m \<subseteq> {..<unat w * unat h} \<and>
     f = \<lparr>field_width = w, field_height = h, field_cells = m\<rparr>"
proof (cases "w = 0 \<or> h = 0 \<or> unat w * unat h > 64")
  case True
  then show ?thesis
    by (auto simp: occupancy_field_new_def Let_def word_less_nat_alt unat_field_area)
next
  case False
  then show ?thesis
    using outside_field_iff [of w h m]
    by (auto simp: occupancy_field_new_def Let_def word_less_nat_alt unat_field_area unat_gt_0)
qed

definition field_invar :: "OccupancyField \<Rightarrow> bool" where
  "field_invar f \<longleftrightarrow>
     0 < unat (field_width f) * unat (field_height f) \<and>
     unat (field_width f) * unat (field_height f) \<le> 64 \<and>
     bits_of (field_cells f) \<subseteq> {..<unat (field_width f) * unat (field_height f)}"

lemma occupancy_field_new_invar: "occupancy_field_new w h m = Ok f \<Longrightarrow> field_invar f"
  by (auto simp: occupancy_field_new_eq_Ok_iff field_invar_def)

lemma is_occupied_iff:
  assumes "field_invar f" "x < field_width f" "y < field_height f"
  shows "is_occupied f x y = Ok (unat y * unat (field_width f) + unat x \<in> bits_of (field_cells f))"
proof -
  let ?w = "unat (field_width f)"
  have "unat y * ?w + unat x < 64"
    using assms index_less_area [of "unat x" ?w "unat y" "unat (field_height f)"]
    by (simp add: field_invar_def word_less_nat_alt)
  then have "unat (y * field_width f + x) = unat y * ?w + unat x" by (simp add: unat_word_ariths)
  then show ?thesis
    using assms by (simp add: is_occupied_def bit_index_def bit_iff_and_single not_le
        del: push_bit_of_1)
qed

section \<open>The parser computes the field\<close>

definition row_bits :: "nat \<Rightarrow> string \<Rightarrow> nat set" where
  "row_bits start row = {start + i | i. i < length row \<and> cell_occupied (row ! i) = Some True}"

lemma row_bits_Nil [simp]: "row_bits start [] = {}"
  by (simp add: row_bits_def)

lemma mem_row_bits:
  "n \<in> row_bits start row \<longleftrightarrow>
     (\<exists>i<length row. n = start + i \<and> cell_occupied (row ! i) = Some True)"
  by (auto simp: row_bits_def)

lemma row_bits_Cons:
  "row_bits start (c # row) =
     (if cell_occupied c = Some True then {start} else {}) \<union> row_bits (Suc start) row"
  by (rule set_eqI) (simp add: mem_row_bits Ex_less_Suc2)

definition valid_row :: "nat \<Rightarrow> string \<Rightarrow> bool" where
  "valid_row width row \<longleftrightarrow> length row = width \<and> (\<forall>c\<in>set row. cell_occupied c \<noteq> None)"

lemma parse_row_in_range:
  assumes "\<forall>c\<in>set row. cell_occupied c \<noteq> None" "row_bits (y * w + col) row \<subseteq> {..<64}"
  shows "\<exists>m'. parse_row oc w t y col row m = Ok m' \<and> bits_of m' = bits_of m \<union> row_bits (y * w + col) row"
  using assms
proof (induction row arbitrary: col m)
  case (Cons c row)
  note step = Cons.IH [of "Suc col"]
  show ?case
  proof (cases "cell_occupied c = Some True")
    case True
    with Cons.prems have b: "y * w + col < 64" and "row_bits (y * w + Suc col) row \<subseteq> {..<64}"
      by (auto simp: row_bits_Cons)
    moreover have "bits_of (m OR push_bit (y * w + col) 1) = insert (y * w + col) (bits_of m)"
      unfolding bits_of_or bits_of_single using b by simp
    ultimately show ?thesis
      using True Cons.prems step [of "m OR push_bit (y * w + col) 1"]
      by (auto simp: row_bits_Cons shl_one_def)
  next
    case False
    with Cons.prems have "cell_occupied c = Some False" by auto
    with False Cons.prems step [of m] show ?thesis by (simp add: row_bits_Cons)
  qed
qed simp

lemma parse_row_wraps:
  assumes "\<forall>c\<in>set row. cell_occupied c \<noteq> None"
  shows "\<exists>m'. parse_row False w t y col row m = Ok m'"
  using assms by (induction row arbitrary: col m) (auto simp: shl_one_def)

lemma parse_row_panics:
  assumes "\<forall>c\<in>set row. cell_occupied c \<noteq> None" "\<not> row_bits (y * w + col) row \<subseteq> {..<64}"
  shows "parse_row True w t y col row m = Err Panic"
  using assms by (induction row arbitrary: col m) (auto simp: row_bits_Cons shl_one_def split: if_splits)

definition rows_bits :: "nat \<Rightarrow> nat \<Rightarrow> nat \<Rightarrow> string list \<Rightarrow> nat set" where
  "rows_bits w h t rows = {n. \<exists>i<length rows. n \<in> row_bits ((h - 1 - (t + i)) * w) (rows ! i)}"

lemma rows_bits_Nil [simp]: "rows_bits w h t [] = {}"
  by (simp add: rows_bits_def)

lemma rows_bits_Cons:
  "rows_bits w h t (row # rows) = row_bits ((h - 1 - t) * w) row \<union> rows_bits w h (Suc t) rows"
  by (rule set_eqI) (simp add: rows_bits_def Ex_less_Suc2)

lemma parse_rows_in_range:
  assumes "\<forall>row\<in>set rows. valid_row w row" "rows_bits w h t rows \<subseteq> {..<64}"
  shows "\<exists>m'. parse_rows oc w h t rows m = Ok m' \<and> bits_of m' = bits_of m \<union> rows_bits w h t rows"
  using assms
proof (induction rows arbitrary: t m)
  case (Cons row rows)
  then have "\<forall>c\<in>set row. cell_occupied c \<noteq> None" "row_bits ((h - 1 - t) * w + 0) row \<subseteq> {..<64}"
    by (auto simp: valid_row_def rows_bits_Cons)
  then obtain m1 where m1: "parse_row oc w t (h - 1 - t) 0 row m = Ok m1"
      "bits_of m1 = bits_of m \<union> row_bits ((h - 1 - t) * w) row"
    using parse_row_in_range [of row "h - 1 - t" w 0] by fastforce
  have "\<forall>row\<in>set rows. valid_row w row" "rows_bits w h (Suc t) rows \<subseteq> {..<64}"
    using Cons.prems by (simp_all add: rows_bits_Cons)
  from Cons.IH [OF this] obtain m2 where "parse_rows oc w h (Suc t) rows m1 = Ok m2"
      "bits_of m2 = bits_of m1 \<union> rows_bits w h (Suc t) rows"
    by blast
  then show ?case using Cons.prems m1 by (simp add: valid_row_def rows_bits_Cons Un_assoc)
qed simp

lemma parse_rows_wraps:
  assumes "\<forall>row\<in>set rows. valid_row w row"
  shows "\<exists>m'. parse_rows False w h t rows m = Ok m'"
  using assms
proof (induction rows arbitrary: t m)
  case (Cons row rows)
  then obtain m1 where "parse_row False w t (h - 1 - t) 0 row m = Ok m1"
    using parse_row_wraps by (metis valid_row_def list.set_intros(1))
  then show ?case using Cons by (simp add: valid_row_def)
qed simp

lemma parse_rows_panics:
  assumes "\<forall>row\<in>set rows. valid_row w row" "\<not> rows_bits w h t rows \<subseteq> {..<64}"
  shows "parse_rows True w h t rows m = Err Panic"
  using assms
proof (induction rows arbitrary: t m)
  case (Cons row rows)
  then have valid: "length row = w" "\<forall>c\<in>set row. cell_occupied c \<noteq> None"
    by (simp_all add: valid_row_def)
  show ?case
  proof (cases "row_bits ((h - 1 - t) * w) row \<subseteq> {..<64}")
    case True
    then obtain m1 where "parse_row True w t (h - 1 - t) 0 row m = Ok m1"
      using parse_row_in_range [OF valid(2), of "h - 1 - t" w 0] by fastforce
    moreover have "parse_rows True w h (Suc t) rows m1 = Err Panic" for m1
      using Cons True by (auto simp: rows_bits_Cons)
    ultimately show ?thesis using valid by simp
  next
    case False
    then show ?thesis using valid parse_row_panics [OF valid(2), of "h - 1 - t" w 0] by simp
  qed
qed simp

lemma rows_bits_less:
  assumes "\<forall>row\<in>set rows. length row = w" "t + length rows \<le> h"
  shows "rows_bits w h t rows \<subseteq> {..<w * h}"
proof
  fix n assume "n \<in> rows_bits w h t rows"
  then obtain i j where "i < length rows" "j < length (rows ! i)" and n: "n = (h - 1 - (t + i)) * w + j"
    by (auto simp: rows_bits_def mem_row_bits)
  then have "j < w" "h - 1 - (t + i) < h" using assms by auto
  then show "n \<in> {..<w * h}" using index_less_area n by simp
qed

lemma mem_rows_bits_at:
  assumes "\<forall>row\<in>set rows. length row = w" "x < w" "y < length rows"
  shows "y * w + x \<in> rows_bits w (length rows) 0 rows \<longleftrightarrow>
           cell_occupied (rows ! (length rows - 1 - y) ! x) = Some True"
proof -
  let ?h = "length rows"
  have len: "length (rows ! i) = w" if "i < ?h" for i using assms(1) that by simp
  have "y * w + x \<in> rows_bits w ?h 0 rows \<longleftrightarrow>
      (\<exists>i<?h. \<exists>j<w. y * w + x = (?h - 1 - i) * w + j \<and> cell_occupied (rows ! i ! j) = Some True)"
    using len by (auto simp: rows_bits_def mem_row_bits)
  also have "\<dots> \<longleftrightarrow> (\<exists>i<?h. y = ?h - 1 - i \<and> cell_occupied (rows ! i ! x) = Some True)"
    using index_inject [OF assms(2)] assms(2) by metis
  also have "\<dots> \<longleftrightarrow> cell_occupied (rows ! (?h - 1 - y) ! x) = Some True"
  proof
    assume "cell_occupied (rows ! (?h - 1 - y) ! x) = Some True"
    then show "\<exists>i<?h. y = ?h - 1 - i \<and> cell_occupied (rows ! i ! x) = Some True"
      using assms(3) by (intro exI [of _ "?h - 1 - y"]) auto
  next
    assume "\<exists>i<?h. y = ?h - 1 - i \<and> cell_occupied (rows ! i ! x) = Some True"
    then obtain i where i: "i < ?h" "y = ?h - 1 - i" "cell_occupied (rows ! i ! x) = Some True"
      by blast
    then have "?h - 1 - y = i" by simp
    with i show "cell_occupied (rows ! (?h - 1 - y) ! x) = Some True" by simp
  qed
  finally show ?thesis .
qed

lemma parse_top_down_rows_valid:
  assumes "rows \<noteq> []" "\<forall>row\<in>set rows. valid_row w row" "w \<le> 255" "length rows \<le> 255"
  shows "parse_top_down_rows oc rows =
           and_then (parse_rows oc w (length rows) 0 rows 0) (\<lambda>m.
             map_err (\<lambda>e. Fault (OccupancyError e))
               (occupancy_field_new (word_of_nat w) (word_of_nat (length rows)) m))"
  using assms by (cases rows) (auto simp: parse_top_down_rows_def valid_row_def)

text \<open>
  C35: a rectangular text of at most 64 valid cells parses, in both build modes, to the field of that
  width and height whose cell at column \<open>x\<close>, counted from the left, and height \<open>y\<close>, counted from
  the bottom, is occupied exactly when the character there is one of the four occupied ones.
\<close>

theorem parse_top_down_rows_correct:
  assumes "rows \<noteq> []" "\<forall>row\<in>set rows. valid_row w row" "0 < w" "w * length rows \<le> 64"
  shows "\<exists>f. parse_top_down_rows overflow_checks rows = Ok f \<and> field_invar f \<and>
           unat (field_width f) = w \<and> unat (field_height f) = length rows \<and>
           (\<forall>x<field_width f. \<forall>y<field_height f. is_occupied f x y =
              Ok (cell_occupied (rows ! (length rows - 1 - unat y) ! unat x) = Some True))"
proof -
  let ?h = "length rows"
  have h: "0 < ?h" using assms(1) by simp
  have "w \<le> w * ?h" "?h \<le> w * ?h" using assms(3) h by (simp_all add: Suc_le_eq)
  then have wh: "w \<le> 64" "?h \<le> 64" using assms(4) by linarith+
  then have unat: "unat (word_of_nat w :: u8) = w" "unat (word_of_nat ?h :: u8) = ?h"
    by (simp_all add: unat_word_of_nat)
  have len: "\<forall>row\<in>set rows. length row = w" using assms(2) by (simp add: valid_row_def)
  have sub: "rows_bits w ?h 0 rows \<subseteq> {..<w * ?h}" using rows_bits_less [OF len] by simp
  then have "rows_bits w ?h 0 rows \<subseteq> {..<64}" using assms(4) by (auto dest: order_less_le_trans)
  from parse_rows_in_range [OF assms(2) this, of overflow_checks 0] obtain m
    where m: "parse_rows overflow_checks w ?h 0 rows 0 = Ok m" "bits_of m = rows_bits w ?h 0 rows"
    by (auto simp: bits_of_zero)
  define f where "f = \<lparr>field_width = word_of_nat w, field_height = word_of_nat ?h, field_cells = m\<rparr>"
  have new: "occupancy_field_new (word_of_nat w) (word_of_nat ?h) m = Ok f"
    using assms(3,4) h sub by (simp add: occupancy_field_new_eq_Ok_iff unat m f_def)
  then have inv: "field_invar f" by (rule occupancy_field_new_invar)
  have "is_occupied f x y = Ok (cell_occupied (rows ! (?h - 1 - unat y) ! unat x) = Some True)"
    if "x < field_width f" "y < field_height f" for x y
    using is_occupied_iff [OF inv that] mem_rows_bits_at [OF len, of "unat x" "unat y"] that
    by (simp add: f_def unat m word_less_nat_alt)
  moreover have "parse_top_down_rows overflow_checks rows = Ok f"
    using parse_top_down_rows_valid [OF assms(1,2)] wh m new by simp
  ultimately show ?thesis using inv by (auto simp: f_def unat)
qed

theorem parse_top_down_rows_correct_witness:
  "\<exists>f. parse_top_down_rows True [''.#'', ''x.'', ''__''] = Ok f \<and> field_invar f \<and>
     unat (field_width f) = 2 \<and> unat (field_height f) = length [''.#'', ''x.'', ''__''] \<and>
     (\<forall>x<field_width f. \<forall>y<field_height f. is_occupied f x y =
        Ok (cell_occupied ([''.#'', ''x.'', ''__''] !
              (length [''.#'', ''x.'', ''__''] - 1 - unat y) ! unat x) = Some True))"
  by (rule parse_top_down_rows_correct) (auto simp: valid_row_def cell_occupied_def)

text \<open>
  On a rectangular text with an occupied cell whose bit index is 64 or more the two build modes
  differ.  With overflow checks the shift panics before the size of the field is looked at; without
  them the parser reports \<open>Board64LimitExceeded\<close>.
\<close>

theorem parse_top_down_rows_oversize:
  assumes "\<forall>row\<in>set rows. valid_row w row" "w \<le> 255" "length rows \<le> 255"
    and "y < length rows" "x < w" "64 \<le> y * w + x"
    and "cell_occupied (rows ! (length rows - 1 - y) ! x) = Some True"
  shows "parse_top_down_rows True rows = Err Panic \<and>
         parse_top_down_rows False rows =
           Err (Fault (OccupancyError (Board64LimitExceeded (word_of_nat (w * length rows)))))"
proof -
  let ?h = "length rows"
  have ne: "rows \<noteq> []" using assms(4) by auto
  have len: "\<forall>row\<in>set rows. length row = w" using assms(1) by (simp add: valid_row_def)
  have "y * w + x \<in> rows_bits w ?h 0 rows"
    using mem_rows_bits_at [OF len assms(5,4)] assms(7) by simp
  then have "\<not> rows_bits w ?h 0 rows \<subseteq> {..<64}" using assms(6) by fastforce
  then have "parse_rows True w ?h 0 rows 0 = Err Panic" by (rule parse_rows_panics [OF assms(1)])
  then have "parse_top_down_rows True rows = Err Panic"
    using parse_top_down_rows_valid [OF ne assms(1-3)] by simp
  moreover obtain m where m: "parse_rows False w ?h 0 rows 0 = Ok m" using parse_rows_wraps [OF assms(1)] by blast
  have unat: "unat (word_of_nat w :: u8) = w" "unat (word_of_nat ?h :: u8) = ?h"
    using assms(2,3) by (simp_all add: unat_word_of_nat)
  have "64 < w * ?h" using index_less_area [OF assms(5,4)] assms(6) by simp
  then have "occupancy_field_new (word_of_nat w) (word_of_nat ?h) m =
      Err (Board64LimitExceeded (ucast (word_of_nat w :: u8) * ucast (word_of_nat ?h :: u8)))"
    using assms(4,5) unat
    by (auto simp: occupancy_field_new_def Let_def word_less_nat_alt unat_field_area unat_eq_zero [symmetric])
  moreover have "ucast (word_of_nat w :: u8) * ucast (word_of_nat ?h :: u8) = (word_of_nat (w * ?h) :: u16)"
  proof (rule word_eq_unatI)
    have "w * ?h \<le> 255 * 255" using assms(2,3) by (intro mult_le_mono) auto
    then have "unat (word_of_nat (w * ?h) :: u16) = w * ?h" by (intro unat_word_of_nat) simp
    then show "unat (ucast (word_of_nat w :: u8) * ucast (word_of_nat ?h :: u8) :: u16) =
        unat (word_of_nat (w * ?h) :: u16)"
      by (simp only: unat_field_area unat)
  qed
  ultimately show ?thesis
    using parse_top_down_rows_valid [OF ne assms(1-3)] m by simp
qed

theorem parse_top_down_rows_oversize_witness:
  "parse_top_down_rows True
     [''#.........'', ''..........'', ''..........'', ''..........'', ''..........'', ''..........'',
      ''..........'', ''..........''] = Err Panic \<and>
   parse_top_down_rows False
     [''#.........'', ''..........'', ''..........'', ''..........'', ''..........'', ''..........'',
      ''..........'', ''..........''] = Err (Fault (OccupancyError (Board64LimitExceeded 80)))"
  using parse_top_down_rows_oversize [where rows = "[''#.........'', ''..........'', ''..........'',
      ''..........'', ''..........'', ''..........'', ''..........'', ''..........'']"
      and w = 10 and y = 7 and x = 0]
  by (force simp: valid_row_def cell_occupied_def)

section \<open>The parity observation counts cells\<close>

definition color_of :: "nat \<Rightarrow> nat \<Rightarrow> nat" where
  "color_of w n = n mod w mod 2 + 2 * (n div w mod 2)"

definition black_at :: "nat \<Rightarrow> nat \<Rightarrow> bool" where
  "black_at w n \<longleftrightarrow> (n mod w + n div w) mod 2 = 0"

definition even_column_at :: "nat \<Rightarrow> nat \<Rightarrow> bool" where
  "even_column_at w n \<longleftrightarrow> n mod w mod 2 = 0"

primrec occupied_indices :: "nat \<Rightarrow> bool list \<Rightarrow> nat list" where
  "occupied_indices n [] = []"
| "occupied_indices n (b # bs) = (if b then [n] else []) @ occupied_indices (Suc n) bs"

definition parity_counts_of :: "nat \<Rightarrow> nat list \<Rightarrow> parity_counts" where
  "parity_counts_of w ns =
     \<lparr>pc_occupied_cells = length ns,
      pc_black = length (filter (black_at w) ns),
      pc_white = length (filter (\<lambda>n. \<not> black_at w n) ns),
      pc_four = map (\<lambda>c. length (filter (\<lambda>n. color_of w n = c) ns)) [0, 1, 2, 3],
      pc_even = length (filter (even_column_at w) ns),
      pc_odd = length (filter (\<lambda>n. \<not> even_column_at w n) ns)\<rparr>"

lemma color_of_cases: "color_of w n = 0 \<or> color_of w n = 1 \<or> color_of w n = 2 \<or> color_of w n = 3"
  by (simp add: color_of_def) linarith

lemma parity_step_counts:
  "parity_step w n (parity_counts_of w ns) = parity_counts_of w (ns @ [n])"
proof -
  let ?c = "parity_counts_of w ns"
  have four: "(pc_four ?c)[color_of w n := pc_four ?c ! color_of w n + 1] =
      pc_four (parity_counts_of w (ns @ [n]))"
    using color_of_cases [of w n] by (elim disjE) (simp_all add: parity_counts_of_def)
  show ?thesis
    unfolding parity_step_def Let_def color_of_def [symmetric] black_at_def [symmetric]
      even_column_at_def [symmetric] four
    by (simp add: parity_counts_of_def)
qed

lemma parity_loop_counts:
  "parity_loop w n bs (parity_counts_of w ns) = parity_counts_of w (ns @ occupied_indices n bs)"
  by (induction bs arbitrary: n ns) (simp_all add: parity_step_counts)

lemma length_occupied_indices: "length (occupied_indices n bs) = length (filter id bs)"
  by (induction bs arbitrary: n) simp_all

lemma set_occupied_indices:
  "set (occupied_indices n bs) = {n + i | i. i < length bs \<and> bs ! i}"
proof (induction bs arbitrary: n)
  case (Cons b bs)
  have "k \<in> {n + i | i. i < length (b # bs) \<and> (b # bs) ! i} \<longleftrightarrow>
      (b \<and> k = n) \<or> k \<in> {Suc n + i | i. i < length bs \<and> bs ! i}" for k
    using Ex_less_Suc2 [of "length bs" "\<lambda>i. k = n + i \<and> (b # bs) ! i"] by auto
  then show ?case using Cons by auto
qed simp

lemma distinct_occupied_indices: "distinct (occupied_indices n bs)"
  by (induction bs arbitrary: n) (auto simp: set_occupied_indices)

lemma color_of_parities:
  "black_at w n \<longleftrightarrow> color_of w n = 0 \<or> color_of w n = 3"
  "even_column_at w n \<longleftrightarrow> color_of w n = 0 \<or> color_of w n = 2"
proof -
  let ?x = "n mod w mod 2" and ?y = "n div w mod 2"
  have "?x < 2" "?y < 2" by simp_all
  then have "(?x = 0 \<or> ?x = 1) \<and> (?y = 0 \<or> ?y = 1)" by (simp only: less_2_cases_iff One_nat_def)
  moreover have "(n mod w + n div w) mod 2 = (?x + ?y) mod 2" by (simp only: mod_add_eq)
  ultimately show "black_at w n \<longleftrightarrow> color_of w n = 0 \<or> color_of w n = 3"
    "even_column_at w n \<longleftrightarrow> color_of w n = 0 \<or> color_of w n = 2"
    unfolding black_at_def even_column_at_def color_of_def by (elim conjE disjE; simp)+
qed

lemma parity_color_sums:
  fixes w ns
  defines "c \<equiv> parity_counts_of w ns"
  shows "pc_black c = pc_four c ! 0 + pc_four c ! 3"
    and "pc_white c = pc_four c ! 1 + pc_four c ! 2"
    and "pc_even c = pc_four c ! 0 + pc_four c ! 2"
    and "pc_odd c = pc_four c ! 1 + pc_four c ! 3"
    and "pc_occupied_cells c = sum_list (pc_four c)"
proof -
  have nth: "pc_four c ! 0 = length (filter (\<lambda>n. color_of w n = 0) ns)"
    "pc_four c ! 1 = length (filter (\<lambda>n. color_of w n = 1) ns)"
    "pc_four c ! 2 = length (filter (\<lambda>n. color_of w n = 2) ns)"
    "pc_four c ! 3 = length (filter (\<lambda>n. color_of w n = 3) ns)"
    by (simp_all add: c_def parity_counts_of_def)
  have sum: "length (filter (\<lambda>n. color_of w n = a \<or> color_of w n = b) ns) =
      length (filter (\<lambda>n. color_of w n = a) ns) + length (filter (\<lambda>n. color_of w n = b) ns)"
    if "a \<noteq> b" for a b using that by (induction ns) auto
  have neg: "(\<not> (color_of w n = 0 \<or> color_of w n = 3)) \<longleftrightarrow> color_of w n = 1 \<or> color_of w n = 2"
    "(\<not> (color_of w n = 0 \<or> color_of w n = 2)) \<longleftrightarrow> color_of w n = 1 \<or> color_of w n = 3" for n
    using color_of_cases [of w n] by auto
  have "black_at w = (\<lambda>n. color_of w n = 0 \<or> color_of w n = 3)"
    "even_column_at w = (\<lambda>n. color_of w n = 0 \<or> color_of w n = 2)"
    by (simp_all add: fun_eq_iff color_of_parities)
  then show "pc_black c = pc_four c ! 0 + pc_four c ! 3"
    "pc_even c = pc_four c ! 0 + pc_four c ! 2"
    "pc_white c = pc_four c ! 1 + pc_four c ! 2"
    "pc_odd c = pc_four c ! 1 + pc_four c ! 3"
    unfolding nth by (simp_all add: c_def parity_counts_of_def neg sum
        del: de_Morgan_disj)
  have "length ns = (\<Sum>a\<leftarrow>[0, 1, 2, 3]. length (filter (\<lambda>n. color_of w n = a) ns))"
  proof (induction ns)
    case (Cons n ns)
    then show ?case using color_of_cases [of w n] by auto
  qed simp
  then show "pc_occupied_cells c = sum_list (pc_four c)" by (simp add: c_def parity_counts_of_def)
qed

lemma from_row_major_occupancy_value:
  assumes "0 < width" "0 < height" "length occ = unat width * unat height"
  defines "c \<equiv> parity_counts_of (unat width) (occupied_indices 0 occ)"
  shows "from_row_major_occupancy width height occ =
    Ok \<lparr>par_width = width, par_height = height, occupied_cell_count = pc_occupied_cells c,
        checker_black_count = pc_black c, checker_white_count = pc_white c,
        checker_delta = int (pc_black c) - int (pc_white c), four_color_counts = pc_four c,
        even_column_count = pc_even c, odd_column_count = pc_odd c,
        column_parity_delta = int (pc_even c) - int (pc_odd c)\<rparr>"
proof -
  have "unat width * unat height \<le> 65535 * 65535" by (intro mult_le_mono) simp_all
  then have area: "unat width * unat height \<le> 4294836225" by simp
  have init: "parity_counts_of (unat width) [] =
      \<lparr>pc_occupied_cells = 0, pc_black = 0, pc_white = 0, pc_four = [0, 0, 0, 0],
       pc_even = 0, pc_odd = 0\<rparr>"
    by (simp add: parity_counts_of_def)
  have loop: "parity_loop (unat width) 0 occ
      \<lparr>pc_occupied_cells = 0, pc_black = 0, pc_white = 0, pc_four = [0, 0, 0, 0],
       pc_even = 0, pc_odd = 0\<rparr> = c"
    using parity_loop_counts [of "unat width" 0 occ "[]"] by (simp add: init c_def)
  have len: "length (occupied_indices 0 occ) \<le> 4294836225"
    using area assms(3) length_filter_le [of id occ] by (simp only: length_occupied_indices)
  have "length (filter P (occupied_indices 0 occ)) \<le> 4294836225" for P
    using length_filter_le len by (rule order_trans)
  then have "pc_black c \<le> 4294836225" "pc_white c \<le> 4294836225"
    "pc_even c \<le> 4294836225" "pc_odd c \<le> 4294836225"
    by (simp_all only: c_def parity_counts_of_def parity_counts.select_convs)
  then have delta: "signed_delta (pc_black c) (pc_white c) = Ok (int (pc_black c) - int (pc_white c))"
    "signed_delta (pc_even c) (pc_odd c) = Ok (int (pc_even c) - int (pc_odd c))"
    by (simp_all add: signed_delta_def)
  have dims: "\<not> (width = 0 \<or> height = 0)" "\<not> USIZE_MAX < unat width * unat height"
    "\<not> length occ \<noteq> unat width * unat height"
    using assms(1-3) area by (auto simp: USIZE_MAX_def)
  show ?thesis
    unfolding from_row_major_occupancy_def Let_def if_not_P [OF dims(1)] if_not_P [OF dims(2)]
      if_not_P [OF dims(3)] loop delta
    by simp
qed

lemma length_filter_occupied_indices:
  "length (filter P (occupied_indices 0 occ)) = card {n. n < length occ \<and> occ ! n \<and> P n}"
proof -
  have "set (filter P (occupied_indices 0 occ)) = {n. n < length occ \<and> occ ! n \<and> P n}"
    by (auto simp: set_occupied_indices)
  moreover have "distinct (filter P (occupied_indices 0 occ))" by (simp add: distinct_occupied_indices)
  ultimately show ?thesis by (metis distinct_card)
qed

lemma parity_counts_of_cards:
  fixes w :: nat and occ :: "bool list"
  defines "c \<equiv> parity_counts_of w (occupied_indices 0 occ)"
  shows "pc_occupied_cells c = card {n. n < length occ \<and> occ ! n}"
    "pc_black c = card {n. n < length occ \<and> occ ! n \<and> even (n mod w + n div w)}"
    "pc_white c = card {n. n < length occ \<and> occ ! n \<and> odd (n mod w + n div w)}"
    "pc_four c = map (\<lambda>k. card {n. n < length occ \<and> occ ! n \<and> color_of w n = k}) [0, 1, 2, 3]"
    "pc_even c = card {n. n < length occ \<and> occ ! n \<and> even (n mod w)}"
    "pc_odd c = card {n. n < length occ \<and> occ ! n \<and> odd (n mod w)}"
  using length_filter_occupied_indices [of "\<lambda>_. True" occ]
  by (simp_all add: c_def parity_counts_of_def length_filter_occupied_indices black_at_def
      even_column_at_def even_iff_mod_2_eq_zero)

text \<open>
  C36: the static parity observation of a non-empty field never fails and every one of its counts is
  the number of occupied cells it names: black cells have an even sum of column and row and white
  cells an odd one, the four colours are the parities of column and row, even and odd columns are
  those of that parity, and both deltas are the differences of their two counts.  The four colours
  add up to the occupied cells, and so do black and white, and even and odd columns.
\<close>

theorem from_row_major_occupancy_counts:
  assumes "0 < width" "0 < height" "length occ = unat width * unat height"
  shows "\<exists>p. from_row_major_occupancy width height occ = Ok p \<and>
    par_width p = width \<and> par_height p = height \<and>
    occupied_cell_count p = card {n. n < length occ \<and> occ ! n} \<and>
    checker_black_count p =
      card {n. n < length occ \<and> occ ! n \<and> even (n mod unat width + n div unat width)} \<and>
    checker_white_count p =
      card {n. n < length occ \<and> occ ! n \<and> odd (n mod unat width + n div unat width)} \<and>
    four_color_counts p = map (\<lambda>c. card {n. n < length occ \<and> occ ! n \<and>
      n mod unat width mod 2 + 2 * (n div unat width mod 2) = c}) [0, 1, 2, 3] \<and>
    even_column_count p = card {n. n < length occ \<and> occ ! n \<and> even (n mod unat width)} \<and>
    odd_column_count p = card {n. n < length occ \<and> occ ! n \<and> odd (n mod unat width)} \<and>
    checker_delta p = int (checker_black_count p) - int (checker_white_count p) \<and>
    column_parity_delta p = int (even_column_count p) - int (odd_column_count p) \<and>
    occupied_cell_count p = sum_list (four_color_counts p) \<and>
    checker_black_count p + checker_white_count p = occupied_cell_count p \<and>
    even_column_count p + odd_column_count p = occupied_cell_count p \<and>
    checker_delta p = int (four_color_counts p ! 0) - int (four_color_counts p ! 1)
      - int (four_color_counts p ! 2) + int (four_color_counts p ! 3) \<and>
    column_parity_delta p = int (four_color_counts p ! 0) - int (four_color_counts p ! 1)
      + int (four_color_counts p ! 2) - int (four_color_counts p ! 3)"
proof -
  define c where "c = parity_counts_of (unat width) (occupied_indices 0 occ)"
  have sum: "sum_list (pc_four c) = pc_four c ! 0 + pc_four c ! 1 + pc_four c ! 2 + pc_four c ! 3"
    by (simp add: c_def parity_counts_of_def)
  note sums = parity_color_sums [of "unat width" "occupied_indices 0 occ", folded c_def]
  note cards = parity_counts_of_cards [of "unat width" occ, folded c_def, unfolded color_of_def, symmetric]
  show ?thesis
    unfolding from_row_major_occupancy_value [OF assms, folded c_def] cards
    by (rule exI, rule conjI, rule refl)
      (simp only: StaticParityObservation.select_convs simp_thms, simp only: sums sum, simp)
qed

theorem from_row_major_occupancy_counts_witness:
  "\<exists>p. from_row_major_occupancy 2 2 [True, False, True, True] = Ok p \<and>
    checker_black_count p = 2 \<and> checker_white_count p = 1 \<and>
    even_column_count p = 2 \<and> odd_column_count p = 1 \<and>
    four_color_counts p = [1, 0, 1, 1] \<and> checker_delta p = 1 \<and> column_parity_delta p = 1"
proof -
  let ?occ = "[True, False, True, True]"
  have "occupied_indices 0 ?occ = [0, 2, 3]" by simp
  then have cards: "card {n. n < length ?occ \<and> ?occ ! n \<and> P n} = length (filter P [0, 2, 3])" for P
    by (simp only: length_filter_occupied_indices [symmetric])
  show ?thesis using from_row_major_occupancy_counts [of 2 2 ?occ] unfolding cards by force
qed

end
