(* ===== verification/Text.thy ===== *)
theory Text
  imports Prelude "HOL-Library.List_Lexorder" "HOL-Library.Char_ord"
begin

text \<open>
  The string operations of the Rust standard library that the codecs use, on Isabelle strings:
  \<open>strip_prefix\<close>, \<open>split_once\<close>, \<open>split\<close>, \<open>trim\<close>, \<open>parse::<usize>\<close>, \<open>u64::from_str_radix(_, 16)\<close> and
  the \<open>{:016x}\<close> formatter.  A \<open>char\<close> is a code point below 256.  For ASCII text, which all canonical keys
  are, it is also the one byte of its UTF-8 form, so that comparing and hashing bytes is comparing and
  hashing characters.  Text beyond Latin-1 is not representable, and for the characters from 128 to 255
  only operations that work on characters, such as \<open>trim\<close>, are faithful.  The lemmas give the round trip of the hexadecimal codec and that it preserves order.
\<close>

section \<open>Splitting\<close>

definition strip_prefix :: "string \<Rightarrow> string \<Rightarrow> string option" where
  "strip_prefix p s = (if take (length p) s = p then Some (drop (length p) s) else None)"

fun split_once :: "string \<Rightarrow> string \<Rightarrow> (string \<times> string) option" where
  "split_once p [] = (if p = [] then Some ([], []) else None)"
| "split_once p (c # s) =
     (case strip_prefix p (c # s) of
        Some rest \<Rightarrow> Some ([], rest)
      | None \<Rightarrow> map_option (\<lambda>(a, b). (c # a, b)) (split_once p s))"

fun split_on :: "char \<Rightarrow> string \<Rightarrow> string list" where
  "split_on d [] = [[]]"
| "split_on d (c # s) =
     (if c = d then [] # split_on d s
      else (case split_on d s of
              [] \<Rightarrow> [[c]]
            | piece # pieces \<Rightarrow> (c # piece) # pieces))"

text \<open>The white space of \<open>char::is_whitespace\<close> among the code points below 256.\<close>

definition is_whitespace :: "char \<Rightarrow> bool" where
  "is_whitespace c \<longleftrightarrow> (of_char c :: nat) \<in> {9, 10, 11, 12, 13, 32, 133, 160}"

definition trim :: "string \<Rightarrow> string" where
  "trim s = rev (dropWhile is_whitespace (rev (dropWhile is_whitespace s)))"

fun join :: "char \<Rightarrow> string list \<Rightarrow> string" where
  "join d [] = []"
| "join d [x] = x"
| "join d (x # y # ys) = x @ d # join d (y # ys)"

section \<open>Numbers\<close>

definition is_ascii_digit :: "char \<Rightarrow> bool" where
  "is_ascii_digit c \<longleftrightarrow> 48 \<le> (of_char c :: nat) \<and> (of_char c :: nat) \<le> 57"

definition digit_value :: "char \<Rightarrow> nat" where
  "digit_value c = of_char c - 48"

definition hex_value :: "char \<Rightarrow> nat option" where
  "hex_value c =
     (let n = (of_char c :: nat) in
      if 48 \<le> n \<and> n \<le> 57 then Some (n - 48)
      else if 97 \<le> n \<and> n \<le> 102 then Some (n - 87)
      else if 65 \<le> n \<and> n \<le> 70 then Some (n - 55)
      else None)"

definition horner :: "nat \<Rightarrow> nat list \<Rightarrow> nat" where
  "horner base ds = foldl (\<lambda>acc d. acc * base + d) 0 ds"

text \<open>Integer parsing accepts one leading plus sign.\<close>

definition strip_plus :: "string \<Rightarrow> string" where
  "strip_plus s = (if s \<noteq> [] \<and> hd s = CHR ''+'' then tl s else s)"

definition parse_usize :: "string \<Rightarrow> nat option" where
  "parse_usize s =
     (let ds = strip_plus s in
      if ds = [] \<or> \<not> (\<forall>c\<in>set ds. is_ascii_digit c) then None
      else let n = horner 10 (map digit_value ds) in if n \<le> USIZE_MAX then Some n else None)"

definition from_str_radix16 :: "string \<Rightarrow> u64 option" where
  "from_str_radix16 s =
     (let ds = strip_plus s in
      if ds = [] \<or> (\<exists>c\<in>set ds. hex_value c = None) then None
      else let n = horner 16 (map (the \<circ> hex_value) ds) in
           if n < 2 ^ 64 then Some (word_of_nat n) else None)"

definition hex_digit :: "nat \<Rightarrow> char" where
  "hex_digit d = (if d < 10 then char_of (48 + d) else char_of (87 + d))"

text \<open>The decimal text of an integer, as \<open>{}\<close> prints it.\<close>

fun show_nat :: "nat \<Rightarrow> string" where
  "show_nat n = (if n < 10 then [hex_digit n] else show_nat (n div 10) @ [hex_digit (n mod 10)])"

declare show_nat.simps [simp del]

definition show_int :: "int \<Rightarrow> string" where
  "show_int i = (if i < 0 then CHR ''-'' # show_nat (nat (- i)) else show_nat (nat i))"

definition nibble :: "u64 \<Rightarrow> nat \<Rightarrow> nat" where
  "nibble w i = unat (drop_bit ((15 - i) * 4) w AND 15)"

definition hex16 :: "u64 \<Rightarrow> string" where
  "hex16 w = map (\<lambda>i. hex_digit (nibble w i)) [0..<16]"

section \<open>Laws of splitting\<close>

lemma strip_prefix_append [simp]: "strip_prefix p (p @ s) = Some s"
  by (simp add: strip_prefix_def)

lemma strip_prefix_eq_Some_iff: "strip_prefix p s = Some r \<longleftrightarrow> s = p @ r"
  by (auto simp: strip_prefix_def) (metis append_take_drop_id)

lemma split_once_char_append:
  "d \<notin> set a \<Longrightarrow> split_once [d] (a @ d # b) = Some (a, b)"
  by (induction a) (auto simp: strip_prefix_def)

lemma split_once_eq_Some: "split_once p s = Some (a, b) \<Longrightarrow> s = a @ p @ b"
proof (induction p s arbitrary: a rule: split_once.induct)
  case (2 p c s)
  then show ?case
    by (auto simp: strip_prefix_eq_Some_iff split: option.splits)
qed (auto split: if_splits)

lemma split_once_char_eq_Some_iff:
  "split_once [d] s = Some (a, b) \<longleftrightarrow> s = a @ d # b \<and> d \<notin> set a"
proof
  assume "split_once [d] s = Some (a, b)"
  then show "s = a @ d # b \<and> d \<notin> set a"
    by (induction s arbitrary: a) (auto simp: strip_prefix_def split: if_splits)
qed (auto simp: split_once_char_append)

lemma split_on_ne [simp]: "split_on d s \<noteq> []"
  by (cases s) (auto split: list.splits)

lemma split_on_no_sep: "d \<notin> set s \<Longrightarrow> split_on d s = [s]"
  by (induction s) auto

lemma split_on_append: "d \<notin> set a \<Longrightarrow> split_on d (a @ d # s) = a # split_on d s"
  by (induction a) auto

lemma split_on_join:
  assumes "\<forall>x\<in>set xs. d \<notin> set x" "xs \<noteq> []"
  shows "split_on d (join d xs) = xs"
  using assms by (induction d xs rule: join.induct) (auto simp: split_on_no_sep split_on_append)

lemma join_split_on: "join d (split_on d s) = s"
proof (induction s)
  case (Cons c s)
  obtain p ps where ps: "split_on d s = p # ps" by (cases "split_on d s") auto
  with Cons show ?case by (cases ps) auto
qed simp

lemma split_on_no_sep_mem: "x \<in> set (split_on d s) \<Longrightarrow> d \<notin> set x"
proof (induction s arbitrary: x)
  case (Cons c s)
  obtain p ps where ps: "split_on d s = p # ps" by (cases "split_on d s") auto
  with Cons show ?case by (auto split: if_splits)
qed simp

section \<open>The hexadecimal codec\<close>

lemma hex_value_hex_digit: "d < 16 \<Longrightarrow> hex_value (hex_digit d) = Some d"
  by (auto simp: hex_value_def hex_digit_def Let_def of_char_of)

lemma hex_digit_code: "d < 16 \<Longrightarrow> of_char (hex_digit d) = (if d < 10 then 48 + d else 87 + d)"
  by (simp add: hex_digit_def of_char_of)

lemma hex_digit_less_iff:
  "c < 16 \<Longrightarrow> d < 16 \<Longrightarrow> hex_digit c < hex_digit d \<longleftrightarrow> c < d"
  by (auto simp: less_char_def hex_digit_code)

lemma hex_digit_inject: "c < 16 \<Longrightarrow> d < 16 \<Longrightarrow> hex_digit c = hex_digit d \<longleftrightarrow> c = d"
  by (metis hex_value_hex_digit option.inject)

lemma nibble_less [simp]: "nibble w i < 16"
proof -
  have "nibble w i \<le> unat (15 :: u64)"
    unfolding nibble_def by (metis word_and_le1 word_le_nat_alt)
  then show ?thesis by simp
qed

lemma nibble_eq: "nibble w i = unat w div 16 ^ (15 - i) mod 16"
proof -
  have "(drop_bit ((15 - i) * 4) w AND 15) = take_bit 4 (drop_bit ((15 - i) * 4) w)"
    by (simp add: take_bit_eq_mask mask_eq_exp_minus_1)
  then have "nibble w i = take_bit 4 (drop_bit ((15 - i) * 4) (unat w))"
    using unat_lt2p [of w]
    by (simp add: nibble_def unsigned_take_bit_eq unsigned_drop_bit_eq take_bit_nat_eq_self)
  also have "\<dots> = unat w div 2 ^ ((15 - i) * 4) mod 2 ^ 4"
    by (simp add: take_bit_eq_mod drop_bit_eq_div)
  also have "(2::nat) ^ ((15 - i) * 4) = 16 ^ (15 - i)"
    by (simp add: mult.commute power_mult)
  finally show ?thesis by simp
qed

lemma horner_snoc [simp]: "horner b (ds @ [d]) = horner b ds * b + d"
  by (simp add: horner_def)

lemma horner_Nil [simp]: "horner b [] = 0"
  by (simp add: horner_def)

lemma horner_nibbles: "k \<le> 16 \<Longrightarrow> horner 16 (map (nibble w) [0..<k]) = unat w div 16 ^ (16 - k)"
proof (induction k)
  case 0
  have "unat w < 2 ^ 64" using unat_lt2p [of w] by simp
  then show ?case by simp
next
  case (Suc k)
  define m where "m = 15 - k"
  have m: "16 - k = Suc m" "16 - Suc k = m" "15 - k = m" using Suc.prems by (simp_all add: m_def)
  have "horner 16 (map (nibble w) [0..<k]) = unat w div 16 ^ Suc m"
    using Suc by (simp add: m)
  then have "horner 16 (map (nibble w) [0..<Suc k]) =
      unat w div 16 ^ Suc m * 16 + unat w div 16 ^ m mod 16"
    by (simp only: upt_Suc_append le0 map_append list.map horner_snoc nibble_eq [of w k] m(3))
  also have "\<dots> = unat w div 16 ^ m div 16 * 16 + unat w div 16 ^ m mod 16"
    by (simp only: power_Suc2 div_mult2_eq)
  also have "\<dots> = unat w div 16 ^ m" by (rule div_mult_mod_eq)
  finally show ?case by (simp only: m)
qed

lemma length_hex16 [simp]: "length (hex16 w) = 16"
  by (simp add: hex16_def)

lemma strip_plus_hex16: "strip_plus (hex16 w) = hex16 w"
proof -
  have "hd (hex16 w) = hex_digit (nibble w 0)" by (simp add: hex16_def upt_rec)
  moreover have "hex_digit (nibble w 0) \<noteq> CHR ''+''"
  proof
    assume "hex_digit (nibble w 0) = CHR ''+''"
    then show False using hex_digit_code [of "nibble w 0"] by (auto split: if_splits)
  qed
  ultimately show ?thesis by (simp add: strip_plus_def)
qed

lemma set_hex16: "c \<in> set (hex16 w) \<Longrightarrow> \<exists>d<16. c = hex_digit d"
  by (auto simp: hex16_def intro: nibble_less)

lemma from_str_radix16_hex16 [simp]: "from_str_radix16 (hex16 w) = Some w"
proof -
  have "\<not> (\<exists>c\<in>set (hex16 w). hex_value c = None)"
    by (auto dest!: set_hex16 simp: hex_value_hex_digit)
  moreover have "map (the \<circ> hex_value) (hex16 w) = map (nibble w) [0..<16]"
    by (simp add: hex16_def hex_value_hex_digit)
  moreover have "unat w < 2 ^ 64" using unat_lt2p [of w] by simp
  moreover have "hex16 w \<noteq> []" by (metis length_hex16 list.size(3) zero_neq_numeral)
  ultimately show ?thesis
    using horner_nibbles [of 16 w]
    by (simp add: from_str_radix16_def strip_plus_hex16 Let_def)
qed

lemma hex16_inject [simp]: "hex16 a = hex16 b \<longleftrightarrow> a = b"
  by (metis from_str_radix16_hex16 option.inject)

lemma horner_Cons: "horner b (d # ds) = d * b ^ length ds + horner b ds"
proof (induction ds rule: rev_induct)
  case (snoc x xs)
  then show ?case
    using horner_snoc [of b "d # xs" x] by (simp add: algebra_simps)
qed (simp add: horner_def)

lemma horner_less: "\<forall>d\<in>set ds. d < b \<Longrightarrow> horner b ds < b ^ length ds"
proof (induction ds)
  case (Cons d ds)
  then have "d * b ^ length ds + horner b ds < Suc d * b ^ length ds" by simp
  also have "\<dots> \<le> b * b ^ length ds" using Cons.prems by (intro mult_le_mono) auto
  finally show ?case by (simp add: horner_Cons)
qed simp

lemma horner_less_iff:
  assumes "length ds = length es" "\<forall>d\<in>set ds. d < b" "\<forall>e\<in>set es. e < b"
  shows "horner b ds < horner b es \<longleftrightarrow> ds < es"
  using assms
proof (induction ds es rule: list_induct2)
  case (Cons d ds e es)
  let ?n = "b ^ length ds"
  have lt: "horner b ds < ?n" "horner b es < ?n"
    using Cons horner_less [of ds b] horner_less [of es b] by simp_all
  consider "d < e" | "d = e" | "e < d" by linarith
  then show ?case
  proof cases
    case 1
    then have "Suc d * ?n \<le> e * ?n" by (intro mult_le_mono) auto
    with lt 1 show ?thesis using Cons.hyps by (simp add: horner_Cons)
  next
    case 2
    with Cons show ?thesis by (simp add: horner_Cons)
  next
    case 3
    then have "Suc e * ?n \<le> d * ?n" by (intro mult_le_mono) auto
    with lt 3 show ?thesis using Cons.hyps by (simp add: horner_Cons)
  qed
qed simp

lemma map_hex_digit_less_iff:
  assumes "length ds = length es" "\<forall>d\<in>set ds. d < 16" "\<forall>e\<in>set es. e < 16"
  shows "map hex_digit ds < map hex_digit es \<longleftrightarrow> ds < es"
  using assms
  by (induction ds es rule: list_induct2) (auto simp: hex_digit_less_iff hex_digit_inject)

lemma hex16_less_iff: "hex16 a < hex16 b \<longleftrightarrow> a < b"
proof -
  let ?d = "\<lambda>w. map (nibble w) [0..<16]"
  have "hex16 w = map hex_digit (?d w)" for w by (simp add: hex16_def)
  then have "hex16 a < hex16 b \<longleftrightarrow> ?d a < ?d b"
    by (simp only:) (rule map_hex_digit_less_iff; simp)
  also have "\<dots> \<longleftrightarrow> horner 16 (?d a) < horner 16 (?d b)"
    by (rule horner_less_iff [symmetric]) simp_all
  also have "\<dots> \<longleftrightarrow> a < b"
    using horner_nibbles [of 16 a] horner_nibbles [of 16 b] by (simp add: word_less_nat_alt)
  finally show ?thesis .
qed

lemma append_less_iff:
  fixes a a' b b' :: "'a::linorder list"
  assumes "length a = length a'"
  shows "a @ b < a' @ b' \<longleftrightarrow> a < a' \<or> a = a' \<and> b < b'"
  using assms by (induction a a' rule: list_induct2) auto

end
