(* ===== verification/Resources.thy ===== *)
theory Resources
  imports Text
begin

text \<open>
  Resource bookkeeping of \<open>clearra-core-domain\<close>: the typed execution availability that the lease
  authority returns with a refusal, the partition of candidate identifiers over workers, and the CPU
  capacity probe with its affinity-list parser.  The shared lease authority has its own theory
  (\<open>Leases\<close>).
\<close>

section \<open>Availability\<close>

datatype ExecutionAvailabilityState =
    Available | Unavailable | Deferred | Exhausted | Cancelled | Incomplete

datatype ExecutionAvailabilityReason =
    NotExecuted
  | CapabilityUnavailable
  | PatternCountAddressSpaceExceeded
  | DensePatternRepresentationUnavailable
  | ComputeBudgetExceeded
  | MemoryBudgetExceeded
  | SharedResourceContention
  | CancelledByCaller
  | PartialExecution

record ExecutionAvailability =
  availability_state :: ExecutionAvailabilityState
  availability_reason :: "ExecutionAvailabilityReason option"
  descriptor_pattern_count :: "u128 option"
  dense_pattern_count :: "u128 option"
  required_dense_bytes :: "u128 option"
  required_memory_bytes :: "u128 option"

definition available :: ExecutionAvailability where
  "available = \<lparr>availability_state = Available, availability_reason = None,
     descriptor_pattern_count = None, dense_pattern_count = None, required_dense_bytes = None,
     required_memory_bytes = None\<rparr>"

definition non_available ::
  "ExecutionAvailabilityState \<Rightarrow> ExecutionAvailabilityReason \<Rightarrow> ExecutionAvailability" where
  "non_available state reason = \<lparr>availability_state = state, availability_reason = Some reason,
     descriptor_pattern_count = None, dense_pattern_count = None, required_dense_bytes = None,
     required_memory_bytes = None\<rparr>"

definition unavailable :: "ExecutionAvailabilityReason \<Rightarrow> ExecutionAvailability" where
  "unavailable reason = non_available Unavailable reason"

definition deferred :: "ExecutionAvailabilityReason \<Rightarrow> ExecutionAvailability" where
  "deferred reason = non_available Deferred reason"

definition exhausted :: "ExecutionAvailabilityReason \<Rightarrow> ExecutionAvailability" where
  "exhausted reason = non_available Exhausted reason"

section \<open>Partitions and CPU capacity\<close>

record ExecutionPartition =
  partition_index :: nat
  partition_count :: nat

definition partition_new :: "nat \<Rightarrow> nat \<Rightarrow> ExecutionPartition option" where
  "partition_new index count =
     (if count > 0 \<and> index < count then Some \<lparr>partition_index = index, partition_count = count\<rparr>
      else None)"

definition owns_candidate :: "ExecutionPartition \<Rightarrow> u64 \<Rightarrow> bool" where
  "owns_candidate p candidate_id \<longleftrightarrow>
     candidate_id mod word_of_nat (partition_count p) = word_of_nat (partition_index p)"

record CpuCapacity =
  recommended_parallelism :: nat
  affinity_limit :: "nat option"
  expected_vcpus :: "nat option"
  hard_limit :: nat

definition filter_positive :: "nat option \<Rightarrow> nat option" where
  "filter_positive x = (case x of Some n \<Rightarrow> if n > 0 then Some n else None | None \<Rightarrow> None)"

definition from_observations :: "nat \<Rightarrow> nat option \<Rightarrow> nat option \<Rightarrow> CpuCapacity" where
  "from_observations recommended affinity expected =
     (let r = max recommended 1; a = filter_positive affinity; e = filter_positive expected;
          limit = max (case (a, e) of
                         (Some aff, Some ex) \<Rightarrow> if ex \<le> aff then ex else r
                       | (None, Some ex) \<Rightarrow> if ex \<le> r then ex else r
                       | _ \<Rightarrow> r) 1
      in \<lparr>recommended_parallelism = r, affinity_limit = a, expected_vcpus = e, hard_limit = limit\<rparr>)"

definition parse_positive_or_zero :: "string \<Rightarrow> nat option" where
  "parse_positive_or_zero s =
     (if s = [] \<or> \<not> (\<forall>c\<in>set s. is_ascii_digit c) then None else parse_usize s)"

definition parse_cpu_item :: "string \<Rightarrow> (nat \<times> nat) option" where
  "parse_cpu_item item =
     (case split_once ''-'' item of
        Some (a, b) \<Rightarrow>
          (case parse_positive_or_zero a of
             None \<Rightarrow> None
           | Some start \<Rightarrow> map_option (\<lambda>finish. (start, finish)) (parse_positive_or_zero b))
      | None \<Rightarrow> map_option (\<lambda>cpu. (cpu, cpu)) (parse_positive_or_zero item))"

primrec parse_cpu_items :: "nat \<Rightarrow> nat option \<Rightarrow> string list \<Rightarrow> nat option" where
  "parse_cpu_items count previous_end [] = (if count > 0 then Some count else None)"
| "parse_cpu_items count previous_end (raw # items) =
     (let item = trim raw in
      if item = [] then None
      else (case parse_cpu_item item of
          None \<Rightarrow> None
        | Some (start, finish) \<Rightarrow>
            if finish < start \<or> (case previous_end of None \<Rightarrow> False | Some p \<Rightarrow> start \<le> p) then None
            else (case usize_checked_add (finish - start) 1 of
                None \<Rightarrow> None
              | Some width \<Rightarrow>
                  (case usize_checked_add count width of
                     None \<Rightarrow> None
                   | Some count' \<Rightarrow> parse_cpu_items count' (Some finish) items))))"

definition parse_cpu_list :: "string \<Rightarrow> nat option" where
  "parse_cpu_list value = parse_cpu_items 0 None (split_on CHR '','' (trim value))"

section \<open>Every candidate has one owner\<close>

text \<open>
  C38: the partitions \<open>0 .. count - 1\<close> of a worker pool split the candidate identifiers: each
  identifier is owned by exactly one of them.
\<close>

theorem owns_candidate_unique:
  assumes "0 < count" "count \<le> USIZE_MAX"
  shows "\<exists>!index. \<exists>p. partition_new index count = Some p \<and> owns_candidate p c"
proof -
  have u: "unat (word_of_nat n :: u64) = n" if "n \<le> count" for n
    using that assms(2) by (intro unat_word_of_nat) (simp add: USIZE_MAX_def)
  have m: "unat (c mod word_of_nat count) = unat c mod count"
    using u [of count] by (simp only: unat_mod_distrib order_refl)
  have own: "c mod word_of_nat count = word_of_nat i \<longleftrightarrow> unat c mod count = i" if "i < count" for i
  proof
    assume "c mod word_of_nat count = word_of_nat i"
    then show "unat c mod count = i" using m u [of i] that by simp
  next
    assume "unat c mod count = i"
    then show "c mod word_of_nat count = word_of_nat i" using m u [of i] that by (intro word_eq_unatI) simp
  qed
  show ?thesis
  proof (rule ex1I [of _ "unat c mod count"])
    show "\<exists>p. partition_new (unat c mod count) count = Some p \<and> owns_candidate p c"
      using assms(1) own [of "unat c mod count"] by (simp add: partition_new_def owns_candidate_def)
  next
    fix i assume "\<exists>p. partition_new i count = Some p \<and> owns_candidate p c"
    then have "i < count" "c mod word_of_nat count = word_of_nat i"
      by (auto simp: partition_new_def owns_candidate_def split: if_splits)
    then show "i = unat c mod count" using own by simp
  qed
qed

theorem owns_candidate_unique_witness:
  "\<exists>!index. \<exists>p. partition_new index 6 = Some p \<and> owns_candidate p 20"
  by (rule owns_candidate_unique) (simp_all add: USIZE_MAX_def)

section \<open>CPU capacity\<close>

definition cpu_items_set :: "string list \<Rightarrow> nat set" where
  "cpu_items_set items =
     (\<Union>raw\<in>set items. case parse_cpu_item (trim raw) of None \<Rightarrow> {} | Some (a, b) \<Rightarrow> {a..b})"

lemma cpu_items_set_Cons:
  "cpu_items_set (raw # items) =
     (case parse_cpu_item (trim raw) of None \<Rightarrow> {} | Some (a, b) \<Rightarrow> {a..b}) \<union> cpu_items_set items"
  by (simp add: cpu_items_set_def)

lemma parse_cpu_items_Cons_eq_Some:
  assumes "parse_cpu_items count prev (raw # items) = Some n"
  shows "\<exists>a b. parse_cpu_item (trim raw) = Some (a, b) \<and> a \<le> b \<and>
           (\<forall>p. prev = Some p \<longrightarrow> p < a) \<and>
           parse_cpu_items (count + (b - a + 1)) (Some b) items = Some n"
proof (cases "parse_cpu_item (trim raw)")
  case None
  with assms show ?thesis by (simp add: Let_def split: if_splits)
next
  case (Some ab)
  obtain a b where ab: "ab = (a, b)" by (cases ab)
  define bad where "bad \<longleftrightarrow> b < a \<or> (case prev of None \<Rightarrow> False | Some p \<Rightarrow> a \<le> p)"
  have step: "parse_cpu_items count prev (raw # items) =
      (if trim raw = [] then None else if bad then None
       else case usize_checked_add (b - a) 1 of None \<Rightarrow> None
         | Some width \<Rightarrow> (case usize_checked_add count width of None \<Rightarrow> None
             | Some count' \<Rightarrow> parse_cpu_items count' (Some b) items))"
    unfolding parse_cpu_items.simps Let_def Some ab bad_def by simp
  have ok: "\<not> bad" using assms unfolding step by (cases bad) (simp_all split: if_splits)
  obtain w where w: "usize_checked_add (b - a) 1 = Some w"
    using assms ok unfolding step by (cases "usize_checked_add (b - a) 1") (simp_all split: if_splits)
  obtain k where k: "usize_checked_add count w = Some k"
    using assms ok w unfolding step by (cases "usize_checked_add count w") (simp_all split: if_splits)
  have "w = b - a + 1" "k = count + w"
    using w k by (simp_all add: usize_checked_add_def split: if_splits)
  moreover have "parse_cpu_items k (Some b) items = Some n"
    using assms ok w k unfolding step by (simp split: if_splits)
  moreover have "a \<le> b" "\<forall>p. prev = Some p \<longrightarrow> p < a"
    using ok unfolding bad_def by (simp_all add: not_le split: option.splits)
  ultimately show ?thesis using Some ab by simp
qed

lemma parse_cpu_items_card:
  assumes "parse_cpu_items count prev items = Some n"
  shows "finite (cpu_items_set items) \<and> n = count + card (cpu_items_set items) \<and>
         (\<forall>p. prev = Some p \<longrightarrow> (\<forall>x\<in>cpu_items_set items. p < x))"
  using assms
proof (induction items arbitrary: count prev)
  case Nil
  then show ?case by (auto simp: cpu_items_set_def split: if_splits)
next
  case (Cons raw items)
  obtain a b where ab: "parse_cpu_item (trim raw) = Some (a, b)" "a \<le> b"
      "\<forall>p. prev = Some p \<longrightarrow> p < a"
      and rest: "parse_cpu_items (count + (b - a + 1)) (Some b) items = Some n"
    using parse_cpu_items_Cons_eq_Some [OF Cons.prems] by blast
  from Cons.IH [OF rest] have IH: "finite (cpu_items_set items)"
      "n = count + (b - a + 1) + card (cpu_items_set items)" "\<forall>x\<in>cpu_items_set items. b < x"
    by auto
  have un: "cpu_items_set (raw # items) = {a..b} \<union> cpu_items_set items"
    by (simp add: cpu_items_set_Cons ab(1))
  have "{a..b} \<inter> cpu_items_set items = {}"
  proof (rule ccontr)
    assume "{a..b} \<inter> cpu_items_set items \<noteq> {}"
    then obtain x where "x \<in> {a..b}" "x \<in> cpu_items_set items" by blast
    moreover from this(2) have "b < x" using IH(3) by blast
    ultimately show False by simp
  qed
  then have sum: "card (cpu_items_set (raw # items)) = card {a..b} + card (cpu_items_set items)"
    and fin: "finite (cpu_items_set (raw # items))"
    unfolding un using IH(1) by (simp_all only: card_Un_disjoint finite_atLeastAtMost finite_UnI)
  have above: "p < x" if "prev = Some p" "x \<in> cpu_items_set (raw # items)" for p x
  proof -
    from that(2) have "x \<in> {a..b} \<or> x \<in> cpu_items_set items" unfolding un by blast
    then have "a \<le> x"
    proof
      assume "x \<in> cpu_items_set items"
      then have "b < x" using IH(3) by blast
      then show ?thesis using ab(2) by simp
    qed simp
    moreover have "p < a" using ab(3) that(1) by blast
    ultimately show ?thesis by simp
  qed
  have "n = count + card (cpu_items_set (raw # items))"
    unfolding sum using IH(2) ab(2) by simp
  with fin above show ?case by blast
qed

text \<open>
  A CPU affinity list that parses is counted exactly: the result is the number of distinct CPUs
  its ranges name, and it is positive.
\<close>

theorem parse_cpu_list_counts:
  assumes "parse_cpu_list v = Some n"
  shows "n = card (cpu_items_set (split_on CHR '','' (trim v))) \<and> 0 < n"
proof -
  have "0 < n" if "parse_cpu_items count prev items = Some n" for count prev items
    using that
  proof (induction items arbitrary: count prev)
    case (Cons raw items)
    then show ?case by (metis parse_cpu_items_Cons_eq_Some)
  qed (simp split: if_splits)
  with assms show ?thesis
    using parse_cpu_items_card [of 0 None "split_on CHR '','' (trim v)" n]
    by (simp add: parse_cpu_list_def)
qed

theorem parse_cpu_list_counts_witness:
  "parse_cpu_list ''0-3, 8'' = Some 5 \<and>
   5 = card (cpu_items_set (split_on CHR '','' (trim ''0-3, 8''))) \<and> 0 < (5 :: nat)"
proof -
  have "parse_cpu_list ''0-3, 8'' = Some 5"
    by (simp add: parse_cpu_list_def trim_def is_whitespace_def parse_cpu_item_def strip_prefix_def
        parse_positive_or_zero_def is_ascii_digit_def digit_value_def parse_usize_def strip_plus_def
        horner_def USIZE_MAX_def usize_checked_add_def Let_def)
  then show ?thesis using parse_cpu_list_counts by blast
qed

text \<open>
  The hard limit of the CPU capacity is at least one and never exceeds both the runtime's own
  recommendation and a reported positive affinity; an expected CPU count can only raise it up to
  the affinity.
\<close>

theorem hard_limit_bounds:
  "1 \<le> hard_limit (from_observations r a e) \<and>
   hard_limit (from_observations r a e) \<le>
     max (max r 1) (case a of None \<Rightarrow> 0 | Some aff \<Rightarrow> aff)"
  by (auto simp: from_observations_def filter_positive_def Let_def split: option.splits)

end
