(* ===== verification/Leases.thy ===== *)
theory Leases
  imports Resources
begin

text \<open>
  The shared resource lease authority (\<open>resource/shared_resource_lease.rs\<close>).  \<open>AuthorityState\<close> is the
  state behind the mutex; its allocations are a map from epochs, which is finite because epochs are
  64-bit words.  Every operation runs under the lock and is one function on that state.  Operations
  whose source can panic (\<open>expect\<close>, unchecked subtraction) return a \<open>fault\<close>.  A \<open>lease_system\<close> adds the
  handles (\<open>ResourceLease\<close>) clients hold, and \<open>lease_reachable\<close> interleaves their operations.
\<close>

section \<open>Types\<close>

record ResourceLeaseCapacity =
  cap_compute :: u32
  cap_memory :: u64

record ResourceLeaseRequest =
  req_compute :: u32
  req_memory :: u64

record ResourceLeaseToken =
  tok_authority :: u64
  tok_epoch :: u64
  tok_owner :: u64
  tok_parent :: "u64 option"
  tok_grant :: ResourceLeaseRequest

record ResourceLeaseAcquireError =
  err_availability :: ExecutionAvailability
  err_requested :: ResourceLeaseRequest
  err_available :: ResourceLeaseCapacity

datatype ResourceLeaseReleaseError =
    AuthorityMismatch
  | OwnerMismatch
  | StaleEpoch
  | AlreadyReleased
  | ChildrenActive
  | AccountingInvariantViolated

record Allocation =
  al_token :: ResourceLeaseToken
  al_remaining :: ResourceLeaseRequest
  al_child_count :: u32
  al_release_pending :: bool

record AuthorityState =
  auth_id :: u64
  auth_capacity :: ResourceLeaseCapacity
  auth_used :: ResourceLeaseRequest
  auth_next_epoch :: u64
  allocations :: "u64 \<rightharpoonup> Allocation"

record ResourceLease =
  lease_token :: ResourceLeaseToken
  lease_released :: bool

section \<open>Requests and errors\<close>

definition fits :: "ResourceLeaseRequest \<Rightarrow> ResourceLeaseCapacity \<Rightarrow> bool" where
  "fits r c \<longleftrightarrow> req_compute r \<le> cap_compute c \<and> req_memory r \<le> cap_memory c"

definition acquire_error ::
  "ResourceLeaseRequest \<Rightarrow> ResourceLeaseCapacity \<Rightarrow> ExecutionAvailability \<Rightarrow> ResourceLeaseAcquireError"
  where
  "acquire_error requested avail availability =
     \<lparr>err_availability = availability, err_requested = requested, err_available = avail\<rparr>"

definition exceeded_reason ::
  "ResourceLeaseRequest \<Rightarrow> ResourceLeaseCapacity \<Rightarrow> ExecutionAvailabilityReason" where
  "exceeded_reason r c =
     (if req_compute r > cap_compute c then ComputeBudgetExceeded else MemoryBudgetExceeded)"

definition zero_capacity :: ResourceLeaseCapacity where
  "zero_capacity = \<lparr>cap_compute = 0, cap_memory = 0\<rparr>"

section \<open>The authority\<close>

definition with_identity_and_epoch :: "ResourceLeaseCapacity \<Rightarrow> u64 \<Rightarrow> u64 \<Rightarrow> AuthorityState" where
  "with_identity_and_epoch c aid e =
     \<lparr>auth_id = aid, auth_capacity = c, auth_used = \<lparr>req_compute = 0, req_memory = 0\<rparr>,
      auth_next_epoch = e, allocations = Map.empty\<rparr>"

text \<open>The subtraction is unchecked in the source: below zero it panics or wraps.\<close>

definition auth_available :: "AuthorityState \<Rightarrow> 'e fault + ResourceLeaseCapacity" where
  "auth_available s =
     (case (checked_sub (cap_compute (auth_capacity s)) (req_compute (auth_used s)),
            checked_sub (cap_memory (auth_capacity s)) (req_memory (auth_used s))) of
        (Some c, Some m) \<Rightarrow> Ok \<lparr>cap_compute = c, cap_memory = m\<rparr>
      | _ \<Rightarrow> Err Panic)"

definition next_epoch :: "AuthorityState \<Rightarrow> ExecutionAvailability + (u64 \<times> AuthorityState)" where
  "next_epoch s =
     (case checked_add (auth_next_epoch s) 1 of
        None \<Rightarrow> Err (unavailable CapabilityUnavailable)
      | Some e \<Rightarrow> Ok (e, s\<lparr>auth_next_epoch := e\<rparr>))"

definition try_acquire ::
  "AuthorityState \<Rightarrow> u64 \<Rightarrow> ResourceLeaseRequest \<Rightarrow>
     ResourceLeaseAcquireError fault + (ResourceLeaseToken \<times> AuthorityState)" where
  "try_acquire s owner request =
     and_then (auth_available s) (\<lambda>avail.
       if \<not> fits request (auth_capacity s)
       then Err (Fault (acquire_error request avail
              (exhausted (exceeded_reason request (auth_capacity s)))))
       else if \<not> fits request avail
       then Err (Fault (acquire_error request avail (deferred SharedResourceContention)))
       else
         and_then (map_err (\<lambda>a. Fault (acquire_error request avail a)) (next_epoch s)) (\<lambda>(epoch, s1).
           case (checked_add (req_compute (auth_used s1)) (req_compute request),
                 checked_add (req_memory (auth_used s1)) (req_memory request)) of
             (Some c, Some m) \<Rightarrow>
               let token = \<lparr>tok_authority = auth_id s1, tok_epoch = epoch, tok_owner = owner,
                            tok_parent = None, tok_grant = request\<rparr>
               in Ok (token, s1\<lparr>auth_used := \<lparr>req_compute = c, req_memory = m\<rparr>,
                    allocations := (allocations s1)(epoch \<mapsto>
                      \<lparr>al_token = token, al_remaining = request, al_child_count = 0,
                       al_release_pending = False\<rparr>)\<rparr>)
           | _ \<Rightarrow> Err Panic))"

definition try_acquire_child ::
  "AuthorityState \<Rightarrow> ResourceLeaseToken \<Rightarrow> u64 \<Rightarrow> ResourceLeaseRequest \<Rightarrow>
     ResourceLeaseAcquireError fault + (ResourceLeaseToken \<times> AuthorityState)" where
  "try_acquire_child s parent owner request =
     (let refuse = Err (Fault (acquire_error request zero_capacity (unavailable CapabilityUnavailable)))
      in if tok_authority parent \<noteq> auth_id s then refuse
         else (case allocations s (tok_epoch parent) of
             None \<Rightarrow> refuse
           | Some p \<Rightarrow>
               if al_token p \<noteq> parent then refuse
               else
                 let parent_capacity = \<lparr>cap_compute = req_compute (tok_grant parent),
                                        cap_memory = req_memory (tok_grant parent)\<rparr>;
                     remaining_capacity = \<lparr>cap_compute = req_compute (al_remaining p),
                                           cap_memory = req_memory (al_remaining p)\<rparr>
                 in if \<not> fits request parent_capacity
                    then Err (Fault (acquire_error request remaining_capacity
                           (exhausted (exceeded_reason request parent_capacity))))
                    else if \<not> fits request remaining_capacity
                    then Err (Fault (acquire_error request remaining_capacity
                           (deferred SharedResourceContention)))
                    else
                      and_then (map_err (\<lambda>a. Fault (acquire_error request remaining_capacity a))
                                 (next_epoch s)) (\<lambda>(epoch, s1).
                        case checked_add (al_child_count p) 1 of
                          None \<Rightarrow> Err Panic
                        | Some n \<Rightarrow>
                            let p' = p\<lparr>al_remaining :=
                                       \<lparr>req_compute = req_compute (al_remaining p) - req_compute request,
                                        req_memory = req_memory (al_remaining p) - req_memory request\<rparr>,
                                     al_child_count := n\<rparr>;
                                token = \<lparr>tok_authority = auth_id s1, tok_epoch = epoch,
                                         tok_owner = owner, tok_parent = Some (tok_epoch parent),
                                         tok_grant = request\<rparr>
                            in Ok (token, s1\<lparr>allocations :=
                                 (allocations s1)(tok_epoch parent \<mapsto> p', epoch \<mapsto>
                                   \<lparr>al_token = token, al_remaining = request, al_child_count = 0,
                                    al_release_pending = False\<rparr>)\<rparr>))))"

definition validate_release ::
  "AuthorityState \<Rightarrow> ResourceLeaseToken \<Rightarrow> u64 \<Rightarrow> ResourceLeaseReleaseError fault + Allocation" where
  "validate_release s token releasing_owner =
     (if tok_authority token \<noteq> auth_id s then Err (Fault AuthorityMismatch)
      else if tok_owner token \<noteq> releasing_owner then Err (Fault OwnerMismatch)
      else (case allocations s (tok_epoch token) of
          None \<Rightarrow> Err (Fault StaleEpoch)
        | Some a \<Rightarrow> if al_token a \<noteq> token then Err (Fault StaleEpoch) else Ok a))"

definition ready :: "Allocation \<Rightarrow> bool" where
  "ready a \<longleftrightarrow> al_child_count a = 0 \<and> al_remaining a = tok_grant (al_token a)"

text \<open>
  The parent's entry after a child with grant \<open>g\<close> returned, when the accounting of the source allows
  it: neither sum may overflow or exceed the parent's own grant, and the parent has a child to lose.
\<close>

definition credit_parent :: "ResourceLeaseRequest \<Rightarrow> Allocation \<Rightarrow> Allocation option" where
  "credit_parent g p =
     (case (checked_add (req_compute (al_remaining p)) (req_compute g),
            checked_add (req_memory (al_remaining p)) (req_memory g),
            checked_sub (al_child_count p) 1) of
        (Some c, Some m, Some n) \<Rightarrow>
          if c > req_compute (tok_grant (al_token p)) \<or> m > req_memory (tok_grant (al_token p))
          then None
          else Some (p\<lparr>al_remaining := \<lparr>req_compute = c, req_memory = m\<rparr>, al_child_count := n\<rparr>)
      | _ \<Rightarrow> None)"

function release_ready_allocation ::
  "AuthorityState \<Rightarrow> u64 \<Rightarrow> (ResourceLeaseReleaseError fault + unit) \<times> AuthorityState" where
  "release_ready_allocation s epoch =
     (case allocations s epoch of
        None \<Rightarrow> (Err (Fault StaleEpoch), s)
      | Some a \<Rightarrow>
          if \<not> ready a then (Err (Fault ChildrenActive), s)
          else (case tok_parent (al_token a) of
              None \<Rightarrow>
                (case (checked_sub (req_compute (auth_used s)) (req_compute (tok_grant (al_token a))),
                       checked_sub (req_memory (auth_used s)) (req_memory (tok_grant (al_token a)))) of
                   (Some c, Some m) \<Rightarrow>
                     (Ok (), s\<lparr>allocations := (allocations s)(epoch := None),
                               auth_used := \<lparr>req_compute = c, req_memory = m\<rparr>\<rparr>)
                 | _ \<Rightarrow> (Err (Fault AccountingInvariantViolated), s))
            | Some parent_epoch \<Rightarrow>
                (case allocations s parent_epoch of
                   None \<Rightarrow> (Err (Fault AccountingInvariantViolated), s)
                 | Some parent \<Rightarrow>
                     (case credit_parent (tok_grant (al_token a)) parent of
                        None \<Rightarrow> (Err (Fault AccountingInvariantViolated), s)
                      | Some p' \<Rightarrow>
                          if parent_epoch = epoch
                          then (Err Panic, s\<lparr>allocations := (allocations s)(epoch := None)\<rparr>)
                          else
                            let s' = s\<lparr>allocations :=
                                       (allocations s)(epoch := None, parent_epoch \<mapsto> p')\<rparr>
                            in if al_release_pending p' \<and> ready p'
                               then release_ready_allocation s' parent_epoch
                               else (Ok (), s')))))"
  by pat_completeness auto

termination
proof (relation "measure (\<lambda>(s, _). card (dom (allocations s)))", goal_cases)
  case (2 s epoch a parent_epoch parent p' s')
  then have "dom (allocations s') = dom (allocations s) - {epoch}" by (auto simp: domI)
  moreover have "card (dom (allocations s) - {epoch}) < card (dom (allocations s))"
    using 2(1) by (intro card_Diff1_less) (auto simp: domI)
  ultimately show ?case by simp
qed simp

definition release_token ::
  "AuthorityState \<Rightarrow> ResourceLeaseToken \<Rightarrow> u64 \<Rightarrow>
     (ResourceLeaseReleaseError fault + unit) \<times> AuthorityState" where
  "release_token s token releasing_owner =
     (case validate_release s token releasing_owner of
        Inl e \<Rightarrow> (Err e, s)
      | Inr a \<Rightarrow>
          if \<not> ready a then (Err (Fault ChildrenActive), s)
          else release_ready_allocation s (tok_epoch token))"

definition abandon_token ::
  "AuthorityState \<Rightarrow> ResourceLeaseToken \<Rightarrow> u64 \<Rightarrow>
     (ResourceLeaseReleaseError fault + unit) \<times> AuthorityState" where
  "abandon_token s token releasing_owner =
     (case validate_release s token releasing_owner of
        Inl e \<Rightarrow> (Err e, s)
      | Inr a \<Rightarrow>
          if ready a then release_ready_allocation s (tok_epoch token)
          else (Ok (), s\<lparr>allocations :=
                 (allocations s)(tok_epoch token \<mapsto> a\<lparr>al_release_pending := True\<rparr>)\<rparr>))"

section \<open>Handles and interleavings\<close>

record lease_system =
  sys_auth :: AuthorityState
  sys_handles :: "nat \<rightharpoonup> ResourceLease"

datatype lease_outcome =
    Done
  | Refused ResourceLeaseAcquireError
  | Rejected ResourceLeaseReleaseError
  | Panicked

datatype lease_action =
    Acquire nat u64 ResourceLeaseRequest
  | TryChild nat nat u64 ResourceLeaseRequest
  | ReleaseAs nat u64
  | Drop nat

definition granted ::
  "lease_system \<Rightarrow> nat \<Rightarrow> ResourceLeaseAcquireError fault + (ResourceLeaseToken \<times> AuthorityState) \<Rightarrow>
     lease_outcome \<times> lease_system" where
  "granted sys h r =
     (case r of
        Inl Panic \<Rightarrow> (Panicked, sys)
      | Inl (Fault e) \<Rightarrow> (Refused e, sys)
      | Inr (token, s') \<Rightarrow>
          (Done, sys\<lparr>sys_auth := s', sys_handles := (sys_handles sys)(h \<mapsto>
             \<lparr>lease_token = token, lease_released = False\<rparr>)\<rparr>))"

definition try_child ::
  "lease_system \<Rightarrow> ResourceLease \<Rightarrow> nat \<Rightarrow> u64 \<Rightarrow> ResourceLeaseRequest \<Rightarrow> lease_outcome \<times> lease_system"
  where
  "try_child sys lease h owner request =
     (if lease_released lease
      then (Refused (acquire_error request zero_capacity (unavailable CapabilityUnavailable)), sys)
      else granted sys h (try_acquire_child (sys_auth sys) (lease_token lease) owner request))"

definition release_as ::
  "lease_system \<Rightarrow> nat \<Rightarrow> ResourceLease \<Rightarrow> u64 \<Rightarrow> lease_outcome \<times> lease_system" where
  "release_as sys h lease owner =
     (if lease_released lease then (Rejected AlreadyReleased, sys)
      else (case release_token (sys_auth sys) (lease_token lease) owner of
          (Inl Panic, s') \<Rightarrow> (Panicked, sys\<lparr>sys_auth := s'\<rparr>)
        | (Inl (Fault e), s') \<Rightarrow> (Rejected e, sys\<lparr>sys_auth := s'\<rparr>)
        | (Inr _, s') \<Rightarrow>
            (Done, sys\<lparr>sys_auth := s', sys_handles :=
               (sys_handles sys)(h \<mapsto> lease\<lparr>lease_released := True\<rparr>)\<rparr>)))"

definition drop_lease :: "lease_system \<Rightarrow> nat \<Rightarrow> ResourceLease \<Rightarrow> lease_outcome \<times> lease_system" where
  "drop_lease sys h lease =
     (let gone = sys\<lparr>sys_handles := (sys_handles sys)(h := None)\<rparr> in
      if lease_released lease then (Done, gone)
      else (case abandon_token (sys_auth sys) (lease_token lease) (tok_owner (lease_token lease)) of
          (Inl Panic, s') \<Rightarrow> (Panicked, gone\<lparr>sys_auth := s'\<rparr>)
        | (_, s') \<Rightarrow> (Done, gone\<lparr>sys_auth := s'\<rparr>)))"

text \<open>
  An action names the handle it works on.  It is enabled when that handle exists, a handle it creates
  is new, and its request was built by \<open>ResourceLeaseRequest::new\<close>.
\<close>

fun lease_enabled :: "lease_action \<Rightarrow> lease_system \<Rightarrow> bool" where
  "lease_enabled (Acquire h owner request) sys \<longleftrightarrow>
     sys_handles sys h = None \<and> req_compute request \<noteq> 0"
| "lease_enabled (TryChild p h owner request) sys \<longleftrightarrow>
     sys_handles sys p \<noteq> None \<and> sys_handles sys h = None \<and> req_compute request \<noteq> 0"
| "lease_enabled (ReleaseAs h owner) sys \<longleftrightarrow> sys_handles sys h \<noteq> None"
| "lease_enabled (Drop h) sys \<longleftrightarrow> sys_handles sys h \<noteq> None"

fun lease_exec :: "lease_action \<Rightarrow> lease_system \<Rightarrow> lease_outcome \<times> lease_system" where
  "lease_exec (Acquire h owner request) sys = granted sys h (try_acquire (sys_auth sys) owner request)"
| "lease_exec (TryChild p h owner request) sys =
     try_child sys (the (sys_handles sys p)) h owner request"
| "lease_exec (ReleaseAs h owner) sys = release_as sys h (the (sys_handles sys h)) owner"
| "lease_exec (Drop h) sys = drop_lease sys h (the (sys_handles sys h))"

definition lease_init :: "ResourceLeaseCapacity \<Rightarrow> u64 \<Rightarrow> lease_system" where
  "lease_init c aid = \<lparr>sys_auth = with_identity_and_epoch c aid 0, sys_handles = Map.empty\<rparr>"

inductive lease_reachable :: "ResourceLeaseCapacity \<Rightarrow> u64 \<Rightarrow> lease_system \<Rightarrow> bool" for c aid where
  init: "lease_reachable c aid (lease_init c aid)"
| step: "lease_reachable c aid sys \<Longrightarrow> lease_enabled a sys \<Longrightarrow>
     lease_reachable c aid (snd (lease_exec a sys))"

section \<open>The forest of allocations\<close>

text \<open>
  The invariant speaks about the map from epochs to tokens only: children and roots of the forest
  and the sums of their grants.  Inserting a token at a free epoch is the one update to analyse;
  deleting is its inverse.
\<close>

type_synonym forest = "u64 \<rightharpoonup> ResourceLeaseToken"

definition tokens :: "AuthorityState \<Rightarrow> forest" where
  "tokens s = (\<lambda>e. map_option al_token (allocations s e))"

definition kids :: "forest \<Rightarrow> u64 option \<Rightarrow> u64 set" where
  "kids T p = {c. \<exists>t. T c = Some t \<and> tok_parent t = p}"

definition grant_sum :: "(ResourceLeaseRequest \<Rightarrow> nat) \<Rightarrow> forest \<Rightarrow> u64 option \<Rightarrow> nat" where
  "grant_sum f T p = (\<Sum>c\<in>kids T p. f (tok_grant (the (T c))))"

abbreviation compute_of :: "ResourceLeaseRequest \<Rightarrow> nat" where
  "compute_of r \<equiv> unat (req_compute r)"

abbreviation memory_of :: "ResourceLeaseRequest \<Rightarrow> nat" where
  "memory_of r \<equiv> unat (req_memory r)"

lemma finite_kids [simp]: "finite (kids T p)"
  by (rule finite_subset [OF subset_UNIV]) simp

lemma kids_insert:
  assumes "T c = None"
  shows "kids (T(c \<mapsto> t)) p = (if tok_parent t = p then insert c (kids T p) else kids T p)"
    and "c \<notin> kids T p"
  using assms by (auto simp: kids_def)

lemma card_kids_insert:
  assumes "T c = None"
  shows "card (kids (T(c \<mapsto> t)) p) = card (kids T p) + (if tok_parent t = p then 1 else 0)"
  using kids_insert(1) [where T = T and c = c and t = t and p = p, OF assms]
    kids_insert(2) [where T = T and c = c and p = p, OF assms]
  by simp

lemma grant_sum_insert:
  assumes "T c = None"
  shows "grant_sum f (T(c \<mapsto> t)) p =
           grant_sum f T p + (if tok_parent t = p then f (tok_grant t) else 0)"
proof -
  have same: "(\<Sum>x\<in>kids T p. f (tok_grant (the ((T(c \<mapsto> t)) x)))) = grant_sum f T p"
    unfolding grant_sum_def
    using kids_insert(2) [where T = T and c = c and p = p, OF assms]
    by (intro sum.cong refl) (metis fun_upd_other)
  have eq: "grant_sum f (T(c \<mapsto> t)) p =
      (\<Sum>x\<in>kids (T(c \<mapsto> t)) p. f (tok_grant (the ((T(c \<mapsto> t)) x))))"
    by (simp only: grant_sum_def)
  show ?thesis
    unfolding eq kids_insert(1) [where T = T and c = c and t = t and p = p, OF assms]
    using kids_insert(2) [where T = T and c = c and p = p, OF assms] same
    by (simp del: fun_upd_apply) simp
qed

lemmas forest_insert = kids_insert card_kids_insert grant_sum_insert

section \<open>The accounting invariant\<close>

text \<open>
  Every entry carries its own epoch, an epoch already issued, a positive grant and a live parent of
  a smaller epoch.  Its child count is the number of its children, and what remains of its grant
  together with the grants of its children is its grant.  A tombstone has children.
\<close>

definition alloc_invar :: "forest \<Rightarrow> u64 \<Rightarrow> u64 \<Rightarrow> u64 \<Rightarrow> Allocation \<Rightarrow> bool" where
  "alloc_invar T n aid e a \<longleftrightarrow>
     tok_epoch (al_token a) = e \<and> tok_authority (al_token a) = aid \<and> e \<le> n \<and>
     req_compute (tok_grant (al_token a)) \<noteq> 0 \<and>
     (\<forall>p. tok_parent (al_token a) = Some p \<longrightarrow> p < e \<and> T p \<noteq> None) \<and>
     unat (al_child_count a) = card (kids T (Some e)) \<and>
     compute_of (al_remaining a) + grant_sum compute_of T (Some e) = compute_of (tok_grant (al_token a)) \<and>
     memory_of (al_remaining a) + grant_sum memory_of T (Some e) = memory_of (tok_grant (al_token a)) \<and>
     (al_release_pending a \<longrightarrow> kids T (Some e) \<noteq> {})"

definition used_invar :: "AuthorityState \<Rightarrow> bool" where
  "used_invar s \<longleftrightarrow>
     compute_of (auth_used s) = grant_sum compute_of (tokens s) None \<and>
     memory_of (auth_used s) = grant_sum memory_of (tokens s) None \<and>
     req_compute (auth_used s) \<le> cap_compute (auth_capacity s) \<and>
     req_memory (auth_used s) \<le> cap_memory (auth_capacity s)"

definition auth_invar :: "AuthorityState \<Rightarrow> bool" where
  "auth_invar s \<longleftrightarrow>
     (\<forall>e a. allocations s e = Some a \<longrightarrow>
        alloc_invar (tokens s) (auth_next_epoch s) (auth_id s) e a) \<and>
     used_invar s"

lemma tokens_apply: "tokens s e = map_option al_token (allocations s e)"
  by (simp add: tokens_def)

lemma tokens_eq_None_iff [simp]: "tokens s e = None \<longleftrightarrow> allocations s e = None"
  by (simp add: tokens_def)

lemma tokens_eq_Some: "allocations s e = Some a \<Longrightarrow> tokens s e = Some (al_token a)"
  by (simp add: tokens_def)

lemma kids_mem: "allocations s e = Some a \<Longrightarrow> e \<in> kids (tokens s) (tok_parent (al_token a))"
  by (auto simp: kids_def tokens_def)

lemma auth_invarD: "auth_invar s \<Longrightarrow> allocations s e = Some a \<Longrightarrow>
    alloc_invar (tokens s) (auth_next_epoch s) (auth_id s) e a"
  by (simp add: auth_invar_def)

lemma ResourceLeaseRequest_eqI:
  "compute_of a = compute_of b \<Longrightarrow> memory_of a = memory_of b \<Longrightarrow> a = (b :: ResourceLeaseRequest)"
  by (auto intro!: ResourceLeaseRequest.equality dest: word_eq_unatI)

lemma no_kids_ready:
  assumes "alloc_invar T n aid e a" "kids T (Some e) = {}"
  shows "ready a"
proof -
  have "grant_sum f T (Some e) = 0" for f using assms(2) by (simp add: grant_sum_def)
  then show ?thesis
    using assms unfolding alloc_invar_def ready_def
    by (auto intro!: ResourceLeaseRequest_eqI simp: unat_eq_zero)
qed

lemma ready_iff: "alloc_invar T n aid e a \<Longrightarrow> ready a \<longleftrightarrow> kids T (Some e) = {}"
  using no_kids_ready by (fastforce simp: ready_def alloc_invar_def)

lemma auth_invar_init: "auth_invar (with_identity_and_epoch c aid e)"
  by (simp add: auth_invar_def used_invar_def with_identity_and_epoch_def tokens_def grant_sum_def
      kids_def)

text \<open>Entries that are not touched keep their invariant when a fresh token is inserted elsewhere.\<close>

lemma alloc_invar_insert_other:
  assumes "alloc_invar T n aid e a" "T c = None" "tok_parent t \<noteq> Some e" "n \<le> n'"
  shows "alloc_invar (T(c \<mapsto> t)) n' aid e a"
  using assms
  by (auto simp: alloc_invar_def forest_insert(1,3,4))

section \<open>Acquisition preserves the invariant\<close>

definition new_alloc :: "ResourceLeaseToken \<Rightarrow> Allocation" where
  "new_alloc t =
     \<lparr>al_token = t, al_remaining = tok_grant t, al_child_count = 0, al_release_pending = False\<rparr>"

lemma next_epoch_eq_Ok_iff:
  "next_epoch s = Ok (e, s1) \<longleftrightarrow>
     unat e = unat (auth_next_epoch s) + 1 \<and> s1 = s\<lparr>auth_next_epoch := e\<rparr>"
proof -
  have "unat e = unat (auth_next_epoch s) + 1 \<longleftrightarrow> checked_add (auth_next_epoch s) 1 = Some e"
    by (simp add: checked_add_eq_Some_iff)
  then show ?thesis by (auto simp: next_epoch_def split: option.splits)
qed

lemma parent_live:
  assumes "auth_invar s" "allocations s c = Some a" "tok_parent (al_token a) = Some p"
  shows "p < c" "allocations s p \<noteq> None"
  using auth_invarD [OF assms(1,2)] assms(3) by (simp_all add: alloc_invar_def)

lemma fresh_epoch:
  assumes "auth_invar s" "auth_next_epoch s < e"
  shows "allocations s e = None" "kids (tokens s) (Some e) = {}"
proof -
  show *: "allocations s e = None"
  proof (rule ccontr)
    assume "allocations s e \<noteq> None"
    then obtain a where "allocations s e = Some a" by blast
    then have "e \<le> auth_next_epoch s" using auth_invarD [OF assms(1)] by (simp add: alloc_invar_def)
    then show False using assms(2) by simp
  qed
  show "kids (tokens s) (Some e) = {}"
  proof (rule ccontr)
    assume "kids (tokens s) (Some e) \<noteq> {}"
    then obtain c a where "allocations s c = Some a" "tok_parent (al_token a) = Some e"
      by (auto simp: kids_def tokens_def)
    then show False using parent_live [OF assms(1)] * by blast
  qed
qed

lemma new_alloc_invar:
  assumes "T c = None" "kids T (Some c) = {}" "tok_epoch t = c" "tok_authority t = aid" "c \<le> n"
    and "req_compute (tok_grant t) \<noteq> 0" "tok_parent t \<noteq> Some c"
    and "\<forall>p. tok_parent t = Some p \<longrightarrow> p < c \<and> T p \<noteq> None"
  shows "alloc_invar (T(c \<mapsto> t)) n aid c (new_alloc t)"
proof -
  have k: "kids (T(c \<mapsto> t)) (Some c) = {}"
    using kids_insert(1) [where T = T and c = c and t = t and p = "Some c", OF assms(1)] assms(2,7)
    by simp
  then show ?thesis
    using assms unfolding alloc_invar_def
    by (auto simp: new_alloc_def grant_sum_def)
qed

lemma auth_available_Ok:
  assumes "auth_invar s"
  shows "auth_available s =
    Ok \<lparr>cap_compute = cap_compute (auth_capacity s) - req_compute (auth_used s),
        cap_memory = cap_memory (auth_capacity s) - req_memory (auth_used s)\<rparr>"
  using assms by (simp add: auth_invar_def used_invar_def auth_available_def checked_sub_def)

lemma fits_available_iff:
  assumes "auth_invar s"
  shows "fits r \<lparr>cap_compute = cap_compute (auth_capacity s) - req_compute (auth_used s),
                 cap_memory = cap_memory (auth_capacity s) - req_memory (auth_used s)\<rparr> \<longleftrightarrow>
    compute_of (auth_used s) + compute_of r \<le> unat (cap_compute (auth_capacity s)) \<and>
    memory_of (auth_used s) + memory_of r \<le> unat (cap_memory (auth_capacity s))"
proof -
  have "req_compute (auth_used s) \<le> cap_compute (auth_capacity s)"
    "req_memory (auth_used s) \<le> cap_memory (auth_capacity s)"
    using assms by (simp_all add: auth_invar_def used_invar_def)
  then show ?thesis by (auto simp: fits_def word_le_nat_alt unat_sub)
qed

text \<open>The value of \<open>try_acquire\<close> on a consistent authority: three refusals, or the new root.\<close>

definition acquire_state :: "AuthorityState \<Rightarrow> ResourceLeaseToken \<Rightarrow> AuthorityState" where
  "acquire_state s t =
     s\<lparr>auth_next_epoch := tok_epoch t,
       auth_used := \<lparr>req_compute = req_compute (auth_used s) + req_compute (tok_grant t),
                     req_memory = req_memory (auth_used s) + req_memory (tok_grant t)\<rparr>,
       allocations := (allocations s)(tok_epoch t \<mapsto> new_alloc t)\<rparr>"

lemma try_acquire_cases:
  assumes inv: "auth_invar s"
  obtains (refused) e where "try_acquire s owner r = Err (Fault e)"
  | (granted) t where "try_acquire s owner r = Ok (t, acquire_state s t)"
      "unat (tok_epoch t) = unat (auth_next_epoch s) + 1" "tok_authority t = auth_id s"
      "tok_owner t = owner" "tok_parent t = None" "tok_grant t = r"
      "compute_of (auth_used s) + compute_of r \<le> unat (cap_compute (auth_capacity s))"
      "memory_of (auth_used s) + memory_of r \<le> unat (cap_memory (auth_capacity s))"
proof -
  let ?avail = "\<lparr>cap_compute = cap_compute (auth_capacity s) - req_compute (auth_used s),
                 cap_memory = cap_memory (auth_capacity s) - req_memory (auth_used s)\<rparr>"
  note av = auth_available_Ok [OF inv]
  show thesis
  proof (cases "fits r (auth_capacity s) \<and> fits r ?avail")
    case False
    then have "\<exists>e. try_acquire s owner r = Err (Fault e)"
      by (auto simp: try_acquire_def av)
    then show ?thesis using refused by blast
  next
    case fit: True
    show ?thesis
    proof (cases "next_epoch s")
      case (Inl a)
      then have "\<exists>e. try_acquire s owner r = Err (Fault e)"
        using fit by (simp add: try_acquire_def av)
      then show ?thesis using refused by blast
    next
      case (Inr x)
      then obtain e where e: "next_epoch s = Ok (e, s\<lparr>auth_next_epoch := e\<rparr>)"
        "unat e = unat (auth_next_epoch s) + 1"
        by (cases x) (simp add: next_epoch_eq_Ok_iff)
      define t where "t = \<lparr>tok_authority = auth_id s, tok_epoch = e, tok_owner = owner,
                            tok_parent = None, tok_grant = r\<rparr>"
      note room = fit [THEN conjunct2, unfolded fits_available_iff [OF inv]]
      have "checked_add (req_compute (auth_used s)) (req_compute r) =
          Some (req_compute (auth_used s) + req_compute r)"
        "checked_add (req_memory (auth_used s)) (req_memory r) =
          Some (req_memory (auth_used s) + req_memory r)"
        using room unat_lt2p [of "cap_compute (auth_capacity s)"]
          unat_lt2p [of "cap_memory (auth_capacity s)"]
        by (auto simp: checked_add_def)
      then have "try_acquire s owner r = Ok (t, acquire_state s t)"
        using fit e(1) by (simp add: try_acquire_def av t_def acquire_state_def new_alloc_def Let_def)
      then show ?thesis using granted e(2) room by (simp add: t_def)
    qed
  qed
qed

lemma tokens_upd:
  "tokens (s\<lparr>auth_next_epoch := n, auth_used := u, allocations := A\<rparr>) = (\<lambda>e. map_option al_token (A e))"
  "tokens (s\<lparr>auth_next_epoch := n, allocations := A\<rparr>) = (\<lambda>e. map_option al_token (A e))"
  "tokens (s\<lparr>allocations := A, auth_used := u\<rparr>) = (\<lambda>e. map_option al_token (A e))"
  "tokens (s\<lparr>allocations := A\<rparr>) = (\<lambda>e. map_option al_token (A e))"
  by (simp_all add: tokens_def)

lemma tokens_acquire: "tokens (acquire_state s t) = (tokens s)(tok_epoch t \<mapsto> t)"
  by (auto simp: acquire_state_def tokens_def new_alloc_def fun_eq_iff)

lemma epoch_advances: "unat e = unat n + 1 \<Longrightarrow> n < (e :: u64)"
  by (simp add: word_less_nat_alt)

lemma acquire_state_invar:
  assumes inv: "auth_invar s" and e: "unat (tok_epoch t) = unat (auth_next_epoch s) + 1"
    and t: "tok_authority t = auth_id s" "tok_parent t = None" "req_compute (tok_grant t) \<noteq> 0"
    and room: "compute_of (auth_used s) + compute_of (tok_grant t) \<le> unat (cap_compute (auth_capacity s))"
      "memory_of (auth_used s) + memory_of (tok_grant t) \<le> unat (cap_memory (auth_capacity s))"
  shows "auth_invar (acquire_state s t)"
proof -
  let ?e = "tok_epoch t" and ?s = "acquire_state s t"
  note lt = epoch_advances [OF e] and fresh = fresh_epoch [OF inv epoch_advances [OF e]]
  have T: "tokens s ?e = None" using fresh(1) by simp
  have "alloc_invar (tokens ?s) (auth_next_epoch ?s) (auth_id ?s) c a"
    if a: "allocations ?s c = Some a" for c a
  proof (cases "c = ?e")
    case True
    then have "a = new_alloc t" using a by (simp add: acquire_state_def)
    moreover have "alloc_invar ((tokens s)(?e \<mapsto> t)) ?e (auth_id s) ?e (new_alloc t)"
      using T fresh(2) t by (intro new_alloc_invar) simp_all
    ultimately show ?thesis using True by (simp add: tokens_acquire) (simp add: acquire_state_def)
  next
    case False
    then have "allocations s c = Some a" using a by (simp add: acquire_state_def)
    then have "alloc_invar ((tokens s)(?e \<mapsto> t)) ?e (auth_id s) c a"
      using auth_invarD [OF inv] T t(2) lt by (intro alloc_invar_insert_other) auto
    then show ?thesis by (simp add: tokens_acquire) (simp add: acquire_state_def)
  qed
  moreover have "used_invar ?s"
  proof -
    have "compute_of (auth_used s) + compute_of (tok_grant t) < 2 ^ 32"
      "memory_of (auth_used s) + memory_of (tok_grant t) < 2 ^ 64"
      using room unat_lt2p [of "cap_compute (auth_capacity s)"]
        unat_lt2p [of "cap_memory (auth_capacity s)"] by simp_all
    then have "unat (req_compute (auth_used s) + req_compute (tok_grant t)) =
        compute_of (auth_used s) + compute_of (tok_grant t)"
      "unat (req_memory (auth_used s) + req_memory (tok_grant t)) =
        memory_of (auth_used s) + memory_of (tok_grant t)"
      by (simp_all add: unat_word_ariths)
    moreover have "grant_sum f (tokens ?s) None = grant_sum f (tokens s) None + f (tok_grant t)" for f
      unfolding tokens_acquire
      using grant_sum_insert [where T = "tokens s" and c = ?e and t = t and p = None, OF T] t(2)
      by simp
    ultimately show ?thesis using inv room
      by (simp add: used_invar_def auth_invar_def acquire_state_def word_le_nat_alt)
  qed
  ultimately show ?thesis by (simp add: auth_invar_def)
qed

definition debit_parent :: "ResourceLeaseRequest \<Rightarrow> Allocation \<Rightarrow> Allocation" where
  "debit_parent g p =
     p\<lparr>al_remaining := \<lparr>req_compute = req_compute (al_remaining p) - req_compute g,
                        req_memory = req_memory (al_remaining p) - req_memory g\<rparr>,
       al_child_count := al_child_count p + 1\<rparr>"

definition child_state ::
  "AuthorityState \<Rightarrow> ResourceLeaseToken \<Rightarrow> u64 \<Rightarrow> Allocation \<Rightarrow> AuthorityState" where
  "child_state s t pe p =
     s\<lparr>auth_next_epoch := tok_epoch t,
       allocations := (allocations s)(pe \<mapsto> debit_parent (tok_grant t) p, tok_epoch t \<mapsto> new_alloc t)\<rparr>"

lemma card_kids_le:
  assumes "auth_invar s"
  shows "card (kids (tokens s) p) \<le> grant_sum compute_of (tokens s) p"
proof -
  have "1 \<le> compute_of (tok_grant (the (tokens s c)))" if c: "c \<in> kids (tokens s) p" for c
  proof -
    obtain a where "allocations s c = Some a" using c by (auto simp: kids_def tokens_def)
    moreover from this have "req_compute (tok_grant (al_token a)) \<noteq> 0"
      using auth_invarD [OF assms] by (simp add: alloc_invar_def)
    ultimately show ?thesis by (simp add: tokens_def unat_gt_0 Suc_le_eq)
  qed
  then have "(\<Sum>c\<in>kids (tokens s) p. 1) \<le> grant_sum compute_of (tokens s) p"
    unfolding grant_sum_def by (intro sum_mono) simp
  then show ?thesis by simp
qed

lemma child_count_room:
  assumes "auth_invar s" "allocations s e = Some p" "0 < compute_of (al_remaining p)"
  shows "unat (al_child_count p) + 1 < 2 ^ 32"
proof -
  have "unat (al_child_count p) + compute_of (al_remaining p) \<le> compute_of (tok_grant (al_token p))"
    using auth_invarD [OF assms(1,2)] card_kids_le [OF assms(1), of "Some e"]
    by (simp add: alloc_invar_def)
  then show ?thesis using assms(3) unat_lt2p [of "req_compute (tok_grant (al_token p))"] by simp
qed

lemma try_acquire_child_cases:
  assumes inv: "auth_invar s" and r: "req_compute r \<noteq> 0"
    and live: "tok_authority parent = auth_id s" "allocations s (tok_epoch parent) = Some p"
      "al_token p = parent"
  obtains (refused) e where "try_acquire_child s parent owner r = Err (Fault e)"
  | (granted) t where
      "try_acquire_child s parent owner r = Ok (t, child_state s t (tok_epoch parent) p)"
      "unat (tok_epoch t) = unat (auth_next_epoch s) + 1" "tok_authority t = auth_id s"
      "tok_owner t = owner" "tok_parent t = Some (tok_epoch parent)" "tok_grant t = r"
      "compute_of r \<le> compute_of (al_remaining p)" "memory_of r \<le> memory_of (al_remaining p)"
proof -
  let ?pc = "\<lparr>cap_compute = req_compute (tok_grant parent), cap_memory = req_memory (tok_grant parent)\<rparr>"
  let ?rc = "\<lparr>cap_compute = req_compute (al_remaining p), cap_memory = req_memory (al_remaining p)\<rparr>"
  show thesis
  proof (cases "fits r ?pc \<and> fits r ?rc")
    case False
    then have "\<exists>e. try_acquire_child s parent owner r = Err (Fault e)"
      by (auto simp: try_acquire_child_def live Let_def)
    then show ?thesis using refused by blast
  next
    case fit: True
    show ?thesis
    proof (cases "next_epoch s")
      case (Inl a)
      then have "\<exists>e. try_acquire_child s parent owner r = Err (Fault e)"
        using fit by (simp add: try_acquire_child_def live Let_def)
      then show ?thesis using refused by blast
    next
      case (Inr x)
      then obtain e where e: "next_epoch s = Ok (e, s\<lparr>auth_next_epoch := e\<rparr>)"
        "unat e = unat (auth_next_epoch s) + 1"
        by (cases x) (simp add: next_epoch_eq_Ok_iff)
      define t where "t = \<lparr>tok_authority = auth_id s, tok_epoch = e, tok_owner = owner,
                            tok_parent = Some (tok_epoch parent), tok_grant = r\<rparr>"
      have room: "compute_of r \<le> compute_of (al_remaining p)" "memory_of r \<le> memory_of (al_remaining p)"
        using fit by (simp_all add: fits_def word_le_nat_alt)
      have "0 < compute_of r" using r by (simp add: unat_gt_0)
      then have "0 < compute_of (al_remaining p)" using room(1) by simp
      then have "checked_add (al_child_count p) 1 = Some (al_child_count p + 1)"
        using child_count_room [OF inv live(2)] by (simp add: checked_add_def)
      then have "try_acquire_child s parent owner r = Ok (t, child_state s t (tok_epoch parent) p)"
        using fit e(1)
        by (simp add: try_acquire_child_def live Let_def t_def child_state_def debit_parent_def
            new_alloc_def)
      then show ?thesis using granted e(2) room by (simp add: t_def)
    qed
  qed
qed

lemma tokens_child:
  assumes "allocations s pe = Some p" "pe \<noteq> tok_epoch t"
  shows "tokens (child_state s t pe p) = (tokens s)(tok_epoch t \<mapsto> t)"
  using assms by (auto simp: child_state_def tokens_def new_alloc_def debit_parent_def fun_eq_iff)

lemma child_state_invar:
  assumes inv: "auth_invar s" and e: "unat (tok_epoch t) = unat (auth_next_epoch s) + 1"
    and p: "allocations s pe = Some p"
    and t: "tok_authority t = auth_id s" "tok_parent t = Some pe" "req_compute (tok_grant t) \<noteq> 0"
    and room: "compute_of (tok_grant t) \<le> compute_of (al_remaining p)"
      "memory_of (tok_grant t) \<le> memory_of (al_remaining p)"
  shows "auth_invar (child_state s t pe p)"
proof -
  let ?e = "tok_epoch t" and ?s = "child_state s t pe p"
  note lt = epoch_advances [OF e] and fresh = fresh_epoch [OF inv epoch_advances [OF e]]
  have T: "tokens s ?e = None" using fresh(1) by simp
  note pinv = auth_invarD [OF inv p]
  have "pe \<le> auth_next_epoch s" using pinv by (simp add: alloc_invar_def)
  then have ne: "pe \<noteq> ?e" and pe: "pe < ?e" using lt by auto
  note tok = tokens_child [OF p ne] and ins = forest_insert(1,3,4) [where T = "tokens s", OF T]
  have pos: "0 < compute_of (al_remaining p)" using room(1) t(3) by (metis unat_gt_0 order_less_le_trans)
  have parent: "alloc_invar ((tokens s)(?e \<mapsto> t)) ?e (auth_id s) pe (debit_parent (tok_grant t) p)"
  proof -
    have "unat (al_child_count p + 1) = unat (al_child_count p) + 1"
      using child_count_room [OF inv p pos] by (simp add: unat_word_ariths)
    moreover have "tok_epoch (al_token p) \<le> ?e" using pinv lt by (auto simp: alloc_invar_def)
    moreover have "kids ((tokens s)(?e \<mapsto> t)) (Some pe) \<noteq> {}" using t(2) by (simp add: ins(1))
    ultimately show ?thesis
      using pinv room t(2) pos
      by (auto simp: alloc_invar_def debit_parent_def ins(2,3) unat_sub word_le_nat_alt tokens_eq_Some)
  qed
  have "alloc_invar (tokens ?s) (auth_next_epoch ?s) (auth_id ?s) c a"
    if a: "allocations ?s c = Some a" for c a
  proof -
    consider "c = ?e" | "c = pe" | "c \<noteq> ?e" "c \<noteq> pe" by blast
    then have "alloc_invar ((tokens s)(?e \<mapsto> t)) ?e (auth_id s) c a"
    proof cases
      case 1
      then have "a = new_alloc t" using a by (simp add: child_state_def)
      then show ?thesis using 1 T fresh(2) t pe p
        by (auto intro!: new_alloc_invar simp: tokens_eq_Some)
    next
      case 2
      then show ?thesis using a ne parent by (simp add: child_state_def)
    next
      case 3
      then have "allocations s c = Some a" using a by (simp add: child_state_def)
      then show ?thesis
        using auth_invarD [OF inv] T t(2) lt 3 by (intro alloc_invar_insert_other) auto
    qed
    then show ?thesis unfolding tok by (simp add: child_state_def)
  qed
  moreover have "grant_sum f (tokens ?s) None = grant_sum f (tokens s) None" for f
    unfolding tok by (simp add: ins t(2))
  ultimately show ?thesis
    using inv by (simp add: auth_invar_def used_invar_def) (simp add: child_state_def)
qed

section \<open>Release preserves the invariant\<close>

text \<open>
  While a release cascades, the entry it has reached may be a tombstone that has just lost its last
  child: the invariant holds up to the tombstone clause of that one entry.
\<close>

definition auth_invar_upto :: "u64 \<Rightarrow> AuthorityState \<Rightarrow> bool" where
  "auth_invar_upto x s \<longleftrightarrow>
     (\<forall>e a. allocations s e = Some a \<longrightarrow>
        alloc_invar (tokens s) (auth_next_epoch s) (auth_id s) e
          (if e = x then a\<lparr>al_release_pending := False\<rparr> else a)) \<and>
     used_invar s"

lemma alloc_invar_unpend: "alloc_invar T n aid e a \<Longrightarrow> alloc_invar T n aid e (a\<lparr>al_release_pending := False\<rparr>)"
  by (simp add: alloc_invar_def)

lemma auth_invar_weaken: "auth_invar s \<Longrightarrow> auth_invar_upto x s"
  using alloc_invar_unpend by (auto simp: auth_invar_def auth_invar_upto_def)

lemma auth_invar_uptoD:
  assumes "auth_invar_upto x s"
  shows "allocations s x = Some a \<Longrightarrow>
      alloc_invar (tokens s) (auth_next_epoch s) (auth_id s) x (a\<lparr>al_release_pending := False\<rparr>)"
    and "allocations s e = Some a \<Longrightarrow> e \<noteq> x \<Longrightarrow>
      alloc_invar (tokens s) (auth_next_epoch s) (auth_id s) e a"
    and "used_invar s"
proof -
  have *: "alloc_invar (tokens s) (auth_next_epoch s) (auth_id s) e
      (if e = x then a\<lparr>al_release_pending := False\<rparr> else a)" if "allocations s e = Some a" for e a
    using assms that by (simp only: auth_invar_upto_def)
  show "allocations s x = Some a \<Longrightarrow>
      alloc_invar (tokens s) (auth_next_epoch s) (auth_id s) x (a\<lparr>al_release_pending := False\<rparr>)"
    using * [of x a] by simp
  show "allocations s e = Some a \<Longrightarrow> e \<noteq> x \<Longrightarrow>
      alloc_invar (tokens s) (auth_next_epoch s) (auth_id s) e a"
    using * [of e a] by simp
  show "used_invar s" using assms by (simp add: auth_invar_upto_def)
qed

lemma auth_invar_strengthen:
  assumes inv: "auth_invar_upto x s" and x: "allocations s x = Some p" "\<not> (al_release_pending p \<and> ready p)"
  shows "auth_invar s"
proof -
  have px: "alloc_invar (tokens s) (auth_next_epoch s) (auth_id s) x (p\<lparr>al_release_pending := False\<rparr>)"
    by (rule auth_invar_uptoD(1) [OF inv x(1)])
  then have "alloc_invar (tokens s) (auth_next_epoch s) (auth_id s) x p"
    using x(2) ready_iff [OF px] by (auto simp: alloc_invar_def ready_def)
  then have "alloc_invar (tokens s) (auth_next_epoch s) (auth_id s) e a" if "allocations s e = Some a" for e a
    using auth_invar_uptoD(2) [OF inv that] that x(1) by (cases "e = x") auto
  then show ?thesis using auth_invar_uptoD(3) [OF inv] by (simp add: auth_invar_def)
qed

text \<open>Deleting a token, read off the insertion lemmas.\<close>

lemma forest_delete:
  assumes "T e = Some t"
  shows "kids (T(e := None)) p = kids T p - {e}"
    and "card (kids T p) = card (kids (T(e := None)) p) + (if tok_parent t = p then 1 else 0)"
    and "grant_sum f T p = grant_sum f (T(e := None)) p + (if tok_parent t = p then f (tok_grant t) else 0)"
proof -
  have eq: "(T(e := None))(e \<mapsto> t) = T" using assms by auto
  show "kids (T(e := None)) p = kids T p - {e}" by (auto simp: kids_def)
  show "card (kids T p) = card (kids (T(e := None)) p) + (if tok_parent t = p then 1 else 0)"
    using card_kids_insert [where T = "T(e := None)" and c = e and t = t and p = p] by (simp only: eq) simp
  show "grant_sum f T p = grant_sum f (T(e := None)) p + (if tok_parent t = p then f (tok_grant t) else 0)"
    using grant_sum_insert [where T = "T(e := None)" and c = e and t = t and p = p and f = f]
    by (simp only: eq) simp
qed

lemma alloc_invar_delete_other:
  assumes "alloc_invar T n aid c b" "T e = Some t" "kids T (Some e) = {}" "tok_parent t \<noteq> Some c" "c \<noteq> e"
    "T c = Some (al_token b)"
  shows "alloc_invar (T(e := None)) n aid c b"
proof -
  have "kids (T(e := None)) (Some c) = kids T (Some c)"
    using assms(2,4) by (auto simp: kids_def)
  moreover have "grant_sum f (T(e := None)) (Some c) = grant_sum f T (Some c)" for f
    using forest_delete(3) [where T = T and e = e and t = t and f = f and p = "Some c", OF assms(2)]
      assms(4) by simp
  moreover have "tok_parent (al_token b) \<noteq> Some e" using assms(3,6) by (auto simp: kids_def)
  ultimately show ?thesis using assms(1) by (auto simp: alloc_invar_def)
qed

definition live :: "AuthorityState \<Rightarrow> forest" where
  "live s = (\<lambda>e. case allocations s e of
     None \<Rightarrow> None | Some a \<Rightarrow> if al_release_pending a then None else Some (al_token a))"

lemma live_eq_Some_iff:
  "live s e = Some t \<longleftrightarrow> (\<exists>a. allocations s e = Some a \<and> \<not> al_release_pending a \<and> al_token a = t)"
  by (auto simp: live_def split: option.splits)

definition drop_root :: "AuthorityState \<Rightarrow> u64 \<Rightarrow> Allocation \<Rightarrow> AuthorityState" where
  "drop_root s e a =
     s\<lparr>allocations := (allocations s)(e := None),
       auth_used := \<lparr>req_compute = req_compute (auth_used s) - req_compute (tok_grant (al_token a)),
                     req_memory = req_memory (auth_used s) - req_memory (tok_grant (al_token a))\<rparr>\<rparr>"

definition drop_child :: "AuthorityState \<Rightarrow> u64 \<Rightarrow> u64 \<Rightarrow> Allocation \<Rightarrow> AuthorityState" where
  "drop_child s e pe p' = s\<lparr>allocations := (allocations s)(e := None, pe \<mapsto> p')\<rparr>"

lemma tokens_drop_root: "tokens (drop_root s e a) = (tokens s)(e := None)"
  by (auto simp: tokens_def drop_root_def)

lemma tokens_drop_child:
  assumes "allocations s pe = Some p" "al_token p' = al_token p" "pe \<noteq> e"
  shows "tokens (drop_child s e pe p') = (tokens s)(e := None)"
  using assms by (auto simp: tokens_def drop_child_def fun_eq_iff)

text \<open>The facts a leaf of the forest has while it is released.\<close>

lemma leafD:
  assumes inv: "auth_invar_upto e s" and a: "allocations s e = Some a" "ready a"
  shows "tokens s e = Some (al_token a)" "kids (tokens s) (Some e) = {}"
    and "tok_parent (al_token a) = Some p \<Longrightarrow> p < e \<and> allocations s p \<noteq> None"
proof -
  note i = auth_invar_uptoD(1) [OF inv a(1)]
  show "tokens s e = Some (al_token a)" using a(1) by (simp add: tokens_eq_Some)
  show "kids (tokens s) (Some e) = {}" using ready_iff [OF i] a(2) by (simp add: ready_def)
  show "tok_parent (al_token a) = Some p \<Longrightarrow> p < e \<and> allocations s p \<noteq> None"
    using i by (simp add: alloc_invar_def)
qed

lemma release_root:
  assumes inv: "auth_invar_upto e s" and a: "allocations s e = Some a" "ready a"
    and root: "tok_parent (al_token a) = None"
  shows "release_ready_allocation s e = (Ok (), drop_root s e a)" "auth_invar (drop_root s e a)"
proof -
  let ?T = "tokens s" and ?g = "tok_grant (al_token a)" and ?s = "drop_root s e a"
  note leaf = leafD(1,2) [OF inv a] and u = auth_invar_uptoD(3) [OF inv]
  have sum: "grant_sum f ?T None = grant_sum f (?T(e := None)) None + f ?g" for f
    using forest_delete(3) [where T = ?T and e = e and f = f and p = None, OF leaf(1)] root by simp
  then have le: "req_compute ?g \<le> req_compute (auth_used s)" "req_memory ?g \<le> req_memory (auth_used s)"
    using u by (simp_all add: used_invar_def word_le_nat_alt)
  then show "release_ready_allocation s e = (Ok (), drop_root s e a)"
    using a root by (simp add: checked_sub_def drop_root_def)
  have "alloc_invar (tokens ?s) (auth_next_epoch s) (auth_id s) c b" if b: "allocations ?s c = Some b" for c b
  proof -
    have c: "c \<noteq> e" "allocations s c = Some b" using b by (auto simp: drop_root_def split: if_splits)
    show ?thesis
      unfolding tokens_drop_root
      using auth_invar_uptoD(2) [OF inv c(2,1)] leaf root c
      by (intro alloc_invar_delete_other) (auto simp: tokens_eq_Some)
  qed
  moreover have "used_invar ?s"
    using u sum le unfolding used_invar_def tokens_drop_root
    by (auto simp: drop_root_def unat_sub word_le_nat_alt)
  ultimately show "auth_invar ?s" by (auto simp: auth_invar_def drop_root_def)
qed

lemma credit_parent_ok:
  assumes inv: "alloc_invar T n aid pe p" and c: "T e = Some t" "tok_parent t = Some pe"
  obtains p' where "credit_parent (tok_grant t) p = Some p'" "al_token p' = al_token p"
    "al_release_pending p' = al_release_pending p"
    "unat (al_child_count p') + 1 = unat (al_child_count p)"
    "compute_of (al_remaining p') = compute_of (al_remaining p) + compute_of (tok_grant t)"
    "memory_of (al_remaining p') = memory_of (al_remaining p) + memory_of (tok_grant t)"
proof -
  let ?g = "tok_grant t" and ?r = "al_remaining p" and ?G = "tok_grant (al_token p)"
  have sum: "f ?g \<le> grant_sum f T (Some pe)" for f
    using forest_delete(3) [where T = T and e = e and t = t and f = f and p = "Some pe", OF c(1)] c(2) by simp
  have le: "compute_of ?r + compute_of ?g \<le> compute_of ?G" "memory_of ?r + memory_of ?g \<le> memory_of ?G"
    using inv sum [of compute_of] sum [of memory_of] by (simp_all add: alloc_invar_def)
  have "1 \<le> unat (al_child_count p)"
    using inv forest_delete(2) [where T = T and e = e and t = t and p = "Some pe", OF c(1)] c(2)
    by (simp add: alloc_invar_def)
  then have n: "checked_sub (al_child_count p) 1 = Some (al_child_count p - 1)"
    "unat (al_child_count p - 1) + 1 = unat (al_child_count p)"
    by (simp_all add: checked_sub_def word_le_nat_alt unat_sub)
  have fit: "unat (req_compute ?r + req_compute ?g) = compute_of ?r + compute_of ?g"
    "unat (req_memory ?r + req_memory ?g) = memory_of ?r + memory_of ?g"
    using le unat_lt2p [of "req_compute ?G"] unat_lt2p [of "req_memory ?G"]
    by (simp_all add: unat_word_ariths)
  have ck: "checked_add (req_compute ?r) (req_compute ?g) = Some (req_compute ?r + req_compute ?g)"
    "checked_add (req_memory ?r) (req_memory ?g) = Some (req_memory ?r + req_memory ?g)"
    using le unat_lt2p [of "req_compute ?G"] unat_lt2p [of "req_memory ?G"]
    by (simp_all add: checked_add_def)
  show thesis
    by (rule that [of "p\<lparr>al_remaining := \<lparr>req_compute = req_compute ?r + req_compute ?g,
          req_memory = req_memory ?r + req_memory ?g\<rparr>, al_child_count := al_child_count p - 1\<rparr>"])
      (use n ck fit le in \<open>auto simp: credit_parent_def word_less_nat_alt\<close>)
qed

lemma release_child:
  assumes inv: "auth_invar_upto e s" and a: "allocations s e = Some a" "ready a"
    and pe: "tok_parent (al_token a) = Some pe"
  obtains p p' where "allocations s pe = Some p" "pe \<noteq> e"
    "credit_parent (tok_grant (al_token a)) p = Some p'" "al_token p' = al_token p"
    "al_release_pending p' = al_release_pending p" "auth_invar_upto pe (drop_child s e pe p')"
proof -
  let ?T = "tokens s" and ?t = "al_token a"
  note leaf = leafD(1,2) [OF inv a] and par = leafD(3) [OF inv a pe]
  obtain p where p: "allocations s pe = Some p" and ne: "pe \<noteq> e" using par by auto
  note pinv = auth_invar_uptoD(2) [OF inv p ne]
  obtain p' where p': "credit_parent (tok_grant ?t) p = Some p'" "al_token p' = al_token p"
    "al_release_pending p' = al_release_pending p"
    "unat (al_child_count p') + 1 = unat (al_child_count p)"
    "compute_of (al_remaining p') = compute_of (al_remaining p) + compute_of (tok_grant ?t)"
    "memory_of (al_remaining p') = memory_of (al_remaining p) + memory_of (tok_grant ?t)"
    using credit_parent_ok [OF pinv leaf(1) pe] by blast
  let ?s = "drop_child s e pe p'"
  note tok = tokens_drop_child [OF p p'(2) ne]
  note del = forest_delete(2,3) [where T = ?T and e = e and p = "Some pe", OF leaf(1)]
  have "tok_parent (al_token p) \<noteq> Some e" using leaf(2) p by (auto simp: kids_def tokens_def)
  then have "\<forall>q. tok_parent (al_token p) = Some q \<longrightarrow> q < pe \<and> (?T(e := None)) q \<noteq> None"
    using pinv by (auto simp: alloc_invar_def tokens_apply)
  then have parent: "alloc_invar (?T(e := None)) (auth_next_epoch s) (auth_id s) pe
      (p'\<lparr>al_release_pending := False\<rparr>)"
    using pinv p' pe del(1) del(2) [of compute_of] del(2) [of memory_of]
    by (simp add: alloc_invar_def del: fun_upd_apply)
  have "alloc_invar (tokens ?s) (auth_next_epoch ?s) (auth_id ?s) c
      (if c = pe then b\<lparr>al_release_pending := False\<rparr> else b)" if b: "allocations ?s c = Some b" for c b
  proof (cases "c = pe")
    case True
    then have "b = p'" using b by (simp add: drop_child_def)
    then show ?thesis using True parent by (simp add: tok) (simp add: drop_child_def)
  next
    case False
    then have c: "c \<noteq> e" "allocations s c = Some b" using b by (auto simp: drop_child_def split: if_splits)
    have "alloc_invar (?T(e := None)) (auth_next_epoch s) (auth_id s) c b"
      using auth_invar_uptoD(2) [OF inv c(2,1)] leaf pe False c
      by (intro alloc_invar_delete_other) (auto simp: tokens_eq_Some)
    then show ?thesis using False by (simp add: tok) (simp add: drop_child_def)
  qed
  moreover have "used_invar ?s"
    using auth_invar_uptoD(3) [OF inv]
      forest_delete(3) [where T = ?T and e = e and p = None, OF leaf(1)] pe
    unfolding used_invar_def tok by (auto simp: drop_child_def)
  ultimately have "auth_invar_upto pe ?s" by (auto simp: auth_invar_upto_def)
  then show thesis using that [OF p ne p'(1-3)] by blast
qed

definition same_authority :: "AuthorityState \<Rightarrow> AuthorityState \<Rightarrow> bool" where
  "same_authority s s' \<longleftrightarrow> auth_id s' = auth_id s \<and> auth_capacity s' = auth_capacity s \<and>
     auth_next_epoch s' = auth_next_epoch s"

lemma release_cascade:
  assumes "auth_invar_upto e s" "allocations s e = Some a" "ready a"
  shows "fst (release_ready_allocation s e) = Ok () \<and>
    auth_invar (snd (release_ready_allocation s e)) \<and>
    live (snd (release_ready_allocation s e)) = (live s)(e := None) \<and>
    same_authority s (snd (release_ready_allocation s e))"
  using assms
proof (induction s e arbitrary: a rule: release_ready_allocation.induct)
  case (1 s e)
  note inv = 1(2) and a = 1(3,4)
  show ?case
  proof (cases "tok_parent (al_token a)")
    case None
    note r = release_root [OF inv a None]
    show ?thesis using r by (auto simp: live_def drop_root_def same_authority_def)
  next
    case (Some pe)
    obtain p p' where p: "allocations s pe = Some p" "pe \<noteq> e"
      "credit_parent (tok_grant (al_token a)) p = Some p'" "al_token p' = al_token p"
      "al_release_pending p' = al_release_pending p" "auth_invar_upto pe (drop_child s e pe p')"
      using release_child [OF inv a Some] by blast
    let ?s = "drop_child s e pe p'"
    have same: "same_authority s ?s" by (simp add: same_authority_def drop_child_def)
    have live: "live ?s = (live s)(e := None)"
      using p(1,2,4,5) by (auto simp: live_def drop_child_def fun_eq_iff)
    have at: "allocations ?s pe = Some p'" by (simp add: drop_child_def)
    have eq: "release_ready_allocation s e =
        (if al_release_pending p' \<and> ready p' then release_ready_allocation ?s pe else (Ok (), ?s))"
      using a Some p(1-3) by (subst release_ready_allocation.simps) (simp add: drop_child_def Let_def)
    show ?thesis
    proof (cases "al_release_pending p' \<and> ready p'")
      case True
      have "live ?s pe = None" using True at by (simp add: live_def)
      then have "(live ?s)(pe := None) = (live s)(e := None)" using live by (metis fun_upd_triv)
      moreover have "\<not> \<not> ready a" using a(2) by simp
      note ih = 1(1) [OF a(1) this Some p(1,3,2) drop_child_def True p(6) at conjunct2 [OF True]]
      ultimately show ?thesis
        unfolding eq if_P [OF True] using ih same by (simp add: same_authority_def)
    next
      case False
      then show ?thesis using auth_invar_strengthen [OF p(6) at False] live same eq by auto
    qed
  qed
qed

section \<open>The system of handles\<close>

definition open_tokens :: "lease_system \<Rightarrow> nat \<rightharpoonup> ResourceLeaseToken" where
  "open_tokens sys = (\<lambda>h. case sys_handles sys h of
     None \<Rightarrow> None | Some l \<Rightarrow> if lease_released l then None else Some (lease_token l))"

text \<open>
  The entries of the authority that are not tombstones are exactly the tokens of the handles that
  have not been released, one handle for each.
\<close>

definition handles_invar :: "forest \<Rightarrow> (nat \<rightharpoonup> ResourceLeaseToken) \<Rightarrow> bool" where
  "handles_invar L H \<longleftrightarrow>
     (\<forall>e t. L e = Some t \<longleftrightarrow> tok_epoch t = e \<and> (\<exists>h. H h = Some t)) \<and>
     (\<forall>h h' t. H h = Some t \<longrightarrow> H h' = Some t \<longrightarrow> h = h')"

definition sys_invar :: "lease_system \<Rightarrow> bool" where
  "sys_invar sys \<longleftrightarrow> auth_invar (sys_auth sys) \<and> handles_invar (live (sys_auth sys)) (open_tokens sys)"

lemma handles_invar_open:
  assumes "handles_invar L H" "H h = None" "L (tok_epoch t) = None"
  shows "handles_invar (L(tok_epoch t \<mapsto> t)) (H(h \<mapsto> t))"
proof -
  have L: "L e = Some u \<longleftrightarrow> tok_epoch u = e \<and> (\<exists>h. H h = Some u)" for e u
    using assms(1) by (simp add: handles_invar_def)
  have no: "H k = Some u \<Longrightarrow> tok_epoch u \<noteq> tok_epoch t" for k u
    using L [of "tok_epoch t" u] assms(3) by auto
  have ex: "(\<exists>k. (H(h \<mapsto> t)) k = Some u) \<longleftrightarrow> u = t \<or> (\<exists>k. H k = Some u)" for u
    using assms(2) by (metis fun_upd_apply option.inject option.distinct(1))
  have "(L(tok_epoch t \<mapsto> t)) e = Some u \<longleftrightarrow> tok_epoch u = e \<and> (\<exists>k. (H(h \<mapsto> t)) k = Some u)" for e u
    unfolding ex using L [of e u] no [of _ u] by auto
  moreover have inj: "H k = Some u \<Longrightarrow> H k' = Some u \<Longrightarrow> k = k'" for k k' u
    using assms(1) by (simp add: handles_invar_def)
  have "k = k'" if "(H(h \<mapsto> t)) k = Some u" "(H(h \<mapsto> t)) k' = Some u" for k k' u
  proof (cases "k = h \<or> k' = h")
    case True
    then have "u = t" using that by auto
    then show ?thesis using that no by (metis fun_upd_other)
  next
    case False
    then show ?thesis using that inj by simp
  qed
  ultimately show ?thesis by (simp only: handles_invar_def) blast
qed

lemma handles_invar_close:
  assumes "handles_invar L H" "H h = Some t"
  shows "handles_invar (L(tok_epoch t := None)) (H(h := None))"
proof -
  have L: "L e = Some u \<longleftrightarrow> tok_epoch u = e \<and> (\<exists>h. H h = Some u)" for e u
    using assms(1) by (simp add: handles_invar_def)
  have inj: "H k = Some u \<Longrightarrow> H k' = Some u \<Longrightarrow> k = k'" for k k' u
    using assms(1) by (simp add: handles_invar_def)
  have same: "u = t" if "H k = Some u" "tok_epoch u = tok_epoch t" for k u
  proof -
    have "L (tok_epoch t) = Some u" using L [of "tok_epoch t" u] that by auto
    moreover have "L (tok_epoch t) = Some t" using L [of "tok_epoch t" t] assms(2) by auto
    ultimately show ?thesis by simp
  qed
  have "(L(tok_epoch t := None)) e = Some u \<longleftrightarrow> tok_epoch u = e \<and> (\<exists>k. (H(h := None)) k = Some u)" for e u
  proof
    assume "(L(tok_epoch t := None)) e = Some u"
    then have "e \<noteq> tok_epoch t" "L e = Some u" by (auto split: if_splits)
    moreover from this obtain k where "tok_epoch u = e" "H k = Some u" using L by blast
    ultimately have "tok_epoch u = e \<and> (H(h := None)) k = Some u" using assms(2) by auto
    then show "tok_epoch u = e \<and> (\<exists>k. (H(h := None)) k = Some u)" by blast
  next
    assume "tok_epoch u = e \<and> (\<exists>k. (H(h := None)) k = Some u)"
    then obtain k where k: "tok_epoch u = e" "k \<noteq> h" "H k = Some u" by (auto split: if_splits)
    then have "e \<noteq> tok_epoch t" using same [of k u] inj [of k t h] assms(2) by auto
    moreover have "L e = Some u" using L k by blast
    ultimately show "(L(tok_epoch t := None)) e = Some u" by simp
  qed
  moreover have "k = k'" if "(H(h := None)) k = Some u" "(H(h := None)) k' = Some u" for k k' u
    using that inj by (auto split: if_splits)
  ultimately show ?thesis by (simp only: handles_invar_def) blast
qed

lemma live_fresh:
  assumes "auth_invar s" "unat e = unat (auth_next_epoch s) + 1"
  shows "live s e = None"
  using fresh_epoch(1) [OF assms(1) epoch_advances [OF assms(2)]] by (simp add: live_def)

lemma live_acquire: "live (acquire_state s t) = (live s)(tok_epoch t \<mapsto> t)"
  by (auto simp: live_def acquire_state_def new_alloc_def fun_eq_iff)

lemma live_child:
  assumes "allocations s pe = Some p" "pe \<noteq> tok_epoch t"
  shows "live (child_state s t pe p) = (live s)(tok_epoch t \<mapsto> t)"
  using assms by (auto simp: live_def child_state_def new_alloc_def debit_parent_def fun_eq_iff)

lemma open_tokens_upd:
  "open_tokens (sys\<lparr>sys_auth := s, sys_handles := (sys_handles sys)(h \<mapsto> l)\<rparr>) =
     (open_tokens sys)(h := if lease_released l then None else Some (lease_token l))"
  "open_tokens (sys\<lparr>sys_handles := (sys_handles sys)(h := None), sys_auth := s\<rparr>) = (open_tokens sys)(h := None)"
  "open_tokens (sys\<lparr>sys_handles := (sys_handles sys)(h := None)\<rparr>) = (open_tokens sys)(h := None)"
  "open_tokens (sys\<lparr>sys_auth := s\<rparr>) = open_tokens sys"
  by (auto simp: open_tokens_def fun_eq_iff)

lemma abandon_pending_invar:
  assumes inv: "auth_invar s" and a: "allocations s e = Some a" "\<not> ready a"
  shows "auth_invar (s\<lparr>allocations := (allocations s)(e \<mapsto> a\<lparr>al_release_pending := True\<rparr>)\<rparr>)"
proof -
  let ?s = "s\<lparr>allocations := (allocations s)(e \<mapsto> a\<lparr>al_release_pending := True\<rparr>)\<rparr>"
  have tok: "tokens ?s = tokens s" using a(1) by (auto simp: tokens_def)
  have "kids (tokens s) (Some e) \<noteq> {}" using ready_iff [OF auth_invarD [OF inv a(1)]] a(2) by simp
  then have "alloc_invar (tokens s) (auth_next_epoch s) (auth_id s) e (a\<lparr>al_release_pending := True\<rparr>)"
    using auth_invarD [OF inv a(1)] by (simp add: alloc_invar_def)
  then show ?thesis using inv by (auto simp: auth_invar_def tok used_invar_def)
qed

text \<open>What an unreleased handle knows about the authority.\<close>

lemma open_tokenD:
  assumes "sys_invar sys" "open_tokens sys h = Some t"
  obtains a where "allocations (sys_auth sys) (tok_epoch t) = Some a" "al_token a = t"
    "\<not> al_release_pending a" "tok_authority t = auth_id (sys_auth sys)"
    "alloc_invar (tokens (sys_auth sys)) (auth_next_epoch (sys_auth sys)) (auth_id (sys_auth sys))
       (tok_epoch t) a"
proof -
  have inv: "auth_invar (sys_auth sys)" and h: "handles_invar (live (sys_auth sys)) (open_tokens sys)"
    using assms(1) by (simp_all add: sys_invar_def)
  have "live (sys_auth sys) (tok_epoch t) = Some t" using h assms(2) by (auto simp: handles_invar_def)
  then obtain a where a: "allocations (sys_auth sys) (tok_epoch t) = Some a" "al_token a = t"
    "\<not> al_release_pending a" by (auto simp: live_eq_Some_iff)
  note i = auth_invarD [OF inv a(1)]
  then have "tok_authority t = auth_id (sys_auth sys)" using a(2) by (simp add: alloc_invar_def)
  then show thesis using that a i by blast
qed

lemma release_ready_step:
  assumes inv: "sys_invar sys" and t: "open_tokens sys h = Some t"
    and a: "allocations (sys_auth sys) (tok_epoch t) = Some a" "ready a"
  obtains s' where "release_ready_allocation (sys_auth sys) (tok_epoch t) = (Ok (), s')" "auth_invar s'"
    "handles_invar (live s') ((open_tokens sys)(h := None))" "same_authority (sys_auth sys) s'"
proof -
  let ?r = "release_ready_allocation (sys_auth sys) (tok_epoch t)"
  have "auth_invar (sys_auth sys)" and h: "handles_invar (live (sys_auth sys)) (open_tokens sys)"
    using inv by (simp_all add: sys_invar_def)
  note c = release_cascade [OF auth_invar_weaken [OF this(1)] a]
  have "?r = (Ok (), snd ?r)" using c by (metis prod.collapse)
  then show thesis
    using c handles_invar_close [OF h t] by (intro that [of "snd ?r"]) (simp_all del: release_ready_allocation.simps)
qed

lemma granted_step:
  assumes inv: "sys_invar sys" and h: "sys_handles sys h = None"
    and t: "live s' = (live (sys_auth sys))(tok_epoch t \<mapsto> t)" "auth_invar s'"
      "live (sys_auth sys) (tok_epoch t) = None"
  shows "sys_invar (snd (granted sys h (Ok (t, s'))))" "fst (granted sys h (Ok (t, s'))) = Done"
proof -
  have "open_tokens sys h = None" using h by (simp add: open_tokens_def)
  then have "handles_invar (live s') ((open_tokens sys)(h \<mapsto> t))"
    using handles_invar_open [of "live (sys_auth sys)" "open_tokens sys" h t] inv t(1,3)
    by (simp add: sys_invar_def)
  then show "sys_invar (snd (granted sys h (Ok (t, s'))))"
    using t(2) by (simp add: granted_def sys_invar_def open_tokens_upd)
  show "fst (granted sys h (Ok (t, s'))) = Done" by (simp add: granted_def)
qed

text \<open>The four actions, each with its invariant and the outcomes it can have.\<close>

definition lease_outcome_ok :: "lease_outcome \<Rightarrow> bool" where
  "lease_outcome_ok out \<longleftrightarrow>
     out \<notin> {Panicked, Rejected AccountingInvariantViolated, Rejected StaleEpoch, Rejected AuthorityMismatch}"

lemma acquire_step:
  assumes inv: "sys_invar sys" and en: "sys_handles sys h = None" "req_compute r \<noteq> 0"
  shows "sys_invar (snd (granted sys h (try_acquire (sys_auth sys) owner r))) \<and>
    lease_outcome_ok (fst (granted sys h (try_acquire (sys_auth sys) owner r)))"
proof -
  have ai: "auth_invar (sys_auth sys)" using inv by (simp add: sys_invar_def)
  show ?thesis
  proof (cases rule: try_acquire_cases [OF ai, of owner r])
    case (1 e)
    then show ?thesis using inv by (simp add: granted_def lease_outcome_ok_def)
  next
    case (2 t)
    have "auth_invar (acquire_state (sys_auth sys) t)"
      using 2 en(2) by (intro acquire_state_invar [OF ai]) simp_all
    then show ?thesis
      using granted_step [OF inv en(1) live_acquire _ live_fresh [OF ai 2(2)]] 2(1)
      by (simp add: lease_outcome_ok_def)
  qed
qed

lemma open_iff:
  "open_tokens sys h = Some t \<longleftrightarrow>
     (\<exists>l. sys_handles sys h = Some l \<and> \<not> lease_released l \<and> lease_token l = t)"
  by (auto simp: open_tokens_def split: option.splits)

lemma try_child_step:
  assumes inv: "sys_invar sys" and en: "sys_handles sys p = Some l" "sys_handles sys h = None"
    "req_compute r \<noteq> 0"
  shows "sys_invar (snd (try_child sys l h owner r)) \<and> lease_outcome_ok (fst (try_child sys l h owner r))"
proof (cases "lease_released l")
  case True
  then show ?thesis using inv by (simp add: try_child_def lease_outcome_ok_def)
next
  case False
  let ?t = "lease_token l" and ?s = "sys_auth sys"
  have ai: "auth_invar ?s" using inv by (simp add: sys_invar_def)
  have "open_tokens sys p = Some ?t" using en(1) False by (simp add: open_iff)
  then obtain a where a: "allocations ?s (tok_epoch ?t) = Some a" "al_token a = ?t"
    "tok_authority ?t = auth_id ?s" "alloc_invar (tokens ?s) (auth_next_epoch ?s) (auth_id ?s) (tok_epoch ?t) a"
    using open_tokenD [OF inv] by metis
  show ?thesis
  proof (cases rule: try_acquire_child_cases [OF ai en(3) a(3,1,2), of owner])
    case (1 e)
    then show ?thesis using inv False by (simp add: try_child_def granted_def lease_outcome_ok_def)
  next
    case (2 t)
    have "tok_epoch ?t \<noteq> tok_epoch t"
      using a(4) epoch_advances [OF 2(2)] by (auto simp: alloc_invar_def)
    note live = live_child [OF a(1) this]
    have "auth_invar (child_state ?s t (tok_epoch ?t) a)"
      using 2 en(3) by (intro child_state_invar [OF ai _ a(1)]) simp_all
    then show ?thesis
      using granted_step [OF inv en(2) live _ live_fresh [OF ai 2(2)]] 2(1) False
      by (simp add: try_child_def lease_outcome_ok_def)
  qed
qed

definition release_outcome :: "lease_system \<Rightarrow> ResourceLease \<Rightarrow> u64 \<Rightarrow> lease_outcome" where
  "release_outcome sys l owner =
     (if lease_released l then Rejected AlreadyReleased
      else if owner \<noteq> tok_owner (lease_token l) then Rejected OwnerMismatch
      else if kids (tokens (sys_auth sys)) (Some (tok_epoch (lease_token l))) \<noteq> {} then Rejected ChildrenActive
      else Done)"

lemma release_as_step:
  assumes inv: "sys_invar sys" and l: "sys_handles sys h = Some l"
  shows "sys_invar (snd (release_as sys h l owner)) \<and>
    fst (release_as sys h l owner) = release_outcome sys l owner"
proof (cases "lease_released l")
  case True
  then show ?thesis using inv by (simp add: release_as_def release_outcome_def)
next
  case False
  let ?t = "lease_token l" and ?s = "sys_auth sys"
  have t: "open_tokens sys h = Some ?t" using l False by (simp add: open_iff)
  obtain a where a: "allocations ?s (tok_epoch ?t) = Some a" "al_token a = ?t"
    "tok_authority ?t = auth_id ?s" "alloc_invar (tokens ?s) (auth_next_epoch ?s) (auth_id ?s) (tok_epoch ?t) a"
    using open_tokenD [OF inv t] by metis
  have v: "validate_release ?s ?t owner = (if owner = tok_owner ?t then Ok a else Err (Fault OwnerMismatch))"
    using a by (auto simp: validate_release_def)
  note rdy = ready_iff [OF a(4)]
  show ?thesis
  proof (cases "owner = tok_owner ?t \<and> ready a")
    case True
    then have "ready a" by simp
    then obtain s' where s': "release_ready_allocation ?s (tok_epoch ?t) = (Ok (), s')" "auth_invar s'"
      "handles_invar (live s') ((open_tokens sys)(h := None))"
      using release_ready_step [OF inv t a(1)] by metis
    have "validate_release ?s ?t owner = Ok a" using v True by simp
    then have "release_token ?s ?t owner = (Ok (), s')"
      using True s'(1) by (simp add: release_token_def del: release_ready_allocation.simps)
    then show ?thesis
      using False True s'(2,3) rdy by (simp add: release_as_def release_outcome_def sys_invar_def open_tokens_upd)
  next
    case no: False
    then have "release_token ?s ?t owner =
        (Err (Fault (if owner = tok_owner ?t then ChildrenActive else OwnerMismatch)), ?s)"
      by (auto simp: release_token_def v)
    then show ?thesis
      using False no rdy inv by (auto simp: release_as_def release_outcome_def)
  qed
qed

lemma drop_step:
  assumes inv: "sys_invar sys" and l: "sys_handles sys h = Some l"
  shows "sys_invar (snd (drop_lease sys h l)) \<and> fst (drop_lease sys h l) = Done"
proof (cases "lease_released l")
  case True
  then have "(open_tokens sys)(h := None) = open_tokens sys" using l by (auto simp: open_tokens_def)
  then show ?thesis using True inv by (simp add: drop_lease_def Let_def sys_invar_def open_tokens_upd)
next
  case False
  let ?t = "lease_token l" and ?s = "sys_auth sys"
  have t: "open_tokens sys h = Some ?t" using l False by (simp add: open_iff)
  obtain a where a: "allocations ?s (tok_epoch ?t) = Some a" "al_token a = ?t"
    "tok_authority ?t = auth_id ?s" "alloc_invar (tokens ?s) (auth_next_epoch ?s) (auth_id ?s) (tok_epoch ?t) a"
    using open_tokenD [OF inv t] by metis
  have v: "validate_release ?s ?t (tok_owner ?t) = Ok a" using a by (auto simp: validate_release_def)
  show ?thesis
  proof (cases "ready a")
    case True
    then obtain s' where s': "release_ready_allocation ?s (tok_epoch ?t) = (Ok (), s')" "auth_invar s'"
      "handles_invar (live s') ((open_tokens sys)(h := None))"
      using release_ready_step [OF inv t a(1)] by metis
    have "abandon_token ?s ?t (tok_owner ?t) = (Ok (), s')"
      using True s'(1) by (simp add: abandon_token_def v del: release_ready_allocation.simps)
    then show ?thesis
      using False s'(2,3) by (simp add: drop_lease_def Let_def sys_invar_def open_tokens_upd)
  next
    case no: False
    let ?s' = "?s\<lparr>allocations := (allocations ?s)(tok_epoch ?t \<mapsto> a\<lparr>al_release_pending := True\<rparr>)\<rparr>"
    have ai: "auth_invar ?s" and hi: "handles_invar (live ?s) (open_tokens sys)"
      using inv by (simp_all add: sys_invar_def)
    have "live ?s' = (live ?s)(tok_epoch ?t := None)" by (auto simp: live_def)
    moreover have "abandon_token ?s ?t (tok_owner ?t) = (Ok (), ?s')"
      using no by (simp add: abandon_token_def v)
    ultimately show ?thesis
      using False abandon_pending_invar [OF ai a(1) no] handles_invar_close [OF hi t]
      by (simp add: drop_lease_def Let_def sys_invar_def open_tokens_upd)
  qed
qed

lemma lease_step_sound:
  assumes inv: "sys_invar sys" and en: "lease_enabled a sys"
  shows "sys_invar (snd (lease_exec a sys)) \<and> lease_outcome_ok (fst (lease_exec a sys))"
proof (cases a)
  case (Acquire h owner r)
  then show ?thesis using acquire_step [OF inv] en by simp
next
  case (TryChild p h owner r)
  then obtain l where "sys_handles sys p = Some l" using en by auto
  then show ?thesis using TryChild try_child_step [OF inv] en by simp
next
  case (ReleaseAs h owner)
  then obtain l where "sys_handles sys h = Some l" using en by auto
  then show ?thesis
    using ReleaseAs release_as_step [OF inv] by (auto simp: release_outcome_def lease_outcome_ok_def)
next
  case (Drop h)
  then obtain l where "sys_handles sys h = Some l" using en by auto
  then show ?thesis using Drop drop_step [OF inv] by (simp add: lease_outcome_ok_def)
qed

lemma reachable_sys_invar: "lease_reachable c aid sys \<Longrightarrow> sys_invar sys"
proof (induction rule: lease_reachable.induct)
  case init
  show ?case
    using auth_invar_init
    by (simp add: sys_invar_def lease_init_def handles_invar_def open_tokens_def live_def
        with_identity_and_epoch_def)
next
  case (step sys a)
  then show ?case using lease_step_sound by blast
qed

text \<open>Capacity and identity never change.\<close>

lemma release_static: "auth_capacity (snd (release_ready_allocation s e)) = auth_capacity s"
proof (induction s e rule: release_ready_allocation.induct)
  case (1 s e)
  then show ?case
    by (subst release_ready_allocation.simps)
      (simp add: Let_def split: option.split prod.split del: release_ready_allocation.simps)
qed

lemma acquire_static:
  "try_acquire s owner r = Ok (t, s') \<Longrightarrow> auth_capacity s' = auth_capacity s"
  "try_acquire_child s parent owner r = Ok (t, s') \<Longrightarrow> auth_capacity s' = auth_capacity s"
  by (auto simp: try_acquire_def try_acquire_child_def next_epoch_def Let_def and_then_def map_err_def
      split: if_splits sum.splits option.splits)

lemma lease_step_static: "auth_capacity (sys_auth (snd (lease_exec a sys))) = auth_capacity (sys_auth sys)"
proof -
  have r: "release_ready_allocation s e = (x, s') \<Longrightarrow> auth_capacity s' = auth_capacity s" for s e x s'
    using release_static [of s e] by simp
  have "release_token s t owner = (x, s') \<Longrightarrow> auth_capacity s' = auth_capacity s"
    "abandon_token s t owner = (x, s') \<Longrightarrow> auth_capacity s' = auth_capacity s" for s t owner x s'
    by (auto simp: release_token_def abandon_token_def simp del: release_ready_allocation.simps
        split: sum.splits if_splits dest: r)
  then show ?thesis
    by (cases a) (auto simp: granted_def try_child_def release_as_def drop_lease_def Let_def
        dest: acquire_static split: sum.split prod.split fault.split)
qed

lemma reachable_capacity: "lease_reachable c aid sys \<Longrightarrow> auth_capacity (sys_auth sys) = c"
  by (induction rule: lease_reachable.induct)
    (simp_all add: lease_step_static lease_init_def with_identity_and_epoch_def)

lemma no_open_empty:
  assumes inv: "sys_invar sys" and none: "open_tokens sys = Map.empty"
  shows "allocations (sys_auth sys) = Map.empty"
    "auth_used (sys_auth sys) = \<lparr>req_compute = 0, req_memory = 0\<rparr>"
proof -
  let ?s = "sys_auth sys" and ?D = "dom (allocations (sys_auth sys))"
  have ai: "auth_invar ?s" and hi: "handles_invar (live ?s) Map.empty"
    using inv none by (simp_all add: sys_invar_def)
  have fin: "finite ?D" by (rule finite_subset [OF subset_UNIV]) simp
  have "?D = {}"
  proof (rule ccontr)
    assume "?D \<noteq> {}"
    then have "Max ?D \<in> ?D" using fin by simp
    then obtain a where a: "allocations ?s (Max ?D) = Some a" by auto
    have "live ?s (Max ?D) = None" using hi by (auto simp: handles_invar_def)
    then have "al_release_pending a" using a by (simp add: live_def split: if_splits)
    then have "kids (tokens ?s) (Some (Max ?D)) \<noteq> {}"
      using auth_invarD [OF ai a] by (simp add: alloc_invar_def)
    then obtain c b where b: "allocations ?s c = Some b" "tok_parent (al_token b) = Some (Max ?D)"
      by (auto simp: kids_def tokens_def)
    then have "Max ?D < c" using parent_live(1) [OF ai] by blast
    moreover have "c \<le> Max ?D" using fin b(1) by (intro Max_ge) auto
    ultimately show False by simp
  qed
  then show empty: "allocations ?s = Map.empty" by simp
  then have "grant_sum f (tokens ?s) None = 0" for f
    by (simp add: grant_sum_def kids_def tokens_def)
  then have "compute_of (auth_used ?s) = 0" "memory_of (auth_used ?s) = 0"
    using ai by (simp_all add: auth_invar_def used_invar_def)
  then show "auth_used ?s = \<lparr>req_compute = 0, req_memory = 0\<rparr>"
    by (intro ResourceLeaseRequest_eqI) simp_all
qed

lemma drop_lease_handles: "sys_handles (snd (lease_exec (Drop h) sys)) = (sys_handles sys)(h := None)"
  by (auto simp: drop_lease_def Let_def split: sum.split prod.split fault.split)

definition drop_all :: "nat list \<Rightarrow> lease_system \<Rightarrow> lease_system" where
  "drop_all hs sys = fold (\<lambda>h sys. snd (lease_exec (Drop h) sys)) hs sys"

lemma drop_all_handles: "sys_handles (drop_all hs sys) = (sys_handles sys) |` (- set hs)"
proof (induction hs arbitrary: sys)
  case Nil
  show ?case by (simp add: drop_all_def restrict_map_def)
next
  case (Cons h hs)
  have "drop_all (h # hs) sys = drop_all hs (snd (lease_exec (Drop h) sys))" by (simp add: drop_all_def)
  then show ?case
    using Cons.IH [of "snd (lease_exec (Drop h) sys)"] drop_lease_handles [of h sys]
    by (auto simp: restrict_map_def fun_eq_iff)
qed

lemma drop_all_reachable:
  assumes "lease_reachable c aid sys" "distinct hs" "set hs \<subseteq> dom (sys_handles sys)"
  shows "lease_reachable c aid (drop_all hs sys)"
  using assms
proof (induction hs arbitrary: sys)
  case Nil
  then show ?case by (simp add: drop_all_def)
next
  case (Cons h hs)
  let ?sys = "snd (lease_exec (Drop h) sys)"
  have "lease_reachable c aid ?sys"
    using Cons.prems by (intro lease_reachable.step) auto
  moreover have "set hs \<subseteq> dom (sys_handles ?sys)"
    using Cons.prems drop_lease_handles [of h sys] by auto
  ultimately have "lease_reachable c aid (drop_all hs ?sys)" using Cons.IH Cons.prems(2) by simp
  then show ?case by (simp add: drop_all_def)
qed

section \<open>Runs\<close>

primrec lease_run :: "lease_action list \<Rightarrow> lease_system \<Rightarrow> lease_system option" where
  "lease_run [] sys = Some sys"
| "lease_run (a # acts) sys =
     (if lease_enabled a sys then lease_run acts (snd (lease_exec a sys)) else None)"

lemma lease_run_reachable:
  "lease_reachable c aid sys \<Longrightarrow> lease_run acts sys = Some sys' \<Longrightarrow> lease_reachable c aid sys'"
proof (induction acts arbitrary: sys)
  case Nil
  then show ?case by simp
next
  case (Cons a acts)
  then have en: "lease_enabled a sys" and run: "lease_run acts (snd (lease_exec a sys)) = Some sys'"
    by (simp_all split: if_splits)
  show ?case by (rule Cons.IH [OF lease_reachable.step [OF Cons.prems(1) en] run])
qed

text \<open>
  A run used by the witnesses: a root of two units lends one to a child, and the root's handle is
  dropped while the child is out, which leaves a tombstone.
\<close>

definition example_capacity :: ResourceLeaseCapacity where
  "example_capacity = \<lparr>cap_compute = 4, cap_memory = 100\<rparr>"

definition example_actions :: "lease_action list" where
  "example_actions = [Acquire 0 7 \<lparr>req_compute = 2, req_memory = 10\<rparr>,
     TryChild 0 1 8 \<lparr>req_compute = 1, req_memory = 5\<rparr>, Drop 0]"

definition example_root :: ResourceLeaseToken where
  "example_root = \<lparr>tok_authority = 1, tok_epoch = 1, tok_owner = 7, tok_parent = None,
     tok_grant = \<lparr>req_compute = 2, req_memory = 10\<rparr>\<rparr>"

definition example_child :: ResourceLeaseToken where
  "example_child = \<lparr>tok_authority = 1, tok_epoch = 2, tok_owner = 8, tok_parent = Some 1,
     tok_grant = \<lparr>req_compute = 1, req_memory = 5\<rparr>\<rparr>"

definition example_system :: lease_system where
  "example_system =
     \<lparr>sys_auth = \<lparr>auth_id = 1, auth_capacity = example_capacity,
        auth_used = \<lparr>req_compute = 2, req_memory = 10\<rparr>, auth_next_epoch = 2,
        allocations = [1 \<mapsto> \<lparr>al_token = example_root,
            al_remaining = \<lparr>req_compute = 1, req_memory = 5\<rparr>, al_child_count = 1, al_release_pending = True\<rparr>,
          2 \<mapsto> new_alloc example_child]\<rparr>,
      sys_handles = [1 \<mapsto> \<lparr>lease_token = example_child, lease_released = False\<rparr>]\<rparr>"

lemma example_run: "lease_run example_actions (lease_init example_capacity 1) = Some example_system"
  by (simp add: example_actions_def lease_init_def example_capacity_def with_identity_and_epoch_def
      try_acquire_def try_acquire_child_def auth_available_def next_epoch_def fits_def checked_add_def
      checked_sub_def granted_def try_child_def Let_def drop_lease_def abandon_token_def
      validate_release_def ready_def example_system_def example_root_def example_child_def new_alloc_def
      fun_upd_twist)

lemma example_reachable: "lease_reachable example_capacity 1 example_system"
  by (rule lease_run_reachable [OF lease_reachable.init example_run])

section \<open>What the authority guarantees\<close>

text \<open>
  C1. Whatever clients do and in whatever order, the ledger balances: what is in use is the sum of
  the root grants and within the capacity the authority was made with; an allocation's remaining
  grant plus the grants of its children is its grant and its child count is their number; and the
  entries that are not tombstones are exactly the tokens of the handles that are still open, each the
  token of one handle.  A tombstone is kept only while it has a child.
\<close>

theorem lease_accounting:
  assumes "lease_reachable c aid sys"
  shows "compute_of (auth_used (sys_auth sys)) = grant_sum compute_of (tokens (sys_auth sys)) None \<and>
    memory_of (auth_used (sys_auth sys)) = grant_sum memory_of (tokens (sys_auth sys)) None \<and>
    req_compute (auth_used (sys_auth sys)) \<le> cap_compute c \<and>
    req_memory (auth_used (sys_auth sys)) \<le> cap_memory c \<and>
    (\<forall>e a. allocations (sys_auth sys) e = Some a \<longrightarrow>
      unat (al_child_count a) = card (kids (tokens (sys_auth sys)) (Some e)) \<and>
      compute_of (al_remaining a) + grant_sum compute_of (tokens (sys_auth sys)) (Some e) =
        compute_of (tok_grant (al_token a)) \<and>
      memory_of (al_remaining a) + grant_sum memory_of (tokens (sys_auth sys)) (Some e) =
        memory_of (tok_grant (al_token a)) \<and>
      (al_release_pending a \<longrightarrow> kids (tokens (sys_auth sys)) (Some e) \<noteq> {})) \<and>
    (\<forall>e t. (\<exists>a. allocations (sys_auth sys) e = Some a \<and> \<not> al_release_pending a \<and> al_token a = t) \<longleftrightarrow>
      tok_epoch t = e \<and> (\<exists>h. open_tokens sys h = Some t)) \<and>
    (\<forall>h h' t. open_tokens sys h = Some t \<longrightarrow> open_tokens sys h' = Some t \<longrightarrow> h = h')"
proof -
  have inv: "auth_invar (sys_auth sys)" and hi: "handles_invar (live (sys_auth sys)) (open_tokens sys)"
    using reachable_sys_invar [OF assms] by (simp_all add: sys_invar_def)
  have "\<forall>e t. (\<exists>a. allocations (sys_auth sys) e = Some a \<and> \<not> al_release_pending a \<and> al_token a = t) \<longleftrightarrow>
      tok_epoch t = e \<and> (\<exists>h. open_tokens sys h = Some t)"
    using hi unfolding handles_invar_def live_eq_Some_iff by blast
  moreover have "\<forall>h h' t. open_tokens sys h = Some t \<longrightarrow> open_tokens sys h' = Some t \<longrightarrow> h = h'"
    using hi unfolding handles_invar_def by blast
  moreover have "used_invar (sys_auth sys)" using inv by (simp add: auth_invar_def)
  ultimately show ?thesis
    using auth_invarD [OF inv] reachable_capacity [OF assms]
    by (simp add: used_invar_def alloc_invar_def)
qed

theorem lease_accounting_witness:
  "compute_of (auth_used (sys_auth example_system)) =
     grant_sum compute_of (tokens (sys_auth example_system)) None \<and>
   (\<exists>h. open_tokens example_system h = Some example_child)"
proof -
  have "allocations (sys_auth example_system) 2 = Some (new_alloc example_child)"
    by (simp add: example_system_def)
  moreover have "\<not> al_release_pending (new_alloc example_child)" "al_token (new_alloc example_child) = example_child"
    by (simp_all add: new_alloc_def)
  ultimately show ?thesis using lease_accounting [OF example_reachable] by blast
qed

text \<open>
  C6. No interleaving makes an enabled client call panic, and none reports a broken ledger, a stale
  epoch or a foreign authority: the checked arithmetic of the source never fails.
\<close>

theorem lease_never_faults:
  assumes "lease_reachable c aid sys" "lease_enabled a sys"
  shows "fst (lease_exec a sys) \<notin>
    {Panicked, Rejected AccountingInvariantViolated, Rejected StaleEpoch, Rejected AuthorityMismatch}"
  using lease_step_sound [OF reachable_sys_invar [OF assms(1)] assms(2)]
  by (simp add: lease_outcome_ok_def)

theorem lease_never_faults_witness:
  "fst (lease_exec (ReleaseAs 1 8) example_system) \<notin>
    {Panicked, Rejected AccountingInvariantViolated, Rejected StaleEpoch, Rejected AuthorityMismatch}"
proof -
  have "lease_enabled (ReleaseAs 1 8) example_system" by (simp add: example_system_def)
  from lease_never_faults [OF example_reachable this] show ?thesis .
qed

text \<open>
  C15. An explicit release succeeds exactly when the handle is open, the caller is its owner and no
  child is out; every other call is rejected with the error that names the first failed check.
\<close>

theorem lease_release_outcome:
  assumes "lease_reachable c aid sys" "sys_handles sys h = Some l"
  shows "fst (lease_exec (ReleaseAs h owner) sys) =
    (if lease_released l then Rejected AlreadyReleased
     else if owner \<noteq> tok_owner (lease_token l) then Rejected OwnerMismatch
     else if kids (tokens (sys_auth sys)) (Some (tok_epoch (lease_token l))) \<noteq> {} then Rejected ChildrenActive
     else Done)"
  using release_as_step [OF reachable_sys_invar [OF assms(1)] assms(2)] assms(2)
  by (simp add: release_outcome_def)

theorem lease_release_outcome_witness:
  "fst (lease_exec (ReleaseAs 1 7) example_system) = Rejected OwnerMismatch"
proof -
  have "sys_handles example_system 1 = Some \<lparr>lease_token = example_child, lease_released = False\<rparr>"
    by (simp add: example_system_def)
  from lease_release_outcome [OF example_reachable this, of 7] show ?thesis
    by (simp add: example_child_def)
qed

text \<open>
  C14. Nothing leaks: from any reachable state, dropping every handle, in any order and with parents
  possibly before their children, leaves no allocation, nothing in use and the whole capacity
  available.
\<close>

theorem lease_drop_all_frees:
  assumes "lease_reachable c aid sys" "distinct hs" "set hs = dom (sys_handles sys)"
  shows "allocations (sys_auth (drop_all hs sys)) = Map.empty \<and>
    auth_available (sys_auth (drop_all hs sys)) = (Ok c :: unit fault + _)"
proof
  let ?sys = "drop_all hs sys"
  have r: "lease_reachable c aid ?sys" using assms by (intro drop_all_reachable) auto
  have "sys_handles ?sys = Map.empty"
    using assms(3) by (auto simp: drop_all_handles restrict_map_def fun_eq_iff domIff)
  then have none: "open_tokens ?sys = Map.empty" by (simp add: open_tokens_def)
  show "allocations (sys_auth ?sys) = Map.empty"
    by (rule no_open_empty(1) [OF reachable_sys_invar [OF r] none])
  show "auth_available (sys_auth ?sys) = Ok c"
    using no_open_empty(2) [OF reachable_sys_invar [OF r] none] reachable_capacity [OF r]
    by (simp add: auth_available_def checked_sub_def)
qed

theorem lease_drop_all_frees_witness:
  "allocations (sys_auth (drop_all [1] example_system)) = Map.empty \<and>
   auth_available (sys_auth (drop_all [1] example_system)) = (Ok example_capacity :: unit fault + _)"
proof -
  have "set [1] = dom (sys_handles example_system)" by (simp add: example_system_def)
  from lease_drop_all_frees [OF example_reachable _ this] show ?thesis by simp
qed

lemma credit_debit:
  assumes "compute_of g \<le> compute_of (al_remaining p)" "memory_of g \<le> memory_of (al_remaining p)"
    and "compute_of (al_remaining p) \<le> compute_of (tok_grant (al_token p))"
    and "memory_of (al_remaining p) \<le> memory_of (tok_grant (al_token p))"
    and "unat (al_child_count p) + 1 < 2 ^ 32"
  shows "credit_parent g (debit_parent g p) = Some p"
proof -
  have n: "unat (al_child_count p + 1) = unat (al_child_count p) + 1"
    using assms(5) by (simp add: unat_word_ariths)
  have sub: "compute_of g + unat (req_compute (al_remaining p) - req_compute g) = compute_of (al_remaining p)"
    "memory_of g + unat (req_memory (al_remaining p) - req_memory g) = memory_of (al_remaining p)"
    using assms(1,2) by (simp_all add: unat_sub word_le_nat_alt)
  have "checked_add (req_compute (al_remaining p) - req_compute g) (req_compute g) = Some (req_compute (al_remaining p))"
    "checked_add (req_memory (al_remaining p) - req_memory g) (req_memory g) = Some (req_memory (al_remaining p))"
    using sub by (simp_all add: checked_add_eq_Some_iff)
  moreover have "checked_sub (al_child_count p + 1) 1 = Some (al_child_count p)"
    using n by (simp add: checked_sub_def word_le_nat_alt)
  ultimately show ?thesis
    using assms(3,4) by (simp add: credit_parent_def debit_parent_def word_less_nat_alt not_less)
qed

text \<open>
  C37. Lending and returning is a round trip: releasing a child lease right after it was granted
  restores the ledger exactly; only the epoch counter has advanced.
\<close>

theorem lease_child_roundtrip:
  assumes inv: "auth_invar s" and p: "allocations s (tok_epoch parent) = Some p" "\<not> al_release_pending p"
    and grant: "req_compute r \<noteq> 0" "try_acquire_child s parent owner r = Ok (t, s')"
  shows "release_token s' t owner = (Ok (), s\<lparr>auth_next_epoch := tok_epoch t\<rparr>)"
proof -
  have live: "tok_authority parent = auth_id s" "al_token p = parent"
    using grant(2) p(1) by (auto simp: try_acquire_child_def Let_def split: if_splits)
  have t: "s' = child_state s t (tok_epoch parent) p" "unat (tok_epoch t) = unat (auth_next_epoch s) + 1"
    "tok_authority t = auth_id s" "tok_owner t = owner" "tok_parent t = Some (tok_epoch parent)"
    "tok_grant t = r" "compute_of r \<le> compute_of (al_remaining p)" "memory_of r \<le> memory_of (al_remaining p)"
    by (cases rule: try_acquire_child_cases [OF inv grant(1) live(1) p(1) live(2), of owner];
        use grant(2) in simp)+
  note pinv = auth_invarD [OF inv p(1)]
  have fresh: "allocations s (tok_epoch t) = None" by (rule fresh_epoch(1) [OF inv epoch_advances [OF t(2)]])
  then have ne: "tok_epoch parent \<noteq> tok_epoch t" using p(1) by auto
  have "0 < compute_of r" using grant(1) by (simp add: unat_gt_0)
  then have "credit_parent r (debit_parent r p) = Some p"
    using t(7,8) pinv child_count_room [OF inv p(1)]
    by (intro credit_debit) (simp_all add: alloc_invar_def)
  moreover have "(allocations s')(tok_epoch t := None, tok_epoch parent \<mapsto> p) = allocations s"
    using ne fresh p(1) by (auto simp: t(1) child_state_def)
  ultimately have "release_ready_allocation s' (tok_epoch t) = (Ok (), s\<lparr>auth_next_epoch := tok_epoch t\<rparr>)"
    using ne t(5,6) p(2)
    by (subst release_ready_allocation.simps)
      (simp add: t(1) child_state_def new_alloc_def ready_def Let_def)
  then show ?thesis
    using t(3,4) ne
    by (simp add: release_token_def validate_release_def t(1) del: release_ready_allocation.simps)
      (simp add: child_state_def new_alloc_def ready_def)
qed

theorem lease_child_roundtrip_witness:
  "release_token
     (child_state (acquire_state (with_identity_and_epoch example_capacity 1 0) example_root)
        example_child 1 (new_alloc example_root)) example_child 8 =
   (Ok (), (acquire_state (with_identity_and_epoch example_capacity 1 0) example_root)\<lparr>auth_next_epoch := 2\<rparr>)"
proof -
  let ?s = "acquire_state (with_identity_and_epoch example_capacity 1 0) example_root"
  have "auth_invar ?s"
    by (rule acquire_state_invar [OF auth_invar_init])
      (simp_all add: example_root_def example_capacity_def with_identity_and_epoch_def)
  moreover have "allocations ?s (tok_epoch example_root) = Some (new_alloc example_root)"
    by (simp add: acquire_state_def)
  moreover have "try_acquire_child ?s example_root 8 (tok_grant example_child) =
      Ok (example_child, child_state ?s example_child 1 (new_alloc example_root))"
    by (simp add: try_acquire_child_def acquire_state_def with_identity_and_epoch_def example_root_def
        example_child_def example_capacity_def next_epoch_def fits_def checked_add_def Let_def
        child_state_def new_alloc_def debit_parent_def)
  ultimately show ?thesis
    using lease_child_roundtrip [of ?s example_root "new_alloc example_root" "tok_grant example_child" 8]
    by (simp add: new_alloc_def example_child_def)
qed

end
