(* ===== verification/WideBoards.thy ===== *)
theory WideBoards
  imports Boards Pieces
begin

text \<open>
  The wide boards of \<open>standard_pc_board.rs\<close>: the four-word \<open>Board256Mask\<close> with its constructors and
  set operations, the storage-tagged \<open>StandardPcBoardMask\<close>, and the bounded row and
  operation masks of \<open>extended_pc_state_masks.rs\<close>.  The array \<open>[u64; 4]\<close> is the datatype
  \<open>words4\<close>; \<open>words_get\<close> and \<open>words_set\<close> are its indexing, used only at indices below four.
\<close>

section \<open>Four-word arrays\<close>

datatype words4 = Words4 u64 u64 u64 u64

fun words_get :: "words4 \<Rightarrow> nat \<Rightarrow> u64" where
  "words_get (Words4 a b c d) i =
     (if i = 0 then a else if i = 1 then b else if i = 2 then c else if i = 3 then d else 0)"

fun words_set :: "words4 \<Rightarrow> nat \<Rightarrow> u64 \<Rightarrow> words4" where
  "words_set (Words4 a b c d) i v =
     (if i = 0 then Words4 v b c d else if i = 1 then Words4 a v c d
      else if i = 2 then Words4 a b v d else if i = 3 then Words4 a b c v else Words4 a b c d)"

definition words_or_bit :: "words4 \<Rightarrow> nat \<Rightarrow> words4" where
  "words_or_bit ws k =
     words_set ws (k div 64) (words_get ws (k div 64) OR push_bit (k mod 64) 1)"

section \<open>Board256 masks\<close>

type_synonym Board256Mask = words4

datatype Board256MaskError =
    CellCountOutOfRange u16
  | CellOutOfRange u16
  | RowOutOfRange u16 u16
  | MaskOutsideField u16

definition mask256_EMPTY :: Board256Mask where "mask256_EMPTY = Words4 0 0 0 0"

definition validate_cell_count :: "u16 \<Rightarrow> Board256MaskError + unit" where
  "validate_cell_count cell_count =
     (if cell_count = 0 \<or> unat cell_count > 256 then Err (CellCountOutOfRange cell_count)
      else Ok ())"

definition all_cells :: "u16 \<Rightarrow> Board256MaskError + Board256Mask" where
  "all_cells cell_count =
     and_then (validate_cell_count cell_count) (\<lambda>_.
       let full_words = unat (cell_count div 64);
           tail_bits = unat (cell_count mod 64);
           filled = foldl (\<lambda>ws i. words_set ws i (- 1)) mask256_EMPTY [0..<full_words]
       in Ok (if tail_bits \<noteq> 0 then words_set filled full_words (push_bit tail_bits 1 - 1)
              else filled))"

definition singleton :: "u16 \<Rightarrow> Board256MaskError + Board256Mask" where
  "singleton idx =
     (if unat idx \<ge> 256 then Err (CellOutOfRange idx)
      else Ok (words_set mask256_EMPTY (unat idx div 64)
                 (push_bit (unat idx mod 64) 1)))"

fun mask256_union :: "Board256Mask \<Rightarrow> Board256Mask \<Rightarrow> Board256Mask" where
  "mask256_union (Words4 a0 a1 a2 a3) (Words4 b0 b1 b2 b3) =
     Words4 (a0 OR b0) (a1 OR b1) (a2 OR b2) (a3 OR b3)"

fun mask256_without :: "Board256Mask \<Rightarrow> Board256Mask \<Rightarrow> Board256Mask" where
  "mask256_without (Words4 a0 a1 a2 a3) (Words4 b0 b1 b2 b3) =
     Words4 (a0 AND NOT b0) (a1 AND NOT b1) (a2 AND NOT b2) (a3 AND NOT b3)"

fun mask256_intersects :: "Board256Mask \<Rightarrow> Board256Mask \<Rightarrow> bool" where
  "mask256_intersects (Words4 a0 a1 a2 a3) (Words4 b0 b1 b2 b3) \<longleftrightarrow>
     a0 AND b0 \<noteq> 0 \<or> a1 AND b1 \<noteq> 0 \<or> a2 AND b2 \<noteq> 0 \<or> a3 AND b3 \<noteq> 0"

fun mask256_is_empty :: "Board256Mask \<Rightarrow> bool" where
  "mask256_is_empty (Words4 a b c d) \<longleftrightarrow> a = 0 \<and> b = 0 \<and> c = 0 \<and> d = 0"

fun mask256_count_ones :: "Board256Mask \<Rightarrow> nat" where
  "mask256_count_ones (Words4 a b c d) =
     count_ones a + count_ones b + count_ones c + count_ones d"

definition contains_index :: "Board256Mask \<Rightarrow> u16 \<Rightarrow> bool" where
  "contains_index m idx \<longleftrightarrow>
     (if idx \<ge> 256 then False
      else words_get m (unat idx div 64) AND push_bit (unat idx mod 64) 1 \<noteq> 0)"

primrec row_cells ::
  "u16 \<Rightarrow> u16 list \<Rightarrow> Board256Mask \<Rightarrow> Board256MaskError + Board256Mask" where
  "row_cells start [] acc = Ok acc"
| "row_cells start (offset # offsets) acc =
     and_then (singleton (start + offset)) (\<lambda>s.
       row_cells start offsets (mask256_union acc s))"

definition mask256_row :: "u16 \<Rightarrow> u16 \<Rightarrow> u16 \<Rightarrow> Board256MaskError + Board256Mask" where
  "mask256_row width height y =
     and_then (ok_or (CellCountOutOfRange (- 1)) (checked_mul width height)) (\<lambda>cell_count.
     and_then (validate_cell_count cell_count) (\<lambda>_.
       if y \<ge> height then Err (RowOutOfRange y height)
       else row_cells (y * width) (word_range width) mask256_EMPTY))"

definition fits_cell_count :: "Board256Mask \<Rightarrow> u16 \<Rightarrow> Board256MaskError + bool" where
  "fits_cell_count m cell_count =
     and_then (all_cells cell_count) (\<lambda>allowed.
       Ok (mask256_is_empty (mask256_without m allowed)))"

definition mirror_cell :: "Board256Mask \<Rightarrow> u16 \<Rightarrow> u16 \<Rightarrow> words4 \<Rightarrow> u16 \<Rightarrow> words4" where
  "mirror_cell m width y ws x =
     (if \<not> contains_index m (y * width + x) then ws
      else words_or_bit ws (unat (y * width + (width - x - 1))))"

definition mirrored_horizontally ::
  "Board256Mask \<Rightarrow> u16 \<Rightarrow> u16 \<Rightarrow> Board256MaskError + Board256Mask" where
  "mirrored_horizontally m width height =
     and_then (ok_or (CellCountOutOfRange (- 1)) (checked_mul width height)) (\<lambda>cell_count.
     and_then (validate_cell_count cell_count) (\<lambda>_.
       if width = 0 then Err (MaskOutsideField cell_count)
       else and_then (fits_cell_count m cell_count) (\<lambda>fits.
         if \<not> fits then Err (MaskOutsideField cell_count)
         else Ok (foldl (\<lambda>ws y. foldl (mirror_cell m width y) ws
                                  (word_range width))
                    (Words4 0 0 0 0) (word_range height)))))"

section \<open>Storage-tagged boards\<close>

datatype StandardPcBoardStorageKind = Storage64 | Storage128 | Storage256

datatype StandardPcBoardError =
    ZeroLines
  | TooManyLines u8 u8
  | MaskOutsideBoard u8
  | MaskError Board256MaskError

definition for_lines :: "u8 \<Rightarrow> StandardPcBoardError + StandardPcBoardStorageKind" where
  "for_lines lines =
     (if 1 \<le> lines \<and> lines \<le> 6 then Ok Storage64
      else if 7 \<le> lines \<and> lines \<le> 12 then Ok Storage128
      else if 13 \<le> lines \<and> lines \<le> STANDARD_PC_MAX_LINES then Ok Storage256
      else if lines = 0 then Err ZeroLines
      else Err (TooManyLines lines STANDARD_PC_MAX_LINES))"

datatype StandardPcBoardMask = Board64 u64 | Board128 u128 | Board256 Board256Mask

definition STANDARD_PC_BOARD_WIDTH :: u16 where "STANDARD_PC_BOARD_WIDTH = 10"

definition pc_mask_from_words :: "u8 \<Rightarrow> words4 \<Rightarrow> StandardPcBoardError + StandardPcBoardMask" where
  "pc_mask_from_words lines ws =
     and_then (for_lines lines) (\<lambda>storage.
       let cell_count = ucast lines * STANDARD_PC_BOARD_WIDTH in
       and_then (map_err MaskError (fits_cell_count ws cell_count)) (\<lambda>fits.
         if \<not> fits then Err (MaskOutsideBoard lines)
         else Ok (case storage of
             Storage64 \<Rightarrow> Board64 (words_get ws 0)
           | Storage128 \<Rightarrow>
               Board128 (ucast (words_get ws 0) OR push_bit 64 (ucast (words_get ws 1)))
           | Storage256 \<Rightarrow> Board256 ws)))"

primrec storage_kind :: "StandardPcBoardMask \<Rightarrow> StandardPcBoardStorageKind" where
  "storage_kind (Board64 _) = Storage64"
| "storage_kind (Board128 _) = Storage128"
| "storage_kind (Board256 _) = Storage256"

primrec pc_mask_words :: "StandardPcBoardMask \<Rightarrow> words4" where
  "pc_mask_words (Board64 m) = Words4 m 0 0 0"
| "pc_mask_words (Board128 m) = Words4 (ucast m) (ucast (drop_bit 64 m)) 0 0"
| "pc_mask_words (Board256 m) = m"

primrec pc_mask_count_ones :: "StandardPcBoardMask \<Rightarrow> nat" where
  "pc_mask_count_ones (Board64 m) = count_ones m"
| "pc_mask_count_ones (Board128 m) = count_ones m"
| "pc_mask_count_ones (Board256 m) = mask256_count_ones m"

section \<open>Row and operation masks of extended states\<close>

definition EXTENDED_PC_MAX_PLACEMENTS :: u8 where
  "EXTENDED_PC_MAX_PLACEMENTS = (ucast STANDARD_PC_BOARD_WIDTH * STANDARD_PC_MAX_LINES) div 4"

datatype ExtendedPcStateMaskError =
    CompactLinesRequireLegacyContract u8
  | ExtendedTooManyLines u8 u8
  | DeletedRowOutsideTarget u8 u32
  | TooManyOperations u8 u8
  | OperationOutsideLayout u8 u64
  | OperationIndexOutOfRange u8 u8

definition validate_extended_lines :: "u8 \<Rightarrow> ExtendedPcStateMaskError + unit" where
  "validate_extended_lines lines =
     (if lines < 7 then Err (CompactLinesRequireLegacyContract lines)
      else if lines > STANDARD_PC_MAX_LINES then Err (ExtendedTooManyLines lines STANDARD_PC_MAX_LINES)
      else Ok ())"

definition validate_operation_count :: "u8 \<Rightarrow> ExtendedPcStateMaskError + unit" where
  "validate_operation_count n =
     (if n > EXTENDED_PC_MAX_PLACEMENTS then Err (TooManyOperations n EXTENDED_PC_MAX_PLACEMENTS)
      else Ok ())"

definition low_u32_mask :: "u8 \<Rightarrow> u32" where
  "low_u32_mask bit_count = (if bit_count = 32 then - 1 else push_bit (unat bit_count) 1 - 1)"

definition low_u64_mask :: "u8 \<Rightarrow> u64" where
  "low_u64_mask bit_count =
     (if bit_count = 64 then - 1 else if bit_count = 0 then 0
      else push_bit (unat bit_count) 1 - 1)"

type_synonym ExtendedPcDeletedRowMask = u32
type_synonym ExtendedPcOperationBitSet = u64

definition deleted_rows_from_bits ::
  "u8 \<Rightarrow> u32 \<Rightarrow> ExtendedPcStateMaskError + ExtendedPcDeletedRowMask" where
  "deleted_rows_from_bits lines bits =
     and_then (validate_extended_lines lines) (\<lambda>_.
       if bits AND NOT (low_u32_mask lines) \<noteq> 0 then Err (DeletedRowOutsideTarget lines bits)
       else Ok bits)"

definition operations_from_bits ::
  "u8 \<Rightarrow> u64 \<Rightarrow> ExtendedPcStateMaskError + ExtendedPcOperationBitSet" where
  "operations_from_bits n bits =
     and_then (validate_operation_count n) (\<lambda>_.
       if bits AND NOT (low_u64_mask n) \<noteq> 0 then Err (OperationOutsideLayout n bits) else Ok bits)"

definition operations_without ::
  "ExtendedPcOperationBitSet \<Rightarrow> u8 \<Rightarrow> u8 \<Rightarrow> ExtendedPcStateMaskError + ExtendedPcOperationBitSet" where
  "operations_without m n i =
     and_then (validate_operation_count n) (\<lambda>_.
       if i \<ge> n then Err (OperationIndexOutOfRange i n) else Ok (m AND NOT (push_bit (unat i) 1)))"

section \<open>Cells of a four-word mask\<close>

definition cells256 :: "words4 \<Rightarrow> nat set" where
  "cells256 m = {n. n < 256 \<and> bit (words_get m (n div 64)) (n mod 64)}"

lemma words_get_set [simp]:
  "i < 4 \<Longrightarrow> words_get (words_set ws i v) j = (if j = i then v else words_get ws j)"
  by (cases ws) (auto split: if_splits)

lemma div_mod_64_eq: "n div 64 = k div 64 \<and> n mod 64 = k mod 64 \<longleftrightarrow> n = (k :: nat)"
  by (metis div_mult_mod_eq)

lemma mem_cells256: "n \<in> cells256 m \<longleftrightarrow> n < 256 \<and> bit (words_get m (n div 64)) (n mod 64)"
  by (simp add: cells256_def)

lemma cells256_less: "cells256 m \<subseteq> {..<256}"
  by (auto simp: cells256_def)

lemma cells256_or_bit: "k < 256 \<Longrightarrow> cells256 (words_or_bit ws k) = insert k (cells256 ws)"
proof -
  assume k: "k < 256"
  have "n \<in> cells256 (words_or_bit ws k) \<longleftrightarrow> n \<in> insert k (cells256 ws)" for n
    using k div_mod_64_eq [of n k]
    by (auto simp: mem_cells256 words_or_bit_def bit_or_iff bit_exp_iff less_mult_imp_div_less)
  then show ?thesis by blast
qed

lemma words_eqI:
  assumes "\<And>i. i < 4 \<Longrightarrow> words_get a i = words_get b i"
  shows "a = b"
  using assms [of 0] assms [of 1] assms [of 2] assms [of 3] by (cases a; cases b) simp_all

lemma cells256_inject: "cells256 a = cells256 b \<Longrightarrow> a = b"
proof (rule words_eqI, rule bit_eqI)
  fix i n :: nat
  assume eq: "cells256 a = cells256 b" and "i < 4" "possible_bit TYPE(u64) n"
  then have "i * 64 + n < 256" "(i * 64 + n) div 64 = i" "(i * 64 + n) mod 64 = n"
    by (simp_all add: possible_bit_def)
  with eq show "bit (words_get a i) n \<longleftrightarrow> bit (words_get b i) n"
    by (metis mem_cells256)
qed

lemma words_get_EMPTY [simp]: "words_get mask256_EMPTY i = 0"
  by (simp add: mask256_EMPTY_def)

lemma words_get_union [simp]: "words_get (mask256_union a b) i = words_get a i OR words_get b i"
  by (cases a; cases b) simp

lemma words_get_without [simp]:
  "words_get (mask256_without a b) i = words_get a i AND NOT (words_get b i)"
  by (cases a; cases b) simp

lemma mem_shifted_bits: "n \<in> (\<lambda>n. n + k) ` bits_of b \<longleftrightarrow> k \<le> n \<and> bit b (n - k)"
proof -
  have "n \<in> (\<lambda>n. n + k) ` bits_of b" if "k \<le> n" "bit b (n - k)"
    using that by (intro image_eqI [of _ _ "n - k"]) simp_all
  then show ?thesis by auto
qed

lemma bit_u64_less: "bit (w :: u64) n \<Longrightarrow> n < 64"
  by (auto dest: bit_imp_le_length)

lemma mem_cells256_words:
  "n \<in> cells256 (Words4 a b c d) \<longleftrightarrow>
     (if n < 64 then bit a n else if n < 128 then bit b (n - 64)
      else if n < 192 then bit c (n - 128) else bit d (n - 192))"
proof -
  have d: "n div 64 = k \<and> n mod 64 = n - 64 * k" if "64 * k \<le> n" "n < 64 * k + 64" for k
    using that by (simp add: div_nat_eqI mod_nat_eqI)
  consider "n < 64" | "64 \<le> n" "n < 128" | "128 \<le> n" "n < 192" | "192 \<le> n" "n < 256" | "256 \<le> n"
    by linarith
  then show ?thesis
  proof cases
    case 1 with d [of 0] show ?thesis by (simp add: mem_cells256)
  next
    case 2 with d [of 1] show ?thesis by (simp add: mem_cells256)
  next
    case 3 with d [of 2] show ?thesis by (simp add: mem_cells256)
  next
    case 4 with d [of 3] show ?thesis by (simp add: mem_cells256)
  next
    case 5 with bit_u64_less [of d "n - 192"] show ?thesis by (auto simp: mem_cells256)
  qed
qed

lemma cells256_words:
  "cells256 (Words4 a b c d) =
     bits_of a \<union> (\<lambda>n. n + 64) ` bits_of b \<union> (\<lambda>n. n + 128) ` bits_of c \<union> (\<lambda>n. n + 192) ` bits_of d"
proof (rule set_eqI)
  fix n :: nat
  show "n \<in> cells256 (Words4 a b c d) \<longleftrightarrow> n \<in> bits_of a \<union> (\<lambda>n. n + 64) ` bits_of b \<union>
      (\<lambda>n. n + 128) ` bits_of c \<union> (\<lambda>n. n + 192) ` bits_of d"
    using bit_u64_less [of a n] bit_u64_less [of b "n - 64"] bit_u64_less [of c "n - 128"]
    unfolding mem_cells256_words Un_iff mem_shifted_bits mem_bits_of
    by (simp split: if_split) linarith
qed

lemma count256_card: "mask256_count_ones m = card (cells256 m)"
proof (cases m)
  case (Words4 a b c d)
  let ?B = "(\<lambda>n. n + 64) ` bits_of b" and ?C = "(\<lambda>n. n + 128) ` bits_of c"
    and ?D = "(\<lambda>n. n + 192) ` bits_of d"
  have AB: "bits_of a \<inter> ?B = {}" by (auto dest: bit_u64_less)
  have ABC: "(bits_of a \<union> ?B) \<inter> ?C = {}"
    using bit_u64_less [of a] bit_u64_less [of b] by (fastforce simp: mem_shifted_bits)
  have ABCD: "(bits_of a \<union> ?B \<union> ?C) \<inter> ?D = {}"
    using bit_u64_less [of a] bit_u64_less [of b] bit_u64_less [of c]
    by (fastforce simp: mem_shifted_bits)
  have "card (cells256 m) = card (bits_of a) + card ?B + card ?C + card ?D"
    unfolding Words4 cells256_words
    by (simp only: card_Un_disjoint finite_UnI finite_imageI finite_bits_of AB ABC ABCD)
  then show ?thesis by (simp add: Words4 card_image count_ones_card)
qed

interpretation board256: cell_mask cells256 mask256_EMPTY mask256_union mask256_without
  mask256_intersects mask256_is_empty mask256_count_ones
proof unfold_locales
  fix a b :: words4
  show "cells256 a = cells256 b \<Longrightarrow> a = b" by (rule cells256_inject)
  show "finite (cells256 a)" using cells256_less finite_subset by blast
  show "cells256 mask256_EMPTY = {}" by (auto simp: mem_cells256)
  show "cells256 (mask256_union a b) = cells256 a \<union> cells256 b"
    by (auto simp: mem_cells256 bit_or_iff)
  show "cells256 (mask256_without a b) = cells256 a - cells256 b"
    by (auto simp: mem_cells256 bit_and_iff bit_not_iff)
  have z: "mask256_is_empty m \<longleftrightarrow> cells256 m = {}" for m
    by (cases m) (simp add: cells256_words eq_zero_iff_bits)
  then show "mask256_is_empty a \<longleftrightarrow> cells256 a = {}" .
  show "mask256_count_ones a = card (cells256 a)" by (rule count256_card)
  show "mask256_intersects a b \<longleftrightarrow> cells256 a \<inter> cells256 b \<noteq> {}"
  proof (cases a; cases b)
    fix a0 a1 a2 a3 b0 b1 b2 b3
    assume ab: "a = Words4 a0 a1 a2 a3" "b = Words4 b0 b1 b2 b3"
    have "cells256 a \<inter> cells256 b = cells256 (Words4 (a0 AND b0) (a1 AND b1) (a2 AND b2) (a3 AND b3))"
      by (auto simp: ab mem_cells256 bit_and_iff)
    then show ?thesis using z [of "Words4 (a0 AND b0) (a1 AND b1) (a2 AND b2) (a3 AND b3)"]
      by (auto simp: ab)
  qed
qed

section \<open>Constructors of four-word masks\<close>

lemma validate_cell_count_eq_Ok_iff:
  "validate_cell_count n = Ok u \<longleftrightarrow> 0 < unat n \<and> unat n \<le> 256"
  by (auto simp: validate_cell_count_def unat_gt_0)

lemma words_get_filled:
  "f \<le> 4 \<Longrightarrow>
     words_get (foldl (\<lambda>ws i. words_set ws i (- 1)) mask256_EMPTY [0..<f]) j = (if j < f then - 1 else 0)"
proof (induction f)
  case (Suc f)
  then show ?case by (auto simp: less_Suc_eq)
qed simp

lemma div_mod_less_iff:
  "(k :: nat) < n \<longleftrightarrow> k div 64 < n div 64 \<or> (k div 64 = n div 64 \<and> k mod 64 < n mod 64)"
proof -
  have "k = 64 * (k div 64) + k mod 64" "n = 64 * (n div 64) + n mod 64"
    "k mod 64 < 64" "n mod 64 < 64"
    by simp_all
  then show ?thesis
    by (cases "k div 64" "n div 64" rule: linorder_cases) linarith+
qed

lemma cells256_all_cells:
  assumes "0 < unat n" "unat n \<le> 256"
  shows "\<exists>m. all_cells n = Ok m \<and> cells256 m = {..<unat n}"
proof -
  let ?f = "unat n div 64" and ?t = "unat n mod 64"
  let ?filled = "foldl (\<lambda>ws i. words_set ws i (- 1)) mask256_EMPTY [0..<?f]"
  let ?m = "if ?t \<noteq> 0 then words_set ?filled ?f (push_bit ?t 1 - 1) else ?filled"
  have f: "?f \<le> 4" using assms by (simp add: div_le_mono [of _ 256 64, simplified])
  have lt: "?f < 4" if "?t \<noteq> 0"
  proof -
    have "unat n \<noteq> 256" using that by auto
    then show ?thesis using assms by (intro less_mult_imp_div_less) simp
  qed
  have get: "words_get ?m j = (if j < ?f then - 1 else if j = ?f then mask ?t else 0)" for j
    using f lt by (cases "?t = 0") (auto simp: words_get_filled low_mask_eq simp del: push_bit_of_1)
  have "k \<in> cells256 ?m \<longleftrightarrow> k < unat n" for k
    unfolding mem_cells256 get using assms div_mod_less_iff [of k "unat n"]
    by (auto simp: bit_mask_iff)
  then have "cells256 ?m = {..<unat n}" by blast
  moreover have "validate_cell_count n = Ok ()"
    using assms by (simp add: validate_cell_count_eq_Ok_iff)
  then have "all_cells n = Ok ?m"
    by (simp add: all_cells_def Let_def unat_div_distrib unat_mod_distrib)
  ultimately show ?thesis by blast
qed

lemma all_cells_eq_Ok_iff:
  "all_cells n = Ok m \<longleftrightarrow> 0 < unat n \<and> unat n \<le> 256 \<and> cells256 m = {..<unat n}"
proof -
  have "0 < unat n \<and> unat n \<le> 256" if "all_cells n = Ok m"
    using that by (auto simp: all_cells_def and_then_eq_Ok_iff validate_cell_count_eq_Ok_iff)
  then show ?thesis using cells256_all_cells [of n] cells256_inject by force
qed

lemma fits_cell_count_eq_Ok_iff:
  "fits_cell_count m n = Ok b \<longleftrightarrow>
     0 < unat n \<and> unat n \<le> 256 \<and> b = (cells256 m \<subseteq> {..<unat n})"
proof -
  have "fits_cell_count m n = Ok b \<longleftrightarrow>
      (\<exists>a. all_cells n = Ok a \<and> b = (cells256 m \<subseteq> cells256 a))"
    by (auto simp: fits_cell_count_def and_then_eq_Ok_iff board256.without_empty_iff)
  then show ?thesis
    using cells256_all_cells [of n] by (auto simp: all_cells_eq_Ok_iff)
qed

lemma cells256_singleton:
  "singleton i = Ok m \<longleftrightarrow> unat i < 256 \<and> cells256 m = {unat i}"
proof -
  let ?m = "words_set mask256_EMPTY (unat i div 64) (push_bit (unat i mod 64) 1)"
  have "?m = words_or_bit mask256_EMPTY (unat i)" by (simp add: words_or_bit_def)
  then have "unat i < 256 \<Longrightarrow> cells256 ?m = {unat i}"
    by (simp add: cells256_or_bit board256.cells_empty)
  moreover have "singleton i = Ok m \<longleftrightarrow> unat i < 256 \<and> m = ?m"
    by (auto simp: singleton_def)
  ultimately show ?thesis using cells256_inject [of m ?m] by auto
qed

lemma contains_index_iff: "contains_index m i \<longleftrightarrow> unat i \<in> cells256 m"
  by (simp add: contains_index_def mem_cells256 bit_iff_and_single word_le_nat_alt
      del: push_bit_of_1)

lemma u16_index:
  "unat (y :: u16) * unat w + unat x < 65536 \<Longrightarrow> unat (y * w + x) = unat y * unat w + unat x"
  by (simp add: unat_word_ariths)

lemma cells256_row_cells:
  assumes "\<forall>x\<in>set xs. unat start + unat x < 256"
  shows "\<exists>m. row_cells start xs acc = Ok m \<and>
           cells256 m = cells256 acc \<union> (\<lambda>x. unat start + unat x) ` set xs"
  using assms
proof (induction xs arbitrary: acc)
  case (Cons x xs)
  then have x: "unat (start + x) = unat start + unat x" by (simp add: unat_word_ariths)
  obtain s where s: "singleton (start + x) = Ok s" "cells256 s = {unat start + unat x}"
    using Cons.prems x by (metis cells256_singleton singleton_def list.set_intros(1) not_le)
  with Cons.IH [of "mask256_union acc s"] Cons.prems show ?case
    by (auto simp: board256.cells_union)
qed simp

lemma checked_area:
  "ok_or e (checked_mul w h) = Ok n \<longleftrightarrow> unat n = unat w * unat h"
  by (simp add: checked_mul_eq_Some_iff)

lemma cells256_mask256_row:
  assumes "unat width * unat height \<le> 256" "y < height" "0 < width"
  shows "\<exists>m. mask256_row width height y = Ok m \<and>
           cells256 m = {unat y * unat width ..< unat y * unat width + unat width}"
proof -
  let ?w = "unat width" and ?s = "unat y * unat width"
  have pos: "0 < ?w" "0 < unat height" and y: "unat y < unat height"
    using assms by (auto simp: word_less_nat_alt)
  have bound: "?s + unat x < 256" if "x < width" for x
    using that y assms(1) index_less_area [of "unat x" ?w "unat y" "unat height"]
    by (simp add: word_less_nat_alt)
  then have "?s < 256" using assms(3) by (metis add_0_right unsigned_0 word_greater_zero_iff)
  then have start: "unat (y * width) = ?s" by (simp add: unat_word_ariths)
  have mul: "checked_mul width height = Some (width * height)"
    using assms(1) by (simp add: checked_mul_def)
  then have "unat (width * height) = ?w * unat height" by (simp add: checked_mul_eq_Some_iff)
  then have "validate_cell_count (width * height) = Ok ()"
    using assms(1) pos by (simp add: validate_cell_count_eq_Ok_iff)
  moreover obtain m where "row_cells (y * width) (word_range width) mask256_EMPTY = Ok m"
      "cells256 m = (\<lambda>x. ?s + unat x) ` {x. x < width}"
    using cells256_row_cells [of "word_range width" "y * width" mask256_EMPTY] bound start
    by (auto simp: board256.cells_empty)
  moreover have "(\<lambda>x. ?s + unat x) ` {x. x < width} = {?s ..< ?s + ?w}"
  proof -
    have "(\<lambda>x. ?s + unat x) ` {x. x < width} = (+) ?s ` unat ` {x. x < width}"
      by (simp add: image_image)
    then show ?thesis by (simp add: unat_image_less add.commute)
  qed
  ultimately show ?thesis
    using mul assms(2) by (simp add: mask256_row_def not_le [symmetric])
qed

section \<open>Horizontal mirror\<close>

definition mirror_index :: "nat \<Rightarrow> nat \<Rightarrow> nat" where
  "mirror_index w n = n div w * w + (w - 1 - n mod w)"

lemma mirror_index_at: "x < w \<Longrightarrow> mirror_index w (y * w + x) = y * w + (w - 1 - x)"
  by (simp add: mirror_index_def)

lemma mirror_index_involution: "0 < w \<Longrightarrow> mirror_index w (mirror_index w n) = n"
proof -
  assume w: "0 < w"
  have n: "n = n div w * w + n mod w" by simp
  have "mirror_index w (mirror_index w n) = n div w * w + (w - 1 - (w - 1 - n mod w))"
    unfolding mirror_index_def [of w n] using w by (intro mirror_index_at) simp
  also have "\<dots> = n" using w n mod_less_divisor [OF w, of n] by simp
  finally show ?thesis .
qed

lemma mirror_index_less:
  assumes "n < w * h" shows "mirror_index w n < w * h"
proof -
  have "0 < w" using assms by (cases w) auto
  then show ?thesis unfolding mirror_index_def
    using assms by (intro index_less_area) (auto simp: less_mult_imp_div_less mult.commute)
qed

lemma cells256_foldl_mirror_cell:
  assumes "\<forall>x\<in>set xs. t x < 256 \<and> unat (y * width + (width - x - 1)) = t x"
  shows "cells256 (foldl (mirror_cell m width y) ws xs) =
           cells256 ws \<union> t ` {x \<in> set xs. contains_index m (y * width + x)}"
  using assms by (induction xs arbitrary: ws) (auto simp: mirror_cell_def cells256_or_bit)

lemma mirror_arith:
  fixes width height x y :: u16
  assumes "unat width * unat height \<le> 256" "x < width" "y < height"
  shows "unat (y * width + x) = unat y * unat width + unat x"
    and "unat (y * width + (width - x - 1)) = mirror_index (unat width) (unat y * unat width + unat x)"
    and "unat y * unat width + unat x < unat width * unat height"
proof -
  let ?w = "unat width"
  have x: "unat x < ?w" and y: "unat y < unat height"
    using assms by (simp_all add: word_less_nat_alt)
  then show lt: "unat y * ?w + unat x < ?w * unat height" by (rule index_less_area)
  then show "unat (y * width + x) = unat y * ?w + unat x"
    using assms(1) by (intro u16_index) simp
  have "1 \<le> width - x" using x
    by (simp add: word_le_nat_alt unat_sub word_le_nat_alt)
  then have sub: "unat (width - x - 1) = ?w - 1 - unat x"
    using assms(2) x by (simp add: unat_sub word_le_nat_alt)
  have "unat y * ?w + (?w - 1 - unat x) < ?w * unat height"
    using x y by (intro index_less_area) auto
  then show "unat (y * width + (width - x - 1)) = mirror_index ?w (unat y * ?w + unat x)"
    using assms(1) x sub by (simp add: mirror_index_at u16_index)
qed

lemma cells256_mirror_rows:
  assumes "unat width * unat height \<le> 256" "\<forall>y\<in>set ys. y < height"
  shows "cells256 (foldl (\<lambda>ws y. foldl (mirror_cell m width y) ws (word_range width)) ws ys) =
           cells256 ws \<union>
           mirror_index (unat width) ` (cells256 m \<inter>
             {unat y * unat width + unat x | y x. y \<in> set ys \<and> x < width})"
  using assms(2)
proof (induction ys arbitrary: ws)
  case (Cons y ys)
  let ?w = "unat width"
  have y: "y < height" using Cons.prems by simp
  note ar = mirror_arith [OF assms(1) _ y]
  let ?t = "\<lambda>x. mirror_index ?w (unat y * ?w + unat x)"
  have "cells256 (foldl (mirror_cell m width y) ws (word_range width)) =
      cells256 ws \<union> ?t ` {x \<in> set (word_range width). contains_index m (y * width + x)}"
    using ar assms(1) mirror_index_less
    by (intro cells256_foldl_mirror_cell) (force intro: order_less_le_trans)
  also have "?t ` {x \<in> set (word_range width). contains_index m (y * width + x)} =
      mirror_index ?w ` (cells256 m \<inter> {unat y * ?w + unat x | x. x < width})"
    using ar(1) by (auto simp: contains_index_iff image_iff)
  finally have "cells256 (foldl (\<lambda>ws y. foldl (mirror_cell m width y) ws (word_range width))
      ws (y # ys)) = cells256 ws \<union> mirror_index ?w ` (cells256 m \<inter>
        ({unat y * ?w + unat x | x. x < width} \<union>
         {unat y * ?w + unat x | y x. y \<in> set ys \<and> x < width}))"
    using Cons.IH [of "foldl (mirror_cell m width y) ws (word_range width)"] Cons.prems
    by (simp add: Int_Un_distrib image_Un Un_assoc)
  moreover have "{unat y * ?w + unat x | x. x < width} \<union>
      {unat y * ?w + unat x | y x. y \<in> set ys \<and> x < width} =
      {unat z * ?w + unat x | z x. z \<in> set (y # ys) \<and> x < width}"
    by auto
  ultimately show ?case by simp
qed simp

lemma field_cells_eq:
  "{unat y * unat width + unat x | y x. y \<in> {y :: u16. y < height} \<and> x < (width :: u16)}
     = {..<unat width * unat height}"
proof -
  have "\<exists>y x. n = unat y * unat width + unat x \<and> y < height \<and> x < width"
    if n: "n < unat width * unat height" for n
  proof -
    let ?w = "unat width"
    have w: "0 < ?w" using n by (cases ?w) auto
    have q: "n div ?w < unat height" using n by (simp add: less_mult_imp_div_less mult.commute)
    have r: "n mod ?w < ?w" using w by simp
    have "unat (word_of_nat (n div ?w) :: u16) = n div ?w" using le_unat_uoi q by (metis less_imp_le)
    moreover have "unat (word_of_nat (n mod ?w) :: u16) = n mod ?w"
      using le_unat_uoi r by (metis less_imp_le)
    ultimately show ?thesis using q r
      by (intro exI [of _ "word_of_nat (n div ?w)"] exI [of _ "word_of_nat (n mod ?w)"])
        (simp add: word_less_nat_alt)
  qed
  then show ?thesis by (auto simp: word_less_nat_alt intro: index_less_area)
qed

abbreviation mirror_loop :: "Board256Mask \<Rightarrow> u16 \<Rightarrow> u16 \<Rightarrow> words4" where
  "mirror_loop m width height \<equiv>
     foldl (\<lambda>ws y. foldl (mirror_cell m width y) ws (word_range width)) (Words4 0 0 0 0)
       (word_range height)"

lemma mirrored_horizontally_value:
  "mirrored_horizontally m width height = Ok m' \<longleftrightarrow>
     0 < unat width * unat height \<and> unat width * unat height \<le> 256 \<and>
     cells256 m \<subseteq> {..<unat width * unat height} \<and> m' = mirror_loop m width height"
proof (cases "unat width * unat height \<le> 256 \<and> 0 < unat width * unat height")
  case True
  then have "checked_mul width height = Some (width * height)"
    and n: "unat (width * height) = unat width * unat height"
    by (simp_all add: checked_mul_def unat_word_ariths)
  with True show ?thesis
    by (auto simp: mirrored_horizontally_def and_then_eq_Ok_iff validate_cell_count_eq_Ok_iff
        fits_cell_count_eq_Ok_iff)
next
  case False
  then show ?thesis
    by (auto simp: mirrored_horizontally_def and_then_eq_Ok_iff validate_cell_count_eq_Ok_iff
        checked_mul_eq_Some_iff)
qed

lemma cells256_mirror_loop:
  assumes "unat width * unat height \<le> 256" "cells256 m \<subseteq> {..<unat width * unat height}"
  shows "cells256 (mirror_loop m width height) = mirror_index (unat width) ` cells256 m"
proof -
  have zero: "cells256 (Words4 0 0 0 0) = {}"
    using board256.cells_empty by (simp add: mask256_EMPTY_def)
  show ?thesis
    using assms cells256_mirror_rows [of width height "word_range height" m "Words4 0 0 0 0"]
    by (simp add: zero field_cells_eq [unfolded mem_Collect_eq] Int_absorb2)
qed

text \<open>
  C34: the horizontal mirror of a field of at most 256 cells reflects every cell within its row,
  keeps the cell count, and applying it twice gives the mask back.
\<close>

theorem mirrored_horizontally_reflects:
  assumes "0 < unat width * unat height" "unat width * unat height \<le> 256"
    and "cells256 m \<subseteq> {..<unat width * unat height}"
  shows "\<exists>m'. mirrored_horizontally m width height = Ok m' \<and>
           cells256 m' = mirror_index (unat width) ` cells256 m \<and>
           mask256_count_ones m' = mask256_count_ones m \<and>
           mirrored_horizontally m' width height = Ok m"
proof -
  let ?w = "unat width"
  have w: "0 < ?w" using assms(1) by simp
  define m' where "m' = mirror_loop m width height"
  have m': "mirrored_horizontally m width height = Ok m'"
    "cells256 m' = mirror_index ?w ` cells256 m"
    using assms by (simp_all add: mirrored_horizontally_value cells256_mirror_loop m'_def)
  have inj: "inj (mirror_index ?w)" 
    by (rule inj_on_inverseI [where g = "mirror_index ?w"]) (simp add: mirror_index_involution w)
  have sub: "cells256 m' \<subseteq> {..<?w * unat height}"
    using assms(3) by (auto simp: m'(2) intro!: mirror_index_less)
  have "mirror_index ?w ` cells256 m' = cells256 m"
    using w by (simp add: m'(2) image_image mirror_index_involution)
  then have "mirror_loop m' width height = m"
    using assms(2) sub by (intro cells256_inject) (simp add: cells256_mirror_loop)
  moreover have "mask256_count_ones m' = mask256_count_ones m"
    by (simp add: count256_card m'(2) card_image inj_on_subset [OF inj])
  ultimately show ?thesis
    using m' assms sub by (simp add: mirrored_horizontally_value)
qed

theorem mirrored_horizontally_reflects_witness:
  "cells256 (Words4 5 0 0 0) \<subseteq> {..<20} \<and>
   (\<exists>m'. mirrored_horizontally (Words4 5 0 0 0) 10 2 = Ok m' \<and>
           cells256 m' = mirror_index 10 ` cells256 (Words4 5 0 0 0) \<and>
           mask256_count_ones m' = mask256_count_ones (Words4 5 0 0 0) \<and>
           mirrored_horizontally m' 10 2 = Ok (Words4 5 0 0 0))"
proof -
  have c: "cells256 (Words4 5 0 0 0) \<subseteq> {..<20}"
    using bits_of_less_exp [of "5 :: u64" 20] by (auto simp: cells256_words)
  then show ?thesis using mirrored_horizontally_reflects [of 10 2 "Words4 5 0 0 0"] by simp
qed

section \<open>Storage selection\<close>

lemma for_lines_eq_Ok_iff:
  "for_lines n = Ok k \<longleftrightarrow>
     (case k of
        Storage64 \<Rightarrow> 1 \<le> unat n \<and> unat n \<le> 6
      | Storage128 \<Rightarrow> 7 \<le> unat n \<and> unat n \<le> 12
      | Storage256 \<Rightarrow> 13 \<le> unat n \<and> unat n \<le> 24)"
  by (cases k)
    (auto simp: for_lines_def STANDARD_PC_MAX_LINES_def word_le_nat_alt unat_gt_0)

lemma for_lines_is_ok: "is_ok (for_lines n) \<longleftrightarrow> 1 \<le> unat n \<and> unat n \<le> 24"
  by (auto simp: for_lines_def STANDARD_PC_MAX_LINES_def word_le_nat_alt unat_gt_0)

lemma unat_pc_cell_count: "unat (ucast (n :: u8) * STANDARD_PC_BOARD_WIDTH) = 10 * unat n"
proof -
  have "unat n \<le> 255" by simp
  then show ?thesis
    by (simp add: STANDARD_PC_BOARD_WIDTH_def unat_word_ariths unat_ucast_up mult.commute
        del: unat_bounds)
qed

lemma words_get_eq_0:
  assumes "cells256 ws \<subseteq> {..<n}" "n \<le> 64 * i" "i < 4"
  shows "words_get ws i = 0"
proof (rule bit_eqI)
  fix k assume "possible_bit TYPE(u64) k"
  then have k: "k < 64" by (simp add: possible_bit_def)
  have "64 * i + k \<notin> cells256 ws" using assms(1,2) by auto
  then show "bit (words_get ws i) k \<longleftrightarrow> bit (0 :: u64) k"
    using k assms(3) by (simp add: mem_cells256)
qed

lemma board128_words:
  fixes a b :: u64
  defines "m \<equiv> ucast a OR push_bit 64 (ucast b) :: u128"
  shows "ucast m = a" "ucast (drop_bit 64 m) = b" "count_ones m = count_ones a + count_ones b"
proof -
  show "ucast m = a"
    by (rule bit_eqI) (auto simp: m_def bit_ucast_iff bit_or_iff bit_push_bit_iff dest: bit_u64_less)
  show "ucast (drop_bit 64 m) = b"
    by (rule bit_eqI)
      (auto simp: m_def bit_ucast_iff bit_or_iff bit_push_bit_iff bit_drop_bit_eq dest: bit_u64_less)
  have "bits_of m = bits_of a \<union> (\<lambda>n. n + 64) ` bits_of b"
  proof (rule set_eqI)
    fix n
    show "n \<in> bits_of m \<longleftrightarrow> n \<in> bits_of a \<union> (\<lambda>n. n + 64) ` bits_of b"
      unfolding Un_iff mem_shifted_bits mem_bits_of using bit_u64_less [of a n] bit_u64_less [of b "n - 64"]
      by (auto simp: m_def bit_or_iff bit_push_bit_iff bit_ucast_iff)
  qed
  moreover have "bits_of a \<inter> (\<lambda>n. n + 64) ` bits_of b = {}" by (auto dest: bit_u64_less)
  ultimately show "count_ones m = count_ones a + count_ones b"
    by (simp add: count_ones_card card_Un_disjoint card_image)
qed

lemma pc_mask_from_words_eq_Ok_iff:
  "pc_mask_from_words n ws = Ok m \<longleftrightarrow>
     cells256 ws \<subseteq> {..<10 * unat n} \<and>
     (\<exists>k. for_lines n = Ok k \<and>
        m = (case k of
             Storage64 \<Rightarrow> Board64 (words_get ws 0)
           | Storage128 \<Rightarrow> Board128 (ucast (words_get ws 0) OR push_bit 64 (ucast (words_get ws 1)))
           | Storage256 \<Rightarrow> Board256 ws))"
proof -
  have "0 < unat n \<and> 10 * unat n \<le> 256" if "for_lines n = Ok k" for k
    using that by (simp add: for_lines_eq_Ok_iff split: StandardPcBoardStorageKind.splits)
  then show ?thesis
    by (auto simp: pc_mask_from_words_def and_then_eq_Ok_iff Let_def fits_cell_count_eq_Ok_iff
        unat_pc_cell_count)
qed

lemma pc_mask_words_from_words:
  assumes "pc_mask_from_words n ws = Ok m"
  shows "pc_mask_words m = ws \<and> pc_mask_count_ones m = mask256_count_ones ws \<and>
    for_lines n = Ok (storage_kind m)"
proof -
  obtain a b c d where ws: "ws = Words4 a b c d" by (cases ws)
  obtain k where k: "for_lines n = Ok k" and cells: "cells256 ws \<subseteq> {..<10 * unat n}"
    and m: "m = (case k of
             Storage64 \<Rightarrow> Board64 (words_get ws 0)
           | Storage128 \<Rightarrow> Board128 (ucast (words_get ws 0) OR push_bit 64 (ucast (words_get ws 1)))
           | Storage256 \<Rightarrow> Board256 ws)"
    using assms unfolding pc_mask_from_words_eq_Ok_iff by blast
  note zero = words_get_eq_0 [OF cells]
  show ?thesis
  proof (cases k)
    case Storage64
    then have "b = 0" "c = 0" "d = 0"
      using k zero [of 1] zero [of 2] zero [of 3] by (simp_all add: for_lines_eq_Ok_iff ws)
    with Storage64 m k show ?thesis by (simp add: ws)
  next
    case Storage128
    then have "c = 0" "d = 0"
      using k zero [of 2] zero [of 3] by (simp_all add: for_lines_eq_Ok_iff ws)
    moreover have "m = Board128 (ucast a OR push_bit 64 (ucast b))"
      using m by (simp add: ws Storage128)
    ultimately show ?thesis
      using Storage128 k by (simp only: ws pc_mask_words.simps pc_mask_count_ones.simps
          storage_kind.simps board128_words mask256_count_ones.simps count_ones_zero) simp
  next
    case Storage256
    with m k show ?thesis by simp
  qed
qed

text \<open>
  \<open>StandardPcBoardMask::from_words\<close> accepts exactly the masks inside a board of 1 to 24 lines of
  ten cells, picks the storage \<open>for_lines\<close> names, and loses nothing: \<open>words\<close> gives the four input
  words back and \<open>count_ones\<close> agrees with the four-word count, whatever the storage.
\<close>

theorem pc_mask_from_words_exact:
  "if 1 \<le> unat n \<and> unat n \<le> 24 \<and> cells256 ws \<subseteq> {..<10 * unat n}
   then \<exists>m. pc_mask_from_words n ws = Ok m \<and> pc_mask_words m = ws \<and>
          pc_mask_count_ones m = mask256_count_ones ws \<and> for_lines n = Ok (storage_kind m)
   else \<exists>e. pc_mask_from_words n ws = Err e"
proof -
  have "is_ok (pc_mask_from_words n ws) \<longleftrightarrow>
      1 \<le> unat n \<and> unat n \<le> 24 \<and> cells256 ws \<subseteq> {..<10 * unat n}"
    unfolding is_ok_iff pc_mask_from_words_eq_Ok_iff using for_lines_is_ok [of n]
    by (auto simp: is_ok_iff)
  then show ?thesis using pc_mask_words_from_words [of n ws]
    by (cases "pc_mask_from_words n ws") (auto split: if_split)
qed

section \<open>Extended state masks\<close>

lemma low_u64_mask_eq: "unat n \<le> 64 \<Longrightarrow> low_u64_mask n = mask (unat n)"
  by (auto simp: low_u64_mask_def low_mask_eq mask_eq_exp_minus_1 simp del: push_bit_of_1)

lemma validate_operation_count_eq_Ok_iff:
  "validate_operation_count n = Ok u \<longleftrightarrow> unat n \<le> 60"
  by (auto simp: validate_operation_count_def EXTENDED_PC_MAX_PLACEMENTS_def
      STANDARD_PC_BOARD_WIDTH_def STANDARD_PC_MAX_LINES_def word_less_nat_alt)

lemma operations_from_bits_eq_Ok_iff:
  "operations_from_bits n bits = Ok m \<longleftrightarrow>
     unat n \<le> 60 \<and> m = bits \<and> bits_of bits \<subseteq> {..<unat n}"
  by (auto simp: operations_from_bits_def and_then_eq_Ok_iff validate_operation_count_eq_Ok_iff
      low_u64_mask_eq mask_simps split: if_splits)

lemma operations_without_eq_Ok_iff:
  "operations_without m n i = Ok m' \<longleftrightarrow>
     unat n \<le> 60 \<and> unat i < unat n \<and> bits_of m' = bits_of m - {unat i}"
proof -
  define r where "r = m AND NOT (push_bit (unat i) 1)"
  have r: "bits_of r = bits_of m - {unat i}" if "unat i < 64"
    unfolding r_def bits_of_and_not bits_of_single using that by simp
  have v: "operations_without m n i = Ok m' \<longleftrightarrow> unat n \<le> 60 \<and> unat i < unat n \<and> m' = r"
    unfolding operations_without_def r_def [symmetric] and_then_eq_Ok_iff
      validate_operation_count_eq_Ok_iff
    by (simp add: word_le_nat_alt) auto
  show ?thesis
  proof (cases "unat n \<le> 60 \<and> unat i < unat n")
    case True
    then have "bits_of r = bits_of m - {unat i}" using r by simp
    then have "m' = r \<longleftrightarrow> bits_of m' = bits_of m - {unat i}" by (metis bits_of_eq_iff)
    with True v show ?thesis by blast
  next
    case False
    with v show ?thesis by blast
  qed
qed

lemma deleted_rows_from_bits_eq_Ok_iff:
  "deleted_rows_from_bits n bits = Ok m \<longleftrightarrow>
     7 \<le> unat n \<and> unat n \<le> 24 \<and> m = bits \<and> bits_of bits \<subseteq> {..<unat n}"
proof -
  have "low_u32_mask n = mask (unat n)" if "unat n \<le> 24"
    using that by (auto simp: low_u32_mask_def low_mask_eq simp del: push_bit_of_1)
  then show ?thesis
    by (auto simp: deleted_rows_from_bits_def validate_extended_lines_def and_then_eq_Ok_iff
        STANDARD_PC_MAX_LINES_def word_less_nat_alt mask_simps split: if_splits)
qed

end
