(* ===== verification/ExtendedTilings.thy ===== *)
theory ExtendedTilings
  imports WideBoards Text "HOL-Library.Product_Lexorder"
begin

text \<open>
  The four-word tiling key (\<open>solution/extended_tiling_solution.rs\<close>): the validating parser of the
  \<open>ctk2\<close> text and the iterator over the placements of a validated key.  The error type is shared
  with the Board64 key of the theory \<open>Tilings\<close>.  The lemmas determine the accepted language: the
  parser accepts exactly the texts of the valid tilings, each tiling in exactly one spelling, and
  its iterator never hits the \<open>expect\<close>.
\<close>

section \<open>Types\<close>

datatype NormalizedTilingSolutionError =
    InvalidCanonicalKey
  | EmptyPlacementMask
  | PlacementAreaNotFour PieceKind nat
  | OverlappingPlacement PieceKind
  | TooManyPlacements nat nat

text \<open>The derived order of a word array compares the words from index 0.\<close>

fun words_list :: "words4 \<Rightarrow> u64 list" where
  "words_list (Words4 a b c d) = [a, b, c, d]"

instantiation words4 :: linorder
begin

definition less_eq_words4 :: "words4 \<Rightarrow> words4 \<Rightarrow> bool" where
  "a \<le> b \<longleftrightarrow> words_list a \<le> words_list b"

definition less_words4 :: "words4 \<Rightarrow> words4 \<Rightarrow> bool" where
  "a < b \<longleftrightarrow> words_list a < words_list b"

instance
proof
  fix a b c :: words4
  show "a < b \<longleftrightarrow> a \<le> b \<and> \<not> b \<le> a"
    unfolding less_words4_def less_eq_words4_def by (rule less_le_not_le)
  show "a \<le> a" by (simp only: less_eq_words4_def order_refl)
  show "a \<le> b \<Longrightarrow> b \<le> c \<Longrightarrow> a \<le> c" unfolding less_eq_words4_def by (rule order_trans)
  show "a \<le> b \<or> b \<le> a" unfolding less_eq_words4_def by (rule linear)
  assume "a \<le> b" "b \<le> a"
  then have "words_list a = words_list b" unfolding less_eq_words4_def by (rule order_antisym)
  then show "a = b" by (cases a; cases b) simp
qed

end

record ExtendedPiecePlacementMask =
  ext_piece :: PieceKind
  ext_cells :: Board256Mask

text \<open>The fields in declaration order, on which the derived order of the struct is based.\<close>

definition ext_key :: "ExtendedPiecePlacementMask \<Rightarrow> PieceKind \<times> Board256Mask" where
  "ext_key p = (ext_piece p, ext_cells p)"

record ExtendedTilingSolutionKey =
  ek_value :: string
  ek_height :: u8
  ek_initial :: Board256Mask
  ek_placements :: string
  ek_count :: u8

definition EXTENDED_TILING_MAX_PLACEMENTS :: nat where
  "EXTENDED_TILING_MAX_PLACEMENTS = 60"

section \<open>The parser\<close>

definition is_lower_hex :: "char \<Rightarrow> bool" where
  "is_lower_hex c \<longleftrightarrow> is_ascii_digit c \<or> (97 \<le> (of_char c :: nat) \<and> (of_char c :: nat) \<le> 102)"

definition chunk16 :: "string \<Rightarrow> nat \<Rightarrow> string" where
  "chunk16 s i = take 16 (drop (16 * i) s)"

text \<open>The chunks are read left to right into the words from index 3 down.\<close>

definition parse_mask :: "string \<Rightarrow> NormalizedTilingSolutionError + Board256Mask" where
  "parse_mask s =
     (if length s \<noteq> 64 \<or> \<not> list_all is_lower_hex s then Err InvalidCanonicalKey
      else
        and_then (ok_or InvalidCanonicalKey (from_str_radix16 (chunk16 s 0))) (\<lambda>w3.
        and_then (ok_or InvalidCanonicalKey (from_str_radix16 (chunk16 s 1))) (\<lambda>w2.
        and_then (ok_or InvalidCanonicalKey (from_str_radix16 (chunk16 s 2))) (\<lambda>w1.
        and_then (ok_or InvalidCanonicalKey (from_str_radix16 (chunk16 s 3))) (\<lambda>w0.
          Ok (Words4 w0 w1 w2 w3))))))"

definition piece_of_text :: "string \<Rightarrow> PieceKind option" where
  "piece_of_text s =
     (if s = ''I'' then Some PieceI
      else if s = ''O'' then Some PieceO
      else if s = ''T'' then Some PieceT
      else if s = ''S'' then Some PieceS
      else if s = ''Z'' then Some PieceZ
      else if s = ''J'' then Some PieceJ
      else if s = ''L'' then Some PieceL
      else None)"

definition parse_placement :: "string \<Rightarrow> NormalizedTilingSolutionError + ExtendedPiecePlacementMask" where
  "parse_placement s =
     and_then (ok_or InvalidCanonicalKey (split_once '':'' s)) (\<lambda>(piece, cells).
     and_then (ok_or InvalidCanonicalKey (piece_of_text piece)) (\<lambda>piece.
     and_then (parse_mask cells) (\<lambda>cells.
       Ok \<lparr>ext_piece = piece, ext_cells = cells\<rparr>)))"

definition parse_u8 :: "string \<Rightarrow> u8 option" where
  "parse_u8 s = Option.bind (parse_usize s) (\<lambda>n. if n \<le> 255 then Some (word_of_nat n) else None)"

text \<open>The loop over the placement texts: cells occupied so far, previous placement, count.\<close>

primrec parse_ext_placements ::
  "u16 \<Rightarrow> string list \<Rightarrow> Board256Mask \<times> ExtendedPiecePlacementMask option \<times> nat \<Rightarrow>
     NormalizedTilingSolutionError + nat" where
  "parse_ext_placements cell_count [] state = Ok (snd (snd state))"
| "parse_ext_placements cell_count (s # ss) state =
     (case state of (occupied, previous, n) \<Rightarrow>
       if n = EXTENDED_TILING_MAX_PLACEMENTS
       then Err (TooManyPlacements (n + 1) EXTENDED_TILING_MAX_PLACEMENTS)
       else
         and_then (parse_placement s) (\<lambda>p.
           if mask256_is_empty (ext_cells p) then Err EmptyPlacementMask
           else if mask256_count_ones (ext_cells p) \<noteq> 4
           then Err (PlacementAreaNotFour (ext_piece p) (mask256_count_ones (ext_cells p)))
           else
             and_then (map_err (\<lambda>_. InvalidCanonicalKey) (fits_cell_count (ext_cells p) cell_count)) (\<lambda>fit.
               if \<not> fit \<or> (case previous of None \<Rightarrow> False | Some prior \<Rightarrow> ext_key prior \<ge> ext_key p)
               then Err InvalidCanonicalKey
               else if mask256_intersects occupied (ext_cells p)
               then Err (OverlappingPlacement (ext_piece p))
               else parse_ext_placements cell_count ss
                      (mask256_union occupied (ext_cells p), Some p, n + 1))))"

definition valid_height_text :: "string \<Rightarrow> bool" where
  "valid_height_text s \<longleftrightarrow>
     \<not> (s = [] \<or> length s > 2 \<or> hd s = CHR ''0'' \<or> \<not> list_all is_ascii_digit s)"

definition parse_ext_canonical :: "string \<Rightarrow> NormalizedTilingSolutionError + ExtendedTilingSolutionKey" where
  "parse_ext_canonical value =
     and_then (ok_or InvalidCanonicalKey (strip_prefix ''ctk2|height='' value)) (\<lambda>payload.
     and_then (ok_or InvalidCanonicalKey (split_once ''|initial='' payload)) (\<lambda>(height_text, payload).
       if \<not> valid_height_text height_text then Err InvalidCanonicalKey
       else
         and_then (ok_or InvalidCanonicalKey (parse_u8 height_text)) (\<lambda>height.
           if \<not> (1 \<le> height \<and> height \<le> STANDARD_PC_MAX_LINES) then Err InvalidCanonicalKey
           else
             and_then (ok_or InvalidCanonicalKey (split_once ''|placements='' payload)) (\<lambda>(initial, placements).
             and_then (parse_mask initial) (\<lambda>initial.
               let cell_count = ucast height * STANDARD_PC_BOARD_WIDTH in
               and_then (map_err (\<lambda>_. InvalidCanonicalKey) (fits_cell_count initial cell_count)) (\<lambda>fit.
                 if \<not> fit then Err InvalidCanonicalKey
                 else
                   and_then (if placements = [] then Ok 0
                             else parse_ext_placements cell_count (split_on CHR '','' placements)
                                    (initial, None, 0)) (\<lambda>n.
                     Ok \<lparr>ek_value = value, ek_height = height, ek_initial = initial,
                         ek_placements = placements, ek_count = word_of_nat n\<rparr>)))))))"

text \<open>The iterator; \<open>None\<close> is a failed \<open>expect\<close>.\<close>

definition ext_placements :: "ExtendedTilingSolutionKey \<Rightarrow> ExtendedPiecePlacementMask list option" where
  "ext_placements k =
     those (map (\<lambda>s. case parse_placement s of Inl _ \<Rightarrow> None | Inr p \<Rightarrow> Some p)
       (filter (\<lambda>_. ek_count k \<noteq> 0) (split_on CHR '','' (ek_placements k))))"

section \<open>Valid tilings and their text\<close>

definition hex64 :: "Board256Mask \<Rightarrow> string" where
  "hex64 m = concat (map hex16 (rev (words_list m)))"

definition decimal :: "nat \<Rightarrow> string" where
  "decimal n = (if n < 10 then [hex_digit n] else [hex_digit (n div 10), hex_digit (n mod 10)])"

definition ext_text :: "ExtendedPiecePlacementMask \<Rightarrow> string" where
  "ext_text p = as_ascii (ext_piece p) # CHR '':'' # hex64 (ext_cells p)"

definition ext_canonical :: "u8 \<Rightarrow> Board256Mask \<Rightarrow> ExtendedPiecePlacementMask list \<Rightarrow> string" where
  "ext_canonical h i pl =
     ''ctk2|height='' @ decimal (unat h) @ ''|initial='' @ hex64 i @ ''|placements='' @
       join CHR '','' (map ext_text pl)"

definition valid_ext :: "u8 \<Rightarrow> Board256Mask \<Rightarrow> ExtendedPiecePlacementMask list \<Rightarrow> bool" where
  "valid_ext h i pl \<longleftrightarrow>
     1 \<le> unat h \<and> unat h \<le> 24 \<and> cells256 i \<subseteq> {..<10 * unat h} \<and>
     (\<forall>p\<in>set pl. mask256_count_ones (ext_cells p) = 4 \<and> cells256 (ext_cells p) \<subseteq> {..<10 * unat h}) \<and>
     sorted_wrt (<) (map ext_key pl) \<and>
     board256.accepts i (map ext_cells pl)"

section \<open>Lower-case hexadecimal is canonical\<close>

lemma horner_inject:
  assumes "length ds = length es" "\<forall>d\<in>set ds. d < b" "\<forall>e\<in>set es. e < b" "horner b ds = horner b es"
  shows "ds = es"
  using horner_less_iff [of ds es b] horner_less_iff [of es ds b] assms by auto

lemma is_lower_hex_iff: "is_lower_hex c \<longleftrightarrow> (\<exists>d<16. c = hex_digit d)"
proof
  assume "is_lower_hex c"
  then have "c = hex_digit (the (hex_value c)) \<and> the (hex_value c) < 16"
    by (auto simp: is_lower_hex_def is_ascii_digit_def hex_value_def hex_digit_def Let_def)
  then show "\<exists>d<16. c = hex_digit d" by blast
next
  assume "\<exists>d<16. c = hex_digit d"
  then show "is_lower_hex c"
    by (auto simp: is_lower_hex_def is_ascii_digit_def hex_digit_code split: if_splits)
qed

lemma lower_hex_value: "is_lower_hex c \<Longrightarrow> \<exists>d<16. hex_value c = Some d \<and> c = hex_digit d"
  by (auto simp: is_lower_hex_iff hex_value_hex_digit)

lemma radix16_canonical:
  assumes "length s = 16" "list_all is_lower_hex s"
  shows "from_str_radix16 s = Some w \<longleftrightarrow> s = hex16 w"
proof
  let ?v = "the \<circ> hex_value"
  have v: "\<forall>d\<in>set (map ?v s). d < 16"
    using assms(2) lower_hex_value by (fastforce simp: list_all_iff)
  have s: "map hex_digit (map ?v s) = s"
    using assms(2) lower_hex_value by (fastforce simp: list_all_iff intro!: map_idI)
  have "CHR ''+'' \<notin> set s"
    using assms(2) by (auto simp: list_all_iff is_lower_hex_def is_ascii_digit_def)
  then have plus: "strip_plus s = s" by (cases s) (auto simp: strip_plus_def)
  assume "from_str_radix16 s = Some w"
  then have "w = word_of_nat (horner 16 (map ?v s))" "horner 16 (map ?v s) < 2 ^ 64"
    by (auto simp: from_str_radix16_def plus Let_def split: if_splits)
  then have "horner 16 (map ?v s) = unat w" by (simp add: unat_word_of_nat)
  then have "map ?v s = map (nibble w) [0..<16]"
    using horner_nibbles [of 16 w] assms(1) v by (intro horner_inject [of _ _ 16]) simp_all
  then have "s = map hex_digit (map (nibble w) [0..<16])" using s by metis
  then show "s = hex16 w" by (simp add: hex16_def)
qed simp

lemma list_all_hex16 [simp]: "list_all is_lower_hex (hex16 w)"
  by (auto simp: list_all_iff is_lower_hex_iff dest: set_hex16)

lemma hex64_words: "hex64 (Words4 a b c d) = hex16 d @ hex16 c @ hex16 b @ hex16 a"
  by (simp add: hex64_def)

lemma length_hex64 [simp]: "length (hex64 m) = 64"
  by (cases m) (simp add: hex64_words)

lemma list_all_hex64 [simp]: "list_all is_lower_hex (hex64 m)"
  by (cases m) (simp add: hex64_words)

lemma chunk16_append:
  assumes "length a = 16" "length b = 16" "length c = 16" "length d = 16"
  shows "chunk16 (a @ b @ c @ d) 0 = a" "chunk16 (a @ b @ c @ d) (Suc 0) = b"
    "chunk16 (a @ b @ c @ d) 2 = c" "chunk16 (a @ b @ c @ d) 3 = d"
  using assms by (simp_all add: chunk16_def)

lemma split_chunks:
  assumes "length s = 64"
  obtains a b c d where "s = a @ b @ c @ d" "length a = 16" "length b = 16" "length c = 16" "length d = 16"
proof (rule that)
  have "take 16 (drop 32 s) @ drop 48 s = drop 32 s" "take 16 (drop 16 s) @ drop 32 s = drop 16 s"
    using append_take_drop_id [of 16 "drop 32 s"] append_take_drop_id [of 16 "drop 16 s"]
    by simp_all
  then show "s = take 16 s @ take 16 (drop 16 s) @ take 16 (drop 32 s) @ drop 48 s" by simp
qed (use assms in simp_all)

lemma parse_mask_eq_Ok_iff: "parse_mask s = Ok m \<longleftrightarrow> s = hex64 m"
proof
  assume ok: "parse_mask s = Ok m"
  then have l: "length s = 64" and hex: "list_all is_lower_hex s"
    by (simp_all add: parse_mask_def split: if_splits)
  obtain a b c d where s: "s = a @ b @ c @ d"
    and len: "length a = 16" "length b = 16" "length c = 16" "length d = 16" by (rule split_chunks [OF l])
  from ok hex len obtain w3 w2 w1 w0 where "m = Words4 w0 w1 w2 w3"
    "from_str_radix16 a = Some w3" "from_str_radix16 b = Some w2" "from_str_radix16 c = Some w1"
    "from_str_radix16 d = Some w0"
    by (auto simp: parse_mask_def s chunk16_append and_then_eq_Ok_iff split: if_splits)
  then show "s = hex64 m"
    using len hex by (simp add: s hex64_words radix16_canonical)
next
  assume "s = hex64 m"
  then show "parse_mask s = Ok m"
    by (cases m) (simp add: parse_mask_def hex64_words chunk16_append)
qed

lemma piece_of_text_eq_Some_iff: "piece_of_text s = Some k \<longleftrightarrow> s = [as_ascii k]"
  by (cases k) (auto simp: piece_of_text_def split: if_splits)

lemma colon_as_ascii [simp]: "as_ascii k \<noteq> CHR '':''" "as_ascii k \<noteq> CHR '',''"
  by (cases k; simp)+

lemma parse_placement_eq_Ok_iff: "parse_placement s = Ok p \<longleftrightarrow> s = ext_text p"
proof
  assume "parse_placement s = Ok p"
  then obtain a b where "split_once '':'' s = Some (a, b)" "piece_of_text a = Some (ext_piece p)"
    "parse_mask b = Ok (ext_cells p)"
    by (auto simp: parse_placement_def and_then_eq_Ok_iff)
  then show "s = ext_text p"
    by (auto simp: split_once_char_eq_Some_iff piece_of_text_eq_Some_iff parse_mask_eq_Ok_iff ext_text_def)
next
  assume "s = ext_text p"
  moreover have "split_once '':'' (as_ascii k # CHR '':'' # b) = Some ([as_ascii k], b)" for k b
    unfolding split_once_char_eq_Some_iff by (cases k) auto
  moreover have "piece_of_text [as_ascii k] = Some k" for k by (simp add: piece_of_text_eq_Some_iff)
  moreover have "parse_mask (hex64 m) = Ok m" for m by (simp add: parse_mask_eq_Ok_iff)
  ultimately show "parse_placement s = Ok p" by (simp add: parse_placement_def ext_text_def)
qed

lemma ext_text_inject [simp]: "ext_text p = ext_text q \<longleftrightarrow> p = q"
  using parse_placement_eq_Ok_iff [of "ext_text p"] by (metis Inr_inject)

lemma map_ext_text_inject [simp]: "map ext_text pl = map ext_text ql \<longleftrightarrow> pl = ql"
  by (rule inj_map_eq_map) (simp add: inj_def)

lemma ext_key_inject [simp]: "ext_key p = ext_key q \<longleftrightarrow> p = q"
  by (cases p; cases q) (auto simp: ext_key_def)

lemma sorted_wrt_less_Cons2:
  "sorted_wrt (<) (x # y # zs) \<longleftrightarrow> x < y \<and> sorted_wrt (<) (y # (zs :: 'a::linorder list))"
  by auto

section \<open>The accepted language\<close>

definition after :: "ExtendedPiecePlacementMask option \<Rightarrow> ExtendedPiecePlacementMask list \<Rightarrow> bool" where
  "after previous pl \<longleftrightarrow>
     sorted_wrt (<) (map ext_key ((case previous of None \<Rightarrow> [] | Some q \<Rightarrow> [q]) @ pl))"

lemma after_Cons:
  "after previous (p # pl) \<longleftrightarrow>
     (case previous of None \<Rightarrow> True | Some q \<Rightarrow> ext_key q < ext_key p) \<and> after (Some p) pl"
  unfolding after_def by (cases previous) auto

definition placement_fits :: "nat \<Rightarrow> ExtendedPiecePlacementMask \<Rightarrow> bool" where
  "placement_fits n p \<longleftrightarrow> mask256_count_ones (ext_cells p) = 4 \<and> cells256 (ext_cells p) \<subseteq> {..<n}"

lemma parse_ext_placements_step:
  assumes c: "0 < unat c" "unat c \<le> 256"
  shows "parse_ext_placements c (s # ss) (occ, prev, n) = Ok k \<longleftrightarrow>
    (\<exists>p. s = ext_text p \<and> n \<noteq> 60 \<and> placement_fits (unat c) p \<and>
       (case prev of None \<Rightarrow> True | Some q \<Rightarrow> ext_key q < ext_key p) \<and>
       \<not> mask256_intersects occ (ext_cells p) \<and>
       parse_ext_placements c ss (mask256_union occ (ext_cells p), Some p, n + 1) = Ok k)"
proof -
  have fit: "fits_cell_count m c = Ok (cells256 m \<subseteq> {..<unat c})" for m
    using c by (simp add: fits_cell_count_eq_Ok_iff)
  have empty: "mask256_count_ones m \<noteq> 4" if "mask256_is_empty m" for m
    using that board256.count_eq_0_iff [of m] by simp
  show ?thesis
  proof (cases "\<exists>p. s = ext_text p")
    case True
    then obtain p where s: "s = ext_text p" by blast
    then have "parse_placement s = Ok p" by (simp add: parse_placement_eq_Ok_iff)
    then show ?thesis
      using empty [of "ext_cells p"]
      by (cases prev) (auto simp: s EXTENDED_TILING_MAX_PLACEMENTS_def fit placement_fits_def not_le)
  next
    case False
    then have "parse_placement s \<noteq> Ok p" for p by (auto simp: parse_placement_eq_Ok_iff)
    then show ?thesis using False by (auto simp: and_then_eq_Ok_iff)
  qed
qed

lemma parse_ext_placements_eq_Ok_iff:
  assumes c: "0 < unat c" "unat c \<le> 256"
  shows "n \<le> 60 \<Longrightarrow> parse_ext_placements c ss (occ, prev, n) = Ok k \<longleftrightarrow>
    (\<exists>pl. ss = map ext_text pl \<and> k = n + length pl \<and> k \<le> 60 \<and>
       list_all (placement_fits (unat c)) pl \<and> after prev pl \<and> board256.accepts occ (map ext_cells pl))"
proof (induction ss arbitrary: occ prev n)
  case Nil
  then show ?case by (auto simp: after_def split: option.splits)
next
  case (Cons s ss)
  show ?case
    unfolding parse_ext_placements_step [OF c]
  proof (cases "n = 60")
    case True
    then show "(\<exists>p. s = ext_text p \<and> n \<noteq> 60 \<and> placement_fits (unat c) p \<and>
       (case prev of None \<Rightarrow> True | Some q \<Rightarrow> ext_key q < ext_key p) \<and>
       \<not> mask256_intersects occ (ext_cells p) \<and>
       parse_ext_placements c ss (mask256_union occ (ext_cells p), Some p, n + 1) = Ok k) \<longleftrightarrow>
      (\<exists>pl. s # ss = map ext_text pl \<and> k = n + length pl \<and> k \<le> 60 \<and>
       list_all (placement_fits (unat c)) pl \<and> after prev pl \<and> board256.accepts occ (map ext_cells pl))"
      by (auto simp: Cons_eq_map_conv)
  next
    case False
    then have "n + 1 \<le> 60" using Cons.prems by simp
    note ih = Cons.IH [OF this]
    show "(\<exists>p. s = ext_text p \<and> n \<noteq> 60 \<and> placement_fits (unat c) p \<and>
       (case prev of None \<Rightarrow> True | Some q \<Rightarrow> ext_key q < ext_key p) \<and>
       \<not> mask256_intersects occ (ext_cells p) \<and>
       parse_ext_placements c ss (mask256_union occ (ext_cells p), Some p, n + 1) = Ok k) \<longleftrightarrow>
      (\<exists>pl. s # ss = map ext_text pl \<and> k = n + length pl \<and> k \<le> 60 \<and>
       list_all (placement_fits (unat c)) pl \<and> after prev pl \<and> board256.accepts occ (map ext_cells pl))"
    proof (cases "\<exists>p pl. s = ext_text p \<and> ss = map ext_text pl")
      case True
      then obtain p pl where s: "s = ext_text p" "ss = map ext_text pl" by blast
      have "map ext_text ql = s # ss \<longleftrightarrow> ql = p # pl" for ql
        using map_ext_text_inject [of ql "p # pl"] by (simp add: s)
      then show ?thesis
        unfolding ih using \<open>n \<noteq> 60\<close> by (auto simp: s after_Cons eq_commute [of "_ # _" "map _ _"])
    next
      case False
      then show ?thesis unfolding ih by (auto simp: Cons_eq_map_conv)
    qed
  qed
qed

lemma split_once_append:
  "d \<notin> set a \<Longrightarrow> split_once (d # p) (a @ d # p @ b) = Some (a, b)"
proof (induction a)
  case Nil
  have "strip_prefix (d # p) (d # p @ b) = Some b" using strip_prefix_append [of "d # p" b] by simp
  then show ?case by simp
next
  case (Cons x a)
  then have "strip_prefix (d # p) (x # a @ d # p @ b) = None" by (auto simp: strip_prefix_def)
  then show ?case using Cons by simp
qed

lemma bar_not_hex64: "CHR ''|'' \<notin> set (hex64 m)" "CHR '','' \<notin> set (hex64 m)"
  using list_all_hex64 [of m]
  by (auto simp: list_all_iff is_lower_hex_def is_ascii_digit_def simp del: list_all_hex64)

lemma ext_text_no_comma: "CHR '','' \<notin> set (ext_text p)"
  using bar_not_hex64(2) [of "ext_cells p"] by (cases "ext_piece p") (auto simp: ext_text_def)

lemma split_on_ext_texts:
  "(s = [] \<and> pl = []) \<or> (s \<noteq> [] \<and> split_on CHR '','' s = map ext_text pl) \<longleftrightarrow>
     s = join CHR '','' (map ext_text pl)"
proof (cases pl)
  case Nil
  then show ?thesis by simp
next
  case (Cons p ps)
  have "join CHR '','' (map ext_text pl) \<noteq> []"
    unfolding Cons by (cases ps) (simp_all add: ext_text_def)
  moreover have "split_on CHR '','' (join CHR '','' (map ext_text pl)) = map ext_text pl"
    by (rule split_on_join) (auto simp: Cons ext_text_no_comma)
  ultimately show ?thesis using join_split_on [of "CHR '',''" s] Cons by auto
qed

lemma hex_digit_eq_zero: "d < 16 \<Longrightarrow> hex_digit d = CHR ''0'' \<longleftrightarrow> d = 0"
proof -
  have "CHR ''0'' = hex_digit 0" by code_simp
  then show "d < 16 \<Longrightarrow> hex_digit d = CHR ''0'' \<longleftrightarrow> d = 0" by (simp add: hex_digit_inject)
qed

lemma digits_decimal:
  assumes "valid_height_text s"
  shows "\<exists>n. parse_usize s = Some n \<and> 1 \<le> n \<and> n < 100 \<and> s = decimal n"
proof -
  have hd: "hex_digit (digit_value c) = c \<and> digit_value c < 10" if "is_ascii_digit c" for c
    using that by (auto simp: is_ascii_digit_def digit_value_def hex_digit_def)
  have plus: "\<not> is_ascii_digit CHR ''+''" by (simp add: is_ascii_digit_def)
  have pos: "0 < digit_value c" if "is_ascii_digit c" "c \<noteq> CHR ''0''" for c
    using that hd [OF that(1)] hex_digit_eq_zero [of "digit_value c"] by auto
  consider c where "s = [c]" | c d where "s = [c, d]"
    using assms by (cases s; cases "tl s") (auto simp: valid_height_text_def)
  then show ?thesis
  proof cases
    case 1
    then have c: "is_ascii_digit c" "c \<noteq> CHR ''0''" using assms by (auto simp: valid_height_text_def)
    then have "strip_plus s = s" using plus 1 by (auto simp: strip_plus_def)
    then show ?thesis
      using hd [OF c(1)] pos [OF c] 1 c
      by (intro exI [of _ "digit_value c"])
        (auto simp: parse_usize_def Let_def horner_def decimal_def USIZE_MAX_def)
  next
    case 2
    then have c: "is_ascii_digit c" "c \<noteq> CHR ''0''" "is_ascii_digit d"
      using assms by (auto simp: valid_height_text_def)
    then have "strip_plus s = s" using plus 2 by (auto simp: strip_plus_def)
    then show ?thesis
      using hd [OF c(1)] hd [OF c(3)] pos [OF c(1,2)] 2 c
      by (intro exI [of _ "digit_value c * 10 + digit_value d"])
        (auto simp: parse_usize_def Let_def horner_def decimal_def USIZE_MAX_def)
  qed
qed

lemma valid_height_decimal: "1 \<le> n \<Longrightarrow> n < 100 \<Longrightarrow> valid_height_text (decimal n)"
  by (auto simp: valid_height_text_def decimal_def is_ascii_digit_def hex_digit_code hex_digit_eq_zero)

lemma decimal_inject:
  assumes "m < 100" "n < 100" "decimal m = decimal n"
  shows "m = n"
proof (cases "m < 10")
  case True
  then have "n < 10" using assms(3) by (auto simp: decimal_def split: if_splits)
  then show ?thesis using True assms(3) by (simp add: decimal_def hex_digit_inject)
next
  case False
  then have n: "\<not> n < 10" using assms(3) by (auto simp: decimal_def split: if_splits)
  have "m div 10 < 10" "n div 10 < 10" using assms(1,2) by (simp_all add: less_mult_imp_div_less)
  then have "m div 10 = n div 10 \<and> m mod 10 = n mod 10"
    using False n assms(3) by (simp add: decimal_def hex_digit_inject)
  then show ?thesis by (metis div_mult_mod_eq)
qed

lemma parse_height:
  "valid_height_text s \<and> parse_u8 s = Some h \<and> 1 \<le> h \<and> h \<le> STANDARD_PC_MAX_LINES \<longleftrightarrow>
     s = decimal (unat h) \<and> 1 \<le> unat h \<and> unat h \<le> 24"
proof -
  have range: "1 \<le> h \<and> h \<le> STANDARD_PC_MAX_LINES \<longleftrightarrow> 1 \<le> unat h \<and> unat h \<le> 24"
    by (simp add: STANDARD_PC_MAX_LINES_def word_le_nat_alt)
  show ?thesis
  proof (cases "valid_height_text s")
    case True
    then obtain n where n: "parse_usize s = Some n" "1 \<le> n" "n < 100" "s = decimal n"
      using digits_decimal by blast
    have "parse_u8 s = Some h \<longleftrightarrow> n = unat h"
      using n by (auto simp: parse_u8_def unat_word_of_nat)
    then show ?thesis using True range n decimal_inject [of n "unat h"] by auto
  next
    case False
    then show ?thesis using valid_height_decimal [of "unat h"] by auto
  qed
qed

lemma bar_not_decimal: "n < 100 \<Longrightarrow> CHR ''|'' \<notin> set (decimal n)"
proof -
  have "CHR ''|'' \<noteq> hex_digit d" if "d < 16" for d
  proof
    assume "CHR ''|'' = hex_digit d"
    then have "of_char (hex_digit d) = (124 :: nat)" by (simp flip: \<open>CHR ''|'' = hex_digit d\<close>)
    then show False using hex_digit_code [OF that] that by (auto split: if_splits)
  qed
  note * = this
  assume "n < 100"
  then have "n div 10 < 16" "n mod 10 < 16" by simp_all
  then show ?thesis using * [of n] * [of "n div 10"] * [of "n mod 10"] by (simp add: decimal_def)
qed

lemma valid_ext_length:
  assumes "valid_ext h i pl"
  shows "length pl \<le> 60"
proof -
  let ?u = "foldl mask256_union i (map ext_cells pl)"
  have "cells256 ?u \<subseteq> {..<10 * unat h}"
    unfolding board256.cells_foldl_union using assms by (auto simp: valid_ext_def)
  then have "card (cells256 ?u) \<le> card {..<10 * unat h}" by (intro card_mono) simp_all
  then have le: "card (cells256 ?u) \<le> 240" using assms by (simp add: valid_ext_def)
  have "\<forall>p\<in>set pl. mask256_count_ones (ext_cells p) = 4" using assms by (simp add: valid_ext_def)
  then have "sum_list (map mask256_count_ones (map ext_cells pl)) = 4 * length pl"
    by (induction pl) simp_all
  moreover have "mask256_count_ones ?u =
      mask256_count_ones i + sum_list (map mask256_count_ones (map ext_cells pl))"
    using assms by (intro board256.accepts_count) (simp add: valid_ext_def)
  ultimately show ?thesis using le by (simp add: board256.count_card [symmetric])
qed

lemma valid_ext_iff:
  "valid_ext h i pl \<longleftrightarrow> 1 \<le> unat h \<and> unat h \<le> 24 \<and> cells256 i \<subseteq> {..<10 * unat h} \<and>
     list_all (placement_fits (10 * unat h)) pl \<and> after None pl \<and> board256.accepts i (map ext_cells pl)"
  by (auto simp: valid_ext_def placement_fits_def list_all_iff after_def)

text \<open>The key the parser builds for a valid tiling.\<close>

definition ext_key_of :: "u8 \<Rightarrow> Board256Mask \<Rightarrow> ExtendedPiecePlacementMask list \<Rightarrow> ExtendedTilingSolutionKey" where
  "ext_key_of h i pl =
     \<lparr>ek_value = ext_canonical h i pl, ek_height = h, ek_initial = i,
      ek_placements = join CHR '','' (map ext_text pl), ek_count = word_of_nat (length pl)\<rparr>"

lemma parse_ext_payload:
  assumes h: "1 \<le> unat h" "unat h \<le> 24" and i: "cells256 i \<subseteq> {..<10 * unat h}"
  shows "(if s = [] then Ok 0
          else parse_ext_placements (ucast h * STANDARD_PC_BOARD_WIDTH) (split_on CHR '','' s) (i, None, 0)) = Ok n \<longleftrightarrow>
    (\<exists>pl. s = join CHR '','' (map ext_text pl) \<and> n = length pl \<and> valid_ext h i pl)"
proof -
  let ?c = "ucast h * STANDARD_PC_BOARD_WIDTH :: u16"
  have c: "unat ?c = 10 * unat h" by (rule unat_pc_cell_count)
  then have "0 < unat ?c" "unat ?c \<le> 256" using h by simp_all
  note loop = parse_ext_placements_eq_Ok_iff [OF this, of 0 "split_on CHR '','' s" i None n, simplified c]
  show ?thesis
  proof (cases "s = []")
    case True
    have "join CHR '','' (map ext_text pl) = [] \<longleftrightarrow> pl = []" for pl
      using split_on_ext_texts [of "[]" pl] by auto
    moreover have "valid_ext h i []" using h i by (simp add: valid_ext_def)
    ultimately show ?thesis using True by (auto simp: eq_commute [of "[]"])
  next
    case False
    have "s = join CHR '','' (map ext_text pl) \<longleftrightarrow> split_on CHR '','' s = map ext_text pl" for pl
      using split_on_ext_texts [of s pl] False by auto
    then show ?thesis
      using False loop h i valid_ext_length [of h i] by (auto simp: valid_ext_iff)
  qed
qed

lemma parse_ext_canonical_eq_Ok_iff:
  "parse_ext_canonical v = Ok k \<longleftrightarrow>
     (\<exists>h i pl. valid_ext h i pl \<and> v = ext_canonical h i pl \<and> k = ext_key_of h i pl)"
proof
  assume "parse_ext_canonical v = Ok k"
  then obtain p ht p' h it s i n where
    split: "v = ''ctk2|height='' @ p" "split_once ''|initial='' p = Some (ht, p')"
      "split_once ''|placements='' p' = Some (it, s)"
    and ht: "valid_height_text ht" "parse_u8 ht = Some h" "1 \<le> h" "h \<le> STANDARD_PC_MAX_LINES"
    and i: "parse_mask it = Ok i" "fits_cell_count i (ucast h * STANDARD_PC_BOARD_WIDTH) = Ok True"
    and n: "(if s = [] then Ok 0
          else parse_ext_placements (ucast h * STANDARD_PC_BOARD_WIDTH) (split_on CHR '','' s) (i, None, 0)) = Ok n"
    and k: "k = \<lparr>ek_value = v, ek_height = h, ek_initial = i, ek_placements = s, ek_count = word_of_nat n\<rparr>"
    unfolding parse_ext_canonical_def
    by (auto simp: and_then_eq_Ok_iff strip_prefix_eq_Some_iff Let_def split: if_splits)
  have ht': "ht = decimal (unat h)" "1 \<le> unat h" "unat h \<le> 24" using parse_height ht by blast+
  have "cells256 i \<subseteq> {..<10 * unat h}"
    using i(2) by (simp add: fits_cell_count_eq_Ok_iff unat_pc_cell_count)
  from n [unfolded parse_ext_payload [OF ht'(2,3) this]] obtain pl where
    "s = join CHR '','' (map ext_text pl)" "n = length pl" "valid_ext h i pl" by blast
  moreover have "v = ''ctk2|height='' @ ht @ ''|initial='' @ it @ ''|placements='' @ s"
    unfolding split(1) split_once_eq_Some [OF split(2)] split_once_eq_Some [OF split(3)] by simp
  moreover have "it = hex64 i" using i(1) by (simp add: parse_mask_eq_Ok_iff)
  ultimately show "\<exists>h i pl. valid_ext h i pl \<and> v = ext_canonical h i pl \<and> k = ext_key_of h i pl"
    using ht'(1) k by (intro exI [of _ h] exI [of _ i] exI [of _ pl]) (simp add: ext_canonical_def ext_key_of_def)
next
  assume "\<exists>h i pl. valid_ext h i pl \<and> v = ext_canonical h i pl \<and> k = ext_key_of h i pl"
  then obtain h i pl where v: "valid_ext h i pl" "v = ext_canonical h i pl" "k = ext_key_of h i pl" by blast
  let ?s = "join CHR '','' (map ext_text pl)" and ?ht = "decimal (unat h)"
  have h: "1 \<le> unat h" "unat h \<le> 24" and i: "cells256 i \<subseteq> {..<10 * unat h}"
    using v(1) by (simp_all add: valid_ext_def)
  have ht: "valid_height_text ?ht" "parse_u8 ?ht = Some h" "1 \<le> h" "h \<le> STANDARD_PC_MAX_LINES"
    using parse_height [of ?ht h] h by blast+
  have "strip_prefix ''ctk2|height='' v = Some (?ht @ ''|initial='' @ hex64 i @ ''|placements='' @ ?s)"
    unfolding v(2) ext_canonical_def by (rule strip_prefix_append)
  moreover have "split_once ''|initial='' (?ht @ ''|initial='' @ hex64 i @ ''|placements='' @ ?s) =
      Some (?ht, hex64 i @ ''|placements='' @ ?s)"
    using split_once_append [OF bar_not_decimal, of "unat h" "''initial=''"] h by simp
  moreover have "split_once ''|placements='' (hex64 i @ ''|placements='' @ ?s) = Some (hex64 i, ?s)"
    using split_once_append [OF bar_not_hex64(1), of "''placements=''"] by simp
  moreover have "parse_mask (hex64 i) = Ok i" by (simp add: parse_mask_eq_Ok_iff)
  moreover have "fits_cell_count i (ucast h * STANDARD_PC_BOARD_WIDTH) = Ok True"
    using h i by (simp add: fits_cell_count_eq_Ok_iff unat_pc_cell_count)
  moreover have "(if ?s = [] then Ok 0
      else parse_ext_placements (ucast h * STANDARD_PC_BOARD_WIDTH) (split_on CHR '','' ?s) (i, None, 0)) = Ok (length pl)"
    unfolding parse_ext_payload [OF h i] using v(1) by blast
  ultimately show "parse_ext_canonical v = Ok k"
    unfolding parse_ext_canonical_def by (simp add: ht v(3) ext_key_of_def v(2) [symmetric] Let_def del: split_once.simps)
qed

lemma those_map_Some: "(\<And>x. x \<in> set xs \<Longrightarrow> f x = Some (g x)) \<Longrightarrow> those (map f xs) = Some (map g xs)"
  by (induction xs) auto

lemma ext_placements_key_of:
  assumes "valid_ext h i pl"
  shows "ext_placements (ext_key_of h i pl) = Some pl"
proof (cases "pl = []")
  case True
  then show ?thesis by (simp add: ext_placements_def ext_key_of_def)
next
  case False
  let ?s = "join CHR '','' (map ext_text pl)"
  have "unat (word_of_nat (length pl) :: u8) = length pl"
    using valid_ext_length [OF assms] by (intro unat_word_of_nat) simp
  then have n: "(word_of_nat (length pl) :: u8) \<noteq> 0" using False by auto
  have "split_on CHR '','' ?s = map ext_text pl" using split_on_ext_texts [of ?s pl] False by simp
  moreover have "parse_placement (ext_text p) = Ok p" for p by (simp add: parse_placement_eq_Ok_iff)
  then have "those (map (\<lambda>p. case parse_placement (ext_text p) of Inl _ \<Rightarrow> None | Inr q \<Rightarrow> Some q) pl) = Some pl"
    using those_map_Some [of pl _ "\<lambda>p. p"] by simp
  ultimately show ?thesis using n by (simp add: ext_placements_def ext_key_of_def comp_def)
qed

text \<open>
  C25. The text of every valid four-word tiling is accepted, and the key gives back its height, its
  initial board and its placements: the iterator never meets a text it cannot parse.
\<close>

theorem ext_parse_print:
  assumes "valid_ext h i pl"
  shows "\<exists>k. parse_ext_canonical (ext_canonical h i pl) = Ok k \<and> ek_height k = h \<and> ek_initial k = i \<and>
    ext_placements k = Some pl \<and> unat (ek_count k) = length pl"
proof -
  have "unat (word_of_nat (length pl) :: u8) = length pl"
    using valid_ext_length [OF assms] by (intro unat_word_of_nat) simp
  moreover have "parse_ext_canonical (ext_canonical h i pl) = Ok (ext_key_of h i pl)"
    using assms parse_ext_canonical_eq_Ok_iff by blast
  ultimately show ?thesis
    using ext_placements_key_of [OF assms] by (intro exI [of _ "ext_key_of h i pl"]) (simp add: ext_key_of_def)
qed

text \<open>
  C9. Conversely an accepted text is the one canonical text of a valid tiling: at most 24 lines, cells
  inside the board, placements of four cells each, strictly increasing, disjoint from the initial
  board and from each other, so that a tiling has exactly one key.
\<close>

theorem ext_parse_sound:
  assumes "parse_ext_canonical v = Ok k"
  shows "\<exists>pl. ext_placements k = Some pl \<and> valid_ext (ek_height k) (ek_initial k) pl \<and>
    v = ext_canonical (ek_height k) (ek_initial k) pl \<and>
    card (cells256 (ek_initial k) \<union> (\<Union>p\<in>set pl. cells256 (ext_cells p))) =
      card (cells256 (ek_initial k)) + 4 * unat (ek_count k)"
proof -
  obtain h i pl where v: "valid_ext h i pl" "v = ext_canonical h i pl" "k = ext_key_of h i pl"
    using assms parse_ext_canonical_eq_Ok_iff by blast
  have "\<forall>p\<in>set pl. mask256_count_ones (ext_cells p) = 4" using v(1) by (simp add: valid_ext_def)
  then have "sum_list (map mask256_count_ones (map ext_cells pl)) = 4 * length pl"
    by (induction pl) simp_all
  then have "card (cells256 i \<union> (\<Union>p\<in>set pl. cells256 (ext_cells p))) = card (cells256 i) + 4 * length pl"
    using board256.accepts_count [of i "map ext_cells pl"] v(1)
    by (simp add: valid_ext_def board256.count_card board256.cells_foldl_union)
  moreover have "unat (word_of_nat (length pl) :: u8) = length pl"
    using valid_ext_length [OF v(1)] by (intro unat_word_of_nat) simp
  ultimately show ?thesis
    using v ext_placements_key_of [OF v(1)] by (intro exI [of _ pl]) (simp add: ext_key_of_def)
qed

definition example_ext :: "ExtendedPiecePlacementMask list" where
  "example_ext = [\<lparr>ext_piece = PieceI, ext_cells = Words4 15 0 0 0\<rparr>, \<lparr>ext_piece = PieceO, ext_cells = Words4 0 15 0 0\<rparr>]"

lemma valid_example_ext: "valid_ext 8 mask256_EMPTY example_ext"
proof -
  have "(15 :: u64) = mask 4" by (simp add: mask_eq_exp_minus_1)
  then have b: "bits_of (15 :: u64) = {..<4}" by (simp only: bits_of_mask) simp
  have c: "cells256 (Words4 15 0 0 0) = {..<4}" "cells256 (Words4 0 15 0 0) = (\<lambda>n. n + 64) ` {..<4}"
    by (simp_all add: cells256_words b bits_of_zero)
  have "mask256_count_ones (Words4 15 0 0 0) = 4" "mask256_count_ones (Words4 0 15 0 0) = 4"
    by (simp_all add: count256_card c card_image)
  moreover have "board256.accepts mask256_EMPTY [Words4 15 0 0 0, Words4 0 15 0 0]"
    by (auto simp: board256.accepts_iff board256.cells_empty c)
  moreover have "sorted_wrt (<) (map ext_key example_ext)"
    by (simp add: example_ext_def ext_key_def less_PieceKind_def less_eq_PieceKind_def)
  ultimately show ?thesis
    by (auto simp: valid_ext_def example_ext_def board256.cells_empty c)
qed

theorem ext_parse_print_witness:
  "\<exists>k. parse_ext_canonical (ext_canonical 8 mask256_EMPTY example_ext) = Ok k \<and>
     ext_placements k = Some example_ext"
  using ext_parse_print [OF valid_example_ext] by blast

theorem ext_parse_sound_witness:
  "\<exists>k. parse_ext_canonical (ext_canonical 8 mask256_EMPTY example_ext) = Ok k \<and>
     (\<exists>pl. ext_placements k = Some pl \<and> valid_ext (ek_height k) (ek_initial k) pl)"
proof -
  have "parse_ext_canonical (ext_canonical 8 mask256_EMPTY example_ext) =
      Ok (ext_key_of 8 mask256_EMPTY example_ext)"
    using valid_example_ext parse_ext_canonical_eq_Ok_iff by blast
  with ext_parse_sound [OF this] show ?thesis by blast
qed

end
