(* ===== verification/Tilings.thy ===== *)
theory Tilings
  imports ExtendedTilings
begin

text \<open>
  The Board64 tiling identity (\<open>solution/normalized_tiling_solution.rs\<close>): the insertion-sorting
  constructor on two fixed arrays with its packed piece codes, the compact and the textual codec, the
  comparison, the coloured identity, the solution set and its streaming hash.  \<open>None\<close> stands for the
  \<open>unreachable!\<close> of \<open>piece_from_sort_key\<close>.  The lemmas show that the identity is a faithful name of
  the multiset of placements, that both codecs round trip, that the comparison is the order of the
  canonical strings, and that the streaming hash is the hash of those strings.
\<close>

section \<open>Placements and codes\<close>

record PiecePlacementMask =
  pm_piece :: PieceKind
  pm_mask :: u64

definition STANDARD_BOARD64_TILING_MAX_PLACEMENTS :: nat where
  "STANDARD_BOARD64_TILING_MAX_PLACEMENTS = 16"

primrec piece_sort_key :: "PieceKind \<Rightarrow> u8" where
  "piece_sort_key PieceI = 0"
| "piece_sort_key PieceO = 1"
| "piece_sort_key PieceT = 2"
| "piece_sort_key PieceS = 3"
| "piece_sort_key PieceZ = 4"
| "piece_sort_key PieceJ = 5"
| "piece_sort_key PieceL = 6"

definition piece_from_sort_key :: "u8 \<Rightarrow> PieceKind option" where
  "piece_from_sort_key key =
     (if key = 0 then Some PieceI
      else if key = 1 then Some PieceO
      else if key = 2 then Some PieceT
      else if key = 3 then Some PieceS
      else if key = 4 then Some PieceZ
      else if key = 5 then Some PieceJ
      else if key = 6 then Some PieceL
      else None)"

section \<open>The identity\<close>

record StandardBoard64TilingIdentity =
  id_initial :: u64
  id_masks :: "u64 list"
  id_codes :: u64
  id_count :: u8

record tiling_builder =
  tb_masks :: "u64 list"
  tb_pieces :: "u8 list"
  tb_count :: nat
  tb_occupied :: u64

text \<open>The \<open>while\<close> loop: shift larger entries up and write the new one into the hole.\<close>

primrec insert_shift :: "nat \<Rightarrow> u8 \<Rightarrow> u64 \<Rightarrow> u8 list \<Rightarrow> u64 list \<Rightarrow> u8 list \<times> u64 list" where
  "insert_shift 0 piece m pieces masks = (pieces[0 := piece], masks[0 := m])"
| "insert_shift (Suc i) piece m pieces masks =
     (if (pieces ! i, masks ! i) > (piece, m)
      then insert_shift i piece m (pieces[Suc i := pieces ! i]) (masks[Suc i := masks ! i])
      else (pieces[Suc i := piece], masks[Suc i := m]))"

definition push_placement ::
  "tiling_builder \<Rightarrow> PiecePlacementMask \<Rightarrow> NormalizedTilingSolutionError + tiling_builder" where
  "push_placement b p =
     (if tb_count b = STANDARD_BOARD64_TILING_MAX_PLACEMENTS
      then Err (TooManyPlacements (tb_count b + 1) STANDARD_BOARD64_TILING_MAX_PLACEMENTS)
      else if pm_mask p = 0 then Err EmptyPlacementMask
      else if count_ones (pm_mask p) \<noteq> 4
      then Err (PlacementAreaNotFour (pm_piece p) (count_ones (pm_mask p)))
      else if tb_occupied b AND pm_mask p \<noteq> 0 then Err (OverlappingPlacement (pm_piece p))
      else
        let (pieces, masks) =
              insert_shift (tb_count b) (piece_sort_key (pm_piece p)) (pm_mask p) (tb_pieces b) (tb_masks b)
        in Ok \<lparr>tb_masks = masks, tb_pieces = pieces, tb_count = tb_count b + 1,
               tb_occupied = tb_occupied b OR pm_mask p\<rparr>)"

primrec push_placements ::
  "tiling_builder \<Rightarrow> PiecePlacementMask list \<Rightarrow> NormalizedTilingSolutionError + tiling_builder" where
  "push_placements b [] = Ok b"
| "push_placements b (p # ps) = and_then (push_placement b p) (\<lambda>b. push_placements b ps)"

primrec pack_piece_codes :: "nat \<Rightarrow> u8 list \<Rightarrow> u64 \<Rightarrow> u64" where
  "pack_piece_codes i [] packed = packed"
| "pack_piece_codes i (piece # pieces) packed =
     pack_piece_codes (i + 1) pieces (packed OR push_bit (i * 3) (ucast piece))"

definition empty_builder :: "u64 \<Rightarrow> tiling_builder" where
  "empty_builder initial =
     \<lparr>tb_masks = replicate 16 0, tb_pieces = replicate 16 0, tb_count = 0, tb_occupied = initial\<rparr>"

definition from_placements ::
  "u64 \<Rightarrow> PiecePlacementMask list \<Rightarrow> NormalizedTilingSolutionError + StandardBoard64TilingIdentity" where
  "from_placements initial placements =
     and_then (push_placements (empty_builder initial) placements) (\<lambda>b.
       Ok \<lparr>id_initial = initial, id_masks = tb_masks b,
           id_codes = pack_piece_codes 0 (take (tb_count b) (tb_pieces b)) 0,
           id_count = word_of_nat (tb_count b)\<rparr>)"

definition placement_count :: "StandardBoard64TilingIdentity \<Rightarrow> nat" where
  "placement_count a = unat (id_count a)"

definition placement_masks :: "StandardBoard64TilingIdentity \<Rightarrow> u64 list" where
  "placement_masks a = take (placement_count a) (id_masks a)"

definition piece_code :: "StandardBoard64TilingIdentity \<Rightarrow> nat \<Rightarrow> u8" where
  "piece_code a i = ucast (drop_bit (i * 3) (id_codes a) AND 7)"

definition id_piece :: "StandardBoard64TilingIdentity \<Rightarrow> nat \<Rightarrow> PieceKind option" where
  "id_piece a i = piece_from_sort_key (piece_code a i)"

text \<open>\<open>placement\<close> of an index in range; out of range the source returns \<open>None\<close> as a value.\<close>

definition placement :: "StandardBoard64TilingIdentity \<Rightarrow> nat \<Rightarrow> PiecePlacementMask option" where
  "placement a i =
     (if i < placement_count a
      then map_option (\<lambda>p. \<lparr>pm_piece = p, pm_mask = id_masks a ! i\<rparr>) (id_piece a i)
      else None)"

definition placements :: "StandardBoard64TilingIdentity \<Rightarrow> PiecePlacementMask list option" where
  "placements a = those (map (placement a) [0..<placement_count a])"

definition from_compact_parts ::
  "u64 \<Rightarrow> u64 \<Rightarrow> u64 list \<Rightarrow> NormalizedTilingSolutionError + StandardBoard64TilingIdentity" where
  "from_compact_parts initial packed masks =
     (if length masks > STANDARD_BOARD64_TILING_MAX_PLACEMENTS
      then Err (TooManyPlacements (length masks) STANDARD_BOARD64_TILING_MAX_PLACEMENTS)
      else
        let codes = map (\<lambda>i. ucast (drop_bit (i * 3) packed AND 7) :: u8) [0..<length masks] in
        if list_ex (\<lambda>code. code > 6) codes then Err InvalidCanonicalKey
        else
          case those (map piece_from_sort_key codes) of
            None \<Rightarrow> Err InvalidCanonicalKey
          | Some pieces \<Rightarrow>
              and_then (from_placements initial
                  (map (\<lambda>(m, piece). \<lparr>pm_piece = piece, pm_mask = m\<rparr>) (zip masks pieces))) (\<lambda>a.
                if id_codes a \<noteq> packed then Err InvalidCanonicalKey else Ok a))"

section \<open>The canonical text\<close>

primrec write_placements :: "StandardBoard64TilingIdentity \<Rightarrow> nat list \<Rightarrow> string option" where
  "write_placements a [] = Some []"
| "write_placements a (i # is) =
     (case id_piece a i of
        None \<Rightarrow> None
      | Some piece \<Rightarrow>
          map_option (\<lambda>rest. (if i \<noteq> 0 then '','' else []) @
              as_ascii piece # CHR '':'' # hex16 (id_masks a ! i) @ rest)
            (write_placements a is))"

definition write_canonical :: "StandardBoard64TilingIdentity \<Rightarrow> string option" where
  "write_canonical a =
     map_option (\<lambda>rest. ''ctk1|initial='' @ hex16 (id_initial a) @ ''|placements='' @ rest)
       (write_placements a [0..<placement_count a])"

definition parse_piece_byte :: "char \<Rightarrow> PieceKind option" where
  "parse_piece_byte c =
     (if c = CHR ''I'' then Some PieceI
      else if c = CHR ''O'' then Some PieceO
      else if c = CHR ''T'' then Some PieceT
      else if c = CHR ''S'' then Some PieceS
      else if c = CHR ''Z'' then Some PieceZ
      else if c = CHR ''J'' then Some PieceJ
      else if c = CHR ''L'' then Some PieceL
      else None)"

definition parse_placement_text :: "string \<Rightarrow> PiecePlacementMask option" where
  "parse_placement_text s =
     Option.bind (split_once '':'' s) (\<lambda>(piece, m).
       if length piece \<noteq> 1 \<or> length m \<noteq> 16 then None
       else
         Option.bind (parse_piece_byte (hd piece)) (\<lambda>piece.
         Option.bind (from_str_radix16 m) (\<lambda>m.
           Some \<lparr>pm_piece = piece, pm_mask = m\<rparr>)))"

definition parse_standard_board64_identity ::
  "string \<Rightarrow> NormalizedTilingSolutionError + StandardBoard64TilingIdentity" where
  "parse_standard_board64_identity value =
     and_then (ok_or InvalidCanonicalKey (strip_prefix ''ctk1|initial='' value)) (\<lambda>payload.
     and_then (ok_or InvalidCanonicalKey (split_once ''|placements='' payload)) (\<lambda>(initial, texts).
       if length initial \<noteq> 16 then Err InvalidCanonicalKey
       else
         and_then (ok_or InvalidCanonicalKey (from_str_radix16 initial)) (\<lambda>initial.
         and_then (if texts = [] then Ok []
                   else ok_or InvalidCanonicalKey
                          (those (map parse_placement_text (split_on CHR '','' texts)))) (\<lambda>parsed.
           from_placements initial parsed))))"

text \<open>
  The owned key is its canonical text; a failed \<open>unreachable!\<close> in the writer would be a panic.
\<close>

definition key_from_identity ::
  "StandardBoard64TilingIdentity \<Rightarrow> NormalizedTilingSolutionError fault + string" where
  "key_from_identity a = ok_or Panic (write_canonical a)"

definition key_from_placements ::
  "u64 \<Rightarrow> PiecePlacementMask list \<Rightarrow> NormalizedTilingSolutionError fault + string" where
  "key_from_placements initial pl = and_then (map_err Fault (from_placements initial pl)) key_from_identity"

definition parse_canonical :: "string \<Rightarrow> NormalizedTilingSolutionError fault + string" where
  "parse_canonical value =
     (if take 5 value = ''ctk2|''
      then and_then (map_err Fault (parse_ext_canonical value)) (\<lambda>_. Ok value)
      else
        and_then (map_err Fault (parse_standard_board64_identity value)) (\<lambda>a.
        and_then (key_from_identity a) (\<lambda>key.
          if key \<noteq> value then Err (Fault InvalidCanonicalKey) else Ok key)))"

section \<open>The comparison\<close>

text \<open>The loop over the shared prefix, then the comparison of the counts.\<close>

primrec cmp_placements ::
  "StandardBoard64TilingIdentity \<Rightarrow> StandardBoard64TilingIdentity \<Rightarrow> nat list \<Rightarrow> Ordering option" where
  "cmp_placements a b [] = Some (compare (id_count a) (id_count b))"
| "cmp_placements a b (i # is) =
     (case (id_piece a i, id_piece b i) of
        (Some p, Some q) \<Rightarrow>
          if compare (as_ascii p) (as_ascii q) \<noteq> Equal then Some (compare (as_ascii p) (as_ascii q))
          else if compare (id_masks a ! i) (id_masks b ! i) \<noteq> Equal
          then Some (compare (id_masks a ! i) (id_masks b ! i))
          else cmp_placements a b is
      | _ \<Rightarrow> None)"

definition identity_cmp ::
  "StandardBoard64TilingIdentity \<Rightarrow> StandardBoard64TilingIdentity \<Rightarrow> Ordering option" where
  "identity_cmp a b =
     (if compare (id_initial a) (id_initial b) \<noteq> Equal then Some (compare (id_initial a) (id_initial b))
      else cmp_placements a b [0..<min (placement_count a) (placement_count b)])"

section \<open>The coloured identity\<close>

record StandardBoard64ColoredTilingIdentity =
  col_initial :: u64
  col_masks :: "u64 list"

primrec check_piece_masks ::
  "u64 \<Rightarrow> (PieceKind \<times> u64) list \<Rightarrow> NormalizedTilingSolutionError + unit" where
  "check_piece_masks occupied [] = Ok ()"
| "check_piece_masks occupied (pm # pms) =
     (case pm of (piece, m) \<Rightarrow>
       if count_ones m mod 4 \<noteq> 0 then Err (PlacementAreaNotFour piece (count_ones m))
       else if occupied AND m \<noteq> 0 then Err (OverlappingPlacement piece)
       else check_piece_masks (occupied OR m) pms)"

definition from_piece_masks ::
  "u64 \<Rightarrow> u64 list \<Rightarrow> NormalizedTilingSolutionError + StandardBoard64ColoredTilingIdentity" where
  "from_piece_masks initial masks =
     and_then (check_piece_masks initial (zip STANDARD_TETROMINOES masks)) (\<lambda>_.
       Ok \<lparr>col_initial = initial, col_masks = masks\<rparr>)"

definition add_color :: "u64 list \<Rightarrow> PiecePlacementMask \<Rightarrow> u64 list" where
  "add_color masks p =
     (let k = unat (piece_sort_key (pm_piece p)) in masks[k := masks ! k OR pm_mask p])"

definition colored_from_identity ::
  "StandardBoard64TilingIdentity \<Rightarrow> StandardBoard64ColoredTilingIdentity option" where
  "colored_from_identity a =
     map_option (\<lambda>pl. \<lparr>col_initial = id_initial a, col_masks = foldl add_color (replicate 7 0) pl\<rparr>)
       (placements a)"

definition colored_placement_count :: "StandardBoard64ColoredTilingIdentity \<Rightarrow> nat" where
  "colored_placement_count c = sum_list (map (\<lambda>m. count_ones m div 4) (col_masks c))"

section \<open>Hashes\<close>

definition FNV_SEED :: u64 where "FNV_SEED = 0xcbf29ce484222325"

definition FNV_PRIME :: u64 where "FNV_PRIME = 0x00000100000001b3"

definition fnv_byte :: "u64 \<Rightarrow> u8 \<Rightarrow> u64" where
  "fnv_byte h b = (h XOR ucast b) * FNV_PRIME"

definition fnv_write :: "u64 \<Rightarrow> u8 list \<Rightarrow> u64" where
  "fnv_write h bytes = foldl fnv_byte (if h = 0 then FNV_SEED else h) bytes"

definition as_bytes :: "string \<Rightarrow> u8 list" where
  "as_bytes s = map (\<lambda>c. word_of_nat (of_char c)) s"

definition to_le_bytes :: "u64 \<Rightarrow> u8 list" where
  "to_le_bytes w = map (\<lambda>i. ucast (drop_bit (8 * i) w)) [0..<8]"

definition write_hex_u64 :: "u64 \<Rightarrow> u64 \<Rightarrow> u64" where
  "write_hex_u64 h value = fnv_write h (as_bytes (hex16 value))"

definition update_canonical_key :: "u64 \<Rightarrow> string \<Rightarrow> u64" where
  "update_canonical_key h key = fnv_write (fnv_write h (as_bytes key)) [0]"

definition begin_canonical_identity :: "u64 \<Rightarrow> u64 \<Rightarrow> u64" where
  "begin_canonical_identity h initial =
     fnv_write (write_hex_u64 (fnv_write h (as_bytes ''ctk1|initial='')) initial) (as_bytes ''|placements='')"

definition update_canonical_placement :: "u64 \<Rightarrow> PiecePlacementMask \<Rightarrow> bool \<Rightarrow> u64" where
  "update_canonical_placement h p first =
     write_hex_u64
       (fnv_write (if first then h else fnv_write h (as_bytes '',''))
         (as_bytes [as_ascii (pm_piece p), CHR '':''])) (pm_mask p)"

definition end_canonical_identity :: "u64 \<Rightarrow> u64" where
  "end_canonical_identity h = fnv_write h [0]"

primrec update_placement_loop :: "u64 \<Rightarrow> bool \<Rightarrow> PiecePlacementMask list \<Rightarrow> u64" where
  "update_placement_loop h first [] = h"
| "update_placement_loop h first (p # ps) =
     update_placement_loop (update_canonical_placement h p first) False ps"

definition update_canonical_placements :: "u64 \<Rightarrow> u64 \<Rightarrow> PiecePlacementMask list \<Rightarrow> u64" where
  "update_canonical_placements h initial pl =
     end_canonical_identity (update_placement_loop (begin_canonical_identity h initial) True pl)"

definition set_hash_finish :: "u64 \<Rightarrow> string" where
  "set_hash_finish h = ''cts1:'' @ hex16 h"

definition stable_solution_set_hash :: "string list \<Rightarrow> string" where
  "stable_solution_set_hash keys = set_hash_finish (foldl update_canonical_key 0 keys)"

primrec hash_identities :: "u64 \<Rightarrow> StandardBoard64TilingIdentity list \<Rightarrow> u64 option" where
  "hash_identities h [] = Some h"
| "hash_identities h (a # as) =
     (case placements a of
        None \<Rightarrow> None
      | Some pl \<Rightarrow> hash_identities (update_canonical_placements h (id_initial a) pl) as)"

definition set_hash_from_sorted_identities :: "StandardBoard64TilingIdentity list \<Rightarrow> string option" where
  "set_hash_from_sorted_identities as = map_option set_hash_finish (hash_identities 0 as)"

record NormalizedTilingSolutionSet =
  set_keys :: "string list"
  set_hash :: string

definition solution_set_new :: "string list \<Rightarrow> NormalizedTilingSolutionSet" where
  "solution_set_new keys =
     (let keys = remdups_adj (sort keys)
      in \<lparr>set_keys = keys, set_hash = stable_solution_set_hash keys\<rparr>)"

section \<open>Insertion\<close>

lemma piece_from_sort_key_key [simp]: "piece_from_sort_key (piece_sort_key p) = Some p"
  by (cases p) (simp_all add: piece_from_sort_key_def)

lemma piece_sort_key_inject [simp]: "piece_sort_key p = piece_sort_key q \<longleftrightarrow> p = q"
  by (metis option.inject piece_from_sort_key_key)

lemma piece_sort_key_less: "unat (piece_sort_key p) < 7"
  by (cases p) simp_all

fun ins_rev :: "'a::linorder \<Rightarrow> 'a list \<Rightarrow> 'a list" where
  "ins_rev x [] = [x]"
| "ins_rev x (y # ys) = (if y > x then y # ins_rev x ys else x # y # ys)"

text \<open>Insertion from the right, as the array loop performs it.\<close>

definition rins :: "'a::linorder \<Rightarrow> 'a list \<Rightarrow> 'a list" where
  "rins x xs = rev (ins_rev x (rev xs))"

lemma rins_Nil [simp]: "rins x [] = [x]"
  by (simp add: rins_def)

lemma rins_snoc: "rins x (xs @ [y]) = (if y > x then rins x xs @ [y] else xs @ [y, x])"
  by (simp add: rins_def)

lemma mset_rins: "mset (rins x xs) = add_mset x (mset xs)"
  by (induction xs rule: rev_induct) (auto simp: rins_snoc)

lemma length_rins [simp]: "length (rins x xs) = Suc (length xs)"
  by (metis mset_rins size_add_mset size_mset)

lemma set_rins: "set (rins x xs) = insert x (set xs)"
  by (metis mset_rins set_mset_add_mset_insert set_mset_mset)

lemma sorted_rins: "sorted xs \<Longrightarrow> sorted (rins x xs)"
proof (induction xs rule: rev_induct)
  case (snoc y ys)
  then show ?case by (force simp: rins_snoc sorted_append set_rins)
qed simp

lemma insert_shift_rins:
  assumes "i < length pieces" "length masks = length pieces"
    and "insert_shift i p m pieces masks = (pieces', masks')"
  shows "length pieces' = length pieces \<and> length masks' = length masks \<and>
    zip (take (Suc i) pieces') (take (Suc i) masks') = rins (p, m) (zip (take i pieces) (take i masks)) \<and>
    drop (Suc i) pieces' = drop (Suc i) pieces \<and> drop (Suc i) masks' = drop (Suc i) masks"
  using assms
proof (induction i arbitrary: pieces masks)
  case 0
  then have "pieces \<noteq> []" "masks \<noteq> []" by auto
  then show ?case using 0 by (cases pieces; cases masks) auto
next
  case (Suc i)
  let ?y = "(pieces ! i, masks ! i)"
  let ?ps = "pieces[Suc i := pieces ! i]" and ?ms = "masks[Suc i := masks ! i]"
  have snoc: "zip (take (Suc n) a) (take (Suc n) b) = zip (take n a) (take n b) @ [(a ! n, b ! n)]"
    if "n < length a" "length b = length a" for n and a :: "u8 list" and b :: "u64 list"
    using that by (simp add: take_Suc_conv_app_nth zip_append)
  show ?case
  proof (cases "?y > (p, m)")
    case True
    then have eq: "insert_shift i p m ?ps ?ms = (pieces', masks')"
      using Suc.prems(3) by (simp only: insert_shift.simps if_True)
    have ih: "length pieces' = length ?ps" "length masks' = length ?ms"
      "zip (take (Suc i) pieces') (take (Suc i) masks') = rins (p, m) (zip (take i ?ps) (take i ?ms))"
      "drop (Suc i) pieces' = drop (Suc i) ?ps" "drop (Suc i) masks' = drop (Suc i) ?ms"
      using Suc.IH [OF _ _ eq] Suc.prems(1,2) by simp_all
    have "pieces' ! Suc i = ?ps ! Suc i" "masks' ! Suc i = ?ms ! Suc i"
      using ih(1,2,4,5) Suc.prems(1,2)
      by (metis Suc_leI length_list_update less_imp_le nth_via_drop Cons_nth_drop_Suc)+
    then have last: "pieces' ! Suc i = pieces ! i" "masks' ! Suc i = masks ! i"
      using Suc.prems(1,2) by simp_all
    have "drop (Suc (Suc i)) pieces' = drop (Suc (Suc i)) ?ps" "drop (Suc (Suc i)) masks' = drop (Suc (Suc i)) ?ms"
      using ih(4,5) by (metis drop_Suc tl_drop)+
    moreover have "zip (take (Suc (Suc i)) pieces') (take (Suc (Suc i)) masks') =
        rins (p, m) (zip (take i pieces) (take i masks)) @ [?y]"
      using ih Suc.prems(1,2) by (subst snoc) (simp_all add: last)
    ultimately show ?thesis
      using ih(1,2) Suc.prems(1,2) True by (simp add: snoc [of i pieces masks] rins_snoc)
  next
    case False
    then have eq: "pieces' = pieces[Suc i := p]" "masks' = masks[Suc i := m]"
      using Suc.prems(3) by (simp_all only: insert_shift.simps if_False prod.inject)
    show ?thesis
      using Suc.prems(1,2) False
      by (auto simp: eq snoc [of i pieces masks] snoc [of "Suc i" "pieces[Suc i := p]" "masks[Suc i := m]"] rins_snoc)
  qed
qed

section \<open>The constructor\<close>

definition pkey :: "PiecePlacementMask \<Rightarrow> u8 \<times> u64" where
  "pkey p = (piece_sort_key (pm_piece p), pm_mask p)"

lemma pkey_inject [simp]: "pkey p = pkey q \<longleftrightarrow> p = q"
  by (cases p; cases q) (auto simp: pkey_def)

text \<open>The builder holds a list of keys in its first cells and zeros above them in the masks.\<close>

definition builder_invar :: "tiling_builder \<Rightarrow> (u8 \<times> u64) list \<Rightarrow> bool" where
  "builder_invar b xs \<longleftrightarrow>
     length (tb_pieces b) = 16 \<and> length (tb_masks b) = 16 \<and> tb_count b = length xs \<and> length xs \<le> 16 \<and>
     zip (take (length xs) (tb_pieces b)) (take (length xs) (tb_masks b)) = xs \<and>
     drop (length xs) (tb_masks b) = replicate (16 - length xs) 0"

definition placement_ok :: "PiecePlacementMask \<Rightarrow> bool" where
  "placement_ok p \<longleftrightarrow> count_ones (pm_mask p) = 4"

lemma push_placement_eq_Ok_iff:
  assumes "builder_invar b xs"
  shows "push_placement b p = Ok b' \<longleftrightarrow>
    length xs \<noteq> 16 \<and> placement_ok p \<and> \<not> mask_intersects (tb_occupied b) (pm_mask p) \<and>
    b' = (let (pieces, masks) = insert_shift (length xs) (piece_sort_key (pm_piece p)) (pm_mask p)
                                  (tb_pieces b) (tb_masks b)
          in \<lparr>tb_masks = masks, tb_pieces = pieces, tb_count = length xs + 1,
              tb_occupied = tb_occupied b OR pm_mask p\<rparr>)"
proof -
  have "pm_mask p = 0 \<Longrightarrow> count_ones (pm_mask p) \<noteq> 4" by simp
  then show ?thesis
    using assms
    by (auto simp: push_placement_def builder_invar_def placement_ok_def mask_intersects_def
        STANDARD_BOARD64_TILING_MAX_PLACEMENTS_def Let_def split: prod.splits if_splits)
qed

lemma push_placement_invar:
  assumes inv: "builder_invar b xs" and ok: "push_placement b p = Ok b'"
  shows "builder_invar b' (rins (pkey p) xs)" "tb_occupied b' = mask_union (tb_occupied b) (pm_mask p)"
proof -
  let ?n = "length xs"
  obtain ps ms where e: "insert_shift ?n (piece_sort_key (pm_piece p)) (pm_mask p) (tb_pieces b) (tb_masks b) = (ps, ms)"
    by fastforce
  have n: "?n < 16" and b': "b' = \<lparr>tb_masks = ms, tb_pieces = ps, tb_count = ?n + 1,
      tb_occupied = tb_occupied b OR pm_mask p\<rparr>"
    using ok inv by (auto simp: push_placement_eq_Ok_iff [OF inv] e builder_invar_def)
  have "?n < length (tb_pieces b)" "length (tb_masks b) = length (tb_pieces b)"
    using inv n by (simp_all add: builder_invar_def)
  from insert_shift_rins [OF this e] inv n have
    "length ps = 16" "length ms = 16" "zip (take (Suc ?n) ps) (take (Suc ?n) ms) = rins (pkey p) xs"
    "drop (Suc ?n) ms = drop (Suc ?n) (tb_masks b)"
    by (simp_all add: builder_invar_def pkey_def)
  moreover have "drop (Suc ?n) (tb_masks b) = replicate (16 - Suc ?n) 0"
  proof -
    have "drop (Suc ?n) (tb_masks b) = tl (drop ?n (tb_masks b))" by (simp only: drop_Suc tl_drop)
    then show ?thesis using inv by (simp add: builder_invar_def)
  qed
  ultimately show "builder_invar b' (rins (pkey p) xs)"
    using n by (simp add: builder_invar_def b')
  show "tb_occupied b' = mask_union (tb_occupied b) (pm_mask p)" by (simp add: b' mask_union_def)
qed

definition tiling_ok_from :: "nat \<Rightarrow> u64 \<Rightarrow> PiecePlacementMask list \<Rightarrow> bool" where
  "tiling_ok_from n occupied pl \<longleftrightarrow>
     n + length pl \<le> 16 \<and> list_all placement_ok pl \<and> board64.accepts occupied (map pm_mask pl)"

lemma push_placements_ok_iff:
  "builder_invar b xs \<Longrightarrow> is_ok (push_placements b pl) \<longleftrightarrow> tiling_ok_from (length xs) (tb_occupied b) pl"
proof (induction pl arbitrary: b xs)
  case Nil
  then show ?case by (simp add: tiling_ok_from_def builder_invar_def)
next
  case (Cons p pl)
  show ?case
  proof (cases "push_placement b p")
    case (Inl e)
    have "\<nexists>b'. push_placement b p = Ok b'" using Inl by simp
    then have "\<not> (length xs \<noteq> 16 \<and> placement_ok p \<and> \<not> mask_intersects (tb_occupied b) (pm_mask p))"
      unfolding push_placement_eq_Ok_iff [OF Cons.prems] by blast
    then have "\<not> tiling_ok_from (length xs) (tb_occupied b) (p # pl)"
      using Cons.prems by (auto simp: tiling_ok_from_def)
    then show ?thesis by (simp add: Inl)
  next
    case (Inr b')
    note i = push_placement_invar [OF Cons.prems Inr]
    have "length xs < 16" "placement_ok p" "\<not> mask_intersects (tb_occupied b) (pm_mask p)"
      using Inr Cons.prems by (auto simp: push_placement_eq_Ok_iff [OF Cons.prems] builder_invar_def)
    then show ?thesis using Cons.IH [OF i(1)] i(2) by (auto simp: Inr tiling_ok_from_def)
  qed
qed

lemma push_placements_invar:
  "builder_invar b xs \<Longrightarrow> push_placements b pl = Ok b' \<Longrightarrow>
     builder_invar b' (foldl (\<lambda>xs p. rins (pkey p) xs) xs pl)"
proof (induction pl arbitrary: b xs)
  case (Cons p pl)
  then obtain b1 where b1: "push_placement b p = Ok b1" "push_placements b1 pl = Ok b'"
    by (auto simp: and_then_eq_Ok_iff)
  show ?case using Cons.IH [OF push_placement_invar(1) [OF Cons.prems(1) b1(1)] b1(2)] by simp
qed simp

text \<open>The canonical order of a list of placements.\<close>

definition canon :: "PiecePlacementMask list \<Rightarrow> PiecePlacementMask list" where
  "canon pl = sort_key pkey pl"

lemma sorted_canon: "sorted (map pkey (canon pl))"
  by (simp add: canon_def)

lemma mset_canon [simp]: "mset (canon pl) = mset pl"
  by (simp add: canon_def)

lemma length_canon [simp]: "length (canon pl) = length pl"
  by (metis mset_canon size_mset)

lemma set_canon [simp]: "set (canon pl) = set pl"
  by (metis mset_canon set_mset_mset)

lemma sorted_mset_unique:
  assumes "sorted xs" "sorted ys" "mset xs = mset ys"
  shows "xs = (ys :: 'a::linorder list)"
  using properties_for_sort [OF refl assms(1)] properties_for_sort [OF assms(3) [symmetric] assms(2)] by simp

lemma rins_foldl: "foldl (\<lambda>xs p. rins (pkey p) xs) [] pl = map pkey (canon pl)"
proof -
  have "sorted (foldl (\<lambda>xs p. rins (pkey p) xs) xs pl) \<and>
      mset (foldl (\<lambda>xs p. rins (pkey p) xs) xs pl) = mset xs + mset (map pkey pl)" if "sorted xs" for xs
    using that by (induction pl arbitrary: xs) (auto simp: sorted_rins mset_rins)
  from this [of "[]"] show ?thesis
    using sorted_canon [of pl] by (intro sorted_mset_unique) (simp_all only: mset_map mset_canon, simp_all)
qed

lemma canon_eq_iff: "canon pl = canon ql \<longleftrightarrow> mset pl = mset ql"
proof
  assume "mset pl = mset ql"
  then have "map pkey (canon pl) = map pkey (canon ql)"
    by (intro sorted_mset_unique sorted_canon) (simp only: mset_map mset_canon)
  then show "canon pl = canon ql" by (rule map_injective) (simp add: inj_def)
next
  assume "canon pl = canon ql"
  then have "mset (canon pl) = mset (canon ql)" by simp
  then show "mset pl = mset ql" by (simp only: mset_canon)
qed

section \<open>Packed piece codes\<close>

lemma bit_pack_piece_codes:
  assumes "\<forall>c\<in>set codes. unat c < 8"
  shows "bit (pack_piece_codes i codes packed) n \<longleftrightarrow>
    bit packed n \<or> (n < 64 \<and> 3 * i \<le> n \<and> n div 3 - i < length codes \<and> bit (codes ! (n div 3 - i)) (n mod 3))"
  using assms
proof (induction codes arbitrary: i packed)
  case Nil
  then show ?case by simp
next
  case (Cons c codes)
  have small: "bit c j \<Longrightarrow> j < 3" for j
  proof -
    have "unat c < 2 ^ 3" using Cons.prems by simp
    then show "bit c j \<Longrightarrow> j < 3" using bits_of_less_exp [of c 3] by auto
  qed
  have b: "bit (push_bit (i * 3) (ucast c :: u64)) n \<longleftrightarrow> n < 64 \<and> 3 * i \<le> n \<and> n div 3 = i \<and> bit c (n mod 3)"
  proof (cases "3 * i \<le> n")
    case True
    then have "n div 3 = i \<and> n mod 3 = n - 3 * i \<longleftrightarrow> n - 3 * i < 3" by presburger
    then show ?thesis using True small [of "n - 3 * i"] small [of "n mod 3"]
      by (auto simp: bit_push_bit_iff bit_ucast_iff mult.commute)
  qed (auto simp: bit_push_bit_iff mult.commute)
  have idx: "3 * (i + 1) \<le> n \<longleftrightarrow> 3 * i \<le> n \<and> n div 3 \<noteq> i" by presburger
  have nth: "(c # codes) ! (n div 3 - i) = (if n div 3 = i then c else codes ! (n div 3 - (i + 1)))"
    if "3 * i \<le> n"
  proof -
    have "i \<le> n div 3" using that by presburger
    then show ?thesis by (auto simp: nth_Cons')
  qed
  have len: "n div 3 - i < length (c # codes) \<longleftrightarrow> n div 3 = i \<or> n div 3 - (i + 1) < length codes"
    if "3 * i \<le> n"
  proof -
    have "i \<le> n div 3" using that by presburger
    then show ?thesis by auto
  qed
  have "bit (pack_piece_codes i (c # codes) packed) n \<longleftrightarrow>
      bit packed n \<or> bit (push_bit (i * 3) (ucast c :: u64)) n \<or>
      (n < 64 \<and> 3 * (i + 1) \<le> n \<and> n div 3 - (i + 1) < length codes \<and> bit (codes ! (n div 3 - (i + 1))) (n mod 3))"
    using Cons.IH [of "i + 1" "packed OR push_bit (i * 3) (ucast c)"] Cons.prems
    by (simp only: pack_piece_codes.simps bit_or_iff list.set_intros ball_simps insert_iff list.set(2)) blast
  then show ?case unfolding b idx using nth len by (auto split: if_splits)
qed

lemma unpack_piece_codes:
  assumes "\<forall>c\<in>set codes. unat c < 8" "k < length codes" "length codes \<le> 16"
  shows "(ucast (drop_bit (k * 3) (pack_piece_codes 0 codes 0) AND 7) :: u8) = codes ! k"
proof (rule bit_word_eqI)
  fix j assume j: "j < LENGTH(8)"
  have seven: "(7 :: u64) = mask 3" by (simp add: mask_eq_exp_minus_1)
  have small: "bit (codes ! k) j \<Longrightarrow> j < 3"
  proof -
    have "unat (codes ! k) < 2 ^ 3" using assms(1,2) by simp
    then show "bit (codes ! k) j \<Longrightarrow> j < 3" using bits_of_less_exp [of "codes ! k" 3] by auto
  qed
  have "j < 3 \<Longrightarrow> (k * 3 + j) div 3 = k \<and> (k * 3 + j) mod 3 = j \<and> k * 3 + j < 64" using assms(2,3) by auto
  then show "bit (ucast (drop_bit (k * 3) (pack_piece_codes 0 codes 0) AND 7) :: u8) j = bit (codes ! k) j"
    using small j assms(2)
    by (auto simp: bit_ucast_iff bit_and_iff seven bit_mask_iff bit_drop_bit_eq bit_pack_piece_codes [OF assms(1)])
qed

section \<open>The identity names the multiset of placements\<close>

definition tiling_ok :: "u64 \<Rightarrow> PiecePlacementMask list \<Rightarrow> bool" where
  "tiling_ok initial pl \<longleftrightarrow> tiling_ok_from 0 initial pl"

definition identity_of :: "u64 \<Rightarrow> PiecePlacementMask list \<Rightarrow> StandardBoard64TilingIdentity" where
  "identity_of initial pl =
     \<lparr>id_initial = initial, id_masks = map pm_mask pl @ replicate (16 - length pl) 0,
      id_codes = pack_piece_codes 0 (map (piece_sort_key \<circ> pm_piece) pl) 0,
      id_count = word_of_nat (length pl)\<rparr>"

lemma empty_builder_invar: "builder_invar (empty_builder initial) []"
  by (simp add: builder_invar_def empty_builder_def)

lemma from_placements_is_ok: "is_ok (from_placements initial pl) \<longleftrightarrow> tiling_ok initial pl"
proof -
  have "is_ok (from_placements initial pl) \<longleftrightarrow> is_ok (push_placements (empty_builder initial) pl)"
    by (auto simp: from_placements_def is_ok_iff and_then_eq_Ok_iff)
  then show ?thesis
    using push_placements_ok_iff [OF empty_builder_invar, of initial pl]
    by (simp add: tiling_ok_def empty_builder_def)
qed

lemma from_placements_value:
  assumes "from_placements initial pl = Ok a"
  shows "a = identity_of initial (canon pl)"
proof -
  obtain b where b: "push_placements (empty_builder initial) pl = Ok b"
    and a: "a = \<lparr>id_initial = initial, id_masks = tb_masks b,
      id_codes = pack_piece_codes 0 (take (tb_count b) (tb_pieces b)) 0, id_count = word_of_nat (tb_count b)\<rparr>"
    using assms by (auto simp: from_placements_def and_then_eq_Ok_iff)
  let ?n = "length pl"
  have inv: "builder_invar b (map pkey (canon pl))"
    using push_placements_invar [OF empty_builder_invar b] by (simp only: rins_foldl)
  then have z: "zip (take ?n (tb_pieces b)) (take ?n (tb_masks b)) = map pkey (canon pl)" "tb_count b = ?n"
    "drop ?n (tb_masks b) = replicate (16 - ?n) 0" and len: "?n \<le> 16" "length (tb_pieces b) = 16" "length (tb_masks b) = 16"
    by (simp_all add: builder_invar_def)
  have "take ?n (tb_pieces b) = map fst (map pkey (canon pl))" "take ?n (tb_masks b) = map snd (map pkey (canon pl))"
    using len unfolding z(1) [symmetric] by simp_all
  then have "take ?n (tb_pieces b) = map (piece_sort_key \<circ> pm_piece) (canon pl)"
    "take ?n (tb_masks b) = map pm_mask (canon pl)"
    by (simp_all add: pkey_def comp_def)
  then show ?thesis
    using a z append_take_drop_id [of ?n "tb_masks b"] by (simp add: identity_of_def)
qed

lemma from_placements_eq_Ok_iff:
  "from_placements initial pl = Ok a \<longleftrightarrow> tiling_ok initial pl \<and> a = identity_of initial (canon pl)"
  using from_placements_is_ok [of initial pl] from_placements_value [of initial pl]
  by (auto simp: is_ok_iff)

lemma tiling_ok_length: "tiling_ok i pl \<Longrightarrow> length pl \<le> 16"
  by (simp add: tiling_ok_def tiling_ok_from_def)

lemma tiling_ok_perm: "mset pl = mset ql \<Longrightarrow> tiling_ok i pl \<longleftrightarrow> tiling_ok i ql"
proof -
  assume m: "mset pl = mset ql"
  have "board64.accepts i (map pm_mask pl) \<longleftrightarrow> board64.accepts i (map pm_mask ql)"
    using m by (intro board64.accepts_perm) simp
  moreover have "length pl = length ql" "set pl = set ql"
    using m by (metis size_mset, metis set_mset_mset)
  ultimately show ?thesis by (simp add: tiling_ok_def tiling_ok_from_def list_all_iff)
qed

lemma placement_count_identity_of: "length pl \<le> 16 \<Longrightarrow> placement_count (identity_of i pl) = length pl"
  by (simp add: placement_count_def identity_of_def unat_word_of_nat)

lemma id_piece_identity_of:
  assumes "length pl \<le> 16" "k < length pl"
  shows "id_piece (identity_of i pl) k = Some (pm_piece (pl ! k))"
proof -
  have lt: "unat (piece_sort_key p) < 8" for p using piece_sort_key_less [of p] by simp
  have "piece_code (identity_of i pl) k = map (piece_sort_key \<circ> pm_piece) pl ! k"
    unfolding piece_code_def identity_of_def StandardBoard64TilingIdentity.simps
    using assms lt by (intro unpack_piece_codes) auto
  then show ?thesis using assms by (simp add: id_piece_def)
qed

lemma id_masks_identity_of: "k < length pl \<Longrightarrow> id_masks (identity_of i pl) ! k = pm_mask (pl ! k)"
  by (simp add: identity_of_def nth_append)

lemma placements_identity_of:
  assumes "length pl \<le> 16"
  shows "placements (identity_of i pl) = Some pl"
proof -
  have "those (map (placement (identity_of i pl)) [0..<length pl]) = Some (map (\<lambda>k. pl ! k) [0..<length pl])"
    using assms
    by (intro those_map_Some)
      (simp add: placement_def placement_count_identity_of id_piece_identity_of id_masks_identity_of)
  then show ?thesis using assms by (simp add: placements_def placement_count_identity_of map_nth)
qed

lemma identity_of_inject:
  assumes "length pl \<le> 16" "length ql \<le> 16"
  shows "identity_of i pl = identity_of j ql \<longleftrightarrow> i = j \<and> pl = ql"
proof
  assume eq: "identity_of i pl = identity_of j ql"
  then have "placements (identity_of i pl) = placements (identity_of j ql)" by simp
  then have "pl = ql" using assms by (simp add: placements_identity_of)
  moreover have "id_initial (identity_of i pl) = id_initial (identity_of j ql)" using eq by simp
  ultimately show "i = j \<and> pl = ql" by (simp add: identity_of_def)
qed simp

section \<open>The canonical text\<close>

definition placement_text :: "PiecePlacementMask \<Rightarrow> string" where
  "placement_text p = as_ascii (pm_piece p) # CHR '':'' # hex16 (pm_mask p)"

definition canonical_text :: "u64 \<Rightarrow> PiecePlacementMask list \<Rightarrow> string" where
  "canonical_text i pl =
     ''ctk1|initial='' @ hex16 i @ ''|placements='' @ join CHR '','' (map placement_text pl)"

lemma join_snoc: "join d (xs @ [x]) = (if xs = [] then x else join d xs @ d # x)"
  by (induction d xs rule: join.induct) auto

lemma join_concat: "join d xs = concat (map (\<lambda>j. (if j \<noteq> 0 then [d] else []) @ xs ! j) [0..<length xs])"
proof (induction xs rule: rev_induct)
  case (snoc x xs)
  have "map (\<lambda>j. (if j \<noteq> 0 then [d] else []) @ (xs @ [x]) ! j) [0..<length xs] =
      map (\<lambda>j. (if j \<noteq> 0 then [d] else []) @ xs ! j) [0..<length xs]"
    by (rule map_cong) (auto simp: nth_append)
  moreover have "[0..<length (xs @ [x])] = [0..<length xs] @ [length xs]" by simp
  ultimately have "concat (map (\<lambda>j. (if j \<noteq> 0 then [d] else []) @ (xs @ [x]) ! j) [0..<length (xs @ [x])]) =
      join d xs @ (if xs \<noteq> [] then [d] else []) @ x"
    by (simp only: map_append concat_append snoc) simp
  then show ?case by (cases "xs = []") (simp_all only: join_snoc, simp_all)
qed simp

lemma write_placements_identity_of:
  assumes "length pl \<le> 16" "\<forall>k\<in>set ks. k < length pl"
  shows "write_placements (identity_of i pl) ks =
    Some (concat (map (\<lambda>j. (if j \<noteq> 0 then '','' else []) @ map placement_text pl ! j) ks))"
  using assms(2)
  by (induction ks)
    (simp_all add: id_piece_identity_of [OF assms(1)] id_masks_identity_of placement_text_def)

lemma write_canonical_identity_of:
  assumes "length pl \<le> 16"
  shows "write_canonical (identity_of i pl) = Some (canonical_text i pl)"
proof -
  have "write_placements (identity_of i pl) [0..<length pl] = Some (join CHR '','' (map placement_text pl))"
    using write_placements_identity_of [OF assms, of "[0..<length pl]" i]
    by (simp only: join_concat length_map) simp
  then show ?thesis
    using assms by (simp add: write_canonical_def placement_count_identity_of canonical_text_def)
      (simp add: identity_of_def)
qed

lemma parse_piece_byte_as_ascii [simp]: "parse_piece_byte (as_ascii k) = Some k"
  by (cases k) (simp_all add: parse_piece_byte_def)

lemma parse_placement_text [simp]: "parse_placement_text (placement_text p) = Some p"
proof -
  have "split_once '':'' (as_ascii k # CHR '':'' # b) = Some ([as_ascii k], b)" for k b
    unfolding split_once_char_eq_Some_iff by (cases k) auto
  then show ?thesis by (simp add: parse_placement_text_def placement_text_def del: split_once.simps)
qed

lemma not_in_hex16: "\<not> is_lower_hex c \<Longrightarrow> c \<notin> set (hex16 w)"
  using list_all_hex16 [of w] by (auto simp: list_all_iff simp del: list_all_hex16)

lemma placement_text_no_comma: "CHR '','' \<notin> set (placement_text p)"
  using not_in_hex16 [of "CHR '',''" "pm_mask p"]
  by (cases "pm_piece p") (auto simp: placement_text_def is_lower_hex_def is_ascii_digit_def)

lemma parse_canonical_text: "parse_standard_board64_identity (canonical_text i pl) = from_placements i pl"
proof -
  let ?s = "join CHR '','' (map placement_text pl)"
  have "strip_prefix ''ctk1|initial='' (canonical_text i pl) = Some (hex16 i @ ''|placements='' @ ?s)"
    unfolding canonical_text_def by (rule strip_prefix_append)
  moreover have "CHR ''|'' \<notin> set (hex16 i)"
    by (rule not_in_hex16) (simp add: is_lower_hex_def is_ascii_digit_def)
  then have "split_once ''|placements='' (hex16 i @ ''|placements='' @ ?s) = Some (hex16 i, ?s)"
    using split_once_append [of "CHR ''|''" "hex16 i" "''placements=''"] by simp
  moreover have "(if ?s = [] then Ok [] else ok_or InvalidCanonicalKey
      (those (map parse_placement_text (split_on CHR '','' ?s)))) = Ok pl"
  proof (cases pl)
    case (Cons p ps)
    have "?s \<noteq> []" unfolding Cons by (cases ps) (simp_all add: placement_text_def)
    moreover have "split_on CHR '','' ?s = map placement_text pl"
      by (rule split_on_join) (auto simp: Cons placement_text_no_comma)
    moreover have "those (map (\<lambda>p. parse_placement_text (placement_text p)) pl) = Some pl"
      using those_map_Some [of pl _ "\<lambda>p. p"] by simp
    ultimately show ?thesis by (simp add: comp_def)
  qed simp
  ultimately show ?thesis
    by (simp add: parse_standard_board64_identity_def del: split_once.simps)
qed

lemma key_from_placements_ok:
  assumes "tiling_ok i pl"
  shows "key_from_placements i pl = Ok (canonical_text i (canon pl))"
proof -
  have "from_placements i pl = Ok (identity_of i (canon pl))"
    using assms by (simp add: from_placements_eq_Ok_iff)
  moreover have "write_canonical (identity_of i (canon pl)) = Some (canonical_text i (canon pl))"
    using tiling_ok_length [OF assms] by (intro write_canonical_identity_of) simp
  ultimately show ?thesis by (simp add: key_from_placements_def key_from_identity_def)
qed

lemma key_from_placements_err: "\<not> tiling_ok i pl \<Longrightarrow> \<exists>e. key_from_placements i pl = Err (Fault e)"
  using from_placements_is_ok [of i pl]
  by (cases "from_placements i pl") (auto simp: key_from_placements_def)

lemma key_is_ok_iff: "is_ok (key_from_placements i pl) \<longleftrightarrow> tiling_ok i pl"
  using key_from_placements_ok [of i pl] key_from_placements_err [of i pl] by (cases "tiling_ok i pl") auto

lemma tiling_ok_canon [simp]: "tiling_ok i (canon pl) \<longleftrightarrow> tiling_ok i pl"
  by (rule tiling_ok_perm) simp

lemma canon_canon [simp]: "canon (canon pl) = canon pl"
  unfolding canon_eq_iff by simp

lemma canonical_text_inject:
  assumes "tiling_ok i pl" "tiling_ok j ql"
  shows "canonical_text i (canon pl) = canonical_text j (canon ql) \<longleftrightarrow> i = j \<and> mset pl = mset ql"
proof
  assume "canonical_text i (canon pl) = canonical_text j (canon ql)"
  then have "from_placements i (canon pl) = from_placements j (canon ql)"
    using parse_canonical_text by metis
  moreover have "from_placements i (canon pl) = Ok (identity_of i (canon pl))"
    "from_placements j (canon ql) = Ok (identity_of j (canon ql))"
    using assms by (simp_all add: from_placements_eq_Ok_iff)
  ultimately have "identity_of i (canon pl) = identity_of j (canon ql)" by simp
  then show "i = j \<and> mset pl = mset ql"
    using assms tiling_ok_length by (simp add: identity_of_inject canon_eq_iff)
next
  assume "i = j \<and> mset pl = mset ql"
  then show "canonical_text i (canon pl) = canonical_text j (canon ql)"
    using canon_eq_iff [of pl ql] by simp
qed

text \<open>
  C8. The canonical key of a list of placements exists exactly when each covers four cells and none
  overlaps; it never panics, and two lists have the same key exactly when they start from the same
  board and are permutations of each other.
\<close>

theorem tiling_key_faithful:
  "key_from_placements i pl \<noteq> Err Panic \<and>
   (is_ok (key_from_placements i pl) \<longleftrightarrow>
      length pl \<le> 16 \<and> list_all (\<lambda>p. count_ones (pm_mask p) = 4) pl \<and> board64.accepts i (map pm_mask pl)) \<and>
   (is_ok (key_from_placements i pl) \<and> is_ok (key_from_placements j ql) \<longrightarrow>
      (key_from_placements i pl = key_from_placements j ql \<longleftrightarrow> i = j \<and> mset pl = mset ql))"
proof (intro conjI impI)
  show "key_from_placements i pl \<noteq> Err Panic"
    using key_from_placements_ok [of i pl] key_from_placements_err [of i pl] by (cases "tiling_ok i pl") auto
  show "is_ok (key_from_placements i pl) \<longleftrightarrow>
      length pl \<le> 16 \<and> list_all (\<lambda>p. count_ones (pm_mask p) = 4) pl \<and> board64.accepts i (map pm_mask pl)"
    unfolding key_is_ok_iff by (auto simp: tiling_ok_def tiling_ok_from_def placement_ok_def list_all_iff)
  assume "is_ok (key_from_placements i pl) \<and> is_ok (key_from_placements j ql)"
  then show "key_from_placements i pl = key_from_placements j ql \<longleftrightarrow> i = j \<and> mset pl = mset ql"
    unfolding key_is_ok_iff by (simp add: key_from_placements_ok canonical_text_inject)
qed

definition example_tiling :: "PiecePlacementMask list" where
  "example_tiling = [\<lparr>pm_piece = PieceO, pm_mask = 240\<rparr>, \<lparr>pm_piece = PieceI, pm_mask = 15\<rparr>]"

lemma example_tiling_ok: "tiling_ok 0 example_tiling"
proof -
  have eq: "(15 :: u64) = mask 4" "(240 :: u64) = push_bit 4 (mask 4)"
    by (simp_all add: mask_eq_exp_minus_1 push_bit_eq_mult)
  have "bits_of (mask 4 :: u64) = {..<4}" by (simp add: bits_of_mask)
  moreover have "n \<in> bits_of (push_bit 4 (mask 4) :: u64) \<longleftrightarrow> n \<in> {4..<8}" for n
    by (auto simp: bit_mask_iff bit_push_bit_iff)
  ultimately have "bits_of (15 :: u64) = {..<4}" "bits_of (240 :: u64) = {4..<8}"
    unfolding eq by blast+
  then show ?thesis
    by (auto simp: tiling_ok_def tiling_ok_from_def example_tiling_def placement_ok_def count_ones_card
        card_image board64.accepts_iff bits_of_zero)
qed

theorem tiling_key_faithful_witness:
  "key_from_placements 0 example_tiling = key_from_placements 0 (rev example_tiling)"
proof -
  have "tiling_ok 0 (rev example_tiling)" using example_tiling_ok tiling_ok_perm [of "rev example_tiling"] by simp
  then show ?thesis
    using tiling_key_faithful [of 0 example_tiling 0 "rev example_tiling"] example_tiling_ok
    by (simp add: key_is_ok_iff)
qed

lemma placement_masks_identity_of: "length pl \<le> 16 \<Longrightarrow> placement_masks (identity_of i pl) = map pm_mask pl"
  by (simp add: placement_masks_def placement_count_identity_of) (simp add: identity_of_def)

lemma from_compact_parts_identity_of:
  assumes "tiling_ok i pl" "canon pl = pl"
  shows "from_compact_parts i (id_codes (identity_of i pl)) (map pm_mask pl) = Ok (identity_of i pl)"
proof -
  let ?a = "identity_of i pl"
  note len = tiling_ok_length [OF assms(1)]
  have lt: "unat (piece_sort_key p) < 8" for p using piece_sort_key_less [of p] by simp
  have le: "\<not> 6 < piece_sort_key p" for p using piece_sort_key_less [of p] by (simp add: word_less_nat_alt)
  have "(ucast (drop_bit (k * 3) (id_codes ?a) AND 7) :: u8) = piece_sort_key (pm_piece (pl ! k))"
    if "k < length pl" for k
    using unpack_piece_codes [of "map (piece_sort_key \<circ> pm_piece) pl" k] that len lt
    by (auto simp: identity_of_def)
  then have "map (\<lambda>k. ucast (drop_bit (k * 3) (id_codes ?a) AND 7) :: u8) [0..<length pl] =
      map (\<lambda>k. piece_sort_key (pm_piece (pl ! k))) [0..<length pl]" by simp
  also have "\<dots> = map (piece_sort_key \<circ> pm_piece) pl" by (rule nth_equalityI) simp_all
  finally have codes: "map (\<lambda>k. ucast (drop_bit (k * 3) (id_codes ?a) AND 7) :: u8) [0..<length (map pm_mask pl)] =
      map (piece_sort_key \<circ> pm_piece) pl" by simp
  have "those (map piece_from_sort_key (map (piece_sort_key \<circ> pm_piece) pl)) = Some (map pm_piece pl)"
    unfolding map_map by (rule those_map_Some) simp
  moreover have "map (\<lambda>(m, piece). \<lparr>pm_piece = piece, pm_mask = m\<rparr>) (zip (map pm_mask pl) (map pm_piece pl)) = pl"
    by (rule nth_equalityI) simp_all
  moreover have "from_placements i pl = Ok ?a" using assms by (simp add: from_placements_eq_Ok_iff)
  ultimately show ?thesis
    unfolding from_compact_parts_def Let_def codes
    using len le by (simp add: STANDARD_BOARD64_TILING_MAX_PLACEMENTS_def list_ex_iff)
qed

text \<open>
  C26. Both codecs of the identity round trip: the canonical text of accepted placements parses back to
  their identity and is a fixed point of \<open>parse_canonical\<close>, and the compact parts of the identity
  rebuild it.
\<close>

theorem tiling_codecs_roundtrip:
  assumes "from_placements i pl = Ok a"
  shows "\<exists>key. write_canonical a = Some key \<and> parse_standard_board64_identity key = Ok a \<and>
    parse_canonical key = Ok key \<and> placements a = Some (canon pl) \<and>
    from_compact_parts (id_initial a) (id_codes a) (placement_masks a) = Ok a"
proof -
  let ?pl = "canon pl" and ?key = "canonical_text i (canon pl)"
  have ok: "tiling_ok i ?pl" and a: "a = identity_of i ?pl"
    using assms by (simp_all add: from_placements_eq_Ok_iff)
  note len = tiling_ok_length [OF ok]
  have w: "write_canonical a = Some ?key" unfolding a by (rule write_canonical_identity_of [OF len])
  have p: "parse_standard_board64_identity ?key = Ok a"
    using ok by (simp add: parse_canonical_text from_placements_eq_Ok_iff a)
  have "take 5 ?key \<noteq> ''ctk2|''" by (simp add: canonical_text_def)
  then have "parse_canonical ?key = Ok ?key" by (simp add: parse_canonical_def p key_from_identity_def w)
  moreover have "placements a = Some ?pl" unfolding a by (rule placements_identity_of [OF len])
  moreover have "id_initial a = i" by (simp add: a identity_of_def)
  then have "from_compact_parts (id_initial a) (id_codes a) (placement_masks a) = Ok a"
    using from_compact_parts_identity_of [OF ok] placement_masks_identity_of [OF len] by (simp add: a)
  ultimately show ?thesis using w p by blast
qed

theorem tiling_codecs_roundtrip_witness:
  "\<exists>a key. from_placements 0 example_tiling = Ok a \<and> write_canonical a = Some key \<and>
     parse_standard_board64_identity key = Ok a \<and> parse_canonical key = Ok key"
proof -
  have "from_placements 0 example_tiling = Ok (identity_of 0 (canon example_tiling))"
    using example_tiling_ok by (simp add: from_placements_eq_Ok_iff)
  with tiling_codecs_roundtrip [OF this] show ?thesis by blast
qed

section \<open>The comparison is the order of the texts\<close>

lemma compare_eqI: "(a < b \<longleftrightarrow> c < d) \<Longrightarrow> (b < a \<longleftrightarrow> d < c) \<Longrightarrow> compare a b = compare c d"
  by (auto simp: compare_def)

lemma compare_append:
  fixes a a' b b' :: "'a::linorder list"
  assumes "length a = length a'"
  shows "compare (a @ b) (a' @ b') = (if compare a a' \<noteq> Equal then compare a a' else compare b b')"
  using assms by (auto simp: compare_def append_less_iff)

lemma compare_Cons:
  fixes x y :: "'a::linorder"
  shows "compare (x # xs) (y # ys) = (if compare x y \<noteq> Equal then compare x y else compare xs ys)"
  by (auto simp: compare_def)

lemma compare_hex16: "compare (hex16 a) (hex16 b) = compare a b"
  by (rule compare_eqI) (simp_all only: hex16_less_iff)

lemma compare_placement_text:
  "compare (placement_text p) (placement_text q) =
     (if compare (as_ascii (pm_piece p)) (as_ascii (pm_piece q)) \<noteq> Equal
      then compare (as_ascii (pm_piece p)) (as_ascii (pm_piece q))
      else compare (pm_mask p) (pm_mask q))"
  by (simp add: placement_text_def compare_Cons compare_hex16)

lemma length_placement_text [simp]: "length (placement_text p) = 18"
  by (simp add: placement_text_def)

lemma placement_text_inject [simp]: "placement_text p = placement_text q \<longleftrightarrow> p = q"
  by (metis parse_placement_text option.inject)

text \<open>Comparing lists of placements by their texts, entry by entry; a prefix is smaller.\<close>

fun cmp_texts :: "PiecePlacementMask list \<Rightarrow> PiecePlacementMask list \<Rightarrow> Ordering" where
  "cmp_texts [] [] = Equal"
| "cmp_texts [] (q # ql) = Less"
| "cmp_texts (p # pl) [] = Greater"
| "cmp_texts (p # pl) (q # ql) =
     (if compare (placement_text p) (placement_text q) \<noteq> Equal then compare (placement_text p) (placement_text q)
      else cmp_texts pl ql)"

lemma compare_Nil: "compare [] (x # xs) = Less" "compare (x # xs) [] = Greater"
  by (simp_all add: compare_def)

lemma join_Cons: "join d (x # xs) = x @ (if xs = [] then [] else d # join d xs)"
  by (cases xs) simp_all

lemma compare_self_append: "compare a (a @ x # xs) = Less" "compare (a @ x # xs) a = Greater"
  using compare_append [of a a "[]" "x # xs"] compare_append [of a a "x # xs" "[]"]
  by (simp_all add: compare_Nil)

lemma compare_join_texts:
  "compare (join CHR '','' (map placement_text pl)) (join CHR '','' (map placement_text ql)) = cmp_texts pl ql"
proof (induction pl ql rule: cmp_texts.induct)
  case (4 p pl q ql)
  show ?case
  proof (cases "p = q")
    case True
    then have ih: "compare (join CHR '','' (map placement_text pl)) (join CHR '','' (map placement_text ql)) =
        cmp_texts pl ql" using 4 by simp
    show ?thesis
      using ih True by (cases pl; cases ql) (simp_all add: join_Cons compare_append compare_self_append compare_Cons compare_Nil)
  next
    case False
    then show ?thesis by (simp add: join_Cons compare_append compare_cases)
  qed
qed (simp_all add: join_Cons placement_text_def compare_Nil)

lemma cmp_texts_drop:
  "k < length pl \<Longrightarrow> k < length ql \<Longrightarrow>
     cmp_texts (drop k pl) (drop k ql) =
       (if compare (placement_text (pl ! k)) (placement_text (ql ! k)) \<noteq> Equal
        then compare (placement_text (pl ! k)) (placement_text (ql ! k))
        else cmp_texts (drop (Suc k) pl) (drop (Suc k) ql))"
  by (simp flip: Cons_nth_drop_Suc)

lemma cmp_placements_identity_of:
  assumes len: "length pl \<le> 16" "length ql \<le> 16" and k: "k \<le> min (length pl) (length ql)"
  shows "cmp_placements (identity_of i pl) (identity_of j ql) [k..<min (length pl) (length ql)] =
    Some (cmp_texts (drop k pl) (drop k ql))"
  using k
proof (induction "min (length pl) (length ql) - k" arbitrary: k)
  case 0
  then have k: "k = min (length pl) (length ql)" by simp
  have cnt: "compare (id_count (identity_of i pl)) (id_count (identity_of j ql)) = compare (length pl) (length ql)"
    using len by (intro compare_eqI) (simp_all add: identity_of_def word_less_nat_alt unat_word_of_nat)
  have "compare (length pl) (length ql) = cmp_texts (drop k pl) (drop k ql)"
  proof (cases "length pl" "length ql" rule: linorder_cases)
    case less
    then have "drop k pl = []" "drop k ql \<noteq> []" using k by auto
    then show ?thesis using less by (cases "drop k ql") (simp_all add: compare_def)
  next
    case equal
    then show ?thesis using k by simp
  next
    case greater
    then have "drop k ql = []" "drop k pl \<noteq> []" using k by auto
    then show ?thesis using greater by (cases "drop k pl") (simp_all add: compare_def)
  qed
  then show ?case using k cnt by simp
next
  case (Suc n)
  then have lt: "k < length pl" "k < length ql" by simp_all
  have "[k..<min (length pl) (length ql)] = k # [Suc k..<min (length pl) (length ql)]"
    using lt by (simp add: upt_conv_Cons)
  moreover have "cmp_placements (identity_of i pl) (identity_of j ql) [Suc k..<min (length pl) (length ql)] =
      Some (cmp_texts (drop (Suc k) pl) (drop (Suc k) ql))"
    using Suc.hyps(2) lt by (intro Suc.hyps(1)) simp_all
  ultimately show ?case
    using lt len
    by (simp add: id_piece_identity_of id_masks_identity_of cmp_texts_drop compare_placement_text)
qed

text \<open>
  C11. The allocation-free comparison of two identities never panics and is exactly the byte order of
  their canonical strings, so sorting identities sorts keys.
\<close>

theorem identity_cmp_is_text_order:
  assumes "from_placements i pl = Ok a" "from_placements j ql = Ok b"
    and "write_canonical a = Some s" "write_canonical b = Some t"
  shows "identity_cmp a b = Some (compare s t)"
proof -
  have a: "a = identity_of i (canon pl)" "length (canon pl) \<le> 16"
    and b: "b = identity_of j (canon ql)" "length (canon ql) \<le> 16"
    using assms(1,2) tiling_ok_length by (auto simp: from_placements_eq_Ok_iff)
  have s: "s = canonical_text i (canon pl)" "t = canonical_text j (canon ql)"
    using assms(3,4) a b by (simp_all add: write_canonical_identity_of)
  have "compare s t = (if compare i j \<noteq> Equal then compare i j else cmp_texts (canon pl) (canon ql))"
    unfolding s canonical_text_def by (simp add: compare_append compare_hex16 compare_join_texts compare_Cons)
  moreover have "id_initial a = i" "id_initial b = j" by (simp_all add: a b identity_of_def)
  ultimately show ?thesis
    using cmp_placements_identity_of [OF a(2) b(2), of 0 i j] a b
    by (simp add: identity_cmp_def placement_count_identity_of)
qed

theorem identity_cmp_is_text_order_witness:
  "\<exists>a s. from_placements 0 example_tiling = Ok a \<and> write_canonical a = Some s \<and>
     identity_cmp a a = Some (compare s s)"
proof -
  have a: "from_placements 0 example_tiling = Ok (identity_of 0 (canon example_tiling))"
    using example_tiling_ok by (simp add: from_placements_eq_Ok_iff)
  have "write_canonical (identity_of 0 (canon example_tiling)) = Some (canonical_text 0 (canon example_tiling))"
    by (rule write_canonical_identity_of) (simp add: example_tiling_def)
  with identity_cmp_is_text_order [OF a a this this] a show ?thesis by blast
qed

section \<open>The coloured identity\<close>

definition color_count :: "u64 list \<Rightarrow> nat" where
  "color_count ms = sum_list (map (\<lambda>m. count_ones m div 4) ms)"

abbreviation color_of_placement :: "PiecePlacementMask \<Rightarrow> nat" where
  "color_of_placement p \<equiv> unat (piece_sort_key (pm_piece p))"

lemma count_ones_or: "mask_intersects a b = False \<Longrightarrow> count_ones (a OR b) = count_ones a + count_ones b"
  using board64.count_union_disjoint [of a b] by (simp add: mask_union_def)

text \<open>One placement added to the seven colour masks, none of which it meets.\<close>

lemma add_color_step:
  assumes len: "length ms = 7" and p: "placement_ok p"
    and dis: "bits_of (ms ! color_of_placement p) \<inter> bits_of (pm_mask p) = {}"
    and area: "\<forall>k<7. count_ones (ms ! k) mod 4 = 0"
  shows "length (add_color ms p) = 7" "color_count (add_color ms p) = color_count ms + 1"
    "\<forall>k<7. count_ones (add_color ms p ! k) mod 4 = 0"
    "\<forall>k<7. bits_of (add_color ms p ! k) =
       bits_of (ms ! k) \<union> (if color_of_placement p = k then bits_of (pm_mask p) else {})"
proof -
  let ?k = "color_of_placement p"
  have k: "?k < 7" by (rule piece_sort_key_less)
  have c: "count_ones (ms ! ?k OR pm_mask p) = count_ones (ms ! ?k) + 4"
    using dis p by (simp add: count_ones_or board64.intersects_iff placement_ok_def)
  show "length (add_color ms p) = 7" using len by (simp add: add_color_def Let_def)
  show "\<forall>k<7. count_ones (add_color ms p ! k) mod 4 = 0"
    using area k len c by (auto simp: add_color_def Let_def nth_list_update)
  show "\<forall>k<7. bits_of (add_color ms p ! k) =
       bits_of (ms ! k) \<union> (if ?k = k then bits_of (pm_mask p) else {})"
    using len by (auto simp: add_color_def Let_def nth_list_update bits_of_or)
  have "color_count (add_color ms p) = color_count ms + (count_ones (ms ! ?k) div 4 + 1) - count_ones (ms ! ?k) div 4"
    using k len c by (simp add: color_count_def add_color_def Let_def map_update sum_list_update)
  then show "color_count (add_color ms p) = color_count ms + 1" by simp
qed

lemma foldl_add_color:
  assumes "length ms = 7" "list_all placement_ok pl" "board64.accepts occ (map pm_mask pl)"
    and "\<forall>k<7. bits_of (ms ! k) \<subseteq> bits_of occ" "\<forall>k<7. count_ones (ms ! k) mod 4 = 0"
  shows "length (foldl add_color ms pl) = 7 \<and> color_count (foldl add_color ms pl) = color_count ms + length pl \<and>
    (\<forall>k<7. count_ones (foldl add_color ms pl ! k) mod 4 = 0 \<and>
       bits_of (foldl add_color ms pl ! k) =
         bits_of (ms ! k) \<union> (\<Union>p\<in>{p \<in> set pl. color_of_placement p = k}. bits_of (pm_mask p)))"
  using assms
proof (induction pl arbitrary: ms occ)
  case Nil
  then show ?case by simp
next
  case (Cons p pl)
  have k: "color_of_placement p < 7" by (rule piece_sort_key_less)
  have "\<not> mask_intersects occ (pm_mask p)" using Cons.prems(3) by simp
  then have "bits_of occ \<inter> bits_of (pm_mask p) = {}" by (simp add: board64.intersects_iff)
  then have dis: "bits_of (ms ! color_of_placement p) \<inter> bits_of (pm_mask p) = {}"
    using Cons.prems(4) k by blast
  have "placement_ok p" using Cons.prems(2) by simp
  note st = add_color_step [OF Cons.prems(1) this dis Cons.prems(5)]
  have sub: "\<forall>k<7. bits_of (add_color ms p ! k) \<subseteq> bits_of (mask_union occ (pm_mask p))"
    using st(4) Cons.prems(4) by (auto simp: board64.cells_union split: if_splits simp del: mem_bits_of)
  have acc: "board64.accepts (mask_union occ (pm_mask p)) (map pm_mask pl)" "list_all placement_ok pl"
    using Cons.prems by simp_all
  have U: "(\<Union>q\<in>{q \<in> set (p # pl). color_of_placement q = k}. bits_of (pm_mask q)) =
      (if color_of_placement p = k then bits_of (pm_mask p) else {}) \<union>
      (\<Union>q\<in>{q \<in> set pl. color_of_placement q = k}. bits_of (pm_mask q))" for k
    by auto
  show ?case
    using Cons.IH [OF st(1) acc(2,1) sub st(3)] st(2,4) unfolding U by (simp add: Un_assoc)
qed

lemma check_piece_masks_iff:
  "check_piece_masks occ pms = Ok () \<longleftrightarrow>
     (\<forall>m\<in>set (map snd pms). count_ones m mod 4 = 0) \<and> board64.accepts occ (map snd pms)"
  by (induction pms arbitrary: occ)
    (auto simp: mask_intersects_def mask_union_def split: prod.splits)

lemma sorted_wrt_distinct_pair:
  assumes "sorted_wrt R xs" "x \<in> set xs" "y \<in> set xs" "x \<noteq> y" "\<And>a b. R a b \<Longrightarrow> R b a"
  shows "R x y"
  using assms by (induction xs) auto

lemma colored_accepts:
  assumes ok: "tiling_ok i pl"
  defines "ms \<equiv> foldl add_color (replicate 7 0) pl"
  shows "length ms = 7" "color_count ms = length pl" "\<forall>m\<in>set ms. count_ones m mod 4 = 0"
    "board64.accepts i ms"
proof -
  have t: "list_all placement_ok pl" "board64.accepts i (map pm_mask pl)"
    using ok by (simp_all add: tiling_ok_def tiling_ok_from_def)
  have all: "length ms = 7 \<and> color_count ms = color_count (replicate 7 0) + length pl \<and>
    (\<forall>k<7. count_ones (ms ! k) mod 4 = 0 \<and>
       bits_of (ms ! k) = bits_of (replicate 7 (0 :: u64) ! k) \<union>
         (\<Union>p\<in>{p \<in> set pl. color_of_placement p = k}. bits_of (pm_mask p)))"
    unfolding ms_def by (rule foldl_add_color [where occ = i]) (use t in \<open>simp_all add: bits_of_zero\<close>)
  then show len: "length ms = 7" by blast
  have "color_count (replicate 7 0) = 0" by (simp add: color_count_def sum_list_replicate)
  moreover have "color_count ms = color_count (replicate 7 0) + length pl" using all by blast
  ultimately show "color_count ms = length pl" by simp
  have "\<forall>k<7. count_ones (ms ! k) mod 4 = 0" using all by blast
  then show "\<forall>m\<in>set ms. count_ones m mod 4 = 0" by (simp only: all_set_conv_all_nth len)
  have bits: "bits_of (ms ! k) = (\<Union>p\<in>{p \<in> set pl. color_of_placement p = k}. bits_of (pm_mask p))"
    if "k < 7" for k
    using all that by (simp add: bits_of_zero)
  have dis: "bits_of i \<inter> bits_of (pm_mask p) = {}" if "p \<in> set pl" for p
    using t(2) that by (auto simp: board64.accepts_iff)
  have srt: "sorted_wrt (\<lambda>p q. bits_of (pm_mask p) \<inter> bits_of (pm_mask q) = {}) pl"
    using t(2) by (simp add: board64.accepts_iff sorted_wrt_map)
  have pair: "bits_of (pm_mask p) \<inter> bits_of (pm_mask q) = {}" if "p \<in> set pl" "q \<in> set pl" "p \<noteq> q" for p q
    by (rule sorted_wrt_distinct_pair [OF srt that]) blast
  have "bits_of (ms ! k) \<inter> bits_of (ms ! l) = {}" if "k < l" "l < 7" for k l
    using that pair by (fastforce simp: bits simp del: mem_bits_of)
  moreover have "bits_of i \<inter> bits_of (ms ! k) = {}" if "k < 7" for k
    using that dis by (auto simp: bits simp del: mem_bits_of)
  ultimately show "board64.accepts i ms"
    unfolding board64.accepts_iff sorted_wrt_iff_nth_less all_set_conv_all_nth len by blast
qed

text \<open>
  C27. The coloured identity derived from a tiling is itself a valid coloured identity, passing every
  check of \<open>from_piece_masks\<close>, and counts as many placements as the tiling has.
\<close>

theorem colored_identity_valid:
  assumes "from_placements i pl = Ok a"
  shows "\<exists>c. colored_from_identity a = Some c \<and> from_piece_masks (col_initial c) (col_masks c) = Ok c \<and>
    col_initial c = i \<and> colored_placement_count c = length pl \<and> placement_count a = length pl"
proof -
  have ok: "tiling_ok i (canon pl)" and a: "a = identity_of i (canon pl)"
    using assms by (simp_all add: from_placements_eq_Ok_iff)
  note len = tiling_ok_length [OF ok]
  let ?ms = "foldl add_color (replicate 7 0) (canon pl)"
  note col = colored_accepts [OF ok]
  have "map snd (zip STANDARD_TETROMINOES ?ms) = ?ms"
    using col(1) by (simp add: STANDARD_TETROMINOES_def)
  then have "check_piece_masks i (zip STANDARD_TETROMINOES ?ms) = Ok ()"
    unfolding check_piece_masks_iff using col(3,4) by simp
  moreover have "placements a = Some (canon pl)" unfolding a by (rule placements_identity_of [OF len])
  moreover have "id_initial a = i" by (simp add: a identity_of_def)
  moreover have "placement_count a = length pl"
    unfolding a placement_count_identity_of [OF len] by simp
  ultimately show ?thesis
    using col(2)
    by (simp add: colored_from_identity_def from_piece_masks_def colored_placement_count_def color_count_def)
qed

theorem colored_identity_valid_witness:
  "\<exists>a c. from_placements 0 example_tiling = Ok a \<and> colored_from_identity a = Some c \<and>
     colored_placement_count c = 2"
proof -
  have "from_placements 0 example_tiling = Ok (identity_of 0 (canon example_tiling))"
    using example_tiling_ok by (simp add: from_placements_eq_Ok_iff)
  with colored_identity_valid [OF this] show ?thesis by (auto simp: example_tiling_def)
qed

section \<open>Hashes and solution sets\<close>

definition fnv_chunks :: "u64 \<Rightarrow> u8 list list \<Rightarrow> u64" where
  "fnv_chunks h cs = foldl fnv_write h cs"

text \<open>
  A write reseeds a state that happens to be zero, so splitting a text over several writes is harmless
  when no state between two writes is zero.
\<close>

fun no_zero_state :: "u64 \<Rightarrow> u8 list list \<Rightarrow> bool" where
  "no_zero_state h (c # d # cs) \<longleftrightarrow> fnv_write h c \<noteq> 0 \<and> no_zero_state (fnv_write h c) (d # cs)"
| "no_zero_state h cs \<longleftrightarrow> True"

lemma fnv_write_append: "fnv_write h c \<noteq> 0 \<Longrightarrow> fnv_write (fnv_write h c) d = fnv_write h (c @ d)"
  by (simp add: fnv_write_def)

lemma fnv_chunks_concat:
  "cs \<noteq> [] \<Longrightarrow> no_zero_state h cs \<Longrightarrow> fnv_chunks h cs = fnv_write h (concat cs)"
proof (induction cs arbitrary: h rule: induct_list012)
  case (3 c d cs)
  then have z: "fnv_write h c \<noteq> 0" "no_zero_state (fnv_write h c) (d # cs)" by simp_all
  have "fnv_chunks h (c # d # cs) = fnv_chunks (fnv_write h c) (d # cs)" by (simp add: fnv_chunks_def)
  also have "\<dots> = fnv_write (fnv_write h c) (concat (d # cs))" using 3 z(2) by simp
  finally show ?case using z(1) by (simp add: fnv_write_append)
qed (simp_all add: fnv_chunks_def)

definition placement_chunks :: "bool \<Rightarrow> PiecePlacementMask \<Rightarrow> u8 list list" where
  "placement_chunks first p =
     (if first then [] else [as_bytes '','']) @
     [as_bytes [as_ascii (pm_piece p), CHR '':''], as_bytes (hex16 (pm_mask p))]"

primrec placements_chunks :: "bool \<Rightarrow> PiecePlacementMask list \<Rightarrow> u8 list list" where
  "placements_chunks first [] = []"
| "placements_chunks first (p # pl) = placement_chunks first p @ placements_chunks False pl"

definition tiling_chunks :: "u64 \<Rightarrow> PiecePlacementMask list \<Rightarrow> u8 list list" where
  "tiling_chunks i pl =
     [as_bytes ''ctk1|initial='', as_bytes (hex16 i), as_bytes ''|placements=''] @ placements_chunks True pl"

text \<open>The condition for a list of identities, along the states their hash goes through.\<close>

primrec hash_split_safe :: "u64 \<Rightarrow> StandardBoard64TilingIdentity list \<Rightarrow> bool" where
  "hash_split_safe h [] \<longleftrightarrow> True"
| "hash_split_safe h (a # as) \<longleftrightarrow>
     (case placements a of
        None \<Rightarrow> True
      | Some pl \<Rightarrow> no_zero_state h (tiling_chunks (id_initial a) pl) \<and>
          hash_split_safe (update_canonical_placements h (id_initial a) pl) as)"

lemma as_bytes_append: "as_bytes (s @ t) = as_bytes s @ as_bytes t"
  by (simp add: as_bytes_def)

lemma concat_placements_chunks:
  "concat (placements_chunks first pl) =
     as_bytes ((if first \<or> pl = [] then [] else '','') @ join CHR '','' (map placement_text pl))"
  by (induction pl arbitrary: first)
    (auto simp: placement_chunks_def join_Cons placement_text_def as_bytes_def)

lemma concat_tiling_chunks: "concat (tiling_chunks i pl) = as_bytes (canonical_text i pl)"
  by (simp add: tiling_chunks_def concat_placements_chunks canonical_text_def as_bytes_def)

lemma fnv_chunks_append: "fnv_chunks h (cs @ ds) = fnv_chunks (fnv_chunks h cs) ds"
  by (simp add: fnv_chunks_def)

lemma update_placement_loop_chunks: "update_placement_loop h first pl = fnv_chunks h (placements_chunks first pl)"
  by (induction pl arbitrary: h first)
    (simp_all add: update_canonical_placement_def placement_chunks_def fnv_chunks_def write_hex_u64_def)

lemma update_canonical_placements_chunks:
  "update_canonical_placements h i pl = fnv_write (fnv_chunks h (tiling_chunks i pl)) [0]"
  by (simp add: update_canonical_placements_def end_canonical_identity_def begin_canonical_identity_def
      update_placement_loop_chunks tiling_chunks_def fnv_chunks_append)
    (simp add: fnv_chunks_def write_hex_u64_def)

lemma update_canonical_placements_key:
  assumes "no_zero_state h (tiling_chunks i pl)"
  shows "update_canonical_placements h i pl = update_canonical_key h (canonical_text i pl)"
proof -
  have "tiling_chunks i pl \<noteq> []" by (simp add: tiling_chunks_def)
  from fnv_chunks_concat [OF this assms] show ?thesis
    by (simp add: update_canonical_placements_chunks update_canonical_key_def concat_tiling_chunks)
qed

lemma hash_identities_keys:
  assumes "\<forall>a\<in>set as. \<exists>i pl. length pl \<le> 16 \<and> a = identity_of i pl"
    and "map write_canonical as = map Some keys" "hash_split_safe h as"
  shows "hash_identities h as = Some (foldl update_canonical_key h keys)"
  using assms
proof (induction as arbitrary: h keys)
  case (Cons a as)
  then obtain i pl where a: "a = identity_of i pl" "length pl \<le> 16" by auto
  obtain key ks where keys: "keys = key # ks" using Cons.prems(2) by (cases keys) auto
  have p: "placements a = Some pl" "id_initial a = i"
    using a by (simp_all add: placements_identity_of) (simp add: identity_of_def)
  have "key = canonical_text i pl" using Cons.prems(2) a by (simp add: keys write_canonical_identity_of)
  then have u: "update_canonical_placements h i pl = update_canonical_key h key"
    using Cons.prems(3) p by (simp add: update_canonical_placements_key)
  have "hash_identities (update_canonical_key h key) as = Some (foldl update_canonical_key (update_canonical_key h key) ks)"
    using Cons.prems p u by (intro Cons.IH) (simp_all add: keys)
  then show ?case by (simp add: p u keys)
qed simp

text \<open>
  C28. The streaming hash over sorted identities, which never builds a key, is the hash of the
  canonical strings, as long as no state between two of its writes happens to be zero (the
  hasher would reseed there).
\<close>

theorem streaming_hash_is_key_hash:
  assumes "\<forall>a\<in>set as. \<exists>i pl. from_placements i pl = Ok a"
    and "map write_canonical as = map Some keys" and "hash_split_safe 0 as"
  shows "set_hash_from_sorted_identities as = Some (stable_solution_set_hash keys)"
proof -
  have "\<forall>a\<in>set as. \<exists>i pl. length pl \<le> 16 \<and> a = identity_of i pl"
    using assms(1) tiling_ok_length by (metis from_placements_eq_Ok_iff length_canon)
  from hash_identities_keys [OF this assms(2,3)] show ?thesis
    by (simp add: set_hash_from_sorted_identities_def stable_solution_set_hash_def)
qed

theorem streaming_hash_is_key_hash_witness:
  "set_hash_from_sorted_identities [identity_of 0 []] = Some (stable_solution_set_hash [canonical_text 0 []])"
proof (rule streaming_hash_is_key_hash)
  have "from_placements 0 [] = Ok (identity_of 0 [])"
    by (simp add: from_placements_eq_Ok_iff tiling_ok_def tiling_ok_from_def canon_def)
  then show "\<forall>a\<in>set [identity_of 0 []]. \<exists>i pl. from_placements i pl = Ok a" by auto
  show "map write_canonical [identity_of 0 []] = map Some [canonical_text 0 []]"
    by (simp add: write_canonical_identity_of)
  have "hash_split_safe 0 [identity_of 0 []] \<longleftrightarrow> no_zero_state 0 (tiling_chunks 0 [])"
    by (simp add: placements_identity_of) (simp add: identity_of_def)
  also have "no_zero_state 0 (tiling_chunks 0 [])" by code_simp
  finally show "hash_split_safe 0 [identity_of 0 []]" by simp
qed

lemma strict_remdups_adj: "sorted xs \<Longrightarrow> sorted_wrt (<) (remdups_adj (xs :: 'a::linorder list))"
proof (induction xs rule: remdups_adj.induct)
  case (3 x y xs)
  then show ?case
    by (cases "x = y") (auto simp: order_less_le)
qed simp_all

text \<open>
  C29. A solution set keeps each key once, in strictly increasing order, and depends only on which keys
  were given: order and repetition of the input change neither the keys nor the hash.
\<close>

theorem solution_set_canonical:
  "set (set_keys (solution_set_new keys)) = set keys \<and>
   sorted_wrt (<) (set_keys (solution_set_new keys)) \<and>
   (solution_set_new keys = solution_set_new keys' \<longleftrightarrow> set keys = set keys')"
proof -
  have st: "sorted_wrt (<) (remdups_adj (sort ks))" for ks :: "string list"
    by (rule strict_remdups_adj) simp
  have eq: "remdups_adj (sort keys) = remdups_adj (sort keys')" if "set keys = set keys'"
    using st that by (intro strict_sorted_equal) simp_all
  have keys: "set (set_keys (solution_set_new ks)) = set ks" for ks by (simp add: solution_set_new_def Let_def)
  have "solution_set_new keys = solution_set_new keys' \<longleftrightarrow> set keys = set keys'"
  proof
    assume "solution_set_new keys = solution_set_new keys'"
    then show "set keys = set keys'" using keys by metis
  qed (simp add: solution_set_new_def eq)
  then show ?thesis using keys st by (simp add: solution_set_new_def Let_def)
qed

end
