(* ===== verification/ExactCovers.thy ===== *)
theory ExactCovers
  imports Prelude "HOL-Library.Sublist"
begin

text \<open>
  The exact-cover problem and its two solvers (\<open>clearra-exact-cover/src/model\<close> and \<open>solver\<close>).  The
  covered columns are the boolean vector of the source; \<open>choose\<close> and \<open>unchoose\<close> mark and unmark the
  columns of a candidate.  The recursive \<open>search\<close> takes a fuel argument and is \<open>None\<close> when it runs
  out; one more than the number of columns is always enough, because every choice covers a column.
  The main results: the search enumerates every exact cover exactly once unless it reports a
  truncation, it always returns, and the simple solver agrees with it when no column is optional.
\<close>

section \<open>Problems\<close>

record ExactCoverCandidate =
  cand_id :: nat
  cand_columns :: "nat list"

record ExactCoverProblem =
  required_column_count :: nat
  optional_column_count :: nat
  candidates :: "ExactCoverCandidate list"

type_synonym ExactCoverSolution = "nat list"

definition problem_new :: "nat \<Rightarrow> ExactCoverCandidate list \<Rightarrow> ExactCoverProblem" where
  "problem_new n cs = \<lparr>required_column_count = n, optional_column_count = 0, candidates = cs\<rparr>"

definition with_optional_columns :: "nat \<Rightarrow> nat \<Rightarrow> ExactCoverCandidate list \<Rightarrow> ExactCoverProblem" where
  "with_optional_columns r k cs =
     \<lparr>required_column_count = r, optional_column_count = k, candidates = cs\<rparr>"

text \<open>
  The source adds in \<open>usize\<close>; counts that add up to more than that are outside the model.  Both solvers
  allocate a vector with one entry per column.
\<close>

definition column_count :: "ExactCoverProblem \<Rightarrow> nat" where
  "column_count p = required_column_count p + optional_column_count p"

definition has_optional_columns :: "ExactCoverProblem \<Rightarrow> bool" where
  "has_optional_columns p \<longleftrightarrow> optional_column_count p > 0"

section \<open>The row index\<close>

datatype DlxSolverError =
    ZeroMaxSolutions
  | ZeroMaxNodes
  | EmptyCandidate nat
  | CandidateColumnOutOfRange nat nat nat
  | DuplicateColumnInCandidate nat nat

fun first_adjacent_duplicate :: "nat list \<Rightarrow> nat option" where
  "first_adjacent_duplicate (a # b # xs) = (if a = b then Some a else first_adjacent_duplicate (b # xs))"
| "first_adjacent_duplicate xs = None"

primrec index_columns ::
  "ExactCoverProblem \<Rightarrow> nat \<Rightarrow> nat \<Rightarrow> nat list \<Rightarrow> nat list list \<Rightarrow> DlxSolverError + nat list list" where
  "index_columns p i cid [] rows = Ok rows"
| "index_columns p i cid (c # cs) rows =
     (if c \<ge> column_count p then Err (CandidateColumnOutOfRange cid c (column_count p))
      else index_columns p i cid cs (rows[c := rows ! c @ [i]]))"

primrec index_candidates ::
  "ExactCoverProblem \<Rightarrow> nat \<Rightarrow> ExactCoverCandidate list \<Rightarrow> nat list list \<Rightarrow> DlxSolverError + nat list list"
  where
  "index_candidates p i [] rows = Ok rows"
| "index_candidates p i (cand # cands) rows =
     (if cand_columns cand = [] then Err (EmptyCandidate (cand_id cand))
      else case first_adjacent_duplicate (sort (cand_columns cand)) of
          Some c \<Rightarrow> Err (DuplicateColumnInCandidate (cand_id cand) c)
        | None \<Rightarrow>
            and_then (index_columns p i (cand_id cand) (cand_columns cand) rows) (\<lambda>rows.
              index_candidates p (i + 1) cands rows))"

definition build_rows_by_column :: "ExactCoverProblem \<Rightarrow> DlxSolverError + nat list list" where
  "build_rows_by_column p = index_candidates p 0 (candidates p) (replicate (column_count p) [])"

section \<open>The search\<close>

datatype DlxTruncatedReason = MaxSolutions | MaxNodes

record DlxSearchLimits =
  max_solutions :: nat
  max_nodes :: nat

record DlxSolveReport =
  report_solutions :: "ExactCoverSolution list"
  report_searched_nodes :: nat
  dlx_complete :: bool
  report_truncated_reason :: "DlxTruncatedReason option"

text \<open>The mutable fields of \<open>DlxSearch\<close>; the problem, the rows and the limits are parameters.\<close>

record DlxSearch =
  covered :: "bool list"
  chosen_candidate_ids :: "nat list"
  solutions :: "ExactCoverSolution list"
  searched_nodes :: nat
  truncated_reason :: "DlxTruncatedReason option"

definition mark :: "bool \<Rightarrow> bool list \<Rightarrow> nat list \<Rightarrow> bool list" where
  "mark b cov cs = foldl (\<lambda>cov c. cov[c := b]) cov cs"

definition dlx_can_choose :: "DlxSearch \<Rightarrow> ExactCoverCandidate \<Rightarrow> bool" where
  "dlx_can_choose st cand \<longleftrightarrow> list_all (\<lambda>c. \<not> covered st ! c) (cand_columns cand)"

definition dlx_choose :: "DlxSearch \<Rightarrow> ExactCoverCandidate \<Rightarrow> DlxSearch" where
  "dlx_choose st cand =
     st\<lparr>covered := mark True (covered st) (cand_columns cand),
        chosen_candidate_ids := chosen_candidate_ids st @ [cand_id cand]\<rparr>"

definition dlx_unchoose :: "DlxSearch \<Rightarrow> ExactCoverCandidate \<Rightarrow> DlxSearch" where
  "dlx_unchoose st cand =
     st\<lparr>chosen_candidate_ids := butlast (chosen_candidate_ids st),
        covered := mark False (covered st) (cand_columns cand)\<rparr>"

definition better_column :: "nat \<Rightarrow> nat \<Rightarrow> (nat \<times> nat) option \<Rightarrow> (nat \<times> nat) option" where
  "better_column c n best =
     (case best of
        None \<Rightarrow> Some (c, n)
      | Some (_, best_count) \<Rightarrow> if n < best_count then Some (c, n) else best)"

primrec fewest_rows ::
  "ExactCoverProblem \<Rightarrow> nat list list \<Rightarrow> DlxSearch \<Rightarrow> nat list \<Rightarrow> (nat \<times> nat) option \<Rightarrow> nat option" where
  "fewest_rows p rows st [] best = map_option fst best"
| "fewest_rows p rows st (c # cs) best =
     (if covered st ! c then fewest_rows p rows st cs best
      else
        let n = length (filter (\<lambda>i. dlx_can_choose st (candidates p ! i)) (rows ! c)) in
        if n = 0 then None
        else fewest_rows p rows st cs (better_column c n best))"

definition choose_uncovered_column_with_fewest_rows ::
  "ExactCoverProblem \<Rightarrow> nat list list \<Rightarrow> DlxSearch \<Rightarrow> nat option" where
  "choose_uncovered_column_with_fewest_rows p rows st =
     fewest_rows p rows st [0..<required_column_count p] None"

definition all_required_covered :: "ExactCoverProblem \<Rightarrow> DlxSearch \<Rightarrow> bool" where
  "all_required_covered p st \<longleftrightarrow> list_all (\<lambda>b. b) (take (required_column_count p) (covered st))"

definition record_solution :: "DlxSearchLimits \<Rightarrow> DlxSearch \<Rightarrow> DlxSearch" where
  "record_solution lim st =
     (let sols = solutions st @ [chosen_candidate_ids st] in
      st\<lparr>solutions := sols,
         truncated_reason := (if length sols \<ge> max_solutions lim then Some MaxSolutions
                              else truncated_reason st)\<rparr>)"

fun search ::
  "nat \<Rightarrow> ExactCoverProblem \<Rightarrow> nat list list \<Rightarrow> DlxSearchLimits \<Rightarrow> DlxSearch \<Rightarrow> DlxSearch option"
and try_rows ::
  "nat \<Rightarrow> ExactCoverProblem \<Rightarrow> nat list list \<Rightarrow> DlxSearchLimits \<Rightarrow> nat list \<Rightarrow> DlxSearch \<Rightarrow> DlxSearch option"
  where
  "search 0 p rows lim st = None"
| "search (Suc fuel) p rows lim st =
     (if truncated_reason st \<noteq> None then Some st
      else if searched_nodes st \<ge> max_nodes lim then Some (st\<lparr>truncated_reason := Some MaxNodes\<rparr>)
      else
        let st = st\<lparr>searched_nodes := searched_nodes st + 1\<rparr> in
        if all_required_covered p st then Some (record_solution lim st)
        else case choose_uncovered_column_with_fewest_rows p rows st of
            None \<Rightarrow> Some st
          | Some c \<Rightarrow> try_rows fuel p rows lim (rows ! c) st)"
| "try_rows fuel p rows lim [] st = Some st"
| "try_rows fuel p rows lim (i # is) st =
     (if truncated_reason st \<noteq> None then Some st
      else if \<not> dlx_can_choose st (candidates p ! i) then try_rows fuel p rows lim is st
      else case search fuel p rows lim (dlx_choose st (candidates p ! i)) of
          None \<Rightarrow> None
        | Some st' \<Rightarrow> try_rows fuel p rows lim is (dlx_unchoose st' (candidates p ! i)))"

definition dlx_search_new :: "ExactCoverProblem \<Rightarrow> DlxSearch" where
  "dlx_search_new p =
     \<lparr>covered = replicate (column_count p) False, chosen_candidate_ids = [], solutions = [],
      searched_nodes = 0, truncated_reason = None\<rparr>"

definition dlx_finish :: "DlxSearch \<Rightarrow> DlxSolveReport" where
  "dlx_finish st =
     \<lparr>report_solutions = solutions st, report_searched_nodes = searched_nodes st,
      dlx_complete = (truncated_reason st = None), report_truncated_reason = truncated_reason st\<rparr>"

definition dlx_run :: "ExactCoverProblem \<Rightarrow> nat list list \<Rightarrow> DlxSearchLimits \<Rightarrow> DlxSolveReport option" where
  "dlx_run p rows lim =
     map_option dlx_finish (search (column_count p + 1) p rows lim (dlx_search_new p))"

text \<open>The outer \<open>option\<close> is the fuel; it never runs out.\<close>

definition solve_all_limited ::
  "ExactCoverProblem \<Rightarrow> DlxSearchLimits \<Rightarrow> DlxSolverError + DlxSolveReport option" where
  "solve_all_limited p lim =
     (if max_solutions lim = 0 then Err ZeroMaxSolutions
      else if max_nodes lim = 0 then Err ZeroMaxNodes
      else and_then (build_rows_by_column p) (\<lambda>rows. Ok (dlx_run p rows lim)))"

definition dlx_solve_first :: "ExactCoverProblem \<Rightarrow> DlxSolverError + ExactCoverSolution option option" where
  "dlx_solve_first p =
     and_then (solve_all_limited p \<lparr>max_solutions = 1, max_nodes = USIZE_MAX\<rparr>) (\<lambda>r.
       Ok (map_option (\<lambda>report. case report_solutions report of [] \<Rightarrow> None | s # _ \<Rightarrow> Some s) r))"

section \<open>The bitset solver\<close>

record bitset_state =
  bs_covered :: "bool list"
  bs_chosen :: "nat list"

definition bs_conflicts :: "bitset_state \<Rightarrow> ExactCoverCandidate \<Rightarrow> bool" where
  "bs_conflicts st cand \<longleftrightarrow>
     list_ex (\<lambda>c. c \<ge> length (bs_covered st) \<or> bs_covered st ! c) (cand_columns cand)"

definition bs_choose :: "bitset_state \<Rightarrow> ExactCoverCandidate \<Rightarrow> bitset_state" where
  "bs_choose st cand =
     \<lparr>bs_covered = mark True (bs_covered st) (cand_columns cand), bs_chosen = bs_chosen st @ [cand_id cand]\<rparr>"

definition bs_unchoose :: "bitset_state \<Rightarrow> ExactCoverCandidate \<Rightarrow> bitset_state" where
  "bs_unchoose st cand =
     \<lparr>bs_covered = mark False (bs_covered st) (cand_columns cand), bs_chosen = butlast (bs_chosen st)\<rparr>"

text \<open>
  The argument list is the suffix of the candidates from \<open>start\<close>; \<open>solve_from\<close> is the loop of one call
  and \<open>solve_at\<close> the call itself, with the state threaded through.
\<close>

fun solve_at :: "ExactCoverCandidate list \<Rightarrow> bitset_state \<Rightarrow> ExactCoverSolution option \<times> bitset_state"
and solve_from :: "ExactCoverCandidate list \<Rightarrow> bitset_state \<Rightarrow> ExactCoverSolution option \<times> bitset_state" where
  "solve_at cands st =
     (if list_all (\<lambda>b. b) (bs_covered st) then (Some (bs_chosen st), st) else solve_from cands st)"
| "solve_from [] st = (None, st)"
| "solve_from (cand # cands) st =
     (if bs_conflicts st cand then solve_from cands st
      else case solve_at cands (bs_choose st cand) of
          (Some s, st') \<Rightarrow> (Some s, st')
        | (None, st') \<Rightarrow> solve_from cands (bs_unchoose st' cand))"

definition bitset_solve_first :: "ExactCoverProblem \<Rightarrow> ExactCoverSolution option" where
  "bitset_solve_first p =
     fst (solve_at (candidates p) \<lparr>bs_covered = replicate (column_count p) False, bs_chosen = []\<rparr>)"

section \<open>Marking columns\<close>

lemma length_mark [simp]: "length (mark b cov cs) = length cov"
  unfolding mark_def by (induction cs arbitrary: cov) simp_all

lemma mark_nth: "k < length cov \<Longrightarrow> mark b cov cs ! k = (if k \<in> set cs then b else cov ! k)"
proof (induction cs arbitrary: cov)
  case (Cons c cs)
  have "mark b cov (c # cs) = mark b (cov[c := b]) cs" by (simp add: mark_def)
  then show ?case using Cons by (auto simp: nth_list_update)
qed (simp add: mark_def)

definition cover_set :: "bool list \<Rightarrow> nat set" where
  "cover_set cov = {c. c < length cov \<and> cov ! c}"

lemma cover_set_mark:
  "\<forall>c\<in>set cs. c < length cov \<Longrightarrow> cover_set (mark True cov cs) = cover_set cov \<union> set cs"
  by (auto simp: cover_set_def mark_nth)

lemma mark_undo:
  assumes "\<forall>c\<in>set cs. c < length cov \<and> \<not> cov ! c"
  shows "mark False (mark True cov cs) cs = cov"
  by (rule nth_equalityI) (use assms in \<open>auto simp: mark_nth\<close>)

text \<open>
  Both solvers keep the covered columns and the chosen identifiers in a state of their own; what they
  rely on is that undoing a choice restores both.
\<close>

locale cover_store =
  fixes cov :: "'s \<Rightarrow> bool list"
    and ids :: "'s \<Rightarrow> nat list"
    and choosable :: "'s \<Rightarrow> ExactCoverCandidate \<Rightarrow> bool"
    and pick :: "'s \<Rightarrow> ExactCoverCandidate \<Rightarrow> 's"
    and unpick :: "'s \<Rightarrow> ExactCoverCandidate \<Rightarrow> 's"
  assumes choosable_iff: "\<forall>c\<in>set (cand_columns x). c < length (cov st) \<Longrightarrow>
      choosable st x \<longleftrightarrow> (\<forall>c\<in>set (cand_columns x). \<not> cov st ! c)"
    and cov_choose: "cov (pick st x) = mark True (cov st) (cand_columns x)"
    and ids_choose: "ids (pick st x) = ids st @ [cand_id x]"
    and cov_unchoose: "cov (unpick st x) = mark False (cov st) (cand_columns x)"
    and ids_unchoose: "ids (unpick st x) = butlast (ids st)"
begin

lemma length_choose: "length (cov (pick st x)) = length (cov st)"
  by (simp add: cov_choose)

lemma choosable_disjoint:
  assumes "\<forall>c\<in>set (cand_columns x). c < length (cov st)"
  shows "choosable st x \<longleftrightarrow> set (cand_columns x) \<inter> cover_set (cov st) = {}"
  using assms by (auto simp: choosable_iff cover_set_def)

lemma cover_set_choose:
  assumes "\<forall>c\<in>set (cand_columns x). c < length (cov st)"
  shows "cover_set (cov (pick st x)) = cover_set (cov st) \<union> set (cand_columns x)"
  using assms by (simp add: cov_choose cover_set_mark)

lemma undo:
  assumes "\<forall>c\<in>set (cand_columns x). c < length (cov st)" "choosable st x"
    and "cov st' = cov (pick st x)" "ids st' = ids (pick st x)"
  shows "cov (unpick st' x) = cov st" "ids (unpick st' x) = ids st"
  using assms by (simp_all add: cov_unchoose cov_choose ids_unchoose ids_choose mark_undo choosable_iff)

lemma uncovered_decreases:
  assumes "\<forall>c\<in>set (cand_columns x). c < length (cov st)" "choosable st x" "cand_columns x \<noteq> []"
  shows "card ({..<length (cov st)} - cover_set (cov (pick st x))) <
    card ({..<length (cov st)} - cover_set (cov st))"
proof (rule psubset_card_mono)
  obtain c where c: "c \<in> set (cand_columns x)" using assms(3) by (cases "cand_columns x") auto
  then have "c \<in> {..<length (cov st)} - cover_set (cov st)"
    using assms(1) choosable_disjoint [OF assms(1)] assms(2) by auto
  then show "{..<length (cov st)} - cover_set (cov (pick st x)) \<subset> {..<length (cov st)} - cover_set (cov st)"
    unfolding cover_set_choose [OF assms(1)] using c by auto
qed simp

end

interpretation dlx: cover_store covered chosen_candidate_ids dlx_can_choose dlx_choose dlx_unchoose
  by unfold_locales
    (auto simp: dlx_can_choose_def dlx_choose_def dlx_unchoose_def list_all_iff)

interpretation bits: cover_store bs_covered bs_chosen "\<lambda>st x. \<not> bs_conflicts st x" bs_choose bs_unchoose
  by unfold_locales
    (auto simp: bs_conflicts_def bs_choose_def bs_unchoose_def list_ex_iff)

section \<open>The row index is complete\<close>

abbreviation cols :: "ExactCoverProblem \<Rightarrow> nat \<Rightarrow> nat set" where
  "cols p i \<equiv> set (cand_columns (candidates p ! i))"

definition valid_candidate :: "nat \<Rightarrow> ExactCoverCandidate \<Rightarrow> bool" where
  "valid_candidate n x \<longleftrightarrow> cand_columns x \<noteq> [] \<and> distinct (cand_columns x) \<and> (\<forall>c\<in>set (cand_columns x). c < n)"

definition valid_problem :: "ExactCoverProblem \<Rightarrow> bool" where
  "valid_problem p \<longleftrightarrow> list_all (valid_candidate (column_count p)) (candidates p)"

definition rows_ok :: "ExactCoverProblem \<Rightarrow> nat list list \<Rightarrow> bool" where
  "rows_ok p rows \<longleftrightarrow>
     length rows = column_count p \<and>
     (\<forall>c<column_count p. rows ! c = filter (\<lambda>i. c \<in> cols p i) [0..<length (candidates p)])"

lemma first_adjacent_duplicate_None_iff: "sorted xs \<Longrightarrow> first_adjacent_duplicate xs = None \<longleftrightarrow> distinct xs"
proof (induction xs rule: first_adjacent_duplicate.induct)
  case (1 a b xs)
  then show ?case by (cases "a = b") auto
qed auto

lemma index_columns_eq_Ok:
  assumes "length rows = column_count p" "distinct cs"
  shows "index_columns p i cid cs rows = Ok rows' \<longleftrightarrow>
    (\<forall>c\<in>set cs. c < column_count p) \<and> length rows' = column_count p \<and>
    (\<forall>c<column_count p. rows' ! c = rows ! c @ (if c \<in> set cs then [i] else []))"
  using assms
proof (induction cs arbitrary: rows)
  case Nil
  then show ?case by (auto intro: nth_equalityI)
next
  case (Cons c cs)
  then show ?case by (auto simp: nth_list_update)
qed

lemma index_candidates_eq_Ok:
  assumes "length rows = column_count p"
  shows "index_candidates p i cands rows = Ok rows' \<longleftrightarrow>
    list_all (valid_candidate (column_count p)) cands \<and> length rows' = column_count p \<and>
    (\<forall>c<column_count p. rows' ! c =
       rows ! c @ map (\<lambda>k. i + k) (filter (\<lambda>k. c \<in> set (cand_columns (cands ! k))) [0..<length cands]))"
  using assms
proof (induction cands arbitrary: i rows)
  case Nil
  then show ?case by (auto intro: nth_equalityI)
next
  case (Cons x cands)
  let ?n = "column_count p"
  have shift: "map (\<lambda>k. i + k) (filter (\<lambda>k. c \<in> set (cand_columns ((x # cands) ! k))) [0..<length (x # cands)]) =
      (if c \<in> set (cand_columns x) then [i] else []) @
      map (\<lambda>k. i + 1 + k) (filter (\<lambda>k. c \<in> set (cand_columns (cands ! k))) [0..<length cands])" for c
  proof -
    have "[0..<length (x # cands)] = 0 # map Suc [0..<length cands]" by (simp only: length_Cons upt_conv_Cons [OF zero_less_Suc] map_Suc_upt)
    then show ?thesis by (simp add: filter_map comp_def del: upt.simps)
  qed
  have dup: "first_adjacent_duplicate (sort (cand_columns x)) = None \<longleftrightarrow> distinct (cand_columns x)"
    by (simp add: first_adjacent_duplicate_None_iff)
  show ?case
  proof (cases "valid_candidate ?n x")
    case True
    then obtain rows1 where r: "index_columns p i (cand_id x) (cand_columns x) rows = Ok rows1"
      using index_columns_eq_Ok [OF Cons.prems, of "cand_columns x" i "cand_id x"
          "map (\<lambda>c. rows ! c @ (if c \<in> set (cand_columns x) then [i] else [])) [0..<?n]"]
      by (auto simp: valid_candidate_def)
    then have r1: "length rows1 = ?n" "\<forall>c<?n. rows1 ! c = rows ! c @ (if c \<in> set (cand_columns x) then [i] else [])"
      using index_columns_eq_Ok [OF Cons.prems] True by (auto simp: valid_candidate_def)
    have "index_candidates p i (x # cands) rows = index_candidates p (i + 1) cands rows1"
      using True r dup by (simp add: valid_candidate_def)
    moreover have "(\<forall>c<?n. rows' ! c = rows1 ! c @
          map (\<lambda>k. i + 1 + k) (filter (\<lambda>k. c \<in> set (cand_columns (cands ! k))) [0..<length cands])) \<longleftrightarrow>
        (\<forall>c<?n. rows' ! c = rows ! c @ (if c \<in> set (cand_columns x) then [i] else []) @
          map (\<lambda>k. i + 1 + k) (filter (\<lambda>k. c \<in> set (cand_columns (cands ! k))) [0..<length cands]))"
      by (rule all_cong) (simp only: r1(2) append_assoc)
    ultimately show ?thesis
      unfolding shift using Cons.IH [OF r1(1), of "i + 1"] True by (simp only: list.pred_inject simp_thms)
  next
    case False
    have "index_candidates p i (x # cands) rows \<noteq> Ok rows'"
    proof
      assume "index_candidates p i (x # cands) rows = Ok rows'"
      then obtain rows1 where "cand_columns x \<noteq> []" "distinct (cand_columns x)"
        "index_columns p i (cand_id x) (cand_columns x) rows = Ok rows1"
        using dup by (auto simp: and_then_eq_Ok_iff split: if_splits option.splits)
      then show False using False index_columns_eq_Ok [OF Cons.prems] by (auto simp: valid_candidate_def)
    qed
    then show ?thesis using False by simp
  qed
qed

lemma build_rows_by_column_eq_Ok: "build_rows_by_column p = Ok rows \<longleftrightarrow> valid_problem p \<and> rows_ok p rows"
proof -
  have "(+) (0 :: nat) = id" by (simp add: fun_eq_iff)
  then show ?thesis
    unfolding build_rows_by_column_def valid_problem_def rows_ok_def
    by (subst index_candidates_eq_Ok) auto
qed

lemma valid_problem_ok: "valid_problem p \<Longrightarrow> \<exists>rows. build_rows_by_column p = Ok rows"
  by (intro exI [of _ "map (\<lambda>c. filter (\<lambda>i. c \<in> cols p i) [0..<length (candidates p)]) [0..<column_count p]"])
    (simp add: build_rows_by_column_eq_Ok rows_ok_def)

section \<open>Exact covers\<close>

text \<open>
  An exact cover of what is left above \<open>C\<close>: disjoint candidates that avoid \<open>C\<close>, cover every required
  column outside \<open>C\<close>, and each serve a required column (the search never picks a candidate for an
  optional column).
\<close>

definition exact_cover :: "ExactCoverProblem \<Rightarrow> nat set \<Rightarrow> nat set \<Rightarrow> bool" where
  "exact_cover p C S \<longleftrightarrow>
     S \<subseteq> {..<length (candidates p)} \<and>
     (\<forall>i\<in>S. cols p i \<inter> C = {} \<and> cols p i \<inter> {..<required_column_count p} \<noteq> {}) \<and>
     (\<forall>i\<in>S. \<forall>j\<in>S. i \<noteq> j \<longrightarrow> cols p i \<inter> cols p j = {}) \<and>
     {..<required_column_count p} \<subseteq> C \<union> (\<Union>i\<in>S. cols p i)"

lemma exact_cover_done:
  assumes "{..<required_column_count p} \<subseteq> C"
  shows "exact_cover p C S \<longleftrightarrow> S = {}"
proof
  assume ec: "exact_cover p C S"
  have "i \<notin> S" for i
  proof
    assume "i \<in> S"
    then have "cols p i \<inter> C = {}" "cols p i \<inter> {..<required_column_count p} \<noteq> {}"
      using ec by (simp_all add: exact_cover_def)
    then show False using assms by blast
  qed
  then show "S = {}" by blast
qed (use assms in \<open>simp add: exact_cover_def\<close>)

lemma exact_cover_insert:
  assumes i: "i < length (candidates p)" "cols p i \<inter> C = {}" "c \<in> cols p i" "c < required_column_count p" "i \<notin> S"
  shows "exact_cover p C (insert i S) \<longleftrightarrow> exact_cover p (C \<union> cols p i) S"
proof -
  let ?R = "{..<required_column_count p}" and ?N = "{..<length (candidates p)}"
  have r: "cols p i \<inter> ?R \<noteq> {}" using i(3,4) by blast
  have range: "insert i S \<subseteq> ?N \<longleftrightarrow> S \<subseteq> ?N" using i(1) by simp
  have serve: "(\<forall>k\<in>insert i S. cols p k \<inter> C = {} \<and> cols p k \<inter> ?R \<noteq> {}) \<longleftrightarrow>
      (\<forall>k\<in>S. cols p k \<inter> C = {} \<and> cols p k \<inter> ?R \<noteq> {})"
    using i(2) r by (simp only: ball_simps simp_thms)
  have pair: "(\<forall>k\<in>insert i S. \<forall>j\<in>insert i S. k \<noteq> j \<longrightarrow> cols p k \<inter> cols p j = {}) \<longleftrightarrow>
      (\<forall>k\<in>S. cols p k \<inter> cols p i = {}) \<and> (\<forall>k\<in>S. \<forall>j\<in>S. k \<noteq> j \<longrightarrow> cols p k \<inter> cols p j = {})"
  proof -
    define D where "D k j \<longleftrightarrow> cols p k \<inter> cols p j = {}" for k j
    have sym: "D k j \<longleftrightarrow> D j k" for k j unfolding D_def by (simp only: Int_commute)
    have "(\<forall>k\<in>insert i S. \<forall>j\<in>insert i S. k \<noteq> j \<longrightarrow> D k j) \<longleftrightarrow>
        (\<forall>k\<in>S. D k i) \<and> (\<forall>k\<in>S. \<forall>j\<in>S. k \<noteq> j \<longrightarrow> D k j)"
      using i(5) sym by (metis insert_iff)
    then show ?thesis unfolding D_def .
  qed
  have avoid: "(\<forall>k\<in>S. cols p k \<inter> (C \<union> cols p i) = {} \<and> cols p k \<inter> ?R \<noteq> {}) \<longleftrightarrow>
      (\<forall>k\<in>S. cols p k \<inter> C = {} \<and> cols p k \<inter> ?R \<noteq> {}) \<and> (\<forall>k\<in>S. cols p k \<inter> cols p i = {})"
    by (simp only: Int_Un_distrib Un_empty) blast
  have all: "C \<union> (\<Union>k\<in>insert i S. cols p k) = C \<union> cols p i \<union> (\<Union>k\<in>S. cols p k)" by (simp only: UN_insert Un_assoc)
  show ?thesis unfolding exact_cover_def range serve pair avoid all by (simp only: conj_ac)
qed

lemma exact_cover_chooses:
  assumes "exact_cover p C S" "c < required_column_count p" "c \<notin> C"
  obtains i where "i \<in> S" "c \<in> cols p i" "i < length (candidates p)" "cols p i \<inter> C = {}"
    "exact_cover p (C \<union> cols p i) (S - {i})"
proof -
  obtain i where i: "i \<in> S" "c \<in> cols p i" using assms by (auto simp: exact_cover_def)
  then have ii: "i < length (candidates p)" "cols p i \<inter> C = {}" using assms(1) by (auto simp: exact_cover_def)
  have "insert i (S - {i}) = S" using i(1) by auto
  then have "exact_cover p (C \<union> cols p i) (S - {i})"
    using exact_cover_insert [OF ii i(2) assms(2), of "S - {i}"] assms(1) by simp
  then show thesis using that i ii by blast
qed

section \<open>The reference enumeration\<close>

definition blank :: "bool list \<Rightarrow> DlxSearch" where
  "blank cov = \<lparr>covered = cov, chosen_candidate_ids = [], solutions = [], searched_nodes = 0, truncated_reason = None\<rparr>"

text \<open>The same search without limits, as the list of the index lists it would report.\<close>

fun dlx_enum :: "nat \<Rightarrow> ExactCoverProblem \<Rightarrow> nat list list \<Rightarrow> bool list \<Rightarrow> nat list list" where
  "dlx_enum 0 p rows cov = []"
| "dlx_enum (Suc fuel) p rows cov =
     (if all_required_covered p (blank cov) then [[]]
      else case choose_uncovered_column_with_fewest_rows p rows (blank cov) of
          None \<Rightarrow> []
        | Some c \<Rightarrow>
            concat (map (\<lambda>i. map ((#) i) (dlx_enum fuel p rows (mark True cov (cand_columns (candidates p ! i)))))
              (filter (\<lambda>i. dlx_can_choose (blank cov) (candidates p ! i)) (rows ! c))))"

lemma dlx_can_choose_blank: "dlx_can_choose (blank (covered st)) x = dlx_can_choose st x"
  by (simp add: dlx_can_choose_def blank_def)

lemma choose_column_blank:
  "choose_uncovered_column_with_fewest_rows p rows (blank (covered st)) =
   choose_uncovered_column_with_fewest_rows p rows st"
proof -
  have "fewest_rows p rows (blank (covered st)) cs best = fewest_rows p rows st cs best" for cs best
  proof (induction cs arbitrary: best)
    case (Cons c cs)
    have "covered (blank (covered st)) = covered st" by (simp add: blank_def)
    then show ?case by (simp only: fewest_rows.simps dlx_can_choose_blank Cons.IH)
  qed simp
  then show ?thesis by (simp add: choose_uncovered_column_with_fewest_rows_def)
qed

lemma better_column_cases: "better_column c n best = Some (c, n) \<or> (better_column c n best = best \<and> best \<noteq> None)"
  by (auto simp: better_column_def split: option.splits)

lemma fewest_rows_Some:
  "fewest_rows p rows st cs best = Some c \<Longrightarrow>
     (c \<in> set cs \<and> \<not> covered st ! c) \<or> (\<exists>n. best = Some (c, n))"
proof (induction cs arbitrary: best)
  case (Cons x cs)
  let ?n = "length (filter (\<lambda>i. dlx_can_choose st (candidates p ! i)) (rows ! x))"
  show ?case
  proof (cases "covered st ! x")
    case True
    then show ?thesis using Cons.IH [of best] Cons.prems by auto
  next
    case False
    then have "fewest_rows p rows st cs (better_column x ?n best) = Some c"
      using Cons.prems by (simp add: Let_def split: if_splits)
    from Cons.IH [OF this] show ?thesis
      using False better_column_cases [of x ?n best] by auto
  qed
qed auto

lemma fewest_rows_None:
  "fewest_rows p rows st cs best = None \<Longrightarrow>
     (best = None \<and> (\<forall>c\<in>set cs. covered st ! c)) \<or>
     (\<exists>c\<in>set cs. \<not> covered st ! c \<and> filter (\<lambda>i. dlx_can_choose st (candidates p ! i)) (rows ! c) = [])"
proof (induction cs arbitrary: best)
  case (Cons x cs)
  let ?n = "length (filter (\<lambda>i. dlx_can_choose st (candidates p ! i)) (rows ! x))"
  show ?case
  proof (cases "covered st ! x")
    case True
    then show ?thesis using Cons.IH [of best] Cons.prems by auto
  next
    case unc: False
    show ?thesis
    proof (cases "?n = 0")
      case True
      then show ?thesis using unc by auto
    next
      case False
      then have "fewest_rows p rows st cs (better_column x ?n best) = None"
        using Cons.prems unc by (simp add: Let_def)
      from Cons.IH [OF this] show ?thesis
        using better_column_cases [of x ?n best] by auto
    qed
  qed
qed auto

lemma required_covered_iff:
  assumes "length cov = column_count p"
  shows "all_required_covered p (blank cov) \<longleftrightarrow> {..<required_column_count p} \<subseteq> cover_set cov"
proof -
  have "required_column_count p \<le> length cov" using assms by (simp add: column_count_def)
  then have "list_all (\<lambda>b. b) (take (required_column_count p) cov) \<longleftrightarrow>
      (\<forall>c<required_column_count p. cov ! c)"
    by (simp add: list_all_length)
  also have "\<dots> \<longleftrightarrow> {..<required_column_count p} \<subseteq> cover_set cov"
    using \<open>required_column_count p \<le> length cov\<close> by (auto simp: cover_set_def)
  finally show ?thesis by (simp add: all_required_covered_def blank_def)
qed

lemma valid_cols:
  assumes "valid_problem p" "i < length (candidates p)"
  shows "\<forall>c\<in>cols p i. c < column_count p" "cand_columns (candidates p ! i) \<noteq> []"
  using assms by (simp_all add: valid_problem_def valid_candidate_def list_all_length)

lemma distinct_map_concat:
  assumes "distinct xs" "\<And>x. x \<in> set xs \<Longrightarrow> distinct (map f (g x))"
    and "\<And>x y. x \<in> set xs \<Longrightarrow> y \<in> set xs \<Longrightarrow> x \<noteq> y \<Longrightarrow> f ` set (g x) \<inter> f ` set (g y) = {}"
  shows "distinct (map f (concat (map g xs)))"
  using assms
proof (induction xs)
  case (Cons x xs)
  have "f ` set (g x) \<inter> (\<Union>y\<in>set xs. f ` set (g y)) = {}"
    using Cons.prems(1) Cons.prems(3) [of x] by fastforce
  moreover have "distinct (map f (concat (map g xs)))"
    using Cons.prems by (intro Cons.IH) auto
  moreover have "distinct (map f (g x))" using Cons.prems(2) by simp
  ultimately show ?case by (auto simp: image_UN)
qed simp

text \<open>The candidates the search tries for a column, and the covers that use one of them.\<close>

lemma tried_rows:
  assumes "valid_problem p" "rows_ok p rows" "length cov = column_count p" "c < column_count p"
  shows "i \<in> set (filter (\<lambda>i. dlx_can_choose (blank cov) (candidates p ! i)) (rows ! c)) \<longleftrightarrow>
    i < length (candidates p) \<and> c \<in> cols p i \<and> cols p i \<inter> cover_set cov = {}"
    and "distinct (rows ! c)"
proof -
  have row: "rows ! c = filter (\<lambda>i. c \<in> cols p i) [0..<length (candidates p)]"
    using assms(2,4) by (simp add: rows_ok_def)
  have "dlx_can_choose (blank cov) (candidates p ! i) \<longleftrightarrow> cols p i \<inter> cover_set cov = {}"
    if "i < length (candidates p)"
    using dlx.choosable_disjoint [of "candidates p ! i" "blank cov"] valid_cols(1) [OF assms(1) that] assms(3)
    by (simp add: blank_def)
  then show "i \<in> set (filter (\<lambda>i. dlx_can_choose (blank cov) (candidates p ! i)) (rows ! c)) \<longleftrightarrow>
    i < length (candidates p) \<and> c \<in> cols p i \<and> cols p i \<inter> cover_set cov = {}"
    by (auto simp: row)
  show "distinct (rows ! c)" by (simp add: row)
qed

lemma covers_by_column:
  assumes "c < required_column_count p" "c \<notin> C"
  shows "{S. exact_cover p C S} =
    (\<Union>i\<in>{i. i < length (candidates p) \<and> c \<in> cols p i \<and> cols p i \<inter> C = {}}.
       insert i ` {S. exact_cover p (C \<union> cols p i) S})"
proof (rule set_eqI, rule iffI)
  fix S assume "S \<in> {S. exact_cover p C S}"
  then obtain i where i: "i \<in> S" "c \<in> cols p i" "i < length (candidates p)" "cols p i \<inter> C = {}"
    "exact_cover p (C \<union> cols p i) (S - {i})"
    using exact_cover_chooses [OF _ assms] by blast
  moreover have "S = insert i (S - {i})" using i(1) by blast
  ultimately show "S \<in> (\<Union>i\<in>{i. i < length (candidates p) \<and> c \<in> cols p i \<and> cols p i \<inter> C = {}}.
       insert i ` {S. exact_cover p (C \<union> cols p i) S})" by blast
next
  fix S assume "S \<in> (\<Union>i\<in>{i. i < length (candidates p) \<and> c \<in> cols p i \<and> cols p i \<inter> C = {}}.
       insert i ` {S. exact_cover p (C \<union> cols p i) S})"
  then obtain i T where i: "i < length (candidates p)" "c \<in> cols p i" "cols p i \<inter> C = {}"
    and T: "exact_cover p (C \<union> cols p i) T" "S = insert i T" by blast
  have "i \<notin> T" using T(1) i(2) by (auto simp: exact_cover_def)
  then show "S \<in> {S. exact_cover p C S}" using exact_cover_insert [OF i(1,3,2) assms(1)] T by simp
qed

lemma exact_cover_unique_row:
  assumes "exact_cover p C S" "i \<in> S" "j \<in> S" "c \<in> cols p i" "c \<in> cols p j"
  shows "i = j"
  using assms unfolding exact_cover_def by blast

text \<open>What an enumeration must satisfy, and how the branches for one column combine.\<close>

definition enumerates :: "ExactCoverProblem \<Rightarrow> nat set \<Rightarrow> nat list list \<Rightarrow> bool" where
  "enumerates p C L \<longleftrightarrow>
     set ` set L = {S. exact_cover p C S} \<and> distinct (map set L) \<and> list_all distinct L"

lemma enumerates_branches:
  assumes c: "c < required_column_count p" "c \<notin> C"
    and R: "distinct R" "set R = {i. i < length (candidates p) \<and> c \<in> cols p i \<and> cols p i \<inter> C = {}}"
    and e: "\<And>i. i \<in> set R \<Longrightarrow> enumerates p (C \<union> cols p i) (e i)"
  shows "enumerates p C (concat (map (\<lambda>i. map ((#) i) (e i)) R))"
proof -
  define g where "g i = map ((#) i) (e i)" for i
  have gset: "set ` set (g i) = insert i ` {S. exact_cover p (C \<union> cols p i) S}" if "i \<in> set R" for i
  proof -
    have "set ` set (g i) = insert i ` set ` set (e i)" by (simp add: g_def image_image)
    then show ?thesis using e [OF that] by (simp only: enumerates_def)
  qed
  have fresh: "i \<notin> S" if "exact_cover p (C \<union> cols p i) S" "i \<in> set R" for i S
    using that R(2) by (auto simp: exact_cover_def)
  have all: "set ` set (concat (map g R)) = {S. exact_cover p C S}"
  proof -
    have "set ` set (concat (map g R)) = (\<Union>i\<in>set R. set ` set (g i))" by (simp add: image_UN)
    also have "\<dots> = (\<Union>i\<in>set R. insert i ` {S. exact_cover p (C \<union> cols p i) S})"
      using gset by (intro SUP_cong refl) blast
    finally show ?thesis unfolding covers_by_column [OF c] R(2) by simp
  qed
  have "distinct (map set (concat (map g R)))"
  proof (rule distinct_map_concat [OF R(1)])
    fix i assume i: "i \<in> set R"
    have "inj_on (insert i) (set ` set (e i))"
      using fresh [OF _ i] e [OF i] unfolding enumerates_def by (intro inj_onI) (metis insert_ident mem_Collect_eq)
    then have "distinct (map (insert i) (map set (e i)))"
      using e [OF i] by (simp only: distinct_map enumerates_def set_map simp_thms)
    then show "distinct (map set (g i))" by (simp add: g_def comp_def)
  next
    fix i j assume ij: "i \<in> set R" "j \<in> set R" "i \<noteq> j"
    have "S \<notin> set ` set (g j)" if "S \<in> set ` set (g i)" for S
    proof
      assume "S \<in> set ` set (g j)"
      then have "i \<in> S" "j \<in> S" using that gset ij(1,2) by auto
      moreover have "exact_cover p C S" using that all ij(1) by auto
      ultimately show False using exact_cover_unique_row [of p C S i j c] ij R(2) by auto
    qed
    then show "set ` set (g i) \<inter> set ` set (g j) = {}" by blast
  qed
  moreover have "list_all distinct (concat (map g R))"
    unfolding list_all_iff
  proof
    fix ks assume "ks \<in> set (concat (map g R))"
    then obtain i js where i: "i \<in> set R" "ks = i # js" "js \<in> set (e i)" by (auto simp: g_def)
    then have "exact_cover p (C \<union> cols p i) (set js)" "distinct js"
      using e [OF i(1)] by (auto simp: enumerates_def list_all_iff)
    then show "distinct ks" using i fresh by simp
  qed
  ultimately show ?thesis using all by (simp add: enumerates_def g_def [abs_def])
qed

text \<open>No column to branch on: some open required column has no row left, and there is no exact cover.\<close>

lemma no_column_no_cover:
  assumes p: "valid_problem p" "rows_ok p rows" and len: "length cov = column_count p"
    and "\<not> all_required_covered p (blank cov)"
    and none: "choose_uncovered_column_with_fewest_rows p rows (blank cov) = None"
  shows "{S. exact_cover p (cover_set cov) S} = {}"
proof -
  let ?r = "required_column_count p"
  have "\<not> {..<?r} \<subseteq> cover_set cov" using assms(4) by (simp add: required_covered_iff [OF len])
  moreover have "?r \<le> length cov" using len by (simp add: column_count_def)
  ultimately have "\<exists>c<?r. \<not> cov ! c" by (auto simp: cover_set_def)
  then obtain c where c: "c < ?r" "\<not> cov ! c" "filter (\<lambda>i. dlx_can_choose (blank cov) (candidates p ! i)) (rows ! c) = []"
    using fewest_rows_None [OF none [unfolded choose_uncovered_column_with_fewest_rows_def]]
    by (auto simp: blank_def)
  then have cc: "c \<notin> cover_set cov" "c < column_count p" by (simp_all add: cover_set_def column_count_def)
  have "\<not> (i < length (candidates p) \<and> c \<in> cols p i \<and> cols p i \<inter> cover_set cov = {})" for i
    using tried_rows(1) [OF p len cc(2), of i] unfolding c(3) by simp
  then show ?thesis unfolding covers_by_column [OF c(1) cc(1)] by blast
qed

text \<open>Choosing a candidate of an open column closes that column, so that fewer columns stay open.\<close>

lemma mark_closes_column:
  assumes "valid_problem p" "length cov = column_count p" "i < length (candidates p)"
    and "c \<in> cols p i" "c \<notin> cover_set cov" "c < column_count p"
  shows "cover_set (mark True cov (cand_columns (candidates p ! i))) = cover_set cov \<union> cols p i"
    "card ({..<column_count p} - cover_set (mark True cov (cand_columns (candidates p ! i))))
       < card ({..<column_count p} - cover_set cov)"
proof -
  show cs: "cover_set (mark True cov (cand_columns (candidates p ! i))) = cover_set cov \<union> cols p i"
    using valid_cols(1) [OF assms(1,3)] assms(2) by (intro cover_set_mark) simp
  have "{..<column_count p} - cover_set (mark True cov (cand_columns (candidates p ! i)))
      \<subset> {..<column_count p} - cover_set cov"
    unfolding cs using assms(4-6) by blast
  then show "card ({..<column_count p} - cover_set (mark True cov (cand_columns (candidates p ! i))))
       < card ({..<column_count p} - cover_set cov)"
    by (intro psubset_card_mono) simp
qed

lemma dlx_enum_covers:
  assumes p: "valid_problem p" "rows_ok p rows"
  shows "length cov = column_count p \<Longrightarrow> card ({..<column_count p} - cover_set cov) < fuel \<Longrightarrow>
    enumerates p (cover_set cov) (dlx_enum fuel p rows cov)"
proof (induction fuel arbitrary: cov)
  case (Suc fuel)
  let ?C = "cover_set cov"
  let ?R = "\<lambda>c. filter (\<lambda>i. dlx_can_choose (blank cov) (candidates p ! i)) (rows ! c)"
  note len = Suc.prems(1)
  consider (all) "all_required_covered p (blank cov)"
    | (none) "\<not> all_required_covered p (blank cov)" "choose_uncovered_column_with_fewest_rows p rows (blank cov) = None"
    | (column) c where "\<not> all_required_covered p (blank cov)"
        "choose_uncovered_column_with_fewest_rows p rows (blank cov) = Some c"
    by (cases "choose_uncovered_column_with_fewest_rows p rows (blank cov)") auto
  then show ?case
  proof cases
    case all
    then have "{S. exact_cover p ?C S} = {{}}"
      using exact_cover_done [of p ?C] by (simp add: required_covered_iff [OF len])
    then show ?thesis using all by (simp add: enumerates_def)
  next
    case none
    then show ?thesis using no_column_no_cover [OF p len none] by (simp add: enumerates_def)
  next
    case (column c)
    have c: "c < required_column_count p" "\<not> cov ! c"
      using fewest_rows_Some [OF column(2) [unfolded choose_uncovered_column_with_fewest_rows_def]]
      by (auto simp: blank_def)
    then have cc: "c \<notin> ?C" "c < column_count p" by (simp_all add: cover_set_def column_count_def)
    have R: "set (?R c) = {i. i < length (candidates p) \<and> c \<in> cols p i \<and> cols p i \<inter> ?C = {}}"
      using tried_rows(1) [OF p len cc(2)] by blast
    have "enumerates p ?C (concat (map (\<lambda>i. map ((#) i)
        (dlx_enum fuel p rows (mark True cov (cand_columns (candidates p ! i))))) (?R c)))"
    proof (rule enumerates_branches [OF c(1) cc(1) _ R])
      show "distinct (?R c)" using tried_rows(2) [OF p len cc(2)] by simp
      fix i assume "i \<in> set (?R c)"
      then have "i < length (candidates p)" "c \<in> cols p i" using R by auto
      note closes = mark_closes_column [OF p(1) len this cc]
      then show "enumerates p (?C \<union> cols p i) (dlx_enum fuel p rows (mark True cov (cand_columns (candidates p ! i))))"
        using Suc.IH [of "mark True cov (cand_columns (candidates p ! i))"] Suc.prems unfolding closes(1) by simp
    qed
    then show ?thesis using column by simp
  qed
qed simp

section \<open>The search explores the enumeration\<close>

text \<open>
  Exploring a list \<open>L\<close> of solutions from a state: the covered columns and the chosen identifiers are
  restored, a prefix of \<open>L\<close> is appended, the whole of it unless a limit was hit, and the limits hold.
\<close>

definition within_limits :: "DlxSearchLimits \<Rightarrow> DlxSearch \<Rightarrow> bool" where
  "within_limits lim st \<longleftrightarrow>
     searched_nodes st \<le> max_nodes lim \<and> length (solutions st) \<le> max_solutions lim \<and>
     (truncated_reason st = None \<longrightarrow> length (solutions st) < max_solutions lim) \<and>
     (truncated_reason st = Some MaxSolutions \<longrightarrow> length (solutions st) = max_solutions lim) \<and>
     (truncated_reason st = Some MaxNodes \<longrightarrow> searched_nodes st = max_nodes lim)"

definition explored :: "DlxSearchLimits \<Rightarrow> DlxSearch \<Rightarrow> ExactCoverSolution list \<Rightarrow> DlxSearch \<Rightarrow> bool" where
  "explored lim st L st' \<longleftrightarrow>
     covered st' = covered st \<and> chosen_candidate_ids st' = chosen_candidate_ids st \<and>
     (\<exists>rest. solutions st @ L = solutions st' @ rest \<and> (truncated_reason st' = None \<longrightarrow> rest = [])) \<and>
     length (solutions st) \<le> length (solutions st') \<and> (within_limits lim st \<longrightarrow> within_limits lim st')"

lemma explored_refl: "explored lim st [] st"
  by (simp add: explored_def)

lemma explored_stop: "explored lim st L st' \<Longrightarrow> truncated_reason st' \<noteq> None \<Longrightarrow> explored lim st (L @ M) st'"
  unfolding explored_def by (metis append_assoc)

lemma explored_trans:
  assumes "explored lim st L st1" "truncated_reason st1 = None" "explored lim st1 M st2"
  shows "explored lim st (L @ M) st2"
proof -
  have "solutions st1 = solutions st @ L" using assms(1,2) by (auto simp: explored_def)
  then show ?thesis using assms(1,3) by (auto simp: explored_def)
qed

lemma explored_count:
  assumes "explored lim (st\<lparr>searched_nodes := searched_nodes st + 1\<rparr>) L st'"
    and "truncated_reason st = None" "searched_nodes st < max_nodes lim"
  shows "explored lim st L st'"
  using assms by (auto simp: explored_def within_limits_def)

lemma record_solution_explored:
  assumes "truncated_reason st = None"
  shows "explored lim st [chosen_candidate_ids st] (record_solution lim st)"
  using assms by (auto simp: explored_def record_solution_def Let_def within_limits_def)

abbreviation ids_of :: "ExactCoverProblem \<Rightarrow> nat list \<Rightarrow> nat list" where
  "ids_of p ks \<equiv> map (\<lambda>i. cand_id (candidates p ! i)) ks"

text \<open>One candidate tried and undone.\<close>

lemma explored_choose:
  assumes cand: "\<forall>c\<in>cols p i. c < length (covered st)" "dlx_can_choose st (candidates p ! i)"
    and ex: "explored lim (dlx_choose st (candidates p ! i)) (map (\<lambda>ks. (chosen_candidate_ids st @ [cand_id (candidates p ! i)]) @ ids_of p ks) E) st'"
  shows "explored lim st (map (\<lambda>ks. chosen_candidate_ids st @ ids_of p ks) (map ((#) i) E))
    (dlx_unchoose st' (candidates p ! i))"
proof -
  let ?x = "candidates p ! i"
  have same: "solutions (dlx_choose st ?x) = solutions st" "searched_nodes (dlx_choose st ?x) = searched_nodes st"
    "truncated_reason (dlx_choose st ?x) = truncated_reason st"
    "solutions (dlx_unchoose st' ?x) = solutions st'" "searched_nodes (dlx_unchoose st' ?x) = searched_nodes st'"
    "truncated_reason (dlx_unchoose st' ?x) = truncated_reason st'"
    by (simp_all add: dlx_choose_def dlx_unchoose_def)
  have "covered (dlx_unchoose st' ?x) = covered st"
    "chosen_candidate_ids (dlx_unchoose st' ?x) = chosen_candidate_ids st"
    using dlx.undo [OF cand, of st'] ex by (simp_all add: explored_def)
  then show ?thesis using ex by (simp add: explored_def within_limits_def same comp_def)
qed

lemma try_rows_truncated: "truncated_reason st \<noteq> None \<Longrightarrow> try_rows fuel p rows lim is st = Some st"
  by (cases "is") simp_all

definition explores :: "nat \<Rightarrow> ExactCoverProblem \<Rightarrow> nat list list \<Rightarrow> DlxSearchLimits \<Rightarrow> bool" where
  "explores fuel p rows lim \<longleftrightarrow>
     (\<forall>st. length (covered st) = column_count p \<longrightarrow> truncated_reason st = None \<longrightarrow>
        card ({..<column_count p} - cover_set (covered st)) < fuel \<longrightarrow>
        (\<exists>st'. search fuel p rows lim st = Some st' \<and>
          explored lim st (map (\<lambda>ks. chosen_candidate_ids st @ ids_of p ks) (dlx_enum fuel p rows (covered st))) st'))"

lemma try_rows_explores:
  assumes p: "valid_problem p" and ih: "explores fuel p rows lim"
  shows "length (covered st) = column_count p \<Longrightarrow> truncated_reason st = None \<Longrightarrow>
      card ({..<column_count p} - cover_set (covered st)) \<le> fuel \<Longrightarrow> \<forall>i\<in>set idxs. i < length (candidates p) \<Longrightarrow>
    \<exists>st'. try_rows fuel p rows lim idxs st = Some st' \<and>
      explored lim st (map (\<lambda>ks. chosen_candidate_ids st @ ids_of p ks)
        (concat (map (\<lambda>i. map ((#) i) (dlx_enum fuel p rows (mark True (covered st) (cand_columns (candidates p ! i)))))
           (filter (\<lambda>i. dlx_can_choose st (candidates p ! i)) idxs)))) st'"
proof (induction idxs arbitrary: st)
  case Nil
  then show ?case by (simp add: explored_refl)
next
  case (Cons i idxs)
  let ?x = "candidates p ! i"
  note len = Cons.prems(1) and run = Cons.prems(2)
  show ?case
  proof (cases "dlx_can_choose st ?x")
    case False
    then show ?thesis using Cons.IH [OF len run Cons.prems(3)] Cons.prems(4) run by simp
  next
    case True
    have i: "i < length (candidates p)" using Cons.prems(4) by simp
    have in_range: "\<forall>c\<in>cols p i. c < length (covered st)" using valid_cols(1) [OF p i] len by simp
    have "card ({..<column_count p} - cover_set (covered (dlx_choose st ?x))) < fuel"
      using dlx.uncovered_decreases [OF in_range True valid_cols(2) [OF p i]] Cons.prems(3) len by simp
    moreover have "truncated_reason (dlx_choose st ?x) = None" using run by (simp add: dlx_choose_def)
    moreover have "length (covered (dlx_choose st ?x)) = column_count p" using len by (simp add: dlx.length_choose)
    ultimately obtain st1 where st1: "search fuel p rows lim (dlx_choose st ?x) = Some st1"
      "explored lim (dlx_choose st ?x) (map (\<lambda>ks. chosen_candidate_ids (dlx_choose st ?x) @ ids_of p ks)
        (dlx_enum fuel p rows (covered (dlx_choose st ?x)))) st1"
      using ih unfolding explores_def by blast
    define E where "E = dlx_enum fuel p rows (mark True (covered st) (cand_columns ?x))"
    define st2 where "st2 = dlx_unchoose st1 ?x"
    define M where "M = map (\<lambda>ks. chosen_candidate_ids st @ ids_of p ks)
        (concat (map (\<lambda>i. map ((#) i) (dlx_enum fuel p rows (mark True (covered st) (cand_columns (candidates p ! i)))))
           (filter (\<lambda>i. dlx_can_choose st (candidates p ! i)) idxs)))"
    have ex: "explored lim st (map (\<lambda>ks. chosen_candidate_ids st @ ids_of p ks) (map ((#) i) E)) st2"
      unfolding st2_def using st1(2)
      by (intro explored_choose [OF in_range True]) (simp add: dlx.ids_choose dlx.cov_choose E_def)
    have eq: "try_rows fuel p rows lim (i # idxs) st = try_rows fuel p rows lim idxs st2"
      using run True st1(1) by (simp add: st2_def)
    have "\<exists>st'. try_rows fuel p rows lim idxs st2 = Some st' \<and>
        explored lim st (map (\<lambda>ks. chosen_candidate_ids st @ ids_of p ks) (map ((#) i) E) @ M) st'"
    proof (cases "truncated_reason st2 = None")
      case True
      have same: "covered st2 = covered st" "chosen_candidate_ids st2 = chosen_candidate_ids st"
        using ex by (simp_all add: explored_def)
      have can: "dlx_can_choose st2 y = dlx_can_choose st y" for y by (simp add: dlx_can_choose_def same)
      obtain st' where "try_rows fuel p rows lim idxs st2 = Some st'" "explored lim st2 M st'"
        using Cons.IH [of st2] len True Cons.prems(3,4) unfolding same can M_def by auto
      then show ?thesis using explored_trans [OF ex True] by blast
    next
      case False
      then show ?thesis using try_rows_truncated [OF False] explored_stop [OF ex False] by blast
    qed
    then show ?thesis unfolding eq using True by (simp add: E_def M_def)
  qed
qed

text \<open>One node of the search that has not reached the node limit.\<close>

lemma search_node_explores:
  assumes p: "valid_problem p" "rows_ok p rows" and IH: "explores fuel p rows lim"
    and len: "length (covered st) = column_count p" and run: "truncated_reason st = None"
    and fuel: "card ({..<column_count p} - cover_set (covered st)) < Suc fuel"
    and nodes: "\<not> searched_nodes st \<ge> max_nodes lim"
  shows "\<exists>st'. search (Suc fuel) p rows lim st = Some st' \<and> explored lim (st\<lparr>searched_nodes := searched_nodes st + 1\<rparr>)
    (map (\<lambda>ks. chosen_candidate_ids st @ ids_of p ks) (dlx_enum (Suc fuel) p rows (covered st))) st'"
proof -
  let ?st = "st\<lparr>searched_nodes := searched_nodes st + 1\<rparr>"
  have run': "truncated_reason ?st = None" using run by simp
  have req: "all_required_covered p (blank (covered st)) = all_required_covered p ?st"
    by (simp add: all_required_covered_def blank_def)
  have col: "choose_uncovered_column_with_fewest_rows p rows (blank (covered st)) =
      choose_uncovered_column_with_fewest_rows p rows ?st"
    using choose_column_blank [of p rows ?st] by simp
  consider (all) "all_required_covered p ?st"
    | (none) "\<not> all_required_covered p ?st" "choose_uncovered_column_with_fewest_rows p rows ?st = None"
    | (column) c where "\<not> all_required_covered p ?st" "choose_uncovered_column_with_fewest_rows p rows ?st = Some c"
    by (cases "choose_uncovered_column_with_fewest_rows p rows ?st") auto
  then show ?thesis
  proof cases
    case all
    then show ?thesis using nodes run req record_solution_explored [OF run', of lim] by (simp add: Let_def)
  next
    case none
    then show ?thesis using nodes run req col by (simp add: Let_def explored_refl)
  next
    case (column c)
    have "c < required_column_count p"
      using fewest_rows_Some [OF column(2) [unfolded choose_uncovered_column_with_fewest_rows_def]] by simp
    then have "c < column_count p" by (simp add: column_count_def)
    then have rng: "\<forall>i\<in>set (rows ! c). i < length (candidates p)" using p(2) by (auto simp: rows_ok_def)
    have can: "dlx_can_choose (blank (covered st)) x = dlx_can_choose ?st x" for x
      using dlx_can_choose_blank [of ?st x] by simp
    have "card ({..<column_count p} - cover_set (covered ?st)) \<le> fuel" using fuel by simp
    from try_rows_explores [OF p(1) IH _ run' this rng] len show ?thesis
      using nodes run req col column by (simp add: Let_def can)
  qed
qed

lemma search_explores:
  assumes p: "valid_problem p" "rows_ok p rows"
  shows "explores fuel p rows lim"
proof (induction fuel)
  case 0
  then show ?case by (simp add: explores_def)
next
  case (Suc fuel)
  show ?case
    unfolding explores_def
  proof (intro allI impI)
    fix st :: DlxSearch
    assume len: "length (covered st) = column_count p" and run: "truncated_reason st = None"
      and fuel: "card ({..<column_count p} - cover_set (covered st)) < Suc fuel"
    let ?L = "map (\<lambda>ks. chosen_candidate_ids st @ ids_of p ks) (dlx_enum (Suc fuel) p rows (covered st))"
    show "\<exists>st'. search (Suc fuel) p rows lim st = Some st' \<and> explored lim st ?L st'"
    proof (cases "searched_nodes st \<ge> max_nodes lim")
      case True
      then have "explored lim st ?L (st\<lparr>truncated_reason := Some MaxNodes\<rparr>)"
        using run by (auto simp: explored_def within_limits_def)
      then show ?thesis using True run by simp
    next
      case False
      then show ?thesis
        using search_node_explores [OF p Suc.IH len run fuel False] explored_count [of lim st ?L] run by auto
    qed
  qed
qed

lemma dlx_run_explores:
  assumes "valid_problem p" "rows_ok p rows" "max_solutions lim > 0"
  shows "\<exists>st L. search (column_count p + 1) p rows lim (dlx_search_new p) = Some st \<and>
    enumerates p {} L \<and> explored lim (dlx_search_new p) (map (ids_of p) L) st \<and> within_limits lim st"
proof -
  let ?st = "dlx_search_new p" and ?n = "column_count p + 1"
  have new: "length (covered ?st) = column_count p" "truncated_reason ?st = None" "chosen_candidate_ids ?st = []"
      "cover_set (covered ?st) = {}"
    by (auto simp: dlx_search_new_def cover_set_def)
  have "within_limits lim ?st" using assms(3) by (simp add: within_limits_def dlx_search_new_def)
  moreover have "card ({..<column_count p} - cover_set (covered ?st)) < ?n" by (simp add: new)
  moreover have "enumerates p {} (dlx_enum ?n p rows (covered ?st))"
    using dlx_enum_covers [OF assms(1,2) new(1), of ?n] by (simp add: new)
  ultimately show ?thesis
    using search_explores [OF assms(1,2), of ?n lim] new unfolding explores_def explored_def
    by (metis (no_types, lifting) append_Nil map_cong)
qed

lemma solve_all_limited_eq_Ok:
  "solve_all_limited p lim = Ok r \<longleftrightarrow>
     max_solutions lim > 0 \<and> max_nodes lim > 0 \<and> valid_problem p \<and>
     (\<exists>rows. rows_ok p rows \<and> r = dlx_run p rows lim)"
  by (auto simp: solve_all_limited_def and_then_eq_Ok_iff build_rows_by_column_eq_Ok)

lemma dlx_solved:
  assumes "solve_all_limited p lim = Ok r"
  shows "\<exists>st L. r = Some (dlx_finish st) \<and> enumerates p {} L \<and> within_limits lim st \<and>
    (\<exists>rest. map (ids_of p) L = solutions st @ rest \<and> (truncated_reason st = None \<longrightarrow> rest = []))"
proof -
  obtain rows where *: "valid_problem p" "rows_ok p rows" "max_solutions lim > 0" "r = dlx_run p rows lim"
    using assms by (auto simp: solve_all_limited_eq_Ok)
  have new: "solutions (dlx_search_new p) = []" by (simp add: dlx_search_new_def)
  obtain st L where st: "search (column_count p + 1) p rows lim (dlx_search_new p) = Some st" "enumerates p {} L"
      "explored lim (dlx_search_new p) (map (ids_of p) L) st" "within_limits lim st"
    using dlx_run_explores [OF *(1-3)] by blast
  have "r = Some (dlx_finish st)" unfolding *(4) dlx_run_def st(1) by simp
  moreover have "\<exists>rest. map (ids_of p) L = solutions st @ rest \<and> (truncated_reason st = None \<longrightarrow> rest = [])"
    using st(3) unfolding explored_def new append_Nil by blast
  ultimately show ?thesis using st(2,4) by - (rule exI [of _ st], rule exI [of _ L], simp)
qed

section \<open>The bitset solver is sound and complete\<close>

text \<open>
  \<open>partition_of n C ys\<close>: the candidates \<open>ys\<close> are disjoint, avoid \<open>C\<close> and fill the rest of the \<open>n\<close>
  columns.
\<close>

definition partition_of :: "nat \<Rightarrow> nat set \<Rightarrow> ExactCoverCandidate list \<Rightarrow> bool" where
  "partition_of n C ys \<longleftrightarrow>
     sorted_wrt (\<lambda>x y. set (cand_columns x) \<inter> set (cand_columns y) = {}) ys \<and>
     (\<forall>y\<in>set ys. set (cand_columns y) \<subseteq> {..<n} - C) \<and>
     {..<n} \<subseteq> C \<union> (\<Union>y\<in>set ys. set (cand_columns y))"

lemma partition_of_Nil: "partition_of n C [] \<longleftrightarrow> {..<n} \<subseteq> C"
  by (simp add: partition_of_def)

lemma partition_of_Cons:
  "partition_of n C (y # ys) \<longleftrightarrow>
     set (cand_columns y) \<subseteq> {..<n} - C \<and> partition_of n (C \<union> set (cand_columns y)) ys"
  unfolding partition_of_def by (simp add: Un_assoc) blast

lemma bs_choosable_iff:
  "\<not> bs_conflicts st x \<longleftrightarrow> set (cand_columns x) \<subseteq> {..<length (bs_covered st)} - cover_set (bs_covered st)"
  by (auto simp: bs_conflicts_def list_ex_iff cover_set_def)

lemma all_covered_iff: "list_all (\<lambda>b. b) cov \<longleftrightarrow> {..<length cov} \<subseteq> cover_set cov"
  by (auto simp: list_all_length cover_set_def)

definition fills :: "ExactCoverCandidate list \<Rightarrow> bitset_state \<Rightarrow> ExactCoverCandidate list \<Rightarrow> bool" where
  "fills cands st ys \<longleftrightarrow>
     subseq ys cands \<and> partition_of (length (bs_covered st)) (cover_set (bs_covered st)) ys"

lemma fills_Nil: "fills [] st ys \<longleftrightarrow> ys = [] \<and> list_all (\<lambda>b. b) (bs_covered st)"
  by (cases ys) (auto simp: fills_def partition_of_Nil all_covered_iff)

lemma fills_done: "list_all (\<lambda>b. b) (bs_covered st) \<Longrightarrow> fills cands st []"
  by (simp add: fills_def partition_of_Nil all_covered_iff)

lemma fills_skip: "fills cands st ys \<Longrightarrow> fills (cand # cands) st ys"
  by (auto simp: fills_def)

lemma fills_take:
  assumes "\<not> bs_conflicts st cand"
  shows "fills cands (bs_choose st cand) ys \<longleftrightarrow> subseq ys cands \<and> fills (cand # cands) st (cand # ys)"
proof -
  have "cover_set (bs_covered (bs_choose st cand)) = cover_set (bs_covered st) \<union> set (cand_columns cand)"
    using assms by (intro bits.cover_set_choose) (auto simp: bs_choosable_iff)
  then show ?thesis
    using assms by (auto simp: fills_def partition_of_Cons bs_choosable_iff bits.length_choose)
qed

lemma fills_Cons:
  assumes "fills (cand # cands) st ys"
  shows "fills cands st ys \<or> (\<not> bs_conflicts st cand \<and> (\<exists>zs. fills cands (bs_choose st cand) zs))"
proof (cases "subseq ys cands")
  case True
  then show ?thesis using assms by (simp add: fills_def)
next
  case False
  then obtain zs where ys: "ys = cand # zs" "subseq zs cands"
    using assms list_emb_Cons_iff1 unfolding fills_def by (auto elim: list_emb.cases)
  then have "\<not> bs_conflicts st cand" using assms by (simp add: fills_def partition_of_Cons bs_choosable_iff)
  moreover from this have "fills cands (bs_choose st cand) zs" using assms ys by (simp add: fills_take)
  ultimately show ?thesis by blast
qed

definition solved :: "ExactCoverCandidate list \<Rightarrow> bitset_state \<Rightarrow> ExactCoverSolution option \<times> bitset_state \<Rightarrow> bool" where
  "solved cands st r \<longleftrightarrow>
     (case r of (Some s, _) \<Rightarrow> (\<exists>ys. fills cands st ys \<and> s = bs_chosen st @ map cand_id ys)
       | (None, st') \<Rightarrow> st' = st \<and> \<not> (\<exists>ys. fills cands st ys))"

lemma bs_undo: "\<not> bs_conflicts st x \<Longrightarrow> bs_unchoose (bs_choose st x) x = st"
  by (rule bitset_state.equality) (auto simp: bits.undo bs_choosable_iff subset_iff)

lemma solve_solved:
  "solved cands st (solve_at cands st)"
  "\<not> list_all (\<lambda>b. b) (bs_covered st) \<Longrightarrow> solved cands st (solve_from cands st)"
proof (induction cands st and cands st rule: solve_at_solve_from.induct)
  case (1 cands st)
  then show ?case by (auto simp: solved_def fills_done intro: exI [of _ "[]"])
next
  case (2 st)
  then show ?case by (simp add: solved_def fills_Nil)
next
  case (3 cand cands st)
  show ?case
  proof (cases "bs_conflicts st cand")
    case True
    then show ?thesis
      using 3 by (auto simp: solved_def split: prod.splits option.splits dest: fills_Cons intro: fills_skip)
  next
    case False
    let ?r = "solve_at cands (bs_choose st cand)"
    have ih: "solved cands (bs_choose st cand) ?r" using 3 False by simp
    show ?thesis
    proof (cases "fst ?r")
      case None
      then have r: "?r = (None, bs_choose st cand)" "\<not> (\<exists>ys. fills cands (bs_choose st cand) ys)"
        using ih by (auto simp: solved_def simp del: solve_at.simps split: prod.splits option.splits)
      then have "solve_from (cand # cands) st = solve_from cands st" using False by (simp add: bs_undo)
      moreover have "solved cands st (solve_from cands st)"
        using 3 False r(1) by (simp add: bs_undo)
      ultimately show ?thesis
        using r(2) by (auto simp: solved_def split: prod.splits option.splits dest: fills_Cons intro: fills_skip)
    next
      case (Some s)
      then obtain ys where "fills cands (bs_choose st cand) ys" "s = bs_chosen st @ map cand_id (cand # ys)"
        using ih by (auto simp: solved_def bits.ids_choose simp del: solve_at.simps split: prod.splits option.splits)
      moreover have "solve_from (cand # cands) st = (Some s, snd ?r)"
        using Some False by (cases ?r) (simp del: solve_at.simps)
      ultimately show ?thesis using fills_take [OF False] by (auto simp: solved_def simp del: solve_at.simps)
    qed
  qed
qed

lemma bitset_solve_first_cases:
  "case bitset_solve_first p of
     Some s \<Rightarrow> \<exists>ys. subseq ys (candidates p) \<and> partition_of (column_count p) {} ys \<and> s = map cand_id ys
   | None \<Rightarrow> \<not> (\<exists>ys. subseq ys (candidates p) \<and> partition_of (column_count p) {} ys)"
proof -
  let ?st = "\<lparr>bs_covered = replicate (column_count p) False, bs_chosen = []\<rparr>"
  have "cover_set (bs_covered ?st) = {}" by (auto simp: cover_set_def)
  then have "fills (candidates p) ?st ys \<longleftrightarrow> subseq ys (candidates p) \<and> partition_of (column_count p) {} ys" for ys
    by (simp add: fills_def)
  then show ?thesis
    using solve_solved(1) [of "candidates p" ?st]
    by (cases "solve_at (candidates p) ?st")
      (auto simp: solved_def bitset_solve_first_def simp del: solve_at.simps split: option.splits)
qed

section \<open>The two solvers agree without optional columns\<close>

lemma sorted_wrt_filter_upt:
  "sorted_wrt R (map f (filter P [0..<n])) \<longleftrightarrow> (\<forall>i j. i < j \<and> j < n \<and> P i \<and> P j \<longrightarrow> R (f i) (f j))"
proof (induction n)
  case (Suc n)
  then show ?case by (auto simp: sorted_wrt_append less_Suc_eq)
qed simp

lemma nths_eq_map_filter: "nths xs A = map ((!) xs) (filter (\<lambda>i. i \<in> A) [0..<length xs])"
  by (induction xs rule: rev_induct) (auto simp: nths_append nths_singleton nth_append cong: map_cong)

lemma partition_of_nths:
  "partition_of (column_count p) {} (nths (candidates p) S) \<longleftrightarrow>
     (let T = S \<inter> {..<length (candidates p)} in
      (\<forall>i\<in>T. cols p i \<subseteq> {..<column_count p}) \<and> (\<forall>i\<in>T. \<forall>j\<in>T. i \<noteq> j \<longrightarrow> cols p i \<inter> cols p j = {}) \<and>
      {..<column_count p} \<subseteq> (\<Union>i\<in>T. cols p i))"
proof -
  define T where "T = S \<inter> {..<length (candidates p)}"
  have pairs: "(\<forall>i j. i < j \<and> j < length (candidates p) \<and> i \<in> S \<and> j \<in> S \<longrightarrow> cols p i \<inter> cols p j = {}) \<longleftrightarrow>
      (\<forall>i\<in>T. \<forall>j\<in>T. i \<noteq> j \<longrightarrow> cols p i \<inter> cols p j = {})"
    (is "(\<forall>i j. ?lt i j \<longrightarrow> ?D i j) \<longleftrightarrow> _")
  proof (intro iffI ballI impI allI)
    fix i j assume *: "\<forall>i j. ?lt i j \<longrightarrow> ?D i j" "i \<in> T" "j \<in> T" "i \<noteq> j"
    then have "?lt i j \<or> ?lt j i" by (auto simp: T_def)
    then show "?D i j" using *(1) by (metis Int_commute)
  next
    fix i j assume *: "\<forall>i\<in>T. \<forall>j\<in>T. i \<noteq> j \<longrightarrow> ?D i j" "?lt i j"
    then have "i \<in> T" "j \<in> T" "i \<noteq> j" by (auto simp: T_def)
    then show "?D i j" using *(1) by simp
  qed
  have set: "set (nths (candidates p) S) = (!) (candidates p) ` T"
    unfolding T_def by (auto simp: set_nths)
  show ?thesis
    unfolding partition_of_def set T_def [symmetric] Let_def
    unfolding nths_eq_map_filter sorted_wrt_filter_upt pairs by auto
qed

lemma exact_cover_iff_partition:
  assumes "valid_problem p" "optional_column_count p = 0"
  shows "(\<exists>S. exact_cover p {} S) \<longleftrightarrow>
    (\<exists>ys. subseq ys (candidates p) \<and> partition_of (column_count p) {} ys)"
proof -
  have n: "column_count p = required_column_count p" using assms(2) by (simp add: column_count_def)
  have cols: "cols p i \<subseteq> {..<column_count p}" "cols p i \<noteq> {}" if "i < length (candidates p)" for i
    using valid_cols [OF assms(1) that] by auto
  have "exact_cover p {} (S \<inter> {..<length (candidates p)}) \<longleftrightarrow>
      partition_of (column_count p) {} (nths (candidates p) S)" for S
    unfolding partition_of_nths Let_def exact_cover_def n [symmetric] using cols by (auto simp: Int_absorb2)
  moreover have "S \<inter> {..<length (candidates p)} = S" if "exact_cover p {} S" for S
    using that by (auto simp: exact_cover_def)
  ultimately show ?thesis by (metis subseq_conv_nths)
qed

section \<open>Rejected problems\<close>

definition names_fault :: "ExactCoverProblem \<Rightarrow> DlxSolverError \<Rightarrow> ExactCoverCandidate \<Rightarrow> bool" where
  "names_fault p e x \<longleftrightarrow>
     (case e of
        EmptyCandidate i \<Rightarrow> i = cand_id x \<and> cand_columns x = []
      | DuplicateColumnInCandidate i c \<Rightarrow> i = cand_id x \<and> length (filter ((=) c) (cand_columns x)) \<ge> 2
      | CandidateColumnOutOfRange i c n \<Rightarrow>
          i = cand_id x \<and> n = column_count p \<and> c \<in> set (cand_columns x) \<and> c \<ge> n
      | _ \<Rightarrow> False)"

lemma first_adjacent_duplicate_Some:
  "first_adjacent_duplicate xs = Some c \<Longrightarrow> length (filter ((=) c) xs) \<ge> 2"
  by (induction xs rule: first_adjacent_duplicate.induct) (auto split: if_splits)

lemma index_columns_Err:
  "index_columns p i cid cs rows = Err e \<Longrightarrow>
    \<exists>c\<in>set cs. c \<ge> column_count p \<and> e = CandidateColumnOutOfRange cid c (column_count p)"
  by (induction cs arbitrary: rows) (auto split: if_splits)

lemma index_candidates_Err:
  "index_candidates p i cands rows = Err e \<Longrightarrow> \<exists>x\<in>set cands. names_fault p e x"
proof (induction cands arbitrary: i rows)
  case (Cons x cands)
  have dup: "length (filter ((=) c) (cand_columns x)) \<ge> 2"
    if "first_adjacent_duplicate (sort (cand_columns x)) = Some c" for c
    using first_adjacent_duplicate_Some [OF that] by (simp add: filter_sort)
  show ?case
  proof (cases "cand_columns x = [] \<or> first_adjacent_duplicate (sort (cand_columns x)) \<noteq> None")
    case True
    then have "names_fault p e x"
      using Cons.prems dup by (cases "cand_columns x = []") (auto simp: names_fault_def)
    then show ?thesis by simp
  next
    case False
    then have "and_then (index_columns p i (cand_id x) (cand_columns x) rows) (index_candidates p (i + 1) cands) = Err e"
      using Cons.prems by simp
    then consider "index_columns p i (cand_id x) (cand_columns x) rows = Err e"
      | rows1 where "index_candidates p (i + 1) cands rows1 = Err e"
      unfolding and_then_eq_Err_iff by blast
    then show ?thesis
    proof cases
      case 1
      then show ?thesis using index_columns_Err by (fastforce simp: names_fault_def)
    next
      case 2
      then show ?thesis using Cons.IH by (meson list.set_intros(2))
    qed
  qed
qed simp

lemma build_rows_by_column_Err:
  "build_rows_by_column p = Err e \<Longrightarrow> \<exists>x\<in>set (candidates p). names_fault p e x"
  unfolding build_rows_by_column_def by (rule index_candidates_Err)

lemma names_no_limit: "\<not> names_fault p ZeroMaxSolutions x" "\<not> names_fault p ZeroMaxNodes x"
  by (simp_all add: names_fault_def)

section \<open>What the solvers promise\<close>

definition sample_problem :: ExactCoverProblem where
  "sample_problem = problem_new 2
     [\<lparr>cand_id = 10, cand_columns = [0, 1]\<rparr>, \<lparr>cand_id = 20, cand_columns = [0]\<rparr>, \<lparr>cand_id = 30, cand_columns = [1]\<rparr>]"

definition sample_report :: DlxSolveReport where
  "sample_report = \<lparr>report_solutions = [[10], [20, 30]], report_searched_nodes = 4, dlx_complete = True,
     report_truncated_reason = None\<rparr>"

lemma sample_solved:
  "solve_all_limited sample_problem \<lparr>max_solutions = 5, max_nodes = 9\<rparr> = Ok (Some sample_report)"
  by code_simp

lemma sample_first:
  "solve_all_limited sample_problem \<lparr>max_solutions = 1, max_nodes = USIZE_MAX\<rparr> =
     Ok (Some \<lparr>report_solutions = [[10]], report_searched_nodes = 2, dlx_complete = False,
       report_truncated_reason = Some MaxSolutions\<rparr>)"
proof -
  have "\<not> USIZE_MAX \<le> 0" "\<not> USIZE_MAX \<le> Suc 0" by (simp_all add: USIZE_MAX_def)
  moreover have "build_rows_by_column sample_problem = Ok [[0, 1], [0, 2]]" by code_simp
  ultimately show ?thesis
    by (simp add: solve_all_limited_def dlx_run_def dlx_search_new_def sample_problem_def problem_new_def
        column_count_def all_required_covered_def choose_uncovered_column_with_fewest_rows_def better_column_def
        dlx_can_choose_def dlx_choose_def dlx_unchoose_def mark_def record_solution_def dlx_finish_def
        numeral_2_eq_2 Let_def upt_rec)
qed

text \<open>
  C5 (termination): the search of the DLX solver always returns.  The recursion fuel of the model, one
  more than the number of columns, never runs out, whatever the problem and the limits.
\<close>

theorem dlx_terminates: "solve_all_limited p lim \<noteq> Ok None"
  using dlx_solved [of p lim None] by auto

text \<open>
  C4 (functional): a complete report of the DLX solver lists every exact cover of the required columns
  once, each by the identifiers of its candidates; a truncated report is a prefix of that list.
\<close>

theorem dlx_reports_every_cover:
  assumes "solve_all_limited p lim = Ok (Some r)"
  shows "\<exists>L. enumerates p {} L \<and>
    (dlx_complete r \<longrightarrow> report_solutions r = map (ids_of p) L) \<and>
    prefix (report_solutions r) (map (ids_of p) L)"
  using dlx_solved [OF assms] by (auto simp: dlx_finish_def)

theorem dlx_reports_every_cover_witness:
  "\<exists>L. enumerates sample_problem {} L \<and> map (ids_of sample_problem) L = [[10], [20, 30]]"
  using dlx_reports_every_cover [OF sample_solved] by (auto simp: sample_report_def)

text \<open>
  C16 (bounds): the report respects both limits, says it is complete exactly when it gives no reason
  for a truncation, and the reason it gives names the limit that was reached.
\<close>

theorem dlx_respects_limits:
  assumes "solve_all_limited p lim = Ok (Some r)"
  shows "report_searched_nodes r \<le> max_nodes lim \<and> length (report_solutions r) \<le> max_solutions lim \<and>
    (dlx_complete r \<longleftrightarrow> report_truncated_reason r = None) \<and>
    (report_truncated_reason r = Some MaxSolutions \<longrightarrow> length (report_solutions r) = max_solutions lim) \<and>
    (report_truncated_reason r = Some MaxNodes \<longrightarrow> report_searched_nodes r = max_nodes lim)"
  using dlx_solved [OF assms] by (auto simp: dlx_finish_def within_limits_def)

theorem dlx_respects_limits_witness:
  "report_searched_nodes sample_report \<le> 9 \<and> length (report_solutions sample_report) \<le> 5"
  using dlx_respects_limits [OF sample_solved] by simp

text \<open>
  C17 (error): the DLX solver accepts a problem exactly when both limits are positive and every candidate
  has a non-empty list of distinct columns in range.  A zero limit is reported before anything else,
  and any other error names a candidate and the fault it really has.
\<close>

theorem dlx_accepts_iff:
  "(is_ok (solve_all_limited p lim) \<longleftrightarrow> max_solutions lim > 0 \<and> max_nodes lim > 0 \<and> valid_problem p) \<and>
   (solve_all_limited p lim = Err ZeroMaxSolutions \<longleftrightarrow> max_solutions lim = 0) \<and>
   (solve_all_limited p lim = Err ZeroMaxNodes \<longleftrightarrow> max_solutions lim > 0 \<and> max_nodes lim = 0) \<and>
   (\<forall>e. solve_all_limited p lim = Err e \<and> max_solutions lim > 0 \<and> max_nodes lim > 0 \<longrightarrow>
      (\<exists>x\<in>set (candidates p). names_fault p e x))"
proof -
  have "is_ok (solve_all_limited p lim) \<longleftrightarrow> max_solutions lim > 0 \<and> max_nodes lim > 0 \<and> valid_problem p"
    unfolding is_ok_iff solve_all_limited_eq_Ok using valid_problem_ok [of p] by (auto simp: build_rows_by_column_eq_Ok)
  moreover have "build_rows_by_column p \<noteq> Err ZeroMaxSolutions" "build_rows_by_column p \<noteq> Err ZeroMaxNodes"
    using build_rows_by_column_Err names_no_limit by metis+
  ultimately show ?thesis
    using build_rows_by_column_Err [of p] by (auto simp: solve_all_limited_def and_then_eq_Err_iff)
qed

theorem dlx_accepts_iff_witness:
  "is_ok (solve_all_limited sample_problem \<lparr>max_solutions = 5, max_nodes = 9\<rparr>) \<and>
   (\<exists>x. names_fault (problem_new 2 [\<lparr>cand_id = 7, cand_columns = [1, 0, 1]\<rparr>]) (DuplicateColumnInCandidate 7 1) x)"
proof -
  have "valid_problem sample_problem" by code_simp
  moreover have "solve_all_limited (problem_new 2 [\<lparr>cand_id = 7, cand_columns = [1, 0, 1]\<rparr>])
      \<lparr>max_solutions = 5, max_nodes = 9\<rparr> = Err (DuplicateColumnInCandidate 7 1)" by code_simp
  ultimately show ?thesis
    using dlx_accepts_iff [of sample_problem "\<lparr>max_solutions = 5, max_nodes = 9\<rparr>"]
      dlx_accepts_iff [of "problem_new 2 [\<lparr>cand_id = 7, cand_columns = [1, 0, 1]\<rparr>]" "\<lparr>max_solutions = 5, max_nodes = 9\<rparr>"]
    by auto
qed

text \<open>
  C13 (functional): the bitset solver returns the identifiers of disjoint candidates that fill all
  columns, in candidate order, and returns nothing only when no such selection exists.
\<close>

theorem bitset_finds_partition:
  "case bitset_solve_first p of
     Some s \<Rightarrow> \<exists>ys. subseq ys (candidates p) \<and> partition_of (column_count p) {} ys \<and> s = map cand_id ys
   | None \<Rightarrow> \<not> (\<exists>ys. subseq ys (candidates p) \<and> partition_of (column_count p) {} ys)"
  by (rule bitset_solve_first_cases)

text \<open>
  C18 (equivalence): on a valid problem without optional columns the bitset solver finds a solution
  exactly when the DLX solver does, unless the DLX search stops at its node limit.
\<close>

theorem solvers_agree:
  assumes "solve_all_limited p \<lparr>max_solutions = 1, max_nodes = USIZE_MAX\<rparr> = Ok (Some r)"
    and "report_truncated_reason r \<noteq> Some MaxNodes" and "\<not> has_optional_columns p"
  shows "dlx_solve_first p = Ok (Some None) \<longleftrightarrow> bitset_solve_first p = None"
proof -
  obtain st L where st: "r = dlx_finish st" "enumerates p {} L"
      "within_limits \<lparr>max_solutions = 1, max_nodes = USIZE_MAX\<rparr> st"
      "\<exists>rest. map (ids_of p) L = solutions st @ rest \<and> (truncated_reason st = None \<longrightarrow> rest = [])"
    using dlx_solved [OF assms(1)] by auto
  have first: "dlx_solve_first p = Ok (Some None) \<longleftrightarrow> solutions st = []"
    unfolding dlx_solve_first_def assms(1) st(1) by (simp add: dlx_finish_def split: list.splits)
  have "truncated_reason st \<noteq> Some MaxNodes" using st(1) assms(2) by (simp add: dlx_finish_def)
  moreover have "truncated_reason st \<noteq> Some MaxSolutions" if "solutions st = []"
    using st(3) that by (auto simp: within_limits_def)
  ultimately have "solutions st = [] \<Longrightarrow> truncated_reason st = None"
    by (metis DlxTruncatedReason.exhaust option.exhaust)
  then have "solutions st = [] \<longleftrightarrow> L = []" using st(4) by (cases L) auto
  also have "\<dots> \<longleftrightarrow> \<not> (\<exists>S. exact_cover p {} S)" using st(2) by (auto simp: enumerates_def)
  also have "\<dots> \<longleftrightarrow> bitset_solve_first p = None"
    using exact_cover_iff_partition [of p] assms(1,3) bitset_solve_first_cases [of p]
    by (auto simp: solve_all_limited_eq_Ok has_optional_columns_def split: option.splits)
  finally show ?thesis unfolding first .
qed

theorem solvers_agree_witness:
  "(dlx_solve_first sample_problem = Ok (Some None) \<longleftrightarrow> bitset_solve_first sample_problem = None) \<and>
   bitset_solve_first sample_problem = Some [10]"
proof -
  have "\<not> has_optional_columns sample_problem" "bitset_solve_first sample_problem = Some [10]" by code_simp+
  then show ?thesis using solvers_agree [OF sample_first] by simp
qed

end
