(* ===== verification/PieceShapes.thy ===== *)
theory PieceShapes
  imports Pieces
begin

text \<open>
  The shape tables of the seven standard pieces and the registry over them
  (\<open>clearra-piece-registry/src/registry/piece_registry.rs\<close> and \<open>standard\<close>).  A rotation shape is the
  array of its four cells, with \<open>y\<close> upwards.  The tables are proved to be what a clockwise quarter
  turn makes of the previous state, normalised to the origin.
\<close>

section \<open>Shapes\<close>

record ShapeCell =
  cell_x :: i8
  cell_y :: i8

definition cell_at :: "i8 \<Rightarrow> i8 \<Rightarrow> ShapeCell" where
  "cell_at x y = \<lparr>cell_x = x, cell_y = y\<rparr>"

record PieceRotationShape =
  shape_cells :: "ShapeCell list"

definition cells4 :: "ShapeCell list \<Rightarrow> PieceRotationShape" where
  "cells4 cells = \<lparr>shape_cells = cells\<rparr>"

text \<open>The maximum of signed values; \<open>None\<close> for an empty iterator.\<close>

definition max_i8 :: "i8 list \<Rightarrow> i8 option" where
  "max_i8 vs = fold (\<lambda>v best. case best of None \<Rightarrow> Some v | Some b \<Rightarrow> Some (if sint b \<le> sint v then v else b)) vs None"

definition shape_width :: "bool \<Rightarrow> PieceRotationShape \<Rightarrow> unit fault + u8" where
  "shape_width overflow_checks shape =
     (case max_i8 (map cell_x (shape_cells shape)) of
        None \<Rightarrow> Ok 0 | Some max_x \<Rightarrow> arith_i8 overflow_checks (sint max_x + 1))"

definition shape_height :: "bool \<Rightarrow> PieceRotationShape \<Rightarrow> unit fault + u8" where
  "shape_height overflow_checks shape =
     (case max_i8 (map cell_y (shape_cells shape)) of
        None \<Rightarrow> Ok 0 | Some max_y \<Rightarrow> arith_i8 overflow_checks (sint max_y + 1))"

record PieceDefinition =
  def_kind :: PieceKind
  def_rotations :: "PieceRotationShape list"

definition piece_shape :: "PieceDefinition \<Rightarrow> RotationState \<Rightarrow> PieceRotationShape" where
  "piece_shape d rotation = def_rotations d ! unat (quarter_turns rotation)"

section \<open>The standard tables\<close>

definition I_DEFINITION :: PieceDefinition where
  "I_DEFINITION = \<lparr>def_kind = PieceI, def_rotations =
     [cells4 [cell_at 0 0, cell_at 1 0, cell_at 2 0, cell_at 3 0],
      cells4 [cell_at 0 0, cell_at 0 1, cell_at 0 2, cell_at 0 3],
      cells4 [cell_at 0 0, cell_at 1 0, cell_at 2 0, cell_at 3 0],
      cells4 [cell_at 0 0, cell_at 0 1, cell_at 0 2, cell_at 0 3]]\<rparr>"

definition O_DEFINITION :: PieceDefinition where
  "O_DEFINITION = \<lparr>def_kind = PieceO, def_rotations =
     [cells4 [cell_at 0 0, cell_at 1 0, cell_at 0 1, cell_at 1 1],
      cells4 [cell_at 0 0, cell_at 1 0, cell_at 0 1, cell_at 1 1],
      cells4 [cell_at 0 0, cell_at 1 0, cell_at 0 1, cell_at 1 1],
      cells4 [cell_at 0 0, cell_at 1 0, cell_at 0 1, cell_at 1 1]]\<rparr>"

definition T_DEFINITION :: PieceDefinition where
  "T_DEFINITION = \<lparr>def_kind = PieceT, def_rotations =
     [cells4 [cell_at 0 0, cell_at 1 0, cell_at 2 0, cell_at 1 1],
      cells4 [cell_at 0 0, cell_at 0 1, cell_at 0 2, cell_at 1 1],
      cells4 [cell_at 0 1, cell_at 1 1, cell_at 2 1, cell_at 1 0],
      cells4 [cell_at 1 0, cell_at 1 1, cell_at 1 2, cell_at 0 1]]\<rparr>"

definition S_DEFINITION :: PieceDefinition where
  "S_DEFINITION = \<lparr>def_kind = PieceS, def_rotations =
     [cells4 [cell_at 0 0, cell_at 1 0, cell_at 1 1, cell_at 2 1],
      cells4 [cell_at 1 0, cell_at 0 1, cell_at 1 1, cell_at 0 2],
      cells4 [cell_at 0 0, cell_at 1 0, cell_at 1 1, cell_at 2 1],
      cells4 [cell_at 1 0, cell_at 0 1, cell_at 1 1, cell_at 0 2]]\<rparr>"

definition Z_DEFINITION :: PieceDefinition where
  "Z_DEFINITION = \<lparr>def_kind = PieceZ, def_rotations =
     [cells4 [cell_at 1 0, cell_at 2 0, cell_at 0 1, cell_at 1 1],
      cells4 [cell_at 0 0, cell_at 0 1, cell_at 1 1, cell_at 1 2],
      cells4 [cell_at 1 0, cell_at 2 0, cell_at 0 1, cell_at 1 1],
      cells4 [cell_at 0 0, cell_at 0 1, cell_at 1 1, cell_at 1 2]]\<rparr>"

definition J_DEFINITION :: PieceDefinition where
  "J_DEFINITION = \<lparr>def_kind = PieceJ, def_rotations =
     [cells4 [cell_at 0 1, cell_at 0 0, cell_at 1 0, cell_at 2 0],
      cells4 [cell_at 0 0, cell_at 0 1, cell_at 0 2, cell_at 1 2],
      cells4 [cell_at 0 1, cell_at 1 1, cell_at 2 1, cell_at 2 0],
      cells4 [cell_at 0 0, cell_at 1 0, cell_at 1 1, cell_at 1 2]]\<rparr>"

definition L_DEFINITION :: PieceDefinition where
  "L_DEFINITION = \<lparr>def_kind = PieceL, def_rotations =
     [cells4 [cell_at 2 1, cell_at 0 0, cell_at 1 0, cell_at 2 0],
      cells4 [cell_at 0 0, cell_at 0 1, cell_at 0 2, cell_at 1 0],
      cells4 [cell_at 0 1, cell_at 1 1, cell_at 2 1, cell_at 0 0],
      cells4 [cell_at 0 2, cell_at 1 0, cell_at 1 1, cell_at 1 2]]\<rparr>"

definition STANDARD_TETROMINO_DEFINITIONS :: "PieceDefinition list" where
  "STANDARD_TETROMINO_DEFINITIONS =
     [I_DEFINITION, O_DEFINITION, T_DEFINITION, S_DEFINITION, Z_DEFINITION, J_DEFINITION, L_DEFINITION]"

section \<open>The registry\<close>

record PieceRegistry =
  registry_definitions :: "PieceDefinition list"

definition registry_get :: "PieceRegistry \<Rightarrow> PieceKind \<Rightarrow> PieceDefinition option" where
  "registry_get r kind = find (\<lambda>d. def_kind d = kind) (registry_definitions r)"

definition standard_tetromino_registry :: PieceRegistry where
  "standard_tetromino_registry = \<lparr>registry_definitions = STANDARD_TETROMINO_DEFINITIONS\<rparr>"

section \<open>Rotation of the tables\<close>

definition points :: "PieceRotationShape \<Rightarrow> (int \<times> int) set" where
  "points shape = (\<lambda>cell. (sint (cell_x cell), sint (cell_y cell))) ` set (shape_cells shape)"

text \<open>A clockwise quarter turn of a shape \<open>width\<close> columns wide, moved back to the origin.\<close>

definition turn_clockwise :: "int \<Rightarrow> (int \<times> int) set \<Rightarrow> (int \<times> int) set" where
  "turn_clockwise width P = (\<lambda>(x, y). (y, width - 1 - x)) ` P"

definition rotates_well :: "PieceDefinition \<Rightarrow> RotationState \<Rightarrow> bool" where
  "rotates_well d r \<longleftrightarrow>
     (let now = piece_shape d r; turned = piece_shape d (clockwise r);
          w = (case shape_width True now of Inr w \<Rightarrow> uint w | _ \<Rightarrow> 0);
          h = (case shape_height True now of Inr h \<Rightarrow> uint h | _ \<Rightarrow> 0) in
      length (shape_cells now) = 4 \<and> distinct (shape_cells now) \<and>
      Min (fst ` points now) = 0 \<and> Min (snd ` points now) = 0 \<and>
      w = Max (fst ` points now) + 1 \<and> h = Max (snd ` points now) + 1 \<and>
      points turned = turn_clockwise w (points now))"

lemma standard_definitions_rotate:
  "list_all (\<lambda>d. list_all (rotates_well d) RotationState_ALL) STANDARD_TETROMINO_DEFINITIONS"
  by code_simp

text \<open>
  C32 (invariant): the registry knows every piece, and in every rotation state its table has four distinct
  cells at the origin whose width and height the accessors report without overflow; the next state
  clockwise is that shape turned by a quarter.
\<close>

theorem standard_shapes_rotate:
  "\<exists>d. registry_get standard_tetromino_registry k = Some d \<and> def_kind d = k \<and> rotates_well d r"
proof -
  have "registry_get standard_tetromino_registry k \<noteq> None"
    by (cases k) (simp_all add: registry_get_def standard_tetromino_registry_def STANDARD_TETROMINO_DEFINITIONS_def
        I_DEFINITION_def O_DEFINITION_def T_DEFINITION_def S_DEFINITION_def Z_DEFINITION_def J_DEFINITION_def
        L_DEFINITION_def)
  then obtain d where d: "registry_get standard_tetromino_registry k = Some d" by blast
  then have "d \<in> set STANDARD_TETROMINO_DEFINITIONS" "def_kind d = k"
    unfolding registry_get_def standard_tetromino_registry_def by (auto simp: find_Some_iff)
  moreover have "r \<in> set RotationState_ALL" by (cases r) (simp_all add: RotationState_ALL_def)
  ultimately show ?thesis using d standard_definitions_rotate by (auto simp: list_all_iff)
qed

end
