(* ===== verification/PieceSets.thy ===== *)
theory PieceSets
  imports PieceShapes Text "HOL-Library.Multiset" "HOL-Library.Product_Lexorder"
begin

text \<open>
  Custom pieces and mixed piece sets (\<open>clearra-piece-registry/src/custom\<close> and \<open>registry\<close>): the
  validated definition of a custom piece, the operation table derived from it, mixed sets and bags of
  standard and custom pieces, their fingerprints and the bridge that selects the runtime path.
  A \<open>PieceDefinitionId\<close> is its string; accessors of the Rust structs are the record selectors.
\<close>

type_synonym PieceDefinitionId = string

section \<open>Custom pieces\<close>

record CustomPieceRotation =
  rot_state :: RotationState
  rot_cells :: "ShapeCell list"

datatype CustomPieceDefinitionError =
    EmptyId
  | EmptyLabel
  | EmptyCanonicalKey
  | EmptyRotations
  | EmptyRotationCells RotationState
  | DuplicateRotationState RotationState
  | DuplicateRotationCell RotationState ShapeCell
  | InconsistentRotationArea RotationState nat nat

definition validate_id :: "PieceDefinitionId \<Rightarrow> CustomPieceDefinitionError + unit" where
  "validate_id pid = (if trim pid = [] then Err EmptyId else Ok ())"

primrec check_cells ::
  "RotationState \<Rightarrow> ShapeCell list \<Rightarrow> ShapeCell list \<Rightarrow> CustomPieceDefinitionError + unit" where
  "check_cells state [] seen_cells = Ok ()"
| "check_cells state (cell # cells) seen_cells =
     (if cell \<in> set seen_cells then Err (DuplicateRotationCell state cell)
      else check_cells state cells (seen_cells @ [cell]))"

primrec check_rotations ::
  "nat \<Rightarrow> CustomPieceRotation list \<Rightarrow> RotationState list \<Rightarrow> CustomPieceDefinitionError + unit" where
  "check_rotations area [] seen_states = Ok ()"
| "check_rotations area (rotation # rotations) seen_states =
     (if rot_state rotation \<in> set seen_states then Err (DuplicateRotationState (rot_state rotation))
      else if rot_cells rotation = [] then Err (EmptyRotationCells (rot_state rotation))
      else if length (rot_cells rotation) \<noteq> area
        then Err (InconsistentRotationArea (rot_state rotation) area (length (rot_cells rotation)))
      else and_then (check_cells (rot_state rotation) (rot_cells rotation) []) (\<lambda>_.
        check_rotations area rotations (seen_states @ [rot_state rotation])))"

definition validate_rotations :: "CustomPieceRotation list \<Rightarrow> CustomPieceDefinitionError + nat" where
  "validate_rotations rotations =
     (case rotations of
        [] \<Rightarrow> Err EmptyRotations
      | first # _ \<Rightarrow>
          (let area = length (rot_cells first) in
           if area = 0 then Err (EmptyRotationCells (rot_state first))
           else and_then (check_rotations area rotations []) (\<lambda>_. Ok area)))"

record PieceSpawnBounds =
  spawn_min_x :: i8
  spawn_max_x :: i8
  spawn_min_y :: i8
  spawn_max_y :: i8

record PieceSpawnOffset =
  offset_rotation :: RotationState
  offset_x :: i8
  offset_y :: i8

record PieceDisplayMetadata =
  display_color :: "string option"
  display_glyph :: "string option"

datatype PieceSymmetryClass = NoSymmetry | MirrorX | MirrorY | Rotate180 | FullSymmetry

record PieceSourceProvenance =
  source_label :: "string option"
  source_url :: "string option"
  source_license :: "string option"

definition unspecified :: PieceSourceProvenance where
  "unspecified = \<lparr>source_label = None, source_url = None, source_license = None\<rparr>"

record CustomPieceDefinition =
  custom_id :: PieceDefinitionId
  custom_label :: string
  custom_rotations :: "CustomPieceRotation list"
  custom_spawn_bounds :: PieceSpawnBounds
  custom_spawn_offsets :: "PieceSpawnOffset list"
  custom_display :: PieceDisplayMetadata
  custom_area :: nat
  custom_symmetry :: PieceSymmetryClass
  custom_source_provenance :: PieceSourceProvenance
  custom_canonical_key :: string

definition custom_piece_new ::
  "PieceDefinitionId \<Rightarrow> string \<Rightarrow> CustomPieceRotation list \<Rightarrow> PieceSpawnBounds \<Rightarrow> PieceDisplayMetadata \<Rightarrow>
   PieceSymmetryClass \<Rightarrow> string \<Rightarrow> CustomPieceDefinitionError + CustomPieceDefinition" where
  "custom_piece_new pid label rotations bounds display symmetry canonical_key =
     and_then (validate_id pid) (\<lambda>_.
     if trim label = [] then Err EmptyLabel
     else if trim canonical_key = [] then Err EmptyCanonicalKey
     else and_then (validate_rotations rotations) (\<lambda>area.
       Ok \<lparr>custom_id = pid, custom_label = label, custom_rotations = rotations,
           custom_spawn_bounds = bounds, custom_spawn_offsets = [], custom_display = display,
           custom_area = area, custom_symmetry = symmetry, custom_source_provenance = unspecified,
           custom_canonical_key = canonical_key\<rparr>))"

definition cells_by_rotation :: "CustomPieceDefinition \<Rightarrow> (RotationState \<times> ShapeCell list) list" where
  "cells_by_rotation d = map (\<lambda>rotation. (rot_state rotation, rot_cells rotation)) (custom_rotations d)"

section \<open>Bounding boxes\<close>

definition i8_min :: "i8 \<Rightarrow> i8 \<Rightarrow> i8" where
  "i8_min a b = (if sint b < sint a then b else a)"

definition i8_max :: "i8 \<Rightarrow> i8 \<Rightarrow> i8" where
  "i8_max a b = (if sint b < sint a then a else b)"

record CustomOperationBounds =
  bounds_min_x :: i8
  bounds_max_x :: i8
  bounds_min_y :: i8
  bounds_max_y :: i8

definition grow_bounds :: "CustomOperationBounds \<Rightarrow> ShapeCell \<Rightarrow> CustomOperationBounds" where
  "grow_bounds b cell =
     \<lparr>bounds_min_x = i8_min (bounds_min_x b) (cell_x cell),
      bounds_max_x = i8_max (bounds_max_x b) (cell_x cell),
      bounds_min_y = i8_min (bounds_min_y b) (cell_y cell),
      bounds_max_y = i8_max (bounds_max_y b) (cell_y cell)\<rparr>"

definition cell_bounds :: "ShapeCell \<Rightarrow> CustomOperationBounds" where
  "cell_bounds first =
     \<lparr>bounds_min_x = cell_x first, bounds_max_x = cell_x first,
      bounds_min_y = cell_y first, bounds_max_y = cell_y first\<rparr>"

section \<open>Operation tables\<close>

datatype CustomOperationTableSchemaError =
    EmptyOperationCells
  | OperationAreaMismatch RotationState nat nat
  | TooManyOperations nat

definition bounds_from_cells :: "ShapeCell list \<Rightarrow> CustomOperationTableSchemaError + CustomOperationBounds" where
  "bounds_from_cells cells =
     (case cells of
        [] \<Rightarrow> Err EmptyOperationCells
      | first # _ \<Rightarrow> Ok (foldl grow_bounds (cell_bounds first) cells))"

text \<open>The two \<open>i8\<close> operations of \<open>max - min + 1\<close> are separate; each can overflow.\<close>

definition bounds_width :: "bool \<Rightarrow> CustomOperationBounds \<Rightarrow> unit fault + u8" where
  "bounds_width overflow_checks b =
     and_then (arith_i8 overflow_checks (sint (bounds_max_x b) - sint (bounds_min_x b))) (\<lambda>d.
       arith_i8 overflow_checks (sint d + 1))"

definition cell_key :: "ShapeCell \<Rightarrow> int \<times> int" where
  "cell_key cell = (sint (cell_x cell), sint (cell_y cell))"

definition stable_operation_key :: "PieceDefinitionId \<Rightarrow> RotationState \<Rightarrow> ShapeCell list \<Rightarrow> string" where
  "stable_operation_key pid state cells =
     pid @ '':r'' @ show_nat (unat (quarter_turns state)) @ '':'' @
     join (CHR '';'')
       (map (\<lambda>cell. show_int (sint (cell_x cell)) @ '','' @ show_int (sint (cell_y cell)))
         (sort_key cell_key cells))"

record CustomOperationSchema =
  cos_operation_id :: u16
  cos_piece_id :: PieceDefinitionId
  cos_rotation_state :: RotationState
  cos_cells :: "ShapeCell list"
  cos_bounds :: CustomOperationBounds
  cos_piece_area :: nat
  cos_stable_key :: string

definition operation_schema_new ::
  "u16 \<Rightarrow> PieceDefinitionId \<Rightarrow> RotationState \<Rightarrow> ShapeCell list \<Rightarrow> nat \<Rightarrow>
   CustomOperationTableSchemaError + CustomOperationSchema" where
  "operation_schema_new oid pid state cells expected_area =
     (if length cells \<noteq> expected_area then Err (OperationAreaMismatch state expected_area (length cells))
      else and_then (bounds_from_cells cells) (\<lambda>bounds.
        Ok \<lparr>cos_operation_id = oid, cos_piece_id = pid, cos_rotation_state = state, cos_cells = cells,
            cos_bounds = bounds, cos_piece_area = expected_area,
            cos_stable_key = stable_operation_key pid state cells\<rparr>))"

record CustomOperationTableSchema =
  table_piece_id :: PieceDefinitionId
  table_piece_area :: nat
  table_schema_version :: u32
  table_operations :: "CustomOperationSchema list"

definition CUSTOM_OPERATION_TABLE_SCHEMA_VERSION :: u32 where
  "CUSTOM_OPERATION_TABLE_SCHEMA_VERSION = 1"

definition operation_for ::
  "CustomPieceDefinition \<Rightarrow> nat \<Rightarrow> nat \<times> CustomPieceRotation \<Rightarrow>
   CustomOperationTableSchemaError + CustomOperationSchema" where
  "operation_for d operation_count entry =
     (case entry of (index, rotation) \<Rightarrow>
       if index > 65535 then Err (TooManyOperations operation_count)
       else operation_schema_new (word_of_nat index) (custom_id d) (rot_state rotation) (rot_cells rotation)
         (custom_area d))"

definition from_definition ::
  "CustomPieceDefinition \<Rightarrow> CustomOperationTableSchemaError + CustomOperationTableSchema" where
  "from_definition d =
     (let rotations = sort_key (\<lambda>rotation. quarter_turns (rot_state rotation)) (custom_rotations d) in
      and_then (try_map (operation_for d (length rotations)) (enumerate 0 rotations)) (\<lambda>operations.
        Ok \<lparr>table_piece_id = custom_id d, table_piece_area = custom_area d,
            table_schema_version = CUSTOM_OPERATION_TABLE_SCHEMA_VERSION, table_operations = operations\<rparr>))"

definition table_rotation_states :: "CustomOperationTableSchema \<Rightarrow> RotationState list" where
  "table_rotation_states t = map cos_rotation_state (table_operations t)"

section \<open>Fingerprints\<close>

definition fnv_offset :: u64 where "fnv_offset = 0xcbf29ce484222325"

definition mix_byte :: "u64 \<Rightarrow> u8 \<Rightarrow> u64" where
  "mix_byte hash byte = (hash XOR ucast byte) * 0x100000001b3"

definition mix_str :: "u64 \<Rightarrow> string \<Rightarrow> u64" where
  "mix_str hash value = foldl mix_byte hash (map (\<lambda>ch. word_of_nat (of_char ch)) value)"

definition mix_u64 :: "u64 \<Rightarrow> u64 \<Rightarrow> u64" where
  "mix_u64 hash value = foldl mix_byte hash (map (\<lambda>i. ucast (drop_bit (8 * i) value)) [0..<8])"

definition mix_i8 :: "u64 \<Rightarrow> i8 \<Rightarrow> u64" where
  "mix_i8 hash value = mix_u64 hash (scast value)"

definition mix_cell :: "u64 \<Rightarrow> ShapeCell \<Rightarrow> u64" where
  "mix_cell hash cell = mix_i8 (mix_i8 hash (cell_x cell)) (cell_y cell)"

definition mix_operation :: "u64 \<Rightarrow> CustomOperationSchema \<Rightarrow> u64" where
  "mix_operation hash operation =
     foldl mix_cell
       (mix_u64 (mix_u64 hash (ucast (cos_operation_id operation)))
         (ucast (quarter_turns (cos_rotation_state operation))))
       (cos_cells operation)"

definition piece_definition_fingerprint :: "CustomOperationTableSchema \<Rightarrow> u64" where
  "piece_definition_fingerprint t =
     foldl mix_operation
       (mix_u64 (mix_u64 (mix_str fnv_offset (table_piece_id t)) (word_of_nat (table_piece_area t)))
         (ucast (table_schema_version t)))
       (table_operations t)"

definition piece_definition_id_fingerprint :: "PieceDefinitionId list \<Rightarrow> u64" where
  "piece_definition_id_fingerprint stable_piece_ids =
     foldl (\<lambda>hash pid. mix_u64 (mix_str hash pid) 0xff) (mix_str fnv_offset ''piece-definition-ids:v1'')
       (sort stable_piece_ids)"

definition piece_area_multiset_fingerprint :: "nat list \<Rightarrow> u64" where
  "piece_area_multiset_fingerprint areas =
     foldl (\<lambda>hash area. mix_u64 hash (word_of_nat area)) (mix_str fnv_offset ''piece-area-multiset:v1'')
       (sort areas)"

definition piece_set_profile_id :: "string \<Rightarrow> u64" where
  "piece_set_profile_id piece_set_id =
     (let hash = mix_str (mix_str 0xcbf29ce484222325 ''piece-set-profile:v1'') piece_set_id in
      if hash = 0 then 1 else hash)"

section \<open>Mixed piece sets\<close>

datatype MixedPieceSetEntry = StandardEntry PieceKind | CustomEntry CustomPieceDefinition

definition standard_piece_definition_id :: "PieceKind \<Rightarrow> PieceDefinitionId" where
  "standard_piece_definition_id piece = ''std:'' @ [as_ascii piece]"

primrec stable_id :: "MixedPieceSetEntry \<Rightarrow> PieceDefinitionId" where
  "stable_id (StandardEntry piece) = standard_piece_definition_id piece"
| "stable_id (CustomEntry d) = custom_id d"

primrec entry_area :: "MixedPieceSetEntry \<Rightarrow> nat" where
  "entry_area (StandardEntry _) = 4"
| "entry_area (CustomEntry d) = custom_area d"

primrec is_custom :: "MixedPieceSetEntry \<Rightarrow> bool" where
  "is_custom (StandardEntry _) = False"
| "is_custom (CustomEntry _) = True"

datatype MixedPieceSetError =
    EmptyPieceSetId
  | EmptyPieceSetLabel
  | EmptyPieceSet
  | DuplicateStablePieceId string

record MixedPieceSet =
  set_id :: string
  set_label :: string
  set_entries :: "MixedPieceSetEntry list"

primrec check_stable_ids ::
  "MixedPieceSetEntry list \<Rightarrow> PieceDefinitionId list \<Rightarrow> MixedPieceSetError + unit" where
  "check_stable_ids [] stable_ids = Ok ()"
| "check_stable_ids (entry # entries) stable_ids =
     (if stable_id entry \<in> set stable_ids then Err (DuplicateStablePieceId (stable_id entry))
      else check_stable_ids entries (stable_ids @ [stable_id entry]))"

definition mixed_set_new ::
  "string \<Rightarrow> string \<Rightarrow> MixedPieceSetEntry list \<Rightarrow> MixedPieceSetError + MixedPieceSet" where
  "mixed_set_new sid label entries =
     (if trim sid = [] then Err EmptyPieceSetId
      else if trim label = [] then Err EmptyPieceSetLabel
      else if entries = [] then Err EmptyPieceSet
      else and_then (check_stable_ids entries []) (\<lambda>_.
        Ok \<lparr>set_id = sid, set_label = label, set_entries = entries\<rparr>))"

definition standard_plus_custom ::
  "string \<Rightarrow> string \<Rightarrow> CustomPieceDefinition list \<Rightarrow> MixedPieceSetError + MixedPieceSet" where
  "standard_plus_custom sid label custom_pieces =
     mixed_set_new sid label (map StandardEntry STANDARD_TETROMINOES @ map CustomEntry custom_pieces)"

definition contains_custom :: "MixedPieceSet \<Rightarrow> bool" where
  "contains_custom ps = list_ex is_custom (set_entries ps)"

definition custom_piece_count :: "MixedPieceSet \<Rightarrow> nat" where
  "custom_piece_count ps = length (filter is_custom (set_entries ps))"

definition standard_fast_path_compatible :: "MixedPieceSet \<Rightarrow> bool" where
  "standard_fast_path_compatible ps = (\<not> contains_custom ps)"

definition stable_piece_ids :: "MixedPieceSet \<Rightarrow> PieceDefinitionId list" where
  "stable_piece_ids ps = map stable_id (set_entries ps)"

section \<open>Bags\<close>

record MixedBagEntry =
  bag_piece_id :: PieceDefinitionId
  bag_multiplicity :: nat
  bag_weight :: u32

record BagBoundaryModels =
  fixed_sequence :: bool
  observed_window :: bool
  bag_aligned_pattern :: bool

definition all_mvp3_models :: BagBoundaryModels where
  "all_mvp3_models = \<lparr>fixed_sequence = True, observed_window = True, bag_aligned_pattern = True\<rparr>"

datatype MixedBagProfileError =
    EmptyBag
  | UnknownBagPieceId PieceDefinitionId
  | DuplicateBagPieceId PieceDefinitionId
  | ZeroMultiplicity PieceDefinitionId
  | ZeroWeight PieceDefinitionId

record MixedBagProfile =
  bag_id :: string
  bag_piece_set_id :: string
  bag_entries :: "MixedBagEntry list"
  bag_boundary_models :: BagBoundaryModels

primrec check_bag_entries ::
  "PieceDefinitionId set \<Rightarrow> MixedBagEntry list \<Rightarrow> PieceDefinitionId set \<Rightarrow> MixedBagProfileError + unit" where
  "check_bag_entries stable_ids [] seen = Ok ()"
| "check_bag_entries stable_ids (entry # entries) seen =
     (if bag_piece_id entry \<notin> stable_ids then Err (UnknownBagPieceId (bag_piece_id entry))
      else if bag_multiplicity entry = 0 then Err (ZeroMultiplicity (bag_piece_id entry))
      else if bag_weight entry = 0 then Err (ZeroWeight (bag_piece_id entry))
      else if bag_piece_id entry \<in> seen then Err (DuplicateBagPieceId (bag_piece_id entry))
      else check_bag_entries stable_ids entries (insert (bag_piece_id entry) seen))"

definition bag_profile_new ::
  "string \<Rightarrow> MixedPieceSet \<Rightarrow> MixedBagEntry list \<Rightarrow> BagBoundaryModels \<Rightarrow>
   MixedBagProfileError + MixedBagProfile" where
  "bag_profile_new bid ps entries models =
     (if entries = [] then Err EmptyBag
      else and_then (check_bag_entries (set (stable_piece_ids ps)) entries {}) (\<lambda>_.
        Ok \<lparr>bag_id = bid, bag_piece_set_id = set_id ps, bag_entries = entries, bag_boundary_models = models\<rparr>))"

text \<open>The source sums in \<open>usize\<close>; a bag whose multiplicities add up to more than that is outside the model.\<close>

definition bag_size :: "MixedBagProfile \<Rightarrow> nat" where
  "bag_size b = sum_list (map bag_multiplicity (bag_entries b))"

text \<open>A \<open>u32\<close> sum: it panics on overflow with overflow checks and wraps otherwise.\<close>

definition add_weight :: "bool \<Rightarrow> unit fault + u32 \<Rightarrow> u32 \<Rightarrow> unit fault + u32" where
  "add_weight overflow_checks acc w =
     and_then acc (\<lambda>t.
       if overflow_checks then ok_or Panic (checked_add t w) else Ok (t + w))"

definition total_weight :: "bool \<Rightarrow> MixedBagProfile \<Rightarrow> unit fault + u32" where
  "total_weight overflow_checks b =
     foldl (add_weight overflow_checks) (Ok 0) (map bag_weight (bag_entries b))"

definition mixed_bag_schema_validates :: "bool \<Rightarrow> MixedBagProfile \<Rightarrow> unit fault + bool" where
  "mixed_bag_schema_validates overflow_checks b =
     (if bag_entries b \<noteq> [] \<and> bag_size b > 0
      then and_then (total_weight overflow_checks b) (\<lambda>w. Ok (w > 0)) else Ok False)"

section \<open>The bridge to the runtime\<close>

datatype GenericOperationTableKind = StandardTetromino | CustomPiece

record StandardTetrominoOperationTable =
  std_table_version :: u32
  std_operation_count :: u32
  std_rotation_state_count :: u8

definition standard_operation_table :: StandardTetrominoOperationTable where
  "standard_operation_table =
     \<lparr>std_table_version = 1, std_operation_count = 28, std_rotation_state_count = 4\<rparr>"

record GenericOperationTableDescriptor =
  desc_schema_version :: u32
  desc_table_kind :: GenericOperationTableKind
  desc_piece_definition_id :: "PieceDefinitionId option"
  desc_fingerprint :: u64
  desc_piece_area :: nat
  desc_rotation_state_count :: u8
  desc_operation_count :: u32
  desc_operation_table_version :: u32
  desc_candidate_guard :: "string option"
  desc_reachability_guard :: "string option"

definition descriptor_from_standard ::
  "StandardTetrominoOperationTable \<Rightarrow> GenericOperationTableDescriptor" where
  "descriptor_from_standard table =
     \<lparr>desc_schema_version = 1, desc_table_kind = StandardTetromino, desc_piece_definition_id = None,
      desc_fingerprint = 0, desc_piece_area = 4,
      desc_rotation_state_count = std_rotation_state_count table,
      desc_operation_count = std_operation_count table,
      desc_operation_table_version = std_table_version table,
      desc_candidate_guard = None, desc_reachability_guard = None\<rparr>"

definition descriptor_from_custom_table ::
  "CustomOperationTableSchema \<Rightarrow> GenericOperationTableDescriptor" where
  "descriptor_from_custom_table t =
     \<lparr>desc_schema_version = 1, desc_table_kind = CustomPiece,
      desc_piece_definition_id = Some (table_piece_id t),
      desc_fingerprint = piece_definition_fingerprint t, desc_piece_area = table_piece_area t,
      desc_rotation_state_count = word_of_nat (length (table_rotation_states t)),
      desc_operation_count = word_of_nat (length (table_operations t)),
      desc_operation_table_version = table_schema_version t,
      desc_candidate_guard = Some ''custom_candidate_runtime_unsupported'',
      desc_reachability_guard = Some ''custom_reachability_runtime_unsupported''\<rparr>"

datatype PieceRegistryRuntimePath = StandardFastPath | UnsupportedExtension

record PieceRegistryBridge =
  br_piece_set_id :: string
  br_stable_piece_ids :: "PieceDefinitionId list"
  br_piece_area_multiset :: "nat list"
  br_custom_operation_tables :: "CustomOperationTableSchema list"
  br_generic_operation_descriptors :: "GenericOperationTableDescriptor list"
  br_runtime_path :: PieceRegistryRuntimePath
  br_id_fingerprint :: u64
  br_area_fingerprint :: u64
  br_profile_id :: u64
  br_unsupported_reason :: "string option"
  br_mixed_unsupported_reason :: "string option"

primrec custom_definition :: "MixedPieceSetEntry \<Rightarrow> CustomPieceDefinition option" where
  "custom_definition (CustomEntry d) = Some d"
| "custom_definition (StandardEntry _) = None"

definition bridge_from_mixed_piece_set ::
  "MixedPieceSet \<Rightarrow> CustomOperationTableSchemaError + PieceRegistryBridge" where
  "bridge_from_mixed_piece_set ps =
     (let ids = stable_piece_ids ps; areas = map entry_area (set_entries ps) in
      and_then (try_map from_definition (List.map_filter custom_definition (set_entries ps))) (\<lambda>tables.
        let path = (if tables = [] then StandardFastPath else UnsupportedExtension) in
        Ok \<lparr>br_piece_set_id = set_id ps, br_stable_piece_ids = ids, br_piece_area_multiset = areas,
            br_custom_operation_tables = tables,
            br_generic_operation_descriptors =
              (if tables = [] then [descriptor_from_standard standard_operation_table]
               else map descriptor_from_custom_table tables),
            br_runtime_path = path,
            br_id_fingerprint = piece_definition_id_fingerprint ids,
            br_area_fingerprint = piece_area_multiset_fingerprint areas,
            br_profile_id = piece_set_profile_id (set_id ps),
            br_unsupported_reason =
              (if path = UnsupportedExtension then Some ''custom_piece_runtime_not_connected'' else None),
            br_mixed_unsupported_reason =
              (if path = UnsupportedExtension then Some ''mixed_piece_runtime_not_connected'' else None)\<rparr>))"

section \<open>Valid custom pieces\<close>

definition wf_rotation :: "nat \<Rightarrow> CustomPieceRotation \<Rightarrow> bool" where
  "wf_rotation area rotation \<longleftrightarrow>
     rot_cells rotation \<noteq> [] \<and> length (rot_cells rotation) = area \<and> distinct (rot_cells rotation)"

definition wf_rotations :: "CustomPieceRotation list \<Rightarrow> bool" where
  "wf_rotations rotations \<longleftrightarrow>
     rotations \<noteq> [] \<and> distinct (map rot_state rotations) \<and>
     list_all (wf_rotation (length (rot_cells (hd rotations)))) rotations"

definition wf_custom :: "CustomPieceDefinition \<Rightarrow> bool" where
  "wf_custom d \<longleftrightarrow>
     trim (custom_id d) \<noteq> [] \<and> trim (custom_label d) \<noteq> [] \<and> trim (custom_canonical_key d) \<noteq> [] \<and>
     wf_rotations (custom_rotations d) \<and> list_all (wf_rotation (custom_area d)) (custom_rotations d)"

lemma check_cells_ok: "check_cells state cells seen = Ok u \<longleftrightarrow> distinct cells \<and> set cells \<inter> set seen = {}"
  by (induction cells arbitrary: seen) auto

lemma check_rotations_ok:
  "check_rotations area rotations seen = Ok u \<longleftrightarrow>
     distinct (map rot_state rotations) \<and> rot_state ` set rotations \<inter> set seen = {} \<and>
     list_all (wf_rotation area) rotations"
  by (induction rotations arbitrary: seen) (auto simp: and_then_eq_Ok_iff check_cells_ok wf_rotation_def)

lemma validate_rotations_ok:
  "validate_rotations rotations = Ok area \<longleftrightarrow> wf_rotations rotations \<and> area = length (rot_cells (hd rotations))"
  by (cases rotations)
    (auto simp: validate_rotations_def wf_rotations_def and_then_eq_Ok_iff check_rotations_ok check_cells_ok
        wf_rotation_def Let_def)

lemma validate_id_ok: "validate_id pid = Ok u \<longleftrightarrow> trim pid \<noteq> []"
  by (simp add: validate_id_def)

lemma custom_piece_new_ok:
  "custom_piece_new pid label rotations bounds display symmetry key = Ok d \<longleftrightarrow>
     trim pid \<noteq> [] \<and> trim label \<noteq> [] \<and> trim key \<noteq> [] \<and> wf_rotations rotations \<and>
     d = \<lparr>custom_id = pid, custom_label = label, custom_rotations = rotations,
          custom_spawn_bounds = bounds, custom_spawn_offsets = [], custom_display = display,
          custom_area = length (rot_cells (hd rotations)), custom_symmetry = symmetry,
          custom_source_provenance = unspecified, custom_canonical_key = key\<rparr>"
  by (auto simp: custom_piece_new_def and_then_eq_Ok_iff validate_id_ok validate_rotations_ok)

lemma custom_piece_new_wf: "custom_piece_new pid label rotations bounds display symmetry key = Ok d \<Longrightarrow> wf_custom d"
  by (simp add: custom_piece_new_ok wf_custom_def wf_rotations_def)

section \<open>Bounding boxes are tight\<close>

definition tight_bounds :: "CustomOperationBounds \<Rightarrow> ShapeCell list \<Rightarrow> bool" where
  "tight_bounds b cells \<longleftrightarrow>
     sint (bounds_min_x b) = Min (set (map (\<lambda>cell. sint (cell_x cell)) cells)) \<and>
     sint (bounds_max_x b) = Max (set (map (\<lambda>cell. sint (cell_x cell)) cells)) \<and>
     sint (bounds_min_y b) = Min (set (map (\<lambda>cell. sint (cell_y cell)) cells)) \<and>
     sint (bounds_max_y b) = Max (set (map (\<lambda>cell. sint (cell_y cell)) cells))"

lemma sint_i8_min_max [simp]:
  "sint (i8_min a b) = min (sint a) (sint b)" "sint (i8_max a b) = max (sint a) (sint b)"
  by (auto simp: i8_min_def i8_max_def)

lemma grown_bounds:
  assumes "tight_bounds b seen" "seen \<noteq> []"
  shows "tight_bounds (foldl grow_bounds b cells) (seen @ cells)"
  using assms
proof (induction cells arbitrary: b seen)
  case (Cons cell cells)
  have "tight_bounds (grow_bounds b cell) (seen @ [cell])"
    using Cons.prems by (auto simp: tight_bounds_def grow_bounds_def min.commute max.commute)
  from Cons.IH [OF this] show ?case by simp
qed simp

lemma bounds_from_cells_ok:
  "bounds_from_cells cells = Ok b \<Longrightarrow> tight_bounds b cells"
  "cells \<noteq> [] \<Longrightarrow> \<exists>b. bounds_from_cells cells = Ok b"
proof -
  show "\<exists>b. bounds_from_cells cells = Ok b" if "cells \<noteq> []"
    using that by (cases cells) (auto simp: bounds_from_cells_def)
  assume *: "bounds_from_cells cells = Ok b"
  then obtain first rest where c: "cells = first # rest" by (cases cells) (auto simp: bounds_from_cells_def)
  have "tight_bounds (cell_bounds first) [first]" by (simp add: tight_bounds_def cell_bounds_def)
  from grown_bounds [OF this, of cells] show "tight_bounds b cells"
    using * by (simp add: c bounds_from_cells_def tight_bounds_def)
qed

section \<open>The operation table of a valid piece\<close>

lemma operation_schema_new_ok:
  "operation_schema_new oid pid state cells area = Ok op \<longleftrightarrow>
     length cells = area \<and> (\<exists>b. bounds_from_cells cells = Ok b \<and>
       op = \<lparr>cos_operation_id = oid, cos_piece_id = pid, cos_rotation_state = state, cos_cells = cells,
             cos_bounds = b, cos_piece_area = area, cos_stable_key = stable_operation_key pid state cells\<rparr>)"
  by (auto simp: operation_schema_new_def and_then_eq_Ok_iff)

lemma distinct_states_length: "distinct (states :: RotationState list) \<Longrightarrow> length states \<le> 4"
proof -
  assume "distinct states"
  then have "length states = card (set states)" by (simp add: distinct_card)
  also have "\<dots> \<le> card (set RotationState_ALL)"
    by (rule card_mono) (auto simp: RotationState_ALL_def intro: RotationState.exhaust)
  also have "\<dots> = 4" by (simp add: RotationState_ALL_def)
  finally show ?thesis .
qed

lemma try_map_total: "(\<And>x. x \<in> set xs \<Longrightarrow> \<exists>y. f x = Ok y) \<Longrightarrow> \<exists>ys. try_map f xs = Ok ys"
  by (induction xs) (auto, force)

lemma list_all2_map_eq: "list_all2 P xs ys \<Longrightarrow> (\<And>x y. P x y \<Longrightarrow> g y = f x) \<Longrightarrow> map g ys = map f xs"
  by (induction rule: list_all2_induct) auto

lemma list_all2_list_all: "list_all2 P xs ys \<Longrightarrow> (\<And>x y. P x y \<Longrightarrow> Q y) \<Longrightarrow> list_all Q ys"
  by (induction rule: list_all2_induct) auto

definition wf_table :: "CustomPieceDefinition \<Rightarrow> CustomOperationTableSchema \<Rightarrow> bool" where
  "wf_table d t \<longleftrightarrow>
     table_piece_id t = custom_id d \<and> table_piece_area t = custom_area d \<and>
     map cos_operation_id (table_operations t) = map word_of_nat [0..<length (custom_rotations d)] \<and>
     length (table_operations t) \<le> 4 \<and>
     sorted (map (\<lambda>op. quarter_turns (cos_rotation_state op)) (table_operations t)) \<and>
     mset (map (\<lambda>op. (cos_rotation_state op, cos_cells op)) (table_operations t)) = mset (cells_by_rotation d) \<and>
     list_all (\<lambda>op. tight_bounds (cos_bounds op) (cos_cells op) \<and> length (cos_cells op) = custom_area d)
       (table_operations t)"

lemma operation_for_ok:
  assumes "operation_for d n e = Ok op"
  shows "cos_operation_id op = word_of_nat (fst e)" "cos_rotation_state op = rot_state (snd e)"
    "cos_cells op = rot_cells (snd e)" "tight_bounds (cos_bounds op) (cos_cells op)"
    "length (cos_cells op) = custom_area d"
  using assms by (auto simp: operation_for_def operation_schema_new_ok bounds_from_cells_ok split: if_splits prod.splits)

lemma from_definition_wf:
  assumes d: "wf_custom d"
  shows "\<exists>t. from_definition d = Ok t \<and> wf_table d t"
proof -
  define rs where "rs = sort_key (\<lambda>rotation. quarter_turns (rot_state rotation)) (custom_rotations d)"
  have set_rs: "set rs = set (custom_rotations d)" and len: "length rs = length (custom_rotations d)"
    by (simp_all add: rs_def)
  have "length rs \<le> 4"
    using distinct_states_length [of "map rot_state (custom_rotations d)"] d
    by (simp add: len wf_custom_def wf_rotations_def)
  moreover have "\<exists>op. operation_for d (length rs) (i, rotation) = Ok op"
    if "i < 4" "rotation \<in> set (custom_rotations d)" for i rotation
  proof -
    have "wf_rotation (custom_area d) rotation" using d that(2) by (simp add: wf_custom_def list_all_iff)
    then show ?thesis
      using that(1) bounds_from_cells_ok(2) by (auto simp: operation_for_def operation_schema_new_ok wf_rotation_def)
  qed
  ultimately have "\<exists>ops. try_map (operation_for d (length rs)) (enumerate 0 rs) = Ok ops"
    by (intro try_map_total) (auto simp: in_set_enumerate_eq set_rs [symmetric])
  then obtain ops where ops: "try_map (operation_for d (length rs)) (enumerate 0 rs) = Ok ops" by blast
  then have all: "list_all2 (\<lambda>e op. operation_for d (length rs) e = Ok op) (enumerate 0 rs) ops"
    by (simp add: try_map_eq_Ok_iff)
  have "map cos_operation_id ops = map (\<lambda>e. word_of_nat (fst e)) (enumerate 0 rs)"
    by (rule list_all2_map_eq [OF all]) (rule operation_for_ok)
  also have "\<dots> = map word_of_nat (map fst (enumerate 0 rs))" by (simp only: map_map comp_def)
  finally have ids: "map cos_operation_id ops = map word_of_nat [0..<length rs]"
    by (simp only: map_fst_enumerate) simp
  have "map (\<lambda>op. (cos_rotation_state op, cos_cells op)) ops =
      map (\<lambda>e. (rot_state (snd e), rot_cells (snd e))) (enumerate 0 rs)"
    by (rule list_all2_map_eq [OF all]) (simp add: operation_for_ok)
  also have "\<dots> = map (\<lambda>r. (rot_state r, rot_cells r)) (map snd (enumerate 0 rs))" by (simp only: map_map comp_def)
  finally have cells: "map (\<lambda>op. (cos_rotation_state op, cos_cells op)) ops = map (\<lambda>r. (rot_state r, rot_cells r)) rs"
    by (simp only: map_snd_enumerate)
  have "map (\<lambda>op. quarter_turns (cos_rotation_state op)) ops = map (quarter_turns \<circ> fst) (map (\<lambda>op. (cos_rotation_state op, cos_cells op)) ops)"
    by simp
  also have "\<dots> = map (\<lambda>r. quarter_turns (rot_state r)) rs" unfolding cells by simp
  finally have turns: "sorted (map (\<lambda>op. quarter_turns (cos_rotation_state op)) ops)"
    unfolding rs_def by (simp only: sorted_sort_key)
  have "mset (map (\<lambda>r. (rot_state r, rot_cells r)) rs) = mset (cells_by_rotation d)"
    unfolding cells_by_rotation_def mset_map rs_def by simp
  moreover have "list_all (\<lambda>op. tight_bounds (cos_bounds op) (cos_cells op) \<and> length (cos_cells op) = custom_area d) ops"
    by (rule list_all2_list_all [OF all]) (simp add: operation_for_ok(4,5))
  moreover have "length ops \<le> 4" using list_all2_lengthD [OF all] \<open>length rs \<le> 4\<close> by simp
  ultimately have "wf_table d \<lparr>table_piece_id = custom_id d, table_piece_area = custom_area d,
      table_schema_version = CUSTOM_OPERATION_TABLE_SCHEMA_VERSION, table_operations = ops\<rparr>"
    using ids cells turns by (simp add: wf_table_def len)
  then show ?thesis using ops by (simp add: from_definition_def rs_def [symmetric] Let_def)
qed

section \<open>Mixed sets and bags\<close>

lemma check_stable_ids_ok:
  "check_stable_ids entries seen = Ok u \<longleftrightarrow> distinct (map stable_id entries) \<and> stable_id ` set entries \<inter> set seen = {}"
  by (induction entries arbitrary: seen) auto

lemma mixed_set_new_ok:
  "mixed_set_new sid label entries = Ok ps \<longleftrightarrow>
     trim sid \<noteq> [] \<and> trim label \<noteq> [] \<and> entries \<noteq> [] \<and> distinct (map stable_id entries) \<and>
     ps = \<lparr>set_id = sid, set_label = label, set_entries = entries\<rparr>"
  by (auto simp: mixed_set_new_def and_then_eq_Ok_iff check_stable_ids_ok)

definition wf_bag_entry :: "MixedBagEntry \<Rightarrow> bool" where
  "wf_bag_entry entry \<longleftrightarrow> bag_multiplicity entry > 0 \<and> bag_weight entry \<noteq> 0"

lemma check_bag_entries_ok:
  "check_bag_entries ids entries seen = Ok u \<longleftrightarrow>
     list_all wf_bag_entry entries \<and> distinct (map bag_piece_id entries) \<and>
     bag_piece_id ` set entries \<subseteq> ids - seen"
  by (induction entries arbitrary: seen) (auto simp: wf_bag_entry_def)

lemma bag_profile_new_ok:
  "bag_profile_new bid ps entries models = Ok b \<longleftrightarrow>
     entries \<noteq> [] \<and> list_all wf_bag_entry entries \<and> distinct (map bag_piece_id entries) \<and>
     bag_piece_id ` set entries \<subseteq> set (stable_piece_ids ps) \<and>
     b = \<lparr>bag_id = bid, bag_piece_set_id = set_id ps, bag_entries = entries, bag_boundary_models = models\<rparr>"
  by (auto simp: bag_profile_new_def and_then_eq_Ok_iff check_bag_entries_ok)

lemma add_weights:
  "foldl (add_weight True) (Ok acc) ws =
     (if unat acc + sum_list (map unat ws) < 2 ^ 32 then Ok (acc + sum_list ws) else Err Panic)"
proof (induction ws arbitrary: acc)
  case Nil
  then show ?case using unat_lt2p [of acc] by simp
next
  case (Cons w ws)
  have err: "foldl (add_weight True) (Err Panic) vs = Err Panic" for vs
    by (induction vs) (simp_all add: add_weight_def)
  show ?case
  proof (cases "unat acc + unat w < 2 ^ 32")
    case True
    then have "unat (acc + w) = unat acc + unat w" by (simp add: unat_word_ariths)
    then show ?thesis using True Cons.IH [of "acc + w"] by (simp add: add_weight_def checked_add_def add.assoc)
  next
    case False
    then have "add_weight True (Ok acc) w = Err Panic" by (simp add: add_weight_def checked_add_def)
    then show ?thesis using False by (simp add: err)
  qed
qed

lemma add_weights_wrap: "foldl (add_weight False) (Ok acc) ws = Ok (acc + sum_list ws)"
  by (induction ws arbitrary: acc) (simp_all add: add_weight_def add.assoc)

section \<open>Widths and paths\<close>

lemma i8_span:
  fixes lo hi :: i8
  assumes "sint lo \<le> sint hi"
  defines "span \<equiv> sint hi - sint lo + 1"
  shows "and_then (arith_i8 True (sint hi - sint lo)) (\<lambda>d. arith_i8 True (sint d + 1)) =
      (if span \<le> 127 then Ok (word_of_int span) else Err Panic)"
    and "and_then (arith_i8 False (sint hi - sint lo)) (\<lambda>d. arith_i8 False (sint d + 1)) = Ok (word_of_int span)"
proof -
  have "sint (word_of_int (sint hi - sint lo) :: i8) = sint hi - sint lo" if "sint hi - sint lo \<le> 127"
    using that assms(1) by (intro sint_word_of_int_i8) simp_all
  then show "and_then (arith_i8 True (sint hi - sint lo)) (\<lambda>d. arith_i8 True (sint d + 1)) =
      (if span \<le> 127 then Ok (word_of_int span) else Err Panic)"
    using assms(1) by (auto simp: arith_i8_def span_def simp del: of_int_diff)
  show "and_then (arith_i8 False (sint hi - sint lo)) (\<lambda>d. arith_i8 False (sint d + 1)) = Ok (word_of_int span)"
    by (simp add: arith_i8_def span_def)
qed

lemma length_custom_definitions: "length (List.map_filter custom_definition es) = length (filter is_custom es)"
proof (induction es)
  case (Cons e es)
  then show ?case by (cases e) (simp_all add: map_filter_simps)
qed (simp add: map_filter_simps)

lemma set_custom_definitions: "d \<in> set (List.map_filter custom_definition es) \<Longrightarrow> CustomEntry d \<in> set es"
proof (induction es)
  case (Cons e es)
  then show ?case by (cases e) (auto simp: map_filter_simps)
qed (simp add: map_filter_simps)

section \<open>What the registry promises\<close>

text \<open>
  C31 (type): the constructor of custom pieces accepts exactly non-blank names and rotations with
  distinct states and one positive number of distinct cells each, and records that number as the area.
\<close>

theorem custom_piece_accepted_iff:
  "custom_piece_new pid label rotations bounds display symmetry key = Ok d \<longleftrightarrow>
     trim pid \<noteq> [] \<and> trim label \<noteq> [] \<and> trim key \<noteq> [] \<and> wf_rotations rotations \<and>
     d = \<lparr>custom_id = pid, custom_label = label, custom_rotations = rotations,
          custom_spawn_bounds = bounds, custom_spawn_offsets = [], custom_display = display,
          custom_area = length (rot_cells (hd rotations)), custom_symmetry = symmetry,
          custom_source_provenance = unspecified, custom_canonical_key = key\<rparr>"
  by (rule custom_piece_new_ok)

text \<open>
  C30 (functional): every accepted custom piece has an operation table.  It holds one operation per
  rotation in the order of the quarter turns, numbered from zero, with the cells of the rotation and
  their tight bounding box.
\<close>

theorem operation_table_exists:
  assumes "custom_piece_new pid label rotations bounds display symmetry key = Ok d"
  shows "\<exists>t. from_definition d = Ok t \<and> wf_table d t"
  by (rule from_definition_wf [OF custom_piece_new_wf [OF assms]])

theorem operation_table_exists_witness:
  "\<exists>d t. custom_piece_new ''custom:duo'' ''Duo''
       [\<lparr>rot_state = Right, rot_cells = [cell_at 0 0, cell_at 0 1]\<rparr>, \<lparr>rot_state = Zero, rot_cells = [cell_at 0 0, cell_at 1 0]\<rparr>]
       \<lparr>spawn_min_x = 0, spawn_max_x = 1, spawn_min_y = 0, spawn_max_y = 1\<rparr>
       \<lparr>display_color = None, display_glyph = None\<rparr> NoSymmetry ''duo'' = Ok d \<and>
     from_definition d = Ok t \<and> wf_table d t"
  (is "\<exists>d t. ?new = Ok d \<and> _ d t")
proof -
  have "is_ok ?new" by code_simp
  then obtain d where "?new = Ok d" by (auto simp: is_ok_iff)
  then show ?thesis using operation_table_exists by blast
qed

text \<open>
  C40 (bounds): the width of a bounding box is the number of columns it spans up to 127 columns.  From
  128 columns on the \<open>i8\<close> subtraction or addition overflows: with overflow checks it panics, without
  them the width is the span modulo 256.
\<close>

theorem bounds_width_exact:
  assumes "bounds_from_cells cells = Ok b"
  shows "let span = Max (set (map (\<lambda>cell. sint (cell_x cell)) cells)) - Min (set (map (\<lambda>cell. sint (cell_x cell)) cells)) + 1
    in bounds_width True b = (if span \<le> 127 then Ok (word_of_int span) else Err Panic) \<and>
       bounds_width False b = Ok (word_of_int span)"
proof -
  have tight: "tight_bounds b cells" by (rule bounds_from_cells_ok(1) [OF assms])
  define X where "X = set (map (\<lambda>cell. sint (cell_x cell)) cells)"
  have "finite X" "X \<noteq> {}" using assms by (auto simp: X_def bounds_from_cells_def)
  then have "Min X \<le> Max X" by simp
  moreover have *: "Min X = sint (bounds_min_x b)" "Max X = sint (bounds_max_x b)"
    using tight by (simp_all add: tight_bounds_def X_def)
  ultimately have "sint (bounds_min_x b) \<le> sint (bounds_max_x b)" by simp
  from i8_span [OF this] show ?thesis
    unfolding X_def [symmetric] * bounds_width_def Let_def by blast
qed

theorem bounds_width_exact_witness:
  "bounds_width True \<lparr>bounds_min_x = - 100, bounds_max_x = 100, bounds_min_y = 0, bounds_max_y = 0\<rparr> = Err Panic \<and>
   bounds_width False \<lparr>bounds_min_x = - 100, bounds_max_x = 100, bounds_min_y = 0, bounds_max_y = 0\<rparr> = Ok 201"
proof -
  have "bounds_from_cells [cell_at (- 100) 0, cell_at 100 0] =
      Ok \<lparr>bounds_min_x = - 100, bounds_max_x = 100, bounds_min_y = 0, bounds_max_y = 0\<rparr>" by code_simp
  from bounds_width_exact [OF this] show ?thesis by (simp add: cell_at_def)
qed

text \<open>
  C39 (functional): for a mixed set of accepted pieces the registry bridge succeeds, has one operation
  table per custom piece, and takes the standard fast path exactly when there is no custom piece.
\<close>

theorem bridge_selects_path:
  assumes "mixed_set_new sid label entries = Ok ps"
    and "\<forall>d. CustomEntry d \<in> set entries \<longrightarrow> wf_custom d"
  shows "\<exists>br. bridge_from_mixed_piece_set ps = Ok br \<and>
    length (br_custom_operation_tables br) = custom_piece_count ps \<and>
    (br_runtime_path br = StandardFastPath \<longleftrightarrow> standard_fast_path_compatible ps) \<and>
    (br_unsupported_reason br = None \<longleftrightarrow> standard_fast_path_compatible ps) \<and>
    distinct (br_stable_piece_ids br)"
proof -
  let ?ds = "List.map_filter custom_definition entries"
  have ps: "set_entries ps = entries" "distinct (stable_piece_ids ps)"
    using assms(1) by (auto simp: mixed_set_new_ok stable_piece_ids_def)
  have "\<exists>tables. try_map from_definition ?ds = Ok tables"
    using assms(2) set_custom_definitions from_definition_wf by (intro try_map_total) blast
  then obtain tables where tables: "try_map from_definition ?ds = Ok tables" by blast
  then have "length ?ds = length tables" unfolding try_map_eq_Ok_iff by (rule list_all2_lengthD)
  then have len: "length tables = length (filter is_custom entries)" by (simp add: length_custom_definitions)
  then have "tables = [] \<longleftrightarrow> filter is_custom entries = []" by (metis length_0_conv)
  then have "tables = [] \<longleftrightarrow> standard_fast_path_compatible ps"
    by (auto simp: standard_fast_path_compatible_def contains_custom_def ps list_ex_iff filter_empty_conv)
  then show ?thesis
    using tables len ps by (simp add: bridge_from_mixed_piece_set_def custom_piece_count_def Let_def)
qed

theorem bridge_selects_path_witness:
  "\<exists>ps br. standard_plus_custom ''std7'' ''Standard'' [] = Ok ps \<and>
     bridge_from_mixed_piece_set ps = Ok br \<and> br_runtime_path br = StandardFastPath"
proof -
  have "is_ok (standard_plus_custom ''std7'' ''Standard'' [])" by code_simp
  then obtain ps where ps: "standard_plus_custom ''std7'' ''Standard'' [] = Ok ps" by (auto simp: is_ok_iff)
  then have new: "mixed_set_new ''std7'' ''Standard'' (map StandardEntry STANDARD_TETROMINOES) = Ok ps"
    by (simp add: standard_plus_custom_def)
  then have "standard_fast_path_compatible ps"
    by (auto simp: mixed_set_new_ok standard_fast_path_compatible_def contains_custom_def list_ex_iff)
  then show ?thesis using ps bridge_selects_path [OF new] by auto
qed

end
