(* ===== verification/Areas.thy ===== *)
theory Areas
  imports PieceSets "HOL-Library.Sublist"
begin

text \<open>
  Area feasibility: the piece areas and subset-sum tables of \<open>clearra-geometry/src/area\<close> and of the
  exact-cover builder \<open>PieceAreaConstraint\<close>.  The one-row dynamic program, which both crates contain, is
  proved to decide whether some of the areas add up to the target.  Areas and the table length
  \<open>target + 1\<close> are unbounded naturals here.  The source computes them in \<open>usize\<close>: a target of
  \<open>isize::MAX\<close> or more panics there, because no vector can have that many entries.
\<close>

section \<open>The subset-sum table\<close>

definition relax :: "nat \<Rightarrow> bool list \<Rightarrow> nat \<Rightarrow> bool list" where
  "relax area reachable candidate =
     reachable[candidate := reachable ! candidate \<or> reachable ! (candidate - area)]"

definition relax_area :: "nat \<Rightarrow> bool list \<Rightarrow> nat \<Rightarrow> bool list" where
  "relax_area target reachable area =
     (if area > target then reachable else foldl (relax area) reachable (rev [area..<target + 1]))"

definition bounded_area_subset_sum :: "nat \<Rightarrow> nat list \<Rightarrow> bool" where
  "bounded_area_subset_sum target piece_areas =
     foldl (relax_area target) ((replicate (target + 1) False)[0 := True]) piece_areas ! target"

section \<open>Area constraints\<close>

datatype PieceAreaConstraintError = ZeroTargetArea | EmptyPieceAreas | ZeroPieceArea

record PieceAreaConstraint =
  target_area :: nat
  available_piece_areas :: "nat list"

definition area_constraint_new :: "nat \<Rightarrow> nat list \<Rightarrow> PieceAreaConstraintError + PieceAreaConstraint" where
  "area_constraint_new target areas =
     (if target = 0 then Err ZeroTargetArea
      else if areas = [] then Err EmptyPieceAreas
      else if 0 \<in> set areas then Err ZeroPieceArea
      else Ok \<lparr>target_area = target, available_piece_areas = areas\<rparr>)"

definition can_fill_target :: "PieceAreaConstraint \<Rightarrow> bool" where
  "can_fill_target c = bounded_area_subset_sum (target_area c) (available_piece_areas c)"

section \<open>Area-multiset feasibility\<close>

datatype AreaMultisetFeasibilityError = NoPieceAreas | PieceAreaZero | UnknownPieceId PieceDefinitionId

record AreaMultisetFeasibility =
  active_piece_area_multiset :: "nat list"
  area_fingerprint :: u64

definition feasibility_new :: "nat list \<Rightarrow> AreaMultisetFeasibilityError + AreaMultisetFeasibility" where
  "feasibility_new areas =
     (if areas = [] then Err NoPieceAreas
      else if 0 \<in> set areas then Err PieceAreaZero
      else Ok \<lparr>active_piece_area_multiset = areas, area_fingerprint = piece_area_multiset_fingerprint areas\<rparr>)"

text \<open>The map collected from the entries keeps the last area of an identifier.\<close>

definition area_by_id :: "MixedPieceSet \<Rightarrow> PieceDefinitionId \<rightharpoonup> nat" where
  "area_by_id ps = map_of (rev (map (\<lambda>entry. (stable_id entry, entry_area entry)) (set_entries ps)))"

primrec bag_areas ::
  "(PieceDefinitionId \<rightharpoonup> nat) \<Rightarrow> MixedBagEntry list \<Rightarrow> AreaMultisetFeasibilityError + nat list" where
  "bag_areas area_of [] = Ok []"
| "bag_areas area_of (entry # entries) =
     and_then (ok_or (UnknownPieceId (bag_piece_id entry)) (area_of (bag_piece_id entry))) (\<lambda>area.
     and_then (bag_areas area_of entries) (\<lambda>areas. Ok (replicate (bag_multiplicity entry) area @ areas)))"

definition feasibility_from_mixed_bag_profile ::
  "MixedPieceSet \<Rightarrow> MixedBagProfile \<Rightarrow> AreaMultisetFeasibilityError + AreaMultisetFeasibility" where
  "feasibility_from_mixed_bag_profile ps b =
     and_then (bag_areas (area_by_id ps) (bag_entries b)) feasibility_new"

definition can_fill_exactly :: "AreaMultisetFeasibility \<Rightarrow> nat \<Rightarrow> bool" where
  "can_fill_exactly f component_area = bounded_area_subset_sum component_area (active_piece_area_multiset f)"

datatype AreaFeasibilityDecision = RejectAreaInfeasible nat | SearchMayContinue

definition check_component_area :: "AreaMultisetFeasibility \<Rightarrow> nat \<Rightarrow> AreaFeasibilityDecision" where
  "check_component_area f component_area =
     (if can_fill_exactly f component_area then SearchMayContinue else RejectAreaInfeasible component_area)"

definition is_reject :: "AreaFeasibilityDecision \<Rightarrow> bool" where
  "is_reject d = (case d of RejectAreaInfeasible _ \<Rightarrow> True | SearchMayContinue \<Rightarrow> False)"

section \<open>The table decides subset sums\<close>

lemma length_relax [simp]: "length (relax a r c) = length r"
  by (simp add: relax_def)

lemma length_relaxed [simp]: "length (foldl (relax a) r cs) = length r"
  by (induction cs arbitrary: r) simp_all

lemma relaxed_nth:
  assumes "a \<le> k" "k \<le> n" "length r = n" "c < n"
  shows "foldl (relax a) r (rev [k..<n]) ! c \<longleftrightarrow> r ! c \<or> (k \<le> c \<and> r ! (c - a))"
  using assms
proof (induction "n - k" arbitrary: k c)
  case 0
  then show ?case by simp
next
  case (Suc d)
  then have k: "k < n" by simp
  then have split: "rev [k..<n] = rev [Suc k..<n] @ [k]" by (simp add: upt_conv_Cons)
  define r1 where "r1 = foldl (relax a) r (rev [Suc k..<n])"
  have r1: "r1 ! c = (r ! c \<or> (Suc k \<le> c \<and> r ! (c - a)))" if "c < n" for c
    unfolding r1_def using Suc that by (intro Suc.hyps(1)) auto
  have "foldl (relax a) r (rev [k..<n]) = r1[k := r1 ! k \<or> r1 ! (k - a)]"
    unfolding split r1_def by (simp add: relax_def)
  moreover have "length r1 = n" using Suc.prems by (simp add: r1_def)
  ultimately show ?case
    using r1 [of k] r1 [of "k - a"] r1 [OF Suc.prems(4)] k Suc.prems by (auto simp: nth_list_update)
qed

lemma relax_area_nth:
  assumes "length r = Suc n" "c \<le> n"
  shows "relax_area n r a ! c \<longleftrightarrow> r ! c \<or> (a \<le> c \<and> r ! (c - a))"
  using relaxed_nth [of a a "Suc n" r c] assms by (auto simp: relax_area_def)

lemma length_relax_area [simp]: "length (relax_area n r a) = length r"
  by (simp add: relax_area_def)

lemma subset_sum_table:
  assumes "length r = Suc n" "c \<le> n"
  shows "foldl (relax_area n) r areas ! c \<longleftrightarrow> (\<exists>ys. subseq ys areas \<and> sum_list ys \<le> c \<and> r ! (c - sum_list ys))"
  using assms
proof (induction areas arbitrary: r)
  case Nil
  then show ?case by (auto dest: list_emb_Nil2)
next
  case (Cons a areas)
  have "foldl (relax_area n) r (a # areas) ! c \<longleftrightarrow>
      (\<exists>ys. subseq ys areas \<and> sum_list ys \<le> c \<and> relax_area n r a ! (c - sum_list ys))"
    using Cons by simp
  also have "\<dots> \<longleftrightarrow> (\<exists>ys. subseq ys areas \<and> sum_list ys \<le> c \<and>
      (r ! (c - sum_list ys) \<or> (a + sum_list ys \<le> c \<and> r ! (c - (a + sum_list ys)))))"
    using Cons.prems by (auto simp: relax_area_nth le_diff_conv2 add.commute diff_diff_eq)
  also have "\<dots> \<longleftrightarrow> (\<exists>ys. subseq ys (a # areas) \<and> sum_list ys \<le> c \<and> r ! (c - sum_list ys))"
    (is "?L \<longleftrightarrow> ?R")
  proof
    assume ?L
    then obtain ys where ys: "subseq ys areas" "sum_list ys \<le> c"
        "r ! (c - sum_list ys) \<or> (sum_list (a # ys) \<le> c \<and> r ! (c - sum_list (a # ys)))"
      by auto
    moreover have "subseq ys (a # areas)" "subseq (a # ys) (a # areas)" using ys(1) by auto
    ultimately show ?R by blast
  next
    assume ?R
    then obtain ys where ys: "subseq ys (a # areas)" "sum_list ys \<le> c" "r ! (c - sum_list ys)" by auto
    show ?L
    proof (cases "subseq ys areas")
      case True
      then show ?thesis using ys by blast
    next
      case False
      then obtain zs where "ys = a # zs" "subseq zs areas" using ys(1) by (auto elim: list_emb.cases)
      then show ?thesis using ys by auto
    qed
  qed
  finally show ?case .
qed

lemma subset_sum_iff:
  "bounded_area_subset_sum n areas \<longleftrightarrow> (\<exists>ys. subseq ys areas \<and> sum_list ys = n)"
proof -
  have "((replicate (n + 1) False)[0 := True]) ! (n - sum_list ys) \<longleftrightarrow> sum_list ys = n" if "sum_list ys \<le> n" for ys
    using that by (cases "n - sum_list ys") auto
  then show ?thesis
    unfolding bounded_area_subset_sum_def by (subst subset_sum_table) auto
qed

section \<open>Bags have known areas\<close>

lemma area_by_id_entry:
  assumes "distinct (stable_piece_ids ps)" "entry \<in> set (set_entries ps)"
  shows "area_by_id ps (stable_id entry) = Some (entry_area entry)"
proof -
  have "distinct (map fst (rev (map (\<lambda>entry. (stable_id entry, entry_area entry)) (set_entries ps))))"
    using assms(1) by (simp add: stable_piece_ids_def rev_map [symmetric] comp_def)
  then show ?thesis using assms(2) unfolding area_by_id_def by (intro map_of_is_SomeI) auto
qed

lemma bag_areas_known:
  assumes "\<forall>entry\<in>set entries. \<exists>area. area_of (bag_piece_id entry) = Some area"
  shows "bag_areas area_of entries =
    Ok (concat (map (\<lambda>entry. replicate (bag_multiplicity entry) (the (area_of (bag_piece_id entry)))) entries))"
  using assms by (induction entries) auto

lemma known_area:
  assumes "mixed_set_new sid label entries = Ok ps" and "\<forall>d. CustomEntry d \<in> set entries \<longrightarrow> wf_custom d"
    and "pid \<in> set (stable_piece_ids ps)"
  shows "\<exists>area>0. area_by_id ps pid = Some area"
proof -
  have ps: "set_entries ps = entries" "distinct (stable_piece_ids ps)"
    using assms(1) by (auto simp: mixed_set_new_ok stable_piece_ids_def)
  obtain entry where e: "entry \<in> set entries" "pid = stable_id entry"
    using assms(3) by (auto simp: stable_piece_ids_def ps)
  have "entry_area entry > 0"
  proof (cases entry)
    case (CustomEntry d)
    then have "wf_custom d" using assms(2) e(1) by simp
    then show ?thesis
      using CustomEntry by (cases "custom_rotations d") (auto simp: wf_custom_def wf_rotations_def wf_rotation_def)
  qed simp
  then show ?thesis using area_by_id_entry [OF ps(2)] e ps(1) by auto
qed

text \<open>
  C12 (equivalence): the subset-sum table of the area constraint answers whether some of the available
  areas, each used at most as often as it is listed, add up to the target.
\<close>

theorem subset_sum_table_exact:
  "bounded_area_subset_sum target areas \<longleftrightarrow> (\<exists>used. subseq used areas \<and> sum_list used = target)"
  by (rule subset_sum_iff)

text \<open>
  C33 (functional): for every bag accepted for a mixed set of accepted pieces the area feasibility is
  defined: no piece identifier is unknown and no area is zero.  It lists each piece's area as often as
  the bag holds the piece, so it has as many areas as the bag has pieces, and the component check
  rejects an area exactly when no selection from the bag has that total area.
\<close>

theorem bag_feasibility_exact:
  assumes "mixed_set_new sid label entries = Ok ps" and "\<forall>d. CustomEntry d \<in> set entries \<longrightarrow> wf_custom d"
    and "bag_profile_new bid ps bag models = Ok b"
  shows "\<exists>f. feasibility_from_mixed_bag_profile ps b = Ok f \<and>
    length (active_piece_area_multiset f) = bag_size b \<and>
    (is_reject (check_component_area f n) \<longleftrightarrow>
      \<not> (\<exists>used. subseq used
        (concat (map (\<lambda>entry. replicate (bag_multiplicity entry) (the (area_by_id ps (bag_piece_id entry)))) bag)) \<and>
        sum_list used = n))"
proof -
  let ?areas = "concat (map (\<lambda>entry. replicate (bag_multiplicity entry) (the (area_by_id ps (bag_piece_id entry)))) bag)"
  have b: "bag_entries b = bag" "bag \<noteq> []" "list_all wf_bag_entry bag" "bag_piece_id ` set bag \<subseteq> set (stable_piece_ids ps)"
    using assms(3) by (simp_all add: bag_profile_new_ok)
  have known: "\<exists>area>0. area_by_id ps (bag_piece_id entry) = Some area" if "entry \<in> set bag" for entry
    using known_area [OF assms(1,2)] b(4) that by auto
  then have areas: "bag_areas (area_by_id ps) bag = Ok ?areas" by (intro bag_areas_known) blast
  have "0 \<notin> set ?areas" using known by fastforce
  moreover have "?areas \<noteq> []" using b(2,3) by (cases bag) (auto simp: wf_bag_entry_def)
  ultimately have "feasibility_from_mixed_bag_profile ps b =
      Ok \<lparr>active_piece_area_multiset = ?areas, area_fingerprint = piece_area_multiset_fingerprint ?areas\<rparr>"
    unfolding feasibility_from_mixed_bag_profile_def b(1) areas by (simp add: feasibility_new_def)
  moreover have "length ?areas = bag_size b" by (simp add: bag_size_def b(1) length_concat comp_def)
  ultimately show ?thesis
    by (simp add: check_component_area_def is_reject_def can_fill_exactly_def subset_sum_iff)
qed

theorem bag_feasibility_exact_witness:
  "\<exists>ps b f. mixed_set_new ''std7'' ''Standard'' [StandardEntry PieceT, StandardEntry PieceI] = Ok ps \<and>
     bag_profile_new ''bag'' ps [\<lparr>bag_piece_id = ''std:T'', bag_multiplicity = 2, bag_weight = 1\<rparr>] all_mvp3_models = Ok b \<and>
     feasibility_from_mixed_bag_profile ps b = Ok f \<and> length (active_piece_area_multiset f) = 2"
proof -
  define ps where "ps = \<lparr>set_id = ''std7'', set_label = ''Standard'', set_entries = [StandardEntry PieceT, StandardEntry PieceI]\<rparr>"
  have new: "mixed_set_new ''std7'' ''Standard'' [StandardEntry PieceT, StandardEntry PieceI] = Ok ps"
    unfolding ps_def by code_simp
  have "is_ok (bag_profile_new ''bag'' ps [\<lparr>bag_piece_id = ''std:T'', bag_multiplicity = 2, bag_weight = 1\<rparr>] all_mvp3_models)"
    unfolding ps_def by code_simp
  then obtain b where b: "bag_profile_new ''bag'' ps [\<lparr>bag_piece_id = ''std:T'', bag_multiplicity = 2, bag_weight = 1\<rparr>]
      all_mvp3_models = Ok b" by (auto simp: is_ok_iff)
  then have "bag_size b = 2" by (simp add: bag_profile_new_ok bag_size_def)
  then show ?thesis using bag_feasibility_exact [OF new _ b] new b by auto
qed

end
