(* ===== verification/CoverBuilders.thy ===== *)
theory CoverBuilders
  imports ExactCovers Areas
begin

text \<open>
  What builds exact-cover problems (\<open>clearra-exact-cover/src/builder\<close>, \<open>model\<close> and \<open>bridge\<close>): the cell
  universe that numbers the cells of a region, generic candidates over it, the validated problem
  schema, and the three bridges that run the DLX solver.  A \<open>BTreeMap\<close> is a partial map.
\<close>

section \<open>Cell universes\<close>

datatype CellUniverseBuilderError = EmptyUniverse | DuplicateCell u32

record CellUniverse =
  uni_cells :: "u32 list"
  compact_by_cell :: "u32 \<rightharpoonup> nat"

primrec index_cells ::
  "nat \<Rightarrow> u32 list \<Rightarrow> (u32 \<rightharpoonup> nat) \<Rightarrow> CellUniverseBuilderError + (u32 \<rightharpoonup> nat)" where
  "index_cells i [] m = Ok m"
| "index_cells i (cell # cells) m =
     (if m cell \<noteq> None then Err (DuplicateCell cell) else index_cells (i + 1) cells (m(cell \<mapsto> i)))"

definition universe_new :: "u32 list \<Rightarrow> CellUniverseBuilderError + CellUniverse" where
  "universe_new cells =
     (if cells = [] then Err EmptyUniverse
      else and_then (index_cells 0 cells Map.empty) (\<lambda>m. Ok \<lparr>uni_cells = cells, compact_by_cell = m\<rparr>))"

definition uni_column_count :: "CellUniverse \<Rightarrow> nat" where
  "uni_column_count u = length (uni_cells u)"

definition compact_column_for_cell :: "CellUniverse \<Rightarrow> u32 \<Rightarrow> nat option" where
  "compact_column_for_cell u cell = compact_by_cell u cell"

definition compact_columns_for_cells :: "CellUniverse \<Rightarrow> u32 list \<Rightarrow> u32 + nat list" where
  "compact_columns_for_cells u cells = try_map (\<lambda>cell. ok_or cell (compact_column_for_cell u cell)) cells"

definition cells_from_mask :: "u64 \<Rightarrow> nat list" where
  "cells_from_mask m = filter (\<lambda>index. m AND push_bit index 1 \<noteq> 0) [0..<64]"

definition universe_from_mask :: "u64 \<Rightarrow> CellUniverseBuilderError + CellUniverse" where
  "universe_from_mask m = universe_new (map word_of_nat (cells_from_mask m))"

section \<open>Candidates\<close>

definition candidates_from_masks :: "u64 list \<Rightarrow> ExactCoverCandidate list" where
  "candidates_from_masks masks =
     map (\<lambda>(i, m). \<lparr>cand_id = i, cand_columns = filter (\<lambda>index. m AND push_bit index 1 \<noteq> 0) [0..<64]\<rparr>)
       (enumerate 0 masks)"

datatype GenericExactCoverCandidateError =
    EmptyCells nat
  | ZeroCandidateArea nat
  | PieceAreaDoesNotMatchCells nat nat nat
  | CellOutsideUniverse nat u32

record GenericExactCoverCandidate =
  gen_candidate_id :: nat
  gen_piece_id :: string
  gen_piece_area :: nat
  gen_cells :: "u32 list"
  gen_columns :: "nat list"

definition generic_from_cells ::
  "nat \<Rightarrow> string \<Rightarrow> nat \<Rightarrow> u32 list \<Rightarrow> CellUniverse \<Rightarrow>
   GenericExactCoverCandidateError + GenericExactCoverCandidate" where
  "generic_from_cells i pid area cells u =
     (if cells = [] then Err (EmptyCells i)
      else if area = 0 then Err (ZeroCandidateArea i)
      else if area \<noteq> length cells then Err (PieceAreaDoesNotMatchCells i area (length cells))
      else and_then (map_err (CellOutsideUniverse i) (compact_columns_for_cells u cells)) (\<lambda>columns.
        Ok \<lparr>gen_candidate_id = i, gen_piece_id = pid, gen_piece_area = area, gen_cells = cells,
            gen_columns = columns\<rparr>))"

definition to_exact_cover_candidate :: "GenericExactCoverCandidate \<Rightarrow> ExactCoverCandidate" where
  "to_exact_cover_candidate g = \<lparr>cand_id = gen_candidate_id g, cand_columns = gen_columns g\<rparr>"

section \<open>The problem schema\<close>

datatype ExactCoverColumnKind = RequiredColumn | OptionalColumn

record ExactCoverColumn =
  col_id :: nat
  col_label :: string
  col_kind :: ExactCoverColumnKind

definition column_required :: "nat \<Rightarrow> string \<Rightarrow> ExactCoverColumn" where
  "column_required i label = \<lparr>col_id = i, col_label = label, col_kind = RequiredColumn\<rparr>"

definition column_optional :: "nat \<Rightarrow> string \<Rightarrow> ExactCoverColumn" where
  "column_optional i label = \<lparr>col_id = i, col_label = label, col_kind = OptionalColumn\<rparr>"

record ExactCoverCandidateRow =
  row_id :: nat
  row_required_columns :: "nat list"
  row_optional_columns :: "nat list"

record PieceUsageConstraint =
  usage_piece_id :: string
  min_usage :: nat
  max_usage :: nat

record SlotConstraintColumn =
  slot_id :: string
  slot_required :: bool

record AreaConstraintColumn =
  area_label :: string
  component_area :: nat

datatype ExactCoverProblemSchemaError =
    EmptyCellUniverse
  | EmptyRequiredColumns
  | EmptyCandidateRows
  | InvalidPieceUsageConstraint string
  | ZeroAreaConstraint string
  | CandidateWithoutRequiredColumns nat
  | RequiredColumnOutOfRange nat nat
  | OptionalColumnOutOfRange nat nat

record ExactCoverProblemSchema =
  cell_universe :: "u32 list"
  piece_usage_constraints :: "PieceUsageConstraint list"
  slot_constraints :: "SlotConstraintColumn list"
  area_constraints :: "AreaConstraintColumn list"
  required_columns :: "ExactCoverColumn list"
  optional_columns :: "ExactCoverColumn list"
  candidate_rows :: "ExactCoverCandidateRow list"

primrec check_range :: "(nat \<Rightarrow> 'e) \<Rightarrow> nat \<Rightarrow> nat list \<Rightarrow> 'e + unit" where
  "check_range out_of_range bound [] = Ok ()"
| "check_range out_of_range bound (column # columns) =
     (if column \<ge> bound then Err (out_of_range column) else check_range out_of_range bound columns)"

definition validate_candidate_row ::
  "ExactCoverCandidateRow \<Rightarrow> nat \<Rightarrow> nat \<Rightarrow> ExactCoverProblemSchemaError + unit" where
  "validate_candidate_row row n_required n_optional =
     (if row_required_columns row = [] then Err (CandidateWithoutRequiredColumns (row_id row))
      else and_then (check_range (RequiredColumnOutOfRange (row_id row)) n_required (row_required_columns row)) (\<lambda>_.
        check_range (OptionalColumnOutOfRange (row_id row)) n_optional (row_optional_columns row)))"

primrec check_usages :: "PieceUsageConstraint list \<Rightarrow> ExactCoverProblemSchemaError + unit" where
  "check_usages [] = Ok ()"
| "check_usages (constraint # constraints) =
     (if usage_piece_id constraint = [] \<or> min_usage constraint > max_usage constraint
      then Err (InvalidPieceUsageConstraint (usage_piece_id constraint)) else check_usages constraints)"

primrec check_areas :: "AreaConstraintColumn list \<Rightarrow> ExactCoverProblemSchemaError + unit" where
  "check_areas [] = Ok ()"
| "check_areas (constraint # constraints) =
     (if component_area constraint = 0 then Err (ZeroAreaConstraint (area_label constraint))
      else check_areas constraints)"

primrec check_rows :: "nat \<Rightarrow> nat \<Rightarrow> ExactCoverCandidateRow list \<Rightarrow> ExactCoverProblemSchemaError + unit" where
  "check_rows n_required n_optional [] = Ok ()"
| "check_rows n_required n_optional (row # rows) =
     and_then (validate_candidate_row row n_required n_optional) (\<lambda>_.
       check_rows n_required n_optional rows)"

definition validate_schema ::
  "u32 list \<Rightarrow> PieceUsageConstraint list \<Rightarrow> AreaConstraintColumn list \<Rightarrow> ExactCoverColumn list \<Rightarrow>
   ExactCoverColumn list \<Rightarrow> ExactCoverCandidateRow list \<Rightarrow> ExactCoverProblemSchemaError + unit" where
  "validate_schema universe usages areas required optional rows =
     (if universe = [] then Err EmptyCellUniverse
      else if required = [] then Err EmptyRequiredColumns
      else if rows = [] then Err EmptyCandidateRows
      else and_then (check_usages usages) (\<lambda>_. and_then (check_areas areas) (\<lambda>_.
        check_rows (length required) (length optional) rows)))"

definition schema_new ::
  "u32 list \<Rightarrow> PieceUsageConstraint list \<Rightarrow> SlotConstraintColumn list \<Rightarrow> AreaConstraintColumn list \<Rightarrow>
   ExactCoverColumn list \<Rightarrow> ExactCoverColumn list \<Rightarrow> ExactCoverCandidateRow list \<Rightarrow>
   ExactCoverProblemSchemaError + ExactCoverProblemSchema" where
  "schema_new universe usages slots areas required optional rows =
     and_then (validate_schema universe usages areas required optional rows) (\<lambda>_.
       Ok \<lparr>cell_universe = universe, piece_usage_constraints = usages, slot_constraints = slots,
           area_constraints = areas, required_columns = required, optional_columns = optional,
           candidate_rows = rows\<rparr>)"

definition row_candidate :: "nat \<Rightarrow> ExactCoverCandidateRow \<Rightarrow> ExactCoverCandidate" where
  "row_candidate n_required row =
     \<lparr>cand_id = row_id row,
      cand_columns = row_required_columns row @ map (\<lambda>column. n_required + column) (row_optional_columns row)\<rparr>"

definition to_problem :: "ExactCoverProblemSchema \<Rightarrow> ExactCoverProblem" where
  "to_problem schema =
     with_optional_columns (length (required_columns schema)) (length (optional_columns schema))
       (map (row_candidate (length (required_columns schema))) (candidate_rows schema))"

section \<open>The custom-piece bridge\<close>

record CustomPiecePlacementColumns =
  placement_id :: nat
  placement_columns :: "nat list"

datatype CustomPieceBridgeError = ZeroTargetCells | CustomDlx DlxSolverError

definition problem_from_placements ::
  "nat \<Rightarrow> CustomPiecePlacementColumns list \<Rightarrow> CustomPieceBridgeError + ExactCoverProblem" where
  "problem_from_placements target_cell_count placements =
     (if target_cell_count = 0 then Err ZeroTargetCells
      else Ok (problem_new target_cell_count
        (map (\<lambda>p. \<lparr>cand_id = placement_id p, cand_columns = placement_columns p\<rparr>) placements)))"

definition custom_enumerate_tilings ::
  "nat \<Rightarrow> CustomPiecePlacementColumns list \<Rightarrow> DlxSearchLimits \<Rightarrow>
   CustomPieceBridgeError + DlxSolveReport option" where
  "custom_enumerate_tilings target_cell_count placements limits =
     and_then (problem_from_placements target_cell_count placements) (\<lambda>problem.
       map_err CustomDlx (solve_all_limited problem limits))"

section \<open>The generic bridge\<close>

datatype GenericExactCoverBridgeError =
    PieceAreaError PieceAreaConstraintError
  | AreaInfeasibleShape nat "nat list"
  | GenericDlx DlxSolverError
  | SchemaError ExactCoverProblemSchemaError

definition problem_from_candidates :: "CellUniverse \<Rightarrow> GenericExactCoverCandidate list \<Rightarrow> ExactCoverProblem" where
  "problem_from_candidates u cands = problem_new (uni_column_count u) (map to_exact_cover_candidate cands)"

definition universe_columns :: "CellUniverse \<Rightarrow> ExactCoverColumn list" where
  "universe_columns u =
     map (\<lambda>(index, cell). column_required index (''cell:'' @ show_nat (unat cell))) (enumerate 0 (uni_cells u))"

definition problem_schema_from_candidates ::
  "CellUniverse \<Rightarrow> GenericExactCoverCandidate list \<Rightarrow> PieceUsageConstraint list \<Rightarrow> AreaConstraintColumn list \<Rightarrow>
   GenericExactCoverBridgeError + ExactCoverProblemSchema" where
  "problem_schema_from_candidates u cands usages areas =
     map_err SchemaError
       (schema_new (uni_cells u) usages [] areas (universe_columns u) []
         (map (\<lambda>g. \<lparr>row_id = gen_candidate_id g, row_required_columns = gen_columns g, row_optional_columns = []\<rparr>) cands))"

definition generic_enumerate_tilings ::
  "CellUniverse \<Rightarrow> GenericExactCoverCandidate list \<Rightarrow> nat list \<Rightarrow> DlxSearchLimits \<Rightarrow>
   GenericExactCoverBridgeError + DlxSolveReport option" where
  "generic_enumerate_tilings u cands areas limits =
     and_then (map_err PieceAreaError (area_constraint_new (uni_column_count u) areas)) (\<lambda>constraint.
     if \<not> can_fill_target constraint then Err (AreaInfeasibleShape (target_area constraint) areas)
     else and_then
       (problem_schema_from_candidates u cands []
         [\<lparr>area_label = ''cell-universe-area'', component_area = uni_column_count u\<rparr>]) (\<lambda>schema.
       map_err GenericDlx (solve_all_limited (to_problem schema) limits)))"

section \<open>The setup bridge\<close>

definition compact_columns_for_mask :: "u64 \<Rightarrow> CellUniverse \<Rightarrow> nat list" where
  "compact_columns_for_mask m u =
     List.map_filter (compact_column_for_cell u)
       (filter (\<lambda>index. m AND push_bit (unat index) 1 \<noteq> 0) (uni_cells u))"

definition setup_schema :: "u64 \<Rightarrow> u64 list \<Rightarrow> ExactCoverProblemSchemaError + ExactCoverProblemSchema" where
  "setup_schema shape_mask candidate_masks =
     (case universe_from_mask shape_mask of
        Inl _ \<Rightarrow> schema_new [] [] [] [] [] [] []
      | Inr u \<Rightarrow>
          schema_new (uni_cells u) [] []
            [\<lparr>area_label = ''setup-shape-area'', component_area = uni_column_count u\<rparr>]
            (universe_columns u) []
            (map (\<lambda>(i, m). \<lparr>row_id = i, row_required_columns = compact_columns_for_mask m u, row_optional_columns = []\<rparr>)
              (enumerate 0 candidate_masks)))"

definition problem_from_shape_and_candidates :: "u64 \<Rightarrow> u64 list \<Rightarrow> ExactCoverProblem" where
  "problem_from_shape_and_candidates shape_mask candidate_masks =
     (case universe_from_mask shape_mask of
        Inl _ \<Rightarrow> problem_new 0 []
      | Inr u \<Rightarrow>
          (case setup_schema shape_mask candidate_masks of
             Inr schema \<Rightarrow> to_problem schema
           | Inl _ \<Rightarrow>
               problem_new (uni_column_count u)
                 (map (\<lambda>(i, m). \<lparr>cand_id = i, cand_columns = compact_columns_for_mask m u\<rparr>)
                   (enumerate 0 candidate_masks))))"

definition setup_enumerate :: "u64 \<Rightarrow> u64 list \<Rightarrow> DlxSearchLimits \<Rightarrow> DlxSolverError + DlxSolveReport option" where
  "setup_enumerate shape_mask candidate_masks limits =
     solve_all_limited (problem_from_shape_and_candidates shape_mask candidate_masks) limits"

section \<open>The universe numbers its cells\<close>

lemma index_cells_ok:
  "index_cells i cells m = Ok m' \<longleftrightarrow>
     distinct cells \<and> set cells \<inter> dom m = {} \<and> m' = m ++ map_of (zip cells [i..<i + length cells])"
proof (induction cells arbitrary: i m)
  case (Cons cell cells)
  define M where "M = map_of (zip cells [i + 1..<i + 1 + length cells])"
  have "[i..<i + length (cell # cells)] = i # [i + 1..<i + 1 + length cells]"
    by (simp add: upt_conv_Cons del: upt.simps)
  then have zip: "map_of (zip (cell # cells) [i..<i + length (cell # cells)]) = M(cell \<mapsto> i)"
    by (simp add: M_def del: upt.simps)
  have add: "m(cell \<mapsto> i) ++ M = m ++ M(cell \<mapsto> i)" if "cell \<notin> set cells"
  proof -
    have "M cell = None" using that unfolding M_def by (auto simp: map_of_eq_None_iff dest: set_zip_leftD)
    then show ?thesis by (auto simp: fun_eq_iff map_add_def split: option.splits)
  qed
  have ih: "index_cells (i + 1) cells (m(cell \<mapsto> i)) = Ok m' \<longleftrightarrow>
      distinct cells \<and> set cells \<inter> dom (m(cell \<mapsto> i)) = {} \<and> m' = m(cell \<mapsto> i) ++ M"
    unfolding M_def by (rule Cons.IH)
  show ?case
  proof (cases "m cell = None \<and> cell \<notin> set cells")
    case True
    then have step: "index_cells i (cell # cells) m = index_cells (i + 1) cells (m(cell \<mapsto> i))"
      and dom: "set cells \<inter> dom (m(cell \<mapsto> i)) = {} \<longleftrightarrow> set (cell # cells) \<inter> dom m = {}"
      by (auto simp: domIff)
    show ?thesis unfolding step zip ih dom add [OF conjunct2 [OF True]]
      using True by (simp only: distinct.simps simp_thms)
  next
    case False
    then show ?thesis using ih by (auto simp: dom_def)
  qed
qed auto

definition wf_universe :: "CellUniverse \<Rightarrow> bool" where
  "wf_universe u \<longleftrightarrow>
     uni_cells u \<noteq> [] \<and> distinct (uni_cells u) \<and>
     compact_by_cell u = map_of (zip (uni_cells u) [0..<length (uni_cells u)])"

lemma universe_new_ok: "universe_new cells = Ok u \<longleftrightarrow> wf_universe u \<and> uni_cells u = cells"
  by (cases u) (auto simp: universe_new_def and_then_eq_Ok_iff index_cells_ok wf_universe_def)

lemma compact_iff:
  assumes "wf_universe u"
  shows "compact_column_for_cell u cell = Some i \<longleftrightarrow> i < length (uni_cells u) \<and> uni_cells u ! i = cell"
proof -
  have d: "distinct (map fst (zip (uni_cells u) [0..<length (uni_cells u)]))"
    using assms by (simp add: wf_universe_def)
  show ?thesis
    using assms unfolding compact_column_for_cell_def wf_universe_def
    by (auto simp: map_of_eq_Some_iff [OF d] in_set_zip)
qed

lemma universe_bij: "wf_universe u \<Longrightarrow> bij_betw ((!) (uni_cells u)) {..<length (uni_cells u)} (set (uni_cells u))"
  by (rule bij_betw_nth) (simp_all add: wf_universe_def)

lemma compact_columns_ok:
  assumes "wf_universe u"
  shows "compact_columns_for_cells u cells = Ok columns \<longleftrightarrow>
    (\<forall>c\<in>set columns. c < length (uni_cells u)) \<and> map ((!) (uni_cells u)) columns = cells"
  unfolding compact_columns_for_cells_def try_map_eq_Ok_iff ok_or_eq_Ok_iff compact_iff [OF assms]
  by (induction cells arbitrary: columns) (auto simp: list_all2_Cons1 map_eq_Cons_conv)

lemma compact_mask_columns:
  assumes "wf_universe u"
  shows "set (compact_columns_for_mask m u) = {i. i < length (uni_cells u) \<and> bit m (unat (uni_cells u ! i))}"
    and "distinct (compact_columns_for_mask m u)"
proof -
  let ?xs = "filter (\<lambda>index. bit m (unat index)) (uni_cells u)"
  have some: "compact_column_for_cell u c = Some (the (compact_column_for_cell u c))" if "c \<in> set (uni_cells u)" for c
    using that compact_iff [OF assms] by (metis in_set_conv_nth option.sel)
  then have "filter (\<lambda>c. compact_column_for_cell u c \<noteq> None) ?xs = ?xs" by (intro filter_True) fastforce
  then have cols: "compact_columns_for_mask m u = map (\<lambda>c. the (compact_column_for_cell u c)) ?xs"
    unfolding compact_columns_for_mask_def bit_iff_and_single map_filter_def by (simp add: comp_def)
  have the: "the (compact_column_for_cell u c) = k \<longleftrightarrow> k < length (uni_cells u) \<and> uni_cells u ! k = c"
    if "c \<in> set (uni_cells u)" for c k
    using some [OF that] compact_iff [OF assms] by (metis option.sel)
  show "set (compact_columns_for_mask m u) = {i. i < length (uni_cells u) \<and> bit m (unat (uni_cells u ! i))}"
  proof (intro set_eqI)
    fix k
    have "k \<in> set (compact_columns_for_mask m u) \<longleftrightarrow>
        (\<exists>c\<in>set (uni_cells u). bit m (unat c) \<and> the (compact_column_for_cell u c) = k)"
      unfolding cols by auto
    also have "\<dots> \<longleftrightarrow> k \<in> {i. i < length (uni_cells u) \<and> bit m (unat (uni_cells u ! i))}"
      using the by (auto intro: bexI [of _ "uni_cells u ! k"])
    finally show "k \<in> set (compact_columns_for_mask m u) \<longleftrightarrow>
        k \<in> {i. i < length (uni_cells u) \<and> bit m (unat (uni_cells u ! i))}" .
  qed
  have "inj_on (\<lambda>c. the (compact_column_for_cell u c)) (set ?xs)"
    using the by (auto intro!: inj_onI) metis
  then show "distinct (compact_columns_for_mask m u)"
    unfolding cols using assms by (simp add: wf_universe_def distinct_map)
qed

section \<open>Tilings\<close>

text \<open>\<open>tiles U f k S\<close>: the pieces \<open>S\<close> among \<open>k\<close> are non-empty, disjoint and fill \<open>U\<close> exactly.\<close>

definition tiles :: "'a set \<Rightarrow> (nat \<Rightarrow> 'a set) \<Rightarrow> nat \<Rightarrow> nat set \<Rightarrow> bool" where
  "tiles U f k S \<longleftrightarrow>
     S \<subseteq> {..<k} \<and> (\<forall>i\<in>S. f i \<noteq> {}) \<and> (\<forall>i\<in>S. \<forall>j\<in>S. i \<noteq> j \<longrightarrow> f i \<inter> f j = {}) \<and> (\<Union>i\<in>S. f i) = U"

lemma tiles_cong: "(\<And>i. i < k \<Longrightarrow> f i = g i) \<Longrightarrow> tiles U f k S \<longleftrightarrow> tiles U g k S"
  unfolding tiles_def by (intro conj_cong refl ball_cong) (auto simp: subset_iff)

lemma exact_cover_tiles:
  assumes h: "bij_betw h {..<required_column_count p} U"
    and cols: "\<And>i. i < length (candidates p) \<Longrightarrow> cols p i \<subseteq> {..<required_column_count p} \<and> cols p i \<noteq> {}"
  shows "exact_cover p {} S \<longleftrightarrow> tiles U (\<lambda>i. h ` cols p i) (length (candidates p)) S"
proof (cases "S \<subseteq> {..<length (candidates p)}")
  case True
  let ?n = "required_column_count p"
  have inj: "inj_on h {..<?n}" and img: "h ` {..<?n} = U" using h by (simp_all add: bij_betw_def)
  have sub: "cols p i \<subseteq> {..<?n}" "cols p i \<noteq> {}" if "i \<in> S" for i using cols True that by auto
  have disj: "h ` cols p i \<inter> h ` cols p j = {} \<longleftrightarrow> cols p i \<inter> cols p j = {}" if "i \<in> S" "j \<in> S" for i j
    using inj_on_image_Int [OF inj sub(1) [OF that(1)] sub(1) [OF that(2)]] by auto
  have "(\<Union>i\<in>S. cols p i) \<subseteq> {..<?n}" using sub(1) by blast
  then have "{..<?n} \<subseteq> (\<Union>i\<in>S. cols p i) \<longleftrightarrow> h ` (\<Union>i\<in>S. cols p i) = U"
    using inj_on_image_eq_iff [OF inj, of "\<Union>i\<in>S. cols p i" "{..<?n}"] img by auto
  also have "h ` (\<Union>i\<in>S. cols p i) = (\<Union>i\<in>S. h ` cols p i)" by (rule image_UN)
  finally have cover: "{..<?n} \<subseteq> (\<Union>i\<in>S. cols p i) \<longleftrightarrow> (\<Union>i\<in>S. h ` cols p i) = U" .
  show ?thesis
    unfolding exact_cover_def tiles_def using True sub disj cover by (simp add: Int_absorb2)
qed (simp add: exact_cover_def tiles_def)

section \<open>Schemas\<close>

lemma check_range_ok: "check_range err n columns = Ok u \<longleftrightarrow> (\<forall>c\<in>set columns. c < n)"
  by (induction columns) auto

lemma validate_candidate_row_ok:
  "validate_candidate_row row n k = Ok u \<longleftrightarrow>
     row_required_columns row \<noteq> [] \<and> (\<forall>c\<in>set (row_required_columns row). c < n) \<and>
     (\<forall>c\<in>set (row_optional_columns row). c < k)"
  by (auto simp: validate_candidate_row_def and_then_eq_Ok_iff check_range_ok)

lemma check_rows_ok: "check_rows n k rows = Ok u \<longleftrightarrow> list_all (\<lambda>row. validate_candidate_row row n k = Ok ()) rows"
  by (induction rows) (auto simp: and_then_eq_Ok_iff)

lemma schema_new_ok:
  "schema_new universe usages slots areas required optional rows = Ok sch \<longleftrightarrow>
     universe \<noteq> [] \<and> required \<noteq> [] \<and> rows \<noteq> [] \<and> check_usages usages = Ok () \<and> check_areas areas = Ok () \<and>
     list_all (\<lambda>row. validate_candidate_row row (length required) (length optional) = Ok ()) rows \<and>
     sch = \<lparr>cell_universe = universe, piece_usage_constraints = usages, slot_constraints = slots,
            area_constraints = areas, required_columns = required, optional_columns = optional,
            candidate_rows = rows\<rparr>"
  by (auto simp: schema_new_def validate_schema_def and_then_eq_Ok_iff check_rows_ok)

text \<open>A candidate is typed for a problem when it serves a required column and stays in range.\<close>

definition typed_candidate :: "ExactCoverProblem \<Rightarrow> ExactCoverCandidate \<Rightarrow> bool" where
  "typed_candidate p x \<longleftrightarrow>
     (\<exists>c\<in>set (cand_columns x). c < required_column_count p) \<and> (\<forall>c\<in>set (cand_columns x). c < column_count p)"

lemma to_problem_typed:
  assumes "schema_new universe usages slots areas required optional rows = Ok sch"
  shows "list_all (typed_candidate (to_problem sch)) (candidates (to_problem sch))"
proof -
  have "typed_candidate (to_problem sch) (row_candidate (length required) row)" if "row \<in> set rows" for row
  proof -
    have "validate_candidate_row row (length required) (length optional) = Ok ()"
      using assms that by (simp add: schema_new_ok list_all_iff)
    then show ?thesis
      using assms by (cases "row_required_columns row")
        (auto simp: schema_new_ok validate_candidate_row_ok typed_candidate_def row_candidate_def to_problem_def
          with_optional_columns_def column_count_def)
  qed
  then show ?thesis
    using assms by (auto simp: schema_new_ok list_all_iff to_problem_def with_optional_columns_def)
qed

lemma typed_error:
  assumes "list_all (typed_candidate p) (candidates p)" "solve_all_limited p lim = Err e"
  shows "e = ZeroMaxSolutions \<or> e = ZeroMaxNodes \<or> (\<exists>i c. e = DuplicateColumnInCandidate i c)"
proof (cases "e = ZeroMaxSolutions \<or> e = ZeroMaxNodes")
  case False
  then have "build_rows_by_column p = Err e"
    using assms(2) by (auto simp: solve_all_limited_def and_then_eq_Err_iff split: if_splits)
  then obtain x where "x \<in> set (candidates p)" "names_fault p e x" using build_rows_by_column_Err by blast
  moreover from this(1) have "typed_candidate p x" using assms(1) by (simp add: list_all_iff)
  ultimately show ?thesis by (cases e) (auto simp: names_fault_def typed_candidate_def)
qed auto

lemma schema_problem:
  assumes "wf_universe u"
    and "schema_new (uni_cells u) usages [] areas (universe_columns u) [] rows = Ok sch"
    and "\<forall>row\<in>set rows. row_optional_columns row = []"
  shows "to_problem sch = problem_new (uni_column_count u)
    (map (\<lambda>row. \<lparr>cand_id = row_id row, cand_columns = row_required_columns row\<rparr>) rows)"
  using assms by (simp add: schema_new_ok to_problem_def with_optional_columns_def problem_new_def
      universe_columns_def uni_column_count_def row_candidate_def)

section \<open>The bridges enumerate tilings\<close>

lemma report_tilings:
  assumes solved: "solve_all_limited p lim = Ok (Some r)" and opt: "optional_column_count p = 0"
    and h: "bij_betw h {..<required_column_count p} U"
    and f: "\<And>i. i < length (candidates p) \<Longrightarrow> h ` cols p i = f i"
  shows "\<exists>L. set ` set L = {S. tiles U f (length (candidates p)) S} \<and> distinct (map set L) \<and>
    (dlx_complete r \<longrightarrow> report_solutions r = map (ids_of p) L) \<and> prefix (report_solutions r) (map (ids_of p) L)"
proof -
  have p: "valid_problem p" using solved by (simp add: solve_all_limited_eq_Ok)
  have cols: "cols p i \<subseteq> {..<required_column_count p} \<and> cols p i \<noteq> {}" if "i < length (candidates p)" for i
    using valid_cols [OF p that] opt by (auto simp: column_count_def)
  have covers: "exact_cover p {} S \<longleftrightarrow> tiles U f (length (candidates p)) S" for S
  proof -
    have "exact_cover p {} S \<longleftrightarrow> tiles U (\<lambda>i. h ` cols p i) (length (candidates p)) S"
      by (rule exact_cover_tiles [OF h cols])
    also have "\<dots> \<longleftrightarrow> tiles U f (length (candidates p)) S" by (rule tiles_cong) (rule f)
    finally show ?thesis .
  qed
  obtain st L where L: "r = dlx_finish st" "enumerates p {} L"
      "\<exists>rest. map (ids_of p) L = solutions st @ rest \<and> (truncated_reason st = None \<longrightarrow> rest = [])"
    using dlx_solved [OF solved] by auto
  have "set ` set L = {S. tiles U f (length (candidates p)) S}" "distinct (map set L)"
    using L(2) by (simp_all add: enumerates_def covers)
  moreover have "dlx_complete r \<longrightarrow> report_solutions r = map (ids_of p) L" "prefix (report_solutions r) (map (ids_of p) L)"
    using L(1,3) by (auto simp: dlx_finish_def)
  ultimately show ?thesis by blast
qed

text \<open>What every candidate built over the universe satisfies.\<close>

definition wf_generic :: "CellUniverse \<Rightarrow> GenericExactCoverCandidate \<Rightarrow> bool" where
  "wf_generic u g \<longleftrightarrow>
     gen_cells g \<noteq> [] \<and> gen_piece_area g = length (gen_cells g) \<and>
     compact_columns_for_cells u (gen_cells g) = Ok (gen_columns g)"

lemma generic_from_cells_ok:
  "generic_from_cells i pid area cells u = Ok g \<longleftrightarrow>
     gen_candidate_id g = i \<and> gen_piece_id g = pid \<and> gen_piece_area g = area \<and> gen_cells g = cells \<and> wf_generic u g"
  by (cases g) (auto simp: generic_from_cells_def wf_generic_def and_then_eq_Ok_iff)

lemma generic_columns:
  assumes "wf_universe u" "wf_generic u g"
  shows "(!) (uni_cells u) ` set (gen_columns g) = set (gen_cells g)"
proof -
  have "map ((!) (uni_cells u)) (gen_columns g) = gen_cells g"
    using assms by (simp add: wf_generic_def compact_columns_ok)
  then show ?thesis by (metis set_map)
qed

lemma mask_universe:
  assumes "universe_from_mask m = Ok u"
  shows "wf_universe u" "bij_betw (\<lambda>i. unat (uni_cells u ! i)) {..<length (uni_cells u)} (bits_of m)"
proof -
  have cells: "uni_cells u = map word_of_nat (cells_from_mask m)" and u: "wf_universe u"
    using assms by (simp_all add: universe_from_mask_def universe_new_ok)
  then show "wf_universe u" by simp
  have small: "unat (word_of_nat k :: u32) = k" if "k \<in> set (cells_from_mask m)" for k
    using that by (intro unat_word_of_nat) (auto simp: cells_from_mask_def)
  have "(\<lambda>i. unat (uni_cells u ! i)) = unat \<circ> (!) (uni_cells u)" by auto
  moreover have "bij_betw unat (set (uni_cells u)) (bits_of m)"
  proof (rule bij_betw_imageI)
    show "inj_on unat (set (uni_cells u))" by (auto intro: inj_onI word_eq_unatI)
    have "unat ` set (uni_cells u) = set (cells_from_mask m)" using small by (force simp: cells)
    also have "\<dots> = bits_of m"
      unfolding cells_from_mask_def bit_iff_and_single using bits_of_less [of m] by auto
    finally show "unat ` set (uni_cells u) = bits_of m" .
  qed
  ultimately show "bij_betw (\<lambda>i. unat (uni_cells u ! i)) {..<length (uni_cells u)} (bits_of m)"
    using bij_betw_trans [OF universe_bij [OF u]] by simp
qed

lemma universe_from_mask_cases:
  "universe_from_mask 0 = Err EmptyUniverse"
  "m \<noteq> 0 \<Longrightarrow> \<exists>u. universe_from_mask m = Ok u"
proof -
  show "universe_from_mask 0 = Err EmptyUniverse"
    by (simp add: universe_from_mask_def cells_from_mask_def universe_new_def)
  assume "m \<noteq> 0"
  then obtain k where "k \<in> bits_of m" using bits_of_empty_iff [of m] by blast
  then have "k \<in> set (cells_from_mask m)"
    unfolding cells_from_mask_def bit_iff_and_single using bits_of_less [of m] by auto
  moreover have "distinct (map word_of_nat (cells_from_mask m) :: u32 list)"
  proof -
    have "inj_on (word_of_nat :: nat \<Rightarrow> u32) (set (cells_from_mask m))"
      by (rule inj_onI, drule arg_cong [of _ _ unat])
        (auto simp: cells_from_mask_def unat_word_of_nat simp del: unat_of_nat)
    then show ?thesis by (simp add: distinct_map cells_from_mask_def)
  qed
  ultimately show "\<exists>u. universe_from_mask m = Ok u"
    unfolding universe_from_mask_def universe_new_ok wf_universe_def
    by (intro exI [of _ "\<lparr>uni_cells = map word_of_nat (cells_from_mask m),
        compact_by_cell = map_of (zip (map word_of_nat (cells_from_mask m)) [0..<length (cells_from_mask m)])\<rparr>"])
      auto
qed

lemma setup_problem:
  assumes "universe_from_mask shape = Ok u"
  shows "problem_from_shape_and_candidates shape masks = problem_new (uni_column_count u)
    (map (\<lambda>(i, m). \<lparr>cand_id = i, cand_columns = compact_columns_for_mask m u\<rparr>) (enumerate 0 masks))"
proof (cases "setup_schema shape masks")
  case (Inr sch)
  then have "schema_new (uni_cells u) [] [] [\<lparr>area_label = ''setup-shape-area'', component_area = uni_column_count u\<rparr>]
      (universe_columns u) []
      (map (\<lambda>(i, m). \<lparr>row_id = i, row_required_columns = compact_columns_for_mask m u, row_optional_columns = []\<rparr>)
        (enumerate 0 masks)) = Ok sch"
    by (simp add: setup_schema_def assms)
  from schema_problem [OF mask_universe(1) [OF assms] this]
  have "to_problem sch = problem_new (uni_column_count u)
      (map (\<lambda>(i, m). \<lparr>cand_id = i, cand_columns = compact_columns_for_mask m u\<rparr>) (enumerate 0 masks))"
    by (auto simp: comp_def split_def)
  with Inr show ?thesis by (simp add: problem_from_shape_and_candidates_def assms)
qed (simp add: problem_from_shape_and_candidates_def assms)

lemma setup_problem_candidates:
  fixes masks :: "u64 list"
  assumes "universe_from_mask shape = Ok u"
  defines "p \<equiv> problem_from_shape_and_candidates shape masks"
  shows "length (candidates p) = length masks" "required_column_count p = length (uni_cells u)"
    "optional_column_count p = 0"
    "i < length masks \<Longrightarrow> candidates p ! i = \<lparr>cand_id = i, cand_columns = compact_columns_for_mask (masks ! i) u\<rparr>"
  unfolding p_def setup_problem [OF assms(1)] by (simp_all add: problem_new_def uni_column_count_def nth_enumerate_eq)

lemma setup_report:
  assumes solved: "solve_all_limited (problem_from_shape_and_candidates shape masks) lim = Ok (Some r)"
  shows "\<exists>L. set ` set L = {S. tiles (bits_of shape) (\<lambda>i. bits_of (masks ! i) \<inter> bits_of shape) (length masks) S} \<and>
    distinct (map set L) \<and> (dlx_complete r \<longrightarrow> report_solutions r = L) \<and> prefix (report_solutions r) L"
proof (cases "shape = 0")
  case True
  have none: "tiles {} f k S \<longleftrightarrow> S = {}" for f :: "nat \<Rightarrow> nat set" and k S by (auto simp: tiles_def)
  have p: "problem_from_shape_and_candidates shape masks = problem_new 0 []"
    by (simp add: problem_from_shape_and_candidates_def True universe_from_mask_cases)
  obtain L where L: "set ` set L = {S. S = {}}" "distinct (map set L)"
      "dlx_complete r \<longrightarrow> report_solutions r = map (ids_of (problem_new 0 [])) L"
      "prefix (report_solutions r) (map (ids_of (problem_new 0 [])) L)"
    using report_tilings [OF solved [unfolded p], of id "{}" "\<lambda>_. {}"] by (auto simp: problem_new_def none)
  have "map (ids_of (problem_new 0 [])) L = L" using L(1) by (intro map_idI) auto
  then show ?thesis using L by (auto simp: True bits_of_zero none)
next
  case False
  then obtain u where u: "universe_from_mask shape = Ok u" using universe_from_mask_cases(2) by blast
  define p where "p = problem_from_shape_and_candidates shape masks"
  note p = setup_problem_candidates [OF u, where masks = masks, folded p_def]
  note bij = mask_universe(2) [OF u]
  have "(\<lambda>i. unat (uni_cells u ! i)) ` cols p i = bits_of (masks ! i) \<inter> bits_of shape" if "i < length masks" for i
    unfolding p(4) [OF that] bij_betw_imp_surj_on [OF bij, symmetric]
    by (auto simp: compact_mask_columns(1) [OF mask_universe(1) [OF u]])
  then obtain L where L: "set ` set L = {S. tiles (bits_of shape) (\<lambda>i. bits_of (masks ! i) \<inter> bits_of shape) (length masks) S}"
      "distinct (map set L)" "dlx_complete r \<longrightarrow> report_solutions r = map (ids_of p) L"
      "prefix (report_solutions r) (map (ids_of p) L)"
    using report_tilings [OF solved [folded p_def] p(3), where h = "\<lambda>i. unat (uni_cells u ! i)" and U = "bits_of shape" and
        f = "\<lambda>i. bits_of (masks ! i) \<inter> bits_of shape"] bij p(1,2) by auto
  have "ids_of p ks = ks" if "ks \<in> set L" for ks
  proof (rule map_idI)
    fix i assume "i \<in> set ks"
    moreover have "set ks \<in> set ` set L" using that by blast
    ultimately have "i < length masks" unfolding L(1) by (auto simp: tiles_def)
    then show "cand_id (candidates p ! i) = i" by (simp add: p(4))
  qed
  then have "map (ids_of p) L = L" by (rule map_idI)
  then show ?thesis using L by auto
qed

lemma generic_problem:
  assumes "wf_universe u" "problem_schema_from_candidates u cands usages areas = Ok sch"
  shows "to_problem sch = problem_from_candidates u cands"
  using schema_problem [OF assms(1), of usages areas _ sch] assms(2)
  by (simp add: problem_schema_from_candidates_def problem_from_candidates_def
      to_exact_cover_candidate_def [abs_def] comp_def)

lemma generic_enumerate_eq_Ok:
  assumes "wf_universe u" "generic_enumerate_tilings u cands areas lim = Ok res"
  shows "solve_all_limited (problem_from_candidates u cands) lim = Ok res"
proof -
  obtain sch where "problem_schema_from_candidates u cands []
      [\<lparr>area_label = ''cell-universe-area'', component_area = uni_column_count u\<rparr>] = Ok sch"
    "solve_all_limited (to_problem sch) lim = Ok res"
    using assms(2) by (auto simp: generic_enumerate_tilings_def and_then_eq_Ok_iff split: if_splits)
  then show ?thesis using generic_problem [OF assms(1)] by simp
qed

section \<open>What the builders promise\<close>

text \<open>
  The columns of a universe number its cells: a cell has column \<open>i\<close> exactly when it is the
  \<open>i\<close>-th cell, and a list of cells maps to columns exactly when the columns read back as those cells.
\<close>

theorem universe_columns_roundtrip:
  assumes "universe_new cells = Ok u"
  shows "(compact_column_for_cell u cell = Some i \<longleftrightarrow> i < length cells \<and> cells ! i = cell) \<and>
    (compact_columns_for_cells u some_cells = Ok columns \<longleftrightarrow>
      set columns \<subseteq> {..<length cells} \<and> map ((!) cells) columns = some_cells)"
  using assms compact_iff [of u cell i] compact_columns_ok [of u some_cells columns]
  by (auto simp: universe_new_ok)

theorem universe_columns_roundtrip_witness:
  "\<exists>u. universe_new [4, 9, 20] = Ok u \<and> compact_column_for_cell u 9 = Some 1 \<and>
     compact_columns_for_cells u [20, 4] = Ok [2, 0]"
proof -
  obtain u where u: "universe_new [4, 9, 20 :: u32] = Ok u"
    by (cases "universe_new [4, 9, 20 :: u32]") (simp_all add: universe_new_def)
  then show ?thesis
    using universe_columns_roundtrip [OF u, of 9 1 "[20, 4]" "[2, 0]"] by (simp add: numeral_2_eq_2)
qed

text \<open>
  C24 (type): the problem of an accepted schema is well typed: every candidate serves a required column and
  all its columns are in range.  The solver can then only reject a zero limit or a repeated column.
\<close>

theorem schema_problem_typed:
  assumes "schema_new universe usages slots areas required optional rows = Ok sch"
  shows "list_all (typed_candidate (to_problem sch)) (candidates (to_problem sch)) \<and>
    (solve_all_limited (to_problem sch) lim = Err e \<longrightarrow>
      e = ZeroMaxSolutions \<or> e = ZeroMaxNodes \<or> (\<exists>i c. e = DuplicateColumnInCandidate i c))"
  using to_problem_typed [OF assms] typed_error by blast

theorem schema_problem_typed_witness:
  "\<exists>sch. schema_new [0, 1] [] [] [] [column_required 0 ''cell:0''] [column_optional 0 ''piece'']
      [\<lparr>row_id = 1, row_required_columns = [0], row_optional_columns = [0]\<rparr>] = Ok sch \<and>
    list_all (typed_candidate (to_problem sch)) (candidates (to_problem sch))"
proof -
  have "is_ok (schema_new [0, 1] [] [] [] [column_required 0 ''cell:0''] [column_optional 0 ''piece'']
      [\<lparr>row_id = 1, row_required_columns = [0], row_optional_columns = [0]\<rparr>])" by code_simp
  then obtain sch where "schema_new [0, 1] [] [] [] [column_required 0 ''cell:0''] [column_optional 0 ''piece'']
      [\<lparr>row_id = 1, row_required_columns = [0], row_optional_columns = [0]\<rparr>] = Ok sch" by (auto simp: is_ok_iff)
  then show ?thesis using schema_problem_typed by blast
qed

text \<open>
  C7 (refinement): over a universe of cells and candidates built from cells, the generic bridge enumerates
  the tilings of the universe: the sets of candidates whose cells are disjoint and fill it.  A complete
  report lists each tiling once by the candidate identifiers; a truncated report is a prefix of that list.
\<close>

theorem generic_bridge_tilings:
  assumes "universe_new cells = Ok u" and "\<forall>g\<in>set cands. wf_generic u g"
    and "generic_enumerate_tilings u cands areas lim = Ok (Some r)"
  shows "\<exists>L. set ` set L = {S. tiles (set cells) (\<lambda>i. set (gen_cells (cands ! i))) (length cands) S} \<and>
    distinct (map set L) \<and>
    (dlx_complete r \<longrightarrow> report_solutions r = map (map (\<lambda>i. gen_candidate_id (cands ! i))) L) \<and>
    prefix (report_solutions r) (map (map (\<lambda>i. gen_candidate_id (cands ! i))) L)"
proof -
  have u: "wf_universe u" "uni_cells u = cells" using assms(1) by (simp_all add: universe_new_ok)
  define p where "p = problem_from_candidates u cands"
  have p: "length (candidates p) = length cands" "required_column_count p = length cells" "optional_column_count p = 0"
      "\<And>i. i < length cands \<Longrightarrow> candidates p ! i = to_exact_cover_candidate (cands ! i)"
    by (simp_all add: p_def problem_from_candidates_def problem_new_def uni_column_count_def u)
  have "(!) cells ` cols p i = set (gen_cells (cands ! i))" if "i < length cands" for i
    using generic_columns [OF u(1), of "cands ! i"] assms(2) that by (simp add: p(4) to_exact_cover_candidate_def u(2))
  then obtain L where L: "set ` set L = {S. tiles (set cells) (\<lambda>i. set (gen_cells (cands ! i))) (length cands) S}"
      "distinct (map set L)" "dlx_complete r \<longrightarrow> report_solutions r = map (ids_of p) L"
      "prefix (report_solutions r) (map (ids_of p) L)"
    using report_tilings [OF generic_enumerate_eq_Ok [OF u(1) assms(3), folded p_def] p(3), where h = "(!) cells" and
        U = "set cells" and f = "\<lambda>i. set (gen_cells (cands ! i))"] universe_bij [OF u(1)] p(1,2) by (auto simp: u(2))
  have "ids_of p ks = map (\<lambda>i. gen_candidate_id (cands ! i)) ks" if "ks \<in> set L" for ks
  proof (rule map_cong [OF refl])
    fix i assume "i \<in> set ks"
    moreover have "set ks \<in> set ` set L" using that by blast
    ultimately have "i < length cands" unfolding L(1) by (auto simp: tiles_def)
    then show "cand_id (candidates p ! i) = gen_candidate_id (cands ! i)" by (simp add: p(4) to_exact_cover_candidate_def)
  qed
  then have "map (ids_of p) L = map (map (\<lambda>i. gen_candidate_id (cands ! i))) L" by (rule map_cong [OF refl])
  from L(3,4) [unfolded this] L(1,2) show ?thesis by blast
qed

theorem generic_bridge_tilings_witness:
  "\<exists>u g r L. universe_new [4, 9] = Ok u \<and> generic_from_cells 7 ''custom:duo'' 2 [9, 4] u = Ok g \<and>
     generic_enumerate_tilings u [g] [2] \<lparr>max_solutions = 5, max_nodes = 9\<rparr> = Ok (Some r) \<and>
     set ` set L = {S. tiles (set [4, 9]) (\<lambda>i. set (gen_cells ([g] ! i))) (length [g]) S} \<and>
     report_solutions r = map (map (\<lambda>i. gen_candidate_id ([g] ! i))) L"
proof -
  define u where "u = \<lparr>uni_cells = [4, 9 :: u32], compact_by_cell = [4 \<mapsto> 0, 9 \<mapsto> 1]\<rparr>"
  define g where "g = \<lparr>gen_candidate_id = 7, gen_piece_id = ''custom:duo'', gen_piece_area = 2,
      gen_cells = [9, 4 :: u32], gen_columns = [1, 0]\<rparr>"
  define r where "r = \<lparr>report_solutions = [[7]], report_searched_nodes = 2, dlx_complete = True,
      report_truncated_reason = None\<rparr>"
  have u: "universe_new [4, 9] = Ok u" by (simp add: universe_new_def u_def)
  have g: "generic_from_cells 7 ''custom:duo'' 2 [9, 4] u = Ok g"
    by (simp add: generic_from_cells_def compact_columns_for_cells_def compact_column_for_cell_def u_def g_def)
  have r: "generic_enumerate_tilings u [g] [2] \<lparr>max_solutions = 5, max_nodes = 9\<rparr> = Ok (Some r)"
    unfolding u_def g_def r_def by code_simp
  have "\<forall>h\<in>set [g]. wf_generic u h" using g by (simp add: generic_from_cells_ok)
  moreover have "dlx_complete r" by (simp add: r_def)
  ultimately show ?thesis using generic_bridge_tilings [OF u _ r] u g r by blast
qed

text \<open>
  C23 (refinement): the setup bridge enumerates the sets of candidate masks whose cells inside the shape
  are disjoint and fill the shape; cells of a mask outside the shape are ignored.
\<close>

theorem setup_bridge_tilings:
  assumes "setup_enumerate shape masks lim = Ok (Some r)"
  shows "\<exists>L. set ` set L = {S. tiles (bits_of shape) (\<lambda>i. bits_of (masks ! i) \<inter> bits_of shape) (length masks) S} \<and>
    distinct (map set L) \<and> (dlx_complete r \<longrightarrow> report_solutions r = L) \<and> prefix (report_solutions r) L"
  by (rule setup_report [OF assms [unfolded setup_enumerate_def]])

lemma sample_setup:
  "problem_from_shape_and_candidates 6 [6, 2, 20] = problem_new 2
     [\<lparr>cand_id = 0, cand_columns = [0, 1]\<rparr>, \<lparr>cand_id = 1, cand_columns = [0]\<rparr>, \<lparr>cand_id = 2, cand_columns = [1]\<rparr>]"
proof -
  have "[0..<64] = [0, 1, 2] @ [3..<64]" by (simp add: upt_conv_Cons)
  moreover have "filter (bit (6 :: u64)) [3..<64] = []"
    using bits_of_less_exp [of "6 :: u64" 3] by (auto simp: filter_empty_conv)
  ultimately have "cells_from_mask 6 = [1, 2]"
    unfolding cells_from_mask_def bit_iff_and_single by simp
  then have "universe_from_mask 6 = Ok \<lparr>uni_cells = [1, 2], compact_by_cell = [1 \<mapsto> 0, 2 \<mapsto> 1]\<rparr>"
    by (simp add: universe_from_mask_def universe_new_def)
  then show ?thesis
    by (simp add: setup_problem compact_columns_for_mask_def compact_column_for_cell_def map_filter_simps
        bit_iff_and_single uni_column_count_def)
      (simp add: numeral_2_eq_2)
qed

theorem setup_bridge_tilings_witness:
  "\<exists>r L. setup_enumerate 6 [6, 2, 20] \<lparr>max_solutions = 5, max_nodes = 9\<rparr> = Ok (Some r) \<and>
     set ` set L = {S. tiles (bits_of (6 :: u64)) (\<lambda>i. bits_of ([6, 2, 20] ! i :: u64) \<inter> bits_of (6 :: u64)) (length [6 :: u64, 2, 20]) S} \<and>
     report_solutions r = L"
proof -
  define r where "r = \<lparr>report_solutions = [[0], [1, 2]], report_searched_nodes = 4, dlx_complete = True,
      report_truncated_reason = None\<rparr>"
  have r: "setup_enumerate 6 [6, 2, 20] \<lparr>max_solutions = 5, max_nodes = 9\<rparr> = Ok (Some r)"
    unfolding setup_enumerate_def sample_setup r_def by code_simp
  have "dlx_complete r" by (simp add: r_def)
  then show ?thesis using setup_bridge_tilings [OF r] r by blast
qed

end
