(* ===== verification/BigNats.thy ===== *)
theory BigNats
  imports Prelude
begin

text \<open>
  Arbitrary-precision naturals and combinadics of the CTK3 codec (\<open>clearra-ctk3/src/big_nat.rs\<close>).
  A \<open>BigNat\<close> is the list of its 32-bit limbs, least significant first; \<open>big_val\<close> is the number it
  stands for and \<open>normalized\<close> that it has no leading zero limb.  Debug assertions are modelled as
  enabled: a failing one is \<open>Panic\<close>, as is a division by zero.  The lemmas show that the arithmetic
  refines the one on naturals without any panic, that \<open>combination_count\<close> is the binomial
  coefficient, and that ranking and unranking of combinations are inverse to one another.
\<close>

named_theorems big_simps \<open>the arithmetic of \<open>BigNat\<close> as arithmetic on naturals\<close>

section \<open>Errors\<close>

datatype Ctk3CodecError =
    InvalidWidth nat
  | InvalidPageCount nat
  | InvalidHeight nat nat
  | InvalidCellCount nat nat nat
  | CommentTooLong nat nat
  | InvalidGarbageWidth nat nat nat
  | InvalidOperationCoordinate nat
  | InvalidBundleSegmentCount nat
  | BundleSegmentCountMismatch nat nat
  | InvalidBundleSegment nat
  | BundleWidthMismatch nat
  | BundlePageLimitExceeded
  | PayloadTooLarge nat
  | InvalidPayload string
  | InvalidUtf8
  | IntegerOverflow

type_synonym codec_fault = "Ctk3CodecError fault"

section \<open>Limbs\<close>

datatype BigNat = BigNat (limbs: "u32 list")

definition big_zero :: BigNat where "big_zero = BigNat []"

definition big_one :: BigNat where "big_one = BigNat [1]"

definition big_is_zero :: "BigNat \<Rightarrow> bool" where "big_is_zero n = (limbs n = [])"

definition leading_zeros :: "'a::len word \<Rightarrow> nat" where
  "leading_zeros w = length (takeWhile (\<lambda>i. \<not> bit w i) (rev [0..<LENGTH('a)]))"

definition big_bit_len :: "BigNat \<Rightarrow> nat" where
  "big_bit_len n =
     (if limbs n = [] then 0
      else (length (limbs n) - 1) * 32 + (32 - leading_zeros (last (limbs n))))"

definition big_bit :: "BigNat \<Rightarrow> nat \<Rightarrow> bool" where
  "big_bit n index =
     (index div 32 < length (limbs n) \<and> limbs n ! (index div 32) AND push_bit (index mod 32) 1 \<noteq> 0)"

definition set_bit_big :: "BigNat \<Rightarrow> nat \<Rightarrow> BigNat" where
  "set_bit_big n index =
     (let limb = index div 32;
          ls = (if length (limbs n) \<le> limb then resize (limbs n) (limb + 1) 0 else limbs n)
      in BigNat (ls[limb := (ls ! limb) OR push_bit (index mod 32) 1]))"

fun normalize_limbs :: "u32 list \<Rightarrow> u32 list" where
  "normalize_limbs ls = (if ls \<noteq> [] \<and> last ls = 0 then normalize_limbs (butlast ls) else ls)"

declare normalize_limbs.simps [simp del]

section \<open>Arithmetic\<close>

text \<open>The loop of the addition; the carry left at the end becomes a new limb.\<close>

primrec add_limbs :: "u32 list \<Rightarrow> u32 list \<Rightarrow> u64 \<Rightarrow> u32 list" where
  "add_limbs [] other carry = (if carry \<noteq> 0 then [ucast carry] else [])"
| "add_limbs (limb # ls) other carry =
     (let rhs = ucast (get_or 0 other 0);
          value = ucast limb + rhs + carry
      in ucast value # add_limbs ls (tl other) (drop_bit 32 value))"

definition add_assign :: "BigNat \<Rightarrow> BigNat \<Rightarrow> BigNat" where
  "add_assign n other =
     (let ls = (if length (limbs n) < length (limbs other)
                then resize (limbs n) (length (limbs other)) 0 else limbs n)
      in BigNat (add_limbs ls (limbs other) 0))"

definition big_cmp :: "BigNat \<Rightarrow> BigNat \<Rightarrow> Ordering" where
  "big_cmp n other =
     (if compare (length (limbs n)) (length (limbs other)) = Equal
      then iter_cmp (rev (limbs n)) (rev (limbs other))
      else compare (length (limbs n)) (length (limbs other)))"

text \<open>The loop of the subtraction; it returns the limbs and the borrow left at the end.\<close>

primrec sub_limbs :: "u32 list \<Rightarrow> u32 list \<Rightarrow> u64 \<Rightarrow> u32 list \<times> u64" where
  "sub_limbs [] other borrow = ([], borrow)"
| "sub_limbs (limb # ls) other borrow =
     (let lhs = ucast limb;
          rhs = ucast (get_or 0 other 0) + borrow
      in if rhs \<le> lhs
         then (let (rest, b) = sub_limbs ls (tl other) 0 in (ucast (lhs - rhs) # rest, b))
         else (let (rest, b) = sub_limbs ls (tl other) 1
               in (ucast (push_bit 32 1 + lhs - rhs) # rest, b)))"

definition checked_sub_assign :: "BigNat \<Rightarrow> BigNat \<Rightarrow> codec_fault + bool \<times> BigNat" where
  "checked_sub_assign n other =
     (if big_cmp n other = Less then Ok (False, n)
      else (let (ls, borrow) = sub_limbs (limbs n) (limbs other) 0
            in if borrow = 0 then Ok (True, BigNat (normalize_limbs ls)) else Err Panic))"

primrec mul_limbs :: "u32 list \<Rightarrow> u32 \<Rightarrow> u64 \<Rightarrow> u32 list" where
  "mul_limbs [] factor carry = (if carry \<noteq> 0 then [ucast carry] else [])"
| "mul_limbs (limb # ls) factor carry =
     (let value = ucast limb * ucast factor + carry
      in ucast value # mul_limbs ls factor (drop_bit 32 value))"

definition mul_u32_assign :: "BigNat \<Rightarrow> u32 \<Rightarrow> BigNat" where
  "mul_u32_assign n factor =
     (if factor = 0 \<or> big_is_zero n then BigNat [] else BigNat (mul_limbs (limbs n) factor 0))"

text \<open>The loop of the division, from the most significant limb down.\<close>

primrec div_limbs :: "u32 list \<Rightarrow> u64 \<Rightarrow> u64 \<Rightarrow> u32 list \<times> u64" where
  "div_limbs [] divisor remainder = ([], remainder)"
| "div_limbs (limb # ls) divisor remainder =
     (let value = push_bit 32 remainder OR ucast limb;
          (rest, r) = div_limbs ls divisor (value mod divisor)
      in (ucast (value div divisor) # rest, r))"

definition div_u32_assign :: "BigNat \<Rightarrow> u32 \<Rightarrow> codec_fault + u32 \<times> BigNat" where
  "div_u32_assign n divisor =
     (if divisor = 0 then Err Panic
      else (let (ls, remainder) = div_limbs (rev (limbs n)) (ucast divisor) 0
            in Ok (ucast remainder, BigNat (normalize_limbs (rev ls)))))"

definition subtract_one :: "BigNat \<Rightarrow> codec_fault + BigNat" where
  "subtract_one n =
     and_then (checked_sub_assign n big_one) (\<lambda>(removed, value). if removed then Ok value else Err Panic)"

section \<open>Combinadics\<close>

definition combination_count :: "nat \<Rightarrow> nat \<Rightarrow> codec_fault + BigNat" where
  "combination_count total_cells selected =
     (if selected > total_cells then Ok big_zero
      else (let count' = min selected (total_cells - selected)
            in try_fold
                 (\<lambda>value index.
                    and_then (div_u32_assign
                               (mul_u32_assign value (word_of_nat (total_cells - count' + index)))
                               (word_of_nat index))
                      (\<lambda>(remainder, value). if remainder = 0 then Ok value else Err Panic))
                 big_one [1..<count' + 1]))"

definition combination_rank :: "nat list \<Rightarrow> codec_fault + BigNat" where
  "combination_rank positions =
     try_fold
       (\<lambda>rank (index, position).
          and_then (combination_count position (index + 1)) (\<lambda>choices. Ok (add_assign rank choices)))
       big_zero (enumerate 0 positions)"

text \<open>The binary search for the largest position whose combinations do not exceed the rank.\<close>

function unrank_search :: "nat \<Rightarrow> BigNat \<Rightarrow> nat \<Rightarrow> nat \<Rightarrow> nat \<Rightarrow> codec_fault + nat" where
  "unrank_search index rank low high position =
     (if low \<le> high
      then (let candidate = low + (high - low) div 2
            in and_then (combination_count candidate index)
                 (\<lambda>choices.
                    if big_cmp choices rank \<noteq> Greater
                    then unrank_search index rank (candidate + 1) high candidate
                    else if candidate = 0 then Ok position
                    else unrank_search index rank low (candidate - 1) position))
      else Ok position)"
  by pat_completeness auto
termination
  by (relation "measure (\<lambda>(index, rank, low, high, position). high + 1 - low)") auto

declare unrank_search.simps [simp del]

text \<open>The loop over the selected positions, from the last one down.\<close>

primrec unrank_positions ::
  "nat \<Rightarrow> BigNat \<Rightarrow> nat \<Rightarrow> nat list \<Rightarrow> codec_fault + nat list option" where
  "unrank_positions 0 rank upper positions = Ok (if big_is_zero rank then Some positions else None)"
| "unrank_positions (Suc i) rank upper positions =
     and_then (unrank_search (Suc i) rank i upper i)
       (\<lambda>position. and_then (combination_count position (Suc i))
         (\<lambda>choices. and_then (checked_sub_assign rank choices)
           (\<lambda>(removed, rank).
              if \<not> removed then Ok None
              else if i > 0 \<and> position = 0 then Ok None
              else unrank_positions i rank (if i > 0 then position - 1 else upper)
                     (positions[i := position]))))"

definition combination_unrank :: "nat \<Rightarrow> nat \<Rightarrow> BigNat \<Rightarrow> codec_fault + nat list option" where
  "combination_unrank total_cells selected source_rank =
     (if selected > total_cells then Ok None
      else if selected = 0
      then Ok (if big_is_zero source_rank then Some (replicate selected 0) else None)
      else unrank_positions selected source_rank (total_cells - 1) (replicate selected 0))"

section \<open>Values\<close>

primrec limbs_val :: "u32 list \<Rightarrow> nat" where
  "limbs_val [] = 0"
| "limbs_val (limb # ls) = unat limb + 2 ^ 32 * limbs_val ls"

definition big_val :: "BigNat \<Rightarrow> nat" where "big_val n = limbs_val (limbs n)"

definition normalized :: "BigNat \<Rightarrow> bool" where
  "normalized n \<longleftrightarrow> limbs n = [] \<or> last (limbs n) \<noteq> 0"

text \<open>The number with no leading zero limb is determined by its value.\<close>

fun limbs_of_nat :: "nat \<Rightarrow> u32 list" where
  "limbs_of_nat n = (if n = 0 then [] else word_of_nat (n mod 2 ^ 32) # limbs_of_nat (n div 2 ^ 32))"

declare limbs_of_nat.simps [simp del]

lemma limbs_val_append: "limbs_val (xs @ ys) = limbs_val xs + 2 ^ (32 * length xs) * limbs_val ys"
  by (induction xs) (simp_all add: power_add algebra_simps)

lemma limbs_val_replicate_0 [simp]: "limbs_val (replicate n 0) = 0"
  by (induction n) simp_all

lemma limbs_val_less: "limbs_val ls < 2 ^ (32 * length ls)"
proof (induction ls)
  case (Cons l ls)
  have "unat l < 2 ^ 32" using unat_lt2p [of l] by simp
  then have "unat l + 2 ^ 32 * limbs_val ls < 2 ^ 32 * (limbs_val ls + 1)" by simp
  also have "\<dots> \<le> 2 ^ 32 * 2 ^ (32 * length ls)" using Cons by (intro mult_le_mono2) simp
  finally show ?case by (simp add: power_add)
qed simp

lemma limbs_val_last:
  assumes "ls \<noteq> []" "last ls \<noteq> 0" shows "2 ^ (32 * (length ls - 1)) \<le> limbs_val ls"
proof -
  have "limbs_val ls = limbs_val (butlast ls) + 2 ^ (32 * (length ls - 1)) * unat (last ls)"
    using limbs_val_append [of "butlast ls" "[last ls]"] assms by simp
  moreover have "2 ^ (32 * (length ls - 1)) * 1 \<le> 2 ^ (32 * (length ls - 1)) * unat (last ls)"
    using assms by (intro mult_le_mono2) (simp add: unat_gt_0 Suc_leI)
  ultimately show ?thesis by linarith
qed

lemma limbs_val_eq_0:
  assumes "normalized n" shows "big_val n = 0 \<longleftrightarrow> limbs n = []"
proof (cases "limbs n = []")
  case False
  then have "2 ^ (32 * (length (limbs n) - 1)) \<le> big_val n"
    using assms limbs_val_last [of "limbs n"] by (simp add: normalized_def big_val_def)
  moreover have "(0 :: nat) < 2 ^ (32 * (length (limbs n) - 1))" by (rule zero_less_power) simp
  ultimately have "0 < big_val n" by linarith
  then show ?thesis using False by simp
qed (simp add: big_val_def)

lemma big_is_zero_iff: "normalized n \<Longrightarrow> big_is_zero n \<longleftrightarrow> big_val n = 0"
  by (simp add: big_is_zero_def limbs_val_eq_0)

lemma big_val_zero [simp]: "big_val big_zero = 0"
  by (simp add: big_zero_def big_val_def)

lemma big_val_one [simp]: "big_val big_one = 1"
  by (simp add: big_one_def big_val_def)

lemma normalized_zero [simp]: "normalized big_zero"
  by (simp add: big_zero_def normalized_def)

lemma normalized_one [simp]: "normalized big_one"
  by (simp add: big_one_def normalized_def)

lemma limbs_val_zero_last:
  assumes "ls \<noteq> []" "last ls = 0" shows "limbs_val ls = limbs_val (butlast ls)"
proof -
  have "ls = butlast ls @ [0]" using assms append_butlast_last_id [of ls] by simp
  then show ?thesis
    by (metis limbs_val_append limbs_val.simps unsigned_0 mult_0_right add_0_right)
qed

lemma normalize_limbs_val: "limbs_val (normalize_limbs ls) = limbs_val ls"
proof (induction ls rule: normalize_limbs.induct)
  case (1 ls)
  show ?case
  proof (cases "ls \<noteq> [] \<and> last ls = 0")
    case True
    then have "limbs_val ls = limbs_val (butlast ls)" by (simp add: limbs_val_zero_last)
    then show ?thesis using 1 True by (simp add: normalize_limbs.simps [of ls])
  next
    case False
    then show ?thesis by (subst normalize_limbs.simps) auto
  qed
qed

lemma normalized_normalize_limbs: "normalized (BigNat (normalize_limbs ls))"
proof (induction ls rule: normalize_limbs.induct)
  case (1 ls)
  show ?case
  proof (cases "ls \<noteq> [] \<and> last ls = 0")
    case True
    then show ?thesis using 1 by (simp add: normalize_limbs.simps [of ls])
  next
    case False
    then show ?thesis by (subst normalize_limbs.simps) (auto simp: normalized_def)
  qed
qed

lemma limbs_val_inj:
  assumes "limbs_val xs = limbs_val ys" "length xs = length ys" shows "xs = ys"
  using assms(2,1)
proof (induction rule: list_induct2)
  case (Cons x xs y ys)
  have "limbs_val (x # xs) mod 2 ^ 32 = unat x" "limbs_val (y # ys) mod 2 ^ 32 = unat y"
    using unat_lt2p [of x] unat_lt2p [of y] by simp_all
  then have "unat x = unat y" using Cons.prems by metis
  then show ?case using Cons by (simp add: word_eq_unatI)
qed simp

lemma normalized_length_le:
  assumes "normalized n" "big_val n \<le> big_val m" shows "length (limbs n) \<le> length (limbs m)"
proof (rule ccontr)
  assume l: "\<not> ?thesis"
  then have "limbs n \<noteq> []" by auto
  then have "2 ^ (32 * (length (limbs n) - 1)) \<le> big_val n"
    using assms(1) limbs_val_last [of "limbs n"] by (auto simp: normalized_def big_val_def)
  moreover have "big_val m < 2 ^ (32 * length (limbs m))"
    by (simp add: big_val_def limbs_val_less)
  moreover have "(2 :: nat) ^ (32 * length (limbs m)) \<le> 2 ^ (32 * (length (limbs n) - 1))"
    using l by (intro power_increasing) auto
  ultimately show False using assms(2) by linarith
qed

lemma big_val_inj:
  assumes "normalized n" "normalized m" "big_val n = big_val m" shows "n = m"
proof -
  have "length (limbs n) = length (limbs m)"
    using assms normalized_length_le [of n m] normalized_length_le [of m n] by simp
  then show ?thesis using assms(3) limbs_val_inj by (metis BigNat.collapse big_val_def)
qed

section \<open>Bits\<close>

lemma leading_zeros_ge_iff:
  assumes "k \<le> LENGTH('a)"
  shows "k \<le> leading_zeros (w :: 'a::len word) \<longleftrightarrow> (\<forall>i. LENGTH('a) - k \<le> i \<longrightarrow> \<not> bit w i)"
proof -
  have "k \<le> leading_zeros w \<longleftrightarrow> (\<forall>x \<in> set (take k (rev [0..<LENGTH('a)])). \<not> bit w x)"
  proof
    assume "k \<le> leading_zeros w"
    then have "take k (rev [0..<LENGTH('a)])
        = take k (takeWhile (\<lambda>i. \<not> bit w i) (rev [0..<LENGTH('a)]))"
      by (metis leading_zeros_def takeWhile_eq_take min.absorb2 min.absorb1 take_take)
    then show "\<forall>x \<in> set (take k (rev [0..<LENGTH('a)])). \<not> bit w x"
      by (metis in_set_takeD set_takeWhileD)
  next
    assume "\<forall>x \<in> set (take k (rev [0..<LENGTH('a)])). \<not> bit w x"
    then have "takeWhile (\<lambda>i. \<not> bit w i) (rev [0..<LENGTH('a)]) =
        take k (rev [0..<LENGTH('a)]) @ takeWhile (\<lambda>i. \<not> bit w i) (drop k (rev [0..<LENGTH('a)]))"
      using takeWhile_append2 [of "take k (rev [0..<LENGTH('a)])" "\<lambda>i. \<not> bit w i"
          "drop k (rev [0..<LENGTH('a)])"]
      by simp
    then show "k \<le> leading_zeros w" using assms by (simp add: leading_zeros_def)
  qed
  also have "set (take k (rev [0..<LENGTH('a)])) = {LENGTH('a) - k..<LENGTH('a)}"
    by (simp add: take_rev)
  finally show ?thesis by (meson atLeastLessThan_iff bit_imp_le_length)
qed

lemma unat_less_exp_iff: "unat (w :: 'a::len word) < 2 ^ n \<longleftrightarrow> (\<forall>i. n \<le> i \<longrightarrow> \<not> bit w i)"
proof
  assume "unat w < 2 ^ n"
  then show "\<forall>i. n \<le> i \<longrightarrow> \<not> bit w i" using bits_of_less_exp [of w n] by (force simp: subset_iff)
next
  assume "\<forall>i. n \<le> i \<longrightarrow> \<not> bit w i"
  then have "take_bit n w = w" by (intro bit_eqI) (metis bit_take_bit_iff not_less)
  moreover have "take_bit n (unat w) = unat (take_bit n w)" by (simp add: unsigned_take_bit_eq)
  ultimately show "unat w < 2 ^ n" using take_bit_nat_less_exp [of n "unat w"] by simp
qed

lemma leading_zeros_le: "leading_zeros (w :: 'a::len word) \<le> LENGTH('a)"
  unfolding leading_zeros_def using length_takeWhile_le [of "\<lambda>i. \<not> bit w i" "rev [0..<LENGTH('a)]"] by simp

lemma significant_bits_le_iff:
  "LENGTH('a) - leading_zeros (w :: 'a::len word) \<le> n \<longleftrightarrow> unat w < 2 ^ n"
proof (cases "n \<le> LENGTH('a)")
  case True
  then have "LENGTH('a) - leading_zeros w \<le> n \<longleftrightarrow> LENGTH('a) - n \<le> leading_zeros w"
    using leading_zeros_le [of w] by auto
  then show ?thesis using True leading_zeros_ge_iff [of "LENGTH('a) - n" w]
    by (simp add: unat_less_exp_iff)
next
  case False
  then have "(2 :: nat) ^ LENGTH('a) \<le> 2 ^ n" by (intro power_increasing) auto
  then have "unat w < 2 ^ n" by (rule order.strict_trans2 [OF unat_lt2p])
  then show ?thesis using False by simp
qed

lemma big_bit_len_le_iff:
  assumes "normalized n" shows "big_bit_len n \<le> w \<longleftrightarrow> big_val n < 2 ^ w"
proof (cases "limbs n = []")
  case False
  define h where "h = length (limbs n) - 1"
  define lo where "lo = limbs_val (butlast (limbs n))"
  have v: "big_val n = lo + 2 ^ (32 * h) * unat (last (limbs n))"
    using limbs_val_append [of "butlast (limbs n)" "[last (limbs n)]"] False
    by (simp add: big_val_def h_def lo_def)
  have lo: "lo < 2 ^ (32 * h)"
    using limbs_val_less [of "butlast (limbs n)"] by (simp add: h_def lo_def)
  have top: "0 < unat (last (limbs n))" using assms False by (simp add: normalized_def unat_gt_0)
  have len: "big_bit_len n = 32 * h + (32 - leading_zeros (last (limbs n)))"
    using False by (simp add: big_bit_len_def h_def mult.commute)
  show ?thesis
  proof (cases "32 * h \<le> w")
    case True
    then have p: "(2 :: nat) ^ w = 2 ^ (32 * h) * 2 ^ (w - 32 * h)" by (simp flip: power_add)
    have "big_val n < 2 ^ w \<longleftrightarrow> unat (last (limbs n)) < 2 ^ (w - 32 * h)"
    proof
      assume "big_val n < 2 ^ w"
      then have "2 ^ (32 * h) * unat (last (limbs n)) < 2 ^ (32 * h) * 2 ^ (w - 32 * h)"
        using v p by linarith
      then show "unat (last (limbs n)) < 2 ^ (w - 32 * h)" by simp
    next
      assume "unat (last (limbs n)) < 2 ^ (w - 32 * h)"
      then have "2 ^ (32 * h) * (unat (last (limbs n)) + 1) \<le> 2 ^ (32 * h) * 2 ^ (w - 32 * h)"
        by (intro mult_le_mono2) simp
      then show "big_val n < 2 ^ w" using v p lo by (simp add: algebra_simps)
    qed
    then show ?thesis
      using True significant_bits_le_iff [of "last (limbs n)" "w - 32 * h"] len by auto
  next
    case False
    then have "\<not> big_bit_len n \<le> w" using len by simp
    moreover have "(2 :: nat) ^ w \<le> 2 ^ (32 * h)" using False by (intro power_increasing) auto
    moreover have "2 ^ (32 * h) * 1 \<le> 2 ^ (32 * h) * unat (last (limbs n))"
      using top by (intro mult_le_mono2) simp
    ultimately have "\<not> big_val n < 2 ^ w" using v by linarith
    then show ?thesis using \<open>\<not> big_bit_len n \<le> w\<close> by simp
  qed
qed (simp add: big_bit_len_def big_val_def)

lemma bit_limbs_val: "bit (limbs_val ls) i \<longleftrightarrow> i div 32 < length ls \<and> bit (ls ! (i div 32)) (i mod 32)"
proof (induction ls arbitrary: i)
  case (Cons l ls)
  show ?case
  proof (cases "i < 32")
    case True
    have "take_bit 32 (limbs_val (l # ls)) = unat l"
      using unat_lt2p [of l] by (simp add: take_bit_eq_mod)
    then have "bit (limbs_val (l # ls)) i \<longleftrightarrow> bit (unat l) i"
      using True by (metis bit_take_bit_iff)
    then show ?thesis using True by (simp add: bit_unsigned_iff)
  next
    case False
    have "drop_bit 32 (limbs_val (l # ls)) = limbs_val ls"
      using unat_lt2p [of l] by (simp add: drop_bit_eq_div)
    moreover have "bit (limbs_val (l # ls)) i \<longleftrightarrow> bit (drop_bit 32 (limbs_val (l # ls))) (i - 32)"
      using False by (simp only: bit_drop_bit_eq) simp
    moreover have "i div 32 = Suc ((i - 32) div 32)" "i mod 32 = (i - 32) mod 32"
      using False by (simp_all add: div_if mod_if not_less)
    ultimately show ?thesis using Cons [of "i - 32"] by simp
  qed
qed simp

lemma big_bit_val: "big_bit n i \<longleftrightarrow> bit (big_val n) i"
  unfolding big_bit_def big_val_def bit_limbs_val bit_iff_and_single ..

lemma set_bit_big_limb:
  assumes "length ls > i div 32"
  shows "bit (limbs_val (ls[i div 32 := (ls ! (i div 32)) OR push_bit (i mod 32) 1])) j
    \<longleftrightarrow> bit (limbs_val ls) j \<or> j = i"
proof (cases "j div 32 = i div 32")
  case True
  then have "j = i \<longleftrightarrow> j mod 32 = i mod 32" by (metis div_mult_mod_eq)
  moreover have "bit (push_bit (i mod 32) 1 :: u32) (j mod 32) \<longleftrightarrow> j mod 32 = i mod 32"
    by (simp add: bit_exp_iff)
  ultimately show ?thesis using True assms by (simp add: bit_limbs_val bit_or_iff)
next
  case False
  then have "j \<noteq> i" by auto
  then show ?thesis using False by (auto simp: bit_limbs_val)
qed

lemma bit_limbs_val_resize:
  "length ls \<le> k \<Longrightarrow> bit (limbs_val (resize ls k 0)) j \<longleftrightarrow> bit (limbs_val ls) j"
  by (simp add: resize_def limbs_val_append)

lemma bit_set_bit_big: "bit (big_val (set_bit_big n i)) j \<longleftrightarrow> bit (big_val n) j \<or> j = i"
proof (cases "length (limbs n) \<le> i div 32")
  case True
  then show ?thesis
    using set_bit_big_limb [of i "resize (limbs n) (i div 32 + 1) 0" j]
      bit_limbs_val_resize [of "limbs n" "i div 32 + 1" j]
    by (simp add: set_bit_big_def big_val_def Let_def)
next
  case False
  then show ?thesis
    using set_bit_big_limb [of i "limbs n" j] by (simp add: set_bit_big_def big_val_def Let_def)
qed

lemma or_exp_nonzero: "k < 32 \<Longrightarrow> (w :: u32) OR push_bit k 1 \<noteq> 0"
  using bits_of_or [of w "push_bit k 1"] by (auto simp: bits_of_single mask_simps)

lemma normalized_set_bit_big:
  assumes "normalized n" shows "normalized (set_bit_big n i)"
proof -
  define ls where "ls = (if length (limbs n) \<le> i div 32 then resize (limbs n) (i div 32 + 1) 0 else limbs n)"
  have len: "i div 32 < length ls" by (simp add: ls_def)
  have "last (ls[i div 32 := (ls ! (i div 32)) OR push_bit (i mod 32) 1]) \<noteq> 0"
  proof (cases "i div 32 = length ls - 1")
    case True
    have "ls \<noteq> []" using len by auto
    then have "last (ls[i div 32 := (ls ! (i div 32)) OR push_bit (i mod 32) 1])
        = (ls ! (i div 32)) OR push_bit (i mod 32) 1"
      using True by (simp add: last_list_update)
    then show ?thesis using or_exp_nonzero [of "i mod 32"] by simp
  next
    case False
    then have "ls = limbs n" using len by (auto simp: ls_def split: if_splits)
    moreover have "ls \<noteq> []" using len by auto
    ultimately show ?thesis using False assms by (auto simp: last_list_update normalized_def)
  qed
  then show ?thesis by (simp add: normalized_def set_bit_big_def ls_def Let_def)
qed

section \<open>Arithmetic refines naturals\<close>

lemma unat_ucast_u32_u64 [simp]: "unat (ucast (a :: u32) :: u64) = unat a"
  by (rule unat_ucast_up) simp

lemma unat_low_limb: "unat (ucast (v :: u64) :: u32) = unat v mod 2 ^ 32"
  by (simp add: unsigned_ucast_eq take_bit_eq_mod)

lemma unat_high_limb: "unat (drop_bit 32 (v :: u64)) = unat v div 2 ^ 32"
  by (metis drop_bit_eq_div unat_drop_bit_eq)

lemma unat_plus_exact: "unat a + unat b < 2 ^ LENGTH('a) \<Longrightarrow> unat (a + b :: 'a::len word) = unat a + unat b"
  by (rule unat_add_lem [THEN iffD1])

lemma unat_times_exact: "unat a * unat b < 2 ^ LENGTH('a) \<Longrightarrow> unat (a * b :: 'a::len word) = unat a * unat b"
  by (rule unat_mult_lem [THEN iffD1])

text \<open>A carry is passed on: the two parts of a value make the value again.\<close>

lemma limb_and_carry:
  "unat (ucast v :: u32) + 2 ^ 32 * (r + unat (drop_bit 32 v)) = unat (v :: u64) + 2 ^ 32 * r"
  using div_mult_mod_eq [of "unat v" "2 ^ 32"]
  by (simp only: unat_low_limb unat_high_limb) (simp add: algebra_simps)

lemma limbs_val_final_carry:
  "unat carry < 2 ^ 32 \<Longrightarrow> limbs_val (if carry \<noteq> 0 then [ucast carry] else []) = unat (carry :: u64)"
  by (simp add: unat_low_limb)

lemma limbs_val_hd_tl:
  "limbs_val xs = unat (get_or 0 xs 0) + 2 ^ 32 * limbs_val (tl xs)"
  by (cases xs) (simp_all add: get_or_def)

lemma add_limbs_val:
  assumes "length other \<le> length ls" "unat carry < 2 ^ 32"
  shows "limbs_val (add_limbs ls other carry) = limbs_val ls + limbs_val other + unat carry"
  using assms
proof (induction ls arbitrary: other carry)
  case Nil
  then show ?case using limbs_val_final_carry [of carry] by simp
next
  case (Cons l ls)
  define rhs where "rhs = (ucast (get_or 0 other 0) :: u64)"
  define v where "v = ucast l + rhs + carry"
  have "unat l < 2 ^ 32" "unat rhs < 2 ^ 32"
    using unat_lt2p [of l] unat_lt2p [of "get_or 0 other 0"] by (simp_all add: rhs_def)
  then have v: "unat v = unat l + unat rhs + unat carry"
    using Cons.prems(2) unat_plus_exact [of "ucast l" rhs] unat_plus_exact [of "ucast l + rhs" carry]
    by (simp add: v_def)
  then have "unat (drop_bit 32 v) < 2 ^ 32"
    using \<open>unat l < 2 ^ 32\<close> \<open>unat rhs < 2 ^ 32\<close> Cons.prems(2)
    by (simp add: unat_high_limb less_mult_imp_div_less)
  then have IH: "limbs_val (add_limbs ls (tl other) (drop_bit 32 v))
      = limbs_val ls + limbs_val (tl other) + unat (drop_bit 32 v)"
    using Cons by simp
  have "add_limbs (l # ls) other carry = ucast v # add_limbs ls (tl other) (drop_bit 32 v)"
    by (simp add: v_def rhs_def Let_def)
  then have "limbs_val (add_limbs (l # ls) other carry) = unat v + 2 ^ 32 * (limbs_val ls + limbs_val (tl other))"
    using limb_and_carry [of v "limbs_val ls + limbs_val (tl other)"] IH by simp
  then show ?case using v limbs_val_hd_tl [of other] by (simp add: rhs_def algebra_simps)
qed

lemma limbs_val_resize: "length ls \<le> k \<Longrightarrow> limbs_val (resize ls k 0) = limbs_val ls"
  by (simp add: resize_def limbs_val_append)

text \<open>The result of a carry chain is normalized because a zero top limb would leave a carry.\<close>

definition carry_chain :: "nat \<Rightarrow> u32 list \<Rightarrow> bool" where
  "carry_chain k rs \<longleftrightarrow> length rs = k \<or> (length rs = Suc k \<and> last rs \<noteq> 0)"

lemma carry_chain_Cons: "carry_chain k rs \<Longrightarrow> carry_chain (Suc k) (r # rs)"
  by (auto simp: carry_chain_def)

lemma carry_chain_Nil:
  assumes "unat carry < 2 ^ 32" shows "carry_chain 0 (if carry \<noteq> 0 then [ucast (carry :: u64)] else [])"
proof -
  have "unat (ucast carry :: u32) = unat carry" using assms by (simp add: unat_low_limb)
  then have "carry \<noteq> 0 \<Longrightarrow> (ucast carry :: u32) \<noteq> 0" by (metis unat_eq_zero)
  then show ?thesis by (simp add: carry_chain_def)
qed

lemma carry_less: "unat (drop_bit 32 (v :: u64)) < 2 ^ 32"
  using unat_lt2p [of v] by (simp only: unat_high_limb) (simp add: less_mult_imp_div_less)

lemmas carry_chain_intros = carry_chain_Nil carry_chain_Cons carry_less

lemma carry_chain_last:
  assumes "carry_chain k rs" "2 ^ (32 * (k - 1)) \<le> limbs_val rs" shows "normalized (BigNat rs)"
proof (rule ccontr)
  assume "\<not> ?thesis"
  then have z: "rs \<noteq> []" "last rs = 0" by (simp_all add: normalized_def)
  then have "length rs = k" using assms(1) by (auto simp: carry_chain_def)
  then have "limbs_val (butlast rs) < 2 ^ (32 * (k - 1))"
    using limbs_val_less [of "butlast rs"] by simp
  then show False using limbs_val_zero_last [OF z] assms(2) by simp
qed

lemma carry_chain_add_limbs:
  "unat carry < 2 ^ 32 \<Longrightarrow> carry_chain (length ls) (add_limbs ls other carry)"
  by (induction ls arbitrary: other carry)
    (simp_all only: add_limbs.simps Let_def carry_chain_intros list.size(3) length_Cons)

lemma add_assign_val: "big_val (add_assign n m) = big_val n + big_val m"
  using add_limbs_val [of "limbs m" "resize (limbs n) (length (limbs m)) 0" 0]
    add_limbs_val [of "limbs m" "limbs n" 0] limbs_val_resize [of "limbs n" "length (limbs m)"]
  by (simp add: add_assign_def big_val_def)

lemma normalized_lower:
  assumes "normalized n" "limbs n \<noteq> []" shows "2 ^ (32 * (length (limbs n) - 1)) \<le> big_val n"
  using assms limbs_val_last by (simp add: normalized_def big_val_def)

lemma normalized_add_assign:
  assumes "normalized n" "normalized m" shows "normalized (add_assign n m)"
proof -
  define ls where "ls = (if length (limbs n) < length (limbs m)
    then resize (limbs n) (length (limbs m)) 0 else limbs n)"
  have len: "length (limbs m) \<le> length ls" by (simp add: ls_def)
  have v: "limbs_val ls = big_val n" by (simp add: ls_def limbs_val_resize big_val_def)
  have "2 ^ (32 * (length ls - 1)) \<le> limbs_val ls + limbs_val (limbs m) + unat (0 :: u64)" if "ls \<noteq> []"
  proof (cases "length (limbs n) < length (limbs m)")
    case True
    then have "2 ^ (32 * (length (limbs m) - 1)) \<le> big_val m"
      using assms(2) by (intro normalized_lower) auto
    then show ?thesis using True v by (simp add: ls_def big_val_def)
  next
    case False
    then have "2 ^ (32 * (length (limbs n) - 1)) \<le> big_val n"
      using assms(1) that by (intro normalized_lower) (auto simp: ls_def)
    then show ?thesis using False v by (simp add: ls_def)
  qed
  then have "normalized (BigNat (add_limbs ls (limbs m) 0))" if "ls \<noteq> []"
    using that add_limbs_val [OF len, of 0] carry_chain_add_limbs [of 0 ls "limbs m"]
    by (intro carry_chain_last) simp_all
  then show ?thesis by (cases "ls = []") (auto simp: normalized_def add_assign_def ls_def Let_def)
qed

lemma mul_limbs_val:
  "unat carry < 2 ^ 32 \<Longrightarrow> limbs_val (mul_limbs ls factor carry) = limbs_val ls * unat factor + unat carry"
proof (induction ls arbitrary: carry)
  case Nil
  then show ?case using limbs_val_final_carry [of carry] by simp
next
  case (Cons l ls)
  define v where "v = ucast l * ucast factor + carry"
  have "unat l \<le> 2 ^ 32 - 1" "unat factor \<le> 2 ^ 32 - 1"
    using unat_lt2p [of l] unat_lt2p [of factor] by simp_all
  then have le: "unat l * unat factor \<le> (2 ^ 32 - 1) * (2 ^ 32 - 1)" by (rule mult_le_mono)
  then have "unat (ucast l * ucast factor :: u64) = unat l * unat factor"
    using unat_times_exact [of "ucast l :: u64" "ucast factor"] by simp
  then have v: "unat v = unat l * unat factor + unat carry"
    using le Cons.prems unat_plus_exact [of "ucast l * ucast factor" carry] by (simp add: v_def)
  have "mul_limbs (l # ls) factor carry = ucast v # mul_limbs ls factor (drop_bit 32 v)"
    by (simp add: v_def Let_def)
  then have "limbs_val (mul_limbs (l # ls) factor carry) = unat v + 2 ^ 32 * (limbs_val ls * unat factor)"
    using limb_and_carry [of v "limbs_val ls * unat factor"] Cons.IH [OF carry_less] by simp
  then show ?case using v by (simp add: algebra_simps)
qed

lemma carry_chain_mul_limbs:
  "unat carry < 2 ^ 32 \<Longrightarrow> carry_chain (length ls) (mul_limbs ls factor carry)"
  by (induction ls arbitrary: carry)
    (simp_all only: mul_limbs.simps Let_def carry_chain_intros list.size(3) length_Cons)

lemma mul_u32_assign_val: "normalized n \<Longrightarrow> big_val (mul_u32_assign n k) = big_val n * unat k"
  using mul_limbs_val [of 0 "limbs n" k]
  by (auto simp: mul_u32_assign_def big_val_def big_is_zero_def)

lemma normalized_mul_u32_assign:
  assumes "normalized n" shows "normalized (mul_u32_assign n k)"
proof (cases "k = 0 \<or> limbs n = []")
  case False
  then have "2 ^ (32 * (length (limbs n) - 1)) * 1 \<le> big_val n * unat k"
    using assms by (intro mult_le_mono normalized_lower) (auto simp: Suc_leI unat_gt_0)
  then show ?thesis
    using False carry_chain_mul_limbs [of 0 "limbs n" k] mul_limbs_val [of 0 "limbs n" k]
    by (auto simp: mul_u32_assign_def big_is_zero_def big_val_def intro!: carry_chain_last)
qed (auto simp: mul_u32_assign_def big_is_zero_def normalized_def)

lemma div_limbs_val:
  assumes "unat r < unat d" "unat d < 2 ^ 32" "div_limbs ls d r = (qs, r')"
  shows "limbs_val (rev ls) + 2 ^ (32 * length ls) * unat r = limbs_val (rev qs) * unat d + unat r'"
    and "unat r' < unat d" and "length qs = length ls"
proof -
  have "limbs_val (rev ls) + 2 ^ (32 * length ls) * unat r = limbs_val (rev qs) * unat d + unat r'
      \<and> unat r' < unat d \<and> length qs = length ls"
    using assms
  proof (induction ls arbitrary: r qs r')
    case (Cons l ls)
    define v :: u64 where "v = push_bit 32 r OR ucast l"
    obtain q1 where q1: "div_limbs ls d (v mod d) = (q1, r')" "qs = ucast (v div d) # q1"
      using Cons.prems(3) by (auto simp: v_def Let_def split: prod.splits)
    have r: "unat r < 2 ^ 32" using Cons.prems by simp
    have "unat (push_bit 32 r) = 2 ^ 32 * unat r"
      using r unat_times_exact [of r "2 ^ 32"] by (simp add: push_bit_eq_mult)
    moreover have "v = push_bit 32 r + ucast l"
      unfolding v_def by (rule disjunctive_add [symmetric])
        (auto simp: bit_push_bit_iff bit_unsigned_iff dest: bit_imp_le_length)
    moreover have "2 ^ 32 * unat r + unat l < 2 ^ 64"
      using r unat_lt2p [of l] by simp
    ultimately have v: "unat v = 2 ^ 32 * unat r + unat l"
      by (simp add: unat_plus_exact)
    have m: "unat (v mod d) < unat d" using Cons.prems(1) by (simp add: unat_mod)
    have "unat v < 2 ^ 32 * unat d"
      using v Cons.prems(1) unat_lt2p [of l] by simp
    then have "unat v div unat d < 2 ^ 32" by (simp add: less_mult_imp_div_less)
    then have q: "unat (ucast (v div d) :: u32) = unat v div unat d"
      by (simp add: unat_low_limb unat_div)
    define a b where "a = unat v div unat d" and "b = unat v mod unat d"
    have ab: "unat v = a * unat d + b" by (simp add: a_def b_def)
    have qa: "unat (ucast (v div d) :: u32) = a" using q by (simp add: a_def)
    have IH: "limbs_val (rev ls) + 2 ^ (32 * length ls) * b
        = limbs_val (rev q1) * unat d + unat r' \<and> unat r' < unat d \<and> length q1 = length ls"
      using Cons.IH [OF m Cons.prems(2) q1(1)] by (simp add: unat_mod b_def)
    have "limbs_val (rev (l # ls)) + 2 ^ (32 * length (l # ls)) * unat r
        = limbs_val (rev ls) + 2 ^ (32 * length ls) * unat v"
      by (simp add: limbs_val_append v power_add algebra_simps)
    also have "\<dots> = limbs_val (rev qs) * unat d + unat r'"
      using IH by (simp add: q1(2) limbs_val_append ab qa algebra_simps)
    finally show ?case using IH q1(2) by simp
  qed auto
  then show "limbs_val (rev ls) + 2 ^ (32 * length ls) * unat r = limbs_val (rev qs) * unat d + unat r'"
    "unat r' < unat d" "length qs = length ls" by simp_all
qed

lemma div_u32_assign_val:
  assumes "k \<noteq> 0"
  obtains q r where "div_u32_assign n k = Ok (r, q)" "normalized q"
    "big_val q = big_val n div unat k" "unat r = big_val n mod unat k"
proof -
  obtain qs r where d: "div_limbs (rev (limbs n)) (ucast k) 0 = (qs, r)" by fastforce
  have k: "0 < unat k" "unat k < 2 ^ 32" using assms unat_lt2p [of k] by (simp_all add: unat_gt_0)
  then have "big_val n = limbs_val (rev qs) * unat k + unat r" "unat r < unat k"
    using div_limbs_val [OF _ _ d] by (simp_all add: big_val_def)
  moreover have "unat (ucast r :: u32) = unat r" using k \<open>unat r < unat k\<close> by (simp add: unat_low_limb)
  ultimately show ?thesis
    using assms d that [of "ucast r" "BigNat (normalize_limbs (rev qs))"]
    by (simp add: div_u32_assign_def normalized_normalize_limbs big_val_def normalize_limbs_val)
qed

lemma top_limb_decides:
  fixes a b p x y :: nat
  assumes "a < p" "b < p" "x < y" shows "a + p * x < b + p * y"
proof -
  have "a + p * x < p * (x + 1)" using assms(1) by simp
  also have "\<dots> \<le> p * y" using assms(3) by (intro mult_le_mono2) simp
  finally show ?thesis by simp
qed

lemma iter_cmp_limbs:
  "length xs = length ys \<Longrightarrow> iter_cmp xs ys = compare (limbs_val (rev xs)) (limbs_val (rev ys))"
proof (induction rule: list_induct2)
  case (Cons x xs y ys)
  have less: "limbs_val (rev xs) < 2 ^ (32 * length xs)" "limbs_val (rev ys) < 2 ^ (32 * length xs)"
    using limbs_val_less [of "rev xs"] limbs_val_less [of "rev ys"] Cons.hyps by simp_all
  show ?case
  proof (cases "x = y")
    case True
    then show ?thesis using Cons by (simp add: limbs_val_append compare_def)
  next
    case False
    then consider "unat x < unat y" | "unat y < unat x"
      using word_eq_unatI linorder_less_linear by blast
    then show ?thesis
    proof cases
      case 1
      then show ?thesis
        using False top_limb_decides [OF less 1] Cons.hyps
        by (simp add: limbs_val_append compare_def word_less_nat_alt)
    next
      case 2
      then show ?thesis
        using False top_limb_decides [OF less(2,1) 2] Cons.hyps
        by (simp add: limbs_val_append compare_def word_less_nat_alt)
    qed
  qed
qed simp

lemma big_cmp_val:
  assumes "normalized n" "normalized m" shows "big_cmp n m = compare (big_val n) (big_val m)"
proof (cases "length (limbs n) = length (limbs m)")
  case True
  then show ?thesis using iter_cmp_limbs [of "rev (limbs n)" "rev (limbs m)"]
    by (simp add: big_cmp_def big_val_def)
next
  case False
  note le = normalized_length_le [OF assms(1), of m] normalized_length_le [OF assms(2), of n]
  show ?thesis
  proof (cases "big_val n \<le> big_val m")
    case True
    then have "length (limbs n) < length (limbs m)" "big_val n < big_val m" using le False by fastforce+
    then show ?thesis by (simp add: big_cmp_def compare_def)
  next
    case gt: False
    then have "length (limbs m) < length (limbs n)" using le(2) False by simp
    then show ?thesis using gt by (simp add: big_cmp_def compare_def)
  qed
qed

lemma sub_limbs_val:
  assumes "length other \<le> length ls" "unat b \<le> 1" "sub_limbs ls other b = (rs, b')"
  shows "limbs_val ls + 2 ^ (32 * length ls) * unat b' = limbs_val rs + limbs_val other + unat b
    \<and> unat b' \<le> 1 \<and> length rs = length ls"
  using assms
proof (induction ls arbitrary: other b rs b')
  case (Cons l ls)
  define rhs :: u64 where "rhs = ucast (get_or 0 other 0) + b"
  define b1 :: u64 where "b1 = (if rhs \<le> ucast l then 0 else 1)"
  define d :: u64 where "d = (if rhs \<le> ucast l then ucast l - rhs else push_bit 32 1 + ucast l - rhs)"
  have lb: "unat l < 2 ^ 32" "unat (get_or 0 other 0) < 2 ^ 32"
    using unat_lt2p [of l] unat_lt2p [of "get_or 0 other 0"] by simp_all
  then have rhs: "unat rhs = unat (get_or 0 other 0) + unat b"
    using Cons.prems(2) unat_plus_exact [of "ucast (get_or 0 other 0) :: u64" b] by (simp add: rhs_def)
  have d: "unat l + 2 ^ 32 * unat b1 = unat d + unat rhs \<and> unat d < 2 ^ 32"
  proof (cases "rhs \<le> ucast l")
    case True
    then show ?thesis using lb by (auto simp: d_def b1_def unat_sub word_le_nat_alt)
  next
    case False
    have "unat (push_bit 32 1 + ucast l :: u64) = 2 ^ 32 + unat l"
      using lb unat_plus_exact [of "push_bit 32 1 :: u64" "ucast l"] by simp
    moreover have "unat rhs \<le> 2 ^ 32 + unat l" using rhs lb Cons.prems(2) by simp
    ultimately have "unat (push_bit 32 1 + ucast l - rhs) = 2 ^ 32 + unat l - unat rhs"
      by (simp add: unat_sub word_le_nat_alt)
    then show ?thesis using False \<open>unat rhs \<le> 2 ^ 32 + unat l\<close> lb by (auto simp: d_def b1_def word_le_nat_alt)
  qed
  obtain r1 where r1: "sub_limbs ls (tl other) b1 = (r1, b')" "rs = ucast d # r1"
    using Cons.prems(3)
    by (auto simp: b1_def d_def rhs_def Let_def split: prod.splits if_splits)
  have IH: "limbs_val ls + 2 ^ (32 * length ls) * unat b' = limbs_val r1 + limbs_val (tl other) + unat b1
      \<and> unat b' \<le> 1 \<and> length r1 = length ls"
    using Cons.prems(1) by (intro Cons.IH [OF _ _ r1(1)]) (auto simp: b1_def)
  have "limbs_val (l # ls) + 2 ^ (32 * length (l # ls)) * unat b'
      = unat l + 2 ^ 32 * (limbs_val ls + 2 ^ (32 * length ls) * unat b')"
    by (simp add: power_add algebra_simps)
  also have "\<dots> = unat d + unat rhs + 2 ^ 32 * (limbs_val r1 + limbs_val (tl other))"
    using IH d by (simp add: algebra_simps)
  also have "\<dots> = limbs_val rs + limbs_val other + unat b"
    using rhs d limbs_val_hd_tl [of other] by (simp add: r1(2) unat_low_limb algebra_simps)
  finally show ?case using IH r1(2) by simp
qed auto

lemma checked_sub_assign_val:
  assumes "normalized n" "normalized m"
  obtains (less) "big_val n < big_val m" "checked_sub_assign n m = Ok (False, n)"
  | (sub) d where "big_val m \<le> big_val n" "checked_sub_assign n m = Ok (True, d)" "normalized d"
      "big_val d = big_val n - big_val m"
proof (cases "big_val n < big_val m")
  case True
  then show ?thesis using less assms by (simp add: checked_sub_assign_def big_cmp_val compare_cases)
next
  case False
  obtain rs b where rb: "sub_limbs (limbs n) (limbs m) 0 = (rs, b)" by fastforce
  have eq: "big_val n + 2 ^ (32 * length (limbs n)) * unat b = limbs_val rs + big_val m"
    and len: "unat b \<le> 1" "length rs = length (limbs n)"
    using sub_limbs_val [OF _ _ rb] normalized_length_le [OF assms(2), of n] False
    by (simp_all add: big_val_def)
  have "unat b = 0"
  proof (rule ccontr)
    assume "unat b \<noteq> 0"
    then have "unat b = 1" using len by simp
    then show False using eq False limbs_val_less [of rs] len by simp
  qed
  then have "b = 0" "big_val n = limbs_val rs + big_val m" using eq by (simp_all add: unat_eq_zero)
  then show ?thesis
    using sub [of "BigNat (normalize_limbs rs)"] rb False assms
    by (simp add: checked_sub_assign_def big_cmp_val compare_cases normalized_normalize_limbs
        big_val_def normalize_limbs_val)
qed

section \<open>Naturals as normalized numbers\<close>

text \<open>Every normalized number is \<open>big k\<close> for its value, so each operation is an equation on \<open>big\<close>.\<close>

definition big :: "nat \<Rightarrow> BigNat" where "big k = BigNat (limbs_of_nat k)"

lemma limbs_val_of_nat: "limbs_val (limbs_of_nat k) = k"
proof (induction k rule: limbs_of_nat.induct)
  case (1 k)
  have "unat (word_of_nat (k mod 2 ^ 32) :: u32) = k mod 2 ^ 32"
    by (rule unat_word_of_nat) simp
  then show ?case using 1 by (subst limbs_of_nat.simps) simp
qed

lemma last_limbs_of_nat: "k \<noteq> 0 \<Longrightarrow> last (limbs_of_nat k) \<noteq> 0"
proof (induction k rule: limbs_of_nat.induct)
  case (1 k)
  show ?case
  proof (cases "k div 2 ^ 32 = 0")
    case True
    then have "k mod 2 ^ 32 = k" by simp
    moreover have "unat (word_of_nat (k mod 2 ^ 32) :: u32) = k mod 2 ^ 32"
      by (rule unat_word_of_nat) simp
    ultimately have "(word_of_nat (k mod 2 ^ 32) :: u32) \<noteq> 0" using 1(2) by (metis unat_eq_zero)
    moreover have "limbs_of_nat (k div 2 ^ 32) = []" using True by (subst limbs_of_nat.simps) simp
    ultimately show ?thesis using 1(2) by (subst limbs_of_nat.simps) simp
  next
    case False
    then have "limbs_of_nat (k div 2 ^ 32) \<noteq> []" by (subst limbs_of_nat.simps) simp
    then show ?thesis using 1 False by (subst limbs_of_nat.simps) simp
  qed
qed

lemma big_val_big [simp]: "big_val (big k) = k"
  by (simp add: big_val_def big_def limbs_val_of_nat)

lemma normalized_big [simp]: "normalized (big k)"
  using last_limbs_of_nat [of k] limbs_of_nat.simps [of 0]
  by (cases "k = 0") (simp_all add: normalized_def big_def)

lemma normalized_eq_big: "normalized n \<Longrightarrow> big_val n = k \<Longrightarrow> n = big k"
  by (rule big_val_inj) simp_all

lemma big_inject [simp]: "big a = big b \<longleftrightarrow> a = b"
  by (metis big_val_big)

lemma big_zero_eq [big_simps]: "big_zero = big 0"
  by (rule normalized_eq_big) simp_all

lemma big_one_eq [big_simps]: "big_one = big 1"
  by (rule normalized_eq_big) simp_all

lemma big_is_zero_big [big_simps]: "big_is_zero (big k) \<longleftrightarrow> k = 0"
  by (simp add: big_is_zero_iff)

lemma big_bit_len_big [big_simps]: "big_bit_len (big k) \<le> w \<longleftrightarrow> k < 2 ^ w"
  by (simp add: big_bit_len_le_iff)

lemma big_bit_big [big_simps]: "big_bit (big k) i \<longleftrightarrow> bit k i"
  by (simp add: big_bit_val)

lemma set_bit_big_big [big_simps]: "set_bit_big (big k) i = big (set_bit i k)"
proof (rule normalized_eq_big)
  show "big_val (set_bit_big (big k) i) = set_bit i k"
    by (rule bit_eqI) (auto simp: bit_set_bit_big bit_set_bit_iff)
qed (simp add: normalized_set_bit_big)

lemma add_assign_big [big_simps]: "add_assign (big a) (big b) = big (a + b)"
  by (rule normalized_eq_big) (simp_all add: normalized_add_assign add_assign_val)

lemma mul_u32_assign_big [big_simps]: "mul_u32_assign (big a) k = big (a * unat k)"
  by (rule normalized_eq_big) (simp_all add: normalized_mul_u32_assign mul_u32_assign_val)

lemma div_u32_assign_big [big_simps]:
  assumes "k \<noteq> 0"
  shows "div_u32_assign (big a) k
    = Ok (word_of_nat (a mod unat k), big (a div unat k))"
proof (rule div_u32_assign_val [OF assms, of "big a"])
  fix q and r :: u32
  assume r: "unat r = big_val (big a) mod unat k"
  assume "normalized q" "big_val q = big_val (big a) div unat k"
  then have "q = big (a div unat k)" by (simp add: normalized_eq_big)
  moreover have "word_of_nat (unat r) = r" by simp
  then have "word_of_nat (a mod unat k) = r" by (simp only: r big_val_big)
  moreover assume "div_u32_assign (big a) k = Ok (r, q)"
  ultimately show ?thesis by simp
qed

lemma big_cmp_big [big_simps]: "big_cmp (big a) (big b) = compare a b"
  by (simp add: big_cmp_val)

lemma checked_sub_assign_big [big_simps]:
  "checked_sub_assign (big a) (big b) = Ok (if a < b then (False, big a) else (True, big (a - b)))"
proof (rule checked_sub_assign_val [OF normalized_big [of a] normalized_big [of b]])
  fix d
  assume "big_val (big b) \<le> big_val (big a)"
    "checked_sub_assign (big a) (big b) = Ok (True, d)"
    "normalized d" "big_val d = big_val (big a) - big_val (big b)"
  then show ?thesis using normalized_eq_big [of d "a - b"] by simp
qed simp

lemma subtract_one_big [big_simps]: "0 < a \<Longrightarrow> subtract_one (big a) = Ok (big (a - 1))"
  by (simp add: subtract_one_def big_simps)

section \<open>Combinations\<close>

lemma combination_count_big:
  assumes "n < 2 ^ 32" shows "combination_count n k = Ok (big (n choose k))"
proof (cases "k \<le> n")
  case True
  define c where "c = min k (n - k)"
  define step :: "BigNat \<Rightarrow> nat \<Rightarrow> codec_fault + BigNat" where "step = (\<lambda>value index.
      and_then (div_u32_assign (mul_u32_assign value (word_of_nat (n - c + index))) (word_of_nat index))
        (\<lambda>(remainder, value). if remainder = 0 then Ok value else Err Panic))"
  have "try_fold step big_one [1..<i + 1] = Ok (big (n - c + i choose i))" if "i \<le> c" for i
    using that
  proof (induction i)
    case (Suc i)
    define f d :: u32 where "f = word_of_nat (n - c + Suc i)" and "d = word_of_nat (Suc i)"
    have "c \<le> n" by (simp add: c_def)
    then have u: "unat f = n - c + Suc i" "unat d = Suc i"
      unfolding f_def d_def using assms Suc.prems by (intro unat_word_of_nat; simp)+
    then have d: "d \<noteq> 0" by (metis nat.simps(3) unat_eq_zero)
    have "(n - c + i choose i) * unat f = (n - c + Suc i choose Suc i) * unat d"
      using Suc_times_binomial_eq [of "n - c + i" i] by (simp add: u mult.commute)
    then have "step (big (n - c + i choose i)) (Suc i) = Ok (big (n - c + Suc i choose Suc i))"
      unfolding step_def f_def [symmetric] d_def [symmetric]
      using d by (simp add: big_simps unat_gt_0)
    then show ?case using Suc by (simp add: try_fold_append)
  qed (simp add: big_simps)
  then have "try_fold step big_one [1..<c + 1] = Ok (big (n - c + c choose c))" by blast
  moreover have "n - c + c = n" "n choose c = n choose k"
    using True binomial_symmetric [of k n] by (auto simp: c_def min_def)
  moreover have "combination_count n k = try_fold step big_one [1..<c + 1]"
    using True unfolding combination_count_def Let_def c_def [symmetric] step_def [symmetric] by simp
  ultimately show ?thesis by simp
qed (simp add: combination_count_def big_simps binomial_eq_0)

text \<open>The rank of a combination, and its place between two binomial coefficients.\<close>

definition rank_of :: "nat list \<Rightarrow> nat" where
  "rank_of ps = (\<Sum>i<length ps. (ps ! i) choose (i + 1))"

lemma rank_of_snoc: "rank_of (ps @ [p]) = rank_of ps + (p choose Suc (length ps))"
  by (simp add: rank_of_def nth_append)

lemma rank_of_Nil [simp]: "rank_of [] = 0"
  by (simp add: rank_of_def)

lemma combination_rank_big:
  assumes "\<forall>p\<in>set ps. p < 2 ^ 32" shows "combination_rank ps = Ok (big (rank_of ps))"
  using assms
proof (induction ps rule: rev_induct)
  case (snoc p ps)
  then show ?case
    by (simp add: combination_rank_def enumerate_append_eq try_fold_append combination_count_big
        big_simps rank_of_snoc)
qed (simp add: combination_rank_def big_simps)

definition combination :: "nat \<Rightarrow> nat \<Rightarrow> nat list \<Rightarrow> bool" where
  "combination n k ps \<longleftrightarrow> length ps = k \<and> sorted_wrt (<) ps \<and> (\<forall>p\<in>set ps. p < n)"

lemma combination_snoc:
  "combination n (Suc k) (ps @ [p]) \<longleftrightarrow> p < n \<and> combination p k ps"
  by (auto simp: combination_def sorted_wrt_append)

lemma combination_SucE:
  assumes "combination n (Suc k) qs"
  obtains ps p where "qs = ps @ [p]" "p < n" "combination p k ps"
proof -
  have "qs \<noteq> []" using assms by (auto simp: combination_def)
  then have "qs = butlast qs @ [last qs]" by simp
  then show ?thesis using assms combination_snoc that by metis
qed

lemma binomial_mono_left: "m \<le> n \<Longrightarrow> (m choose k) \<le> (n choose k)"
proof (induction n)
  case (Suc n)
  have "(n choose k) \<le> (Suc n choose k)" by (cases k) simp_all
  then show ?case using Suc by (cases "m = Suc n") auto
qed simp

lemma rank_of_less: "combination n k ps \<Longrightarrow> rank_of ps < n choose k"
proof (induction k arbitrary: n ps)
  case (Suc k)
  from Suc.prems obtain qs p where q: "ps = qs @ [p]" "p < n" "combination p k qs"
    by (rule combination_SucE)
  have "rank_of ps < (p choose k) + (p choose Suc k)"
    using Suc.IH [OF q(3)] q by (simp add: rank_of_snoc combination_def)
  also have "\<dots> = Suc p choose Suc k" by simp
  also have "\<dots> \<le> n choose Suc k" using q(2) by (intro binomial_mono_left) simp
  finally show ?case .
qed (simp add: combination_def)

lemma rank_of_surj:
  assumes "r < n choose k" obtains ps where "combination n k ps" "rank_of ps = r"
proof -
  have "\<exists>ps. combination n k ps \<and> rank_of ps = r"
    using assms
  proof (induction n arbitrary: k r)
    case 0
    then have "k = 0" "r = 0" by (cases k; simp)+
    then show ?case by (auto simp: combination_def intro: exI [of _ "[]"])
  next
    case (Suc n)
    show ?case
    proof (cases k)
      case 0
      then show ?thesis using Suc.prems by (auto simp: combination_def intro: exI [of _ "[]"])
    next
      case (Suc k')
      show ?thesis
      proof (cases "r < n choose k")
        case True
        from Suc.IH [OF True] show ?thesis by (auto simp: combination_def less_Suc_eq)
      next
        case False
        then have "r - (n choose k) < n choose k'" using Suc.prems \<open>k = Suc k'\<close> by simp
        then obtain ps where "combination n k' ps" "rank_of ps = r - (n choose k)"
          using Suc.IH by blast
        then have "combination (Suc n) k (ps @ [n])" "rank_of (ps @ [n]) = r"
          using False \<open>k = Suc k'\<close> combination_def [of n k' ps]
          by (simp_all add: combination_snoc rank_of_snoc)
        then show ?thesis by blast
      qed
    qed
  qed
  then show ?thesis using that by blast
qed

lemma unrank_search_big:
  assumes "low \<le> Suc high" "high \<le> U" "U < 2 ^ 32" "position \<le> low" "low \<le> Suc position" "position \<le> U"
    "position choose Suc i \<le> r" "\<forall>q. high < q \<and> q \<le> U \<longrightarrow> r < q choose Suc i"
  shows "\<exists>p. unrank_search (Suc i) (big r) low high position = Ok p \<and> p \<le> U
    \<and> (p choose Suc i) \<le> r \<and> (\<forall>q. p < q \<and> q \<le> U \<longrightarrow> r < q choose Suc i)"
  using assms
proof (induction "high + 1 - low" arbitrary: low high position rule: less_induct)
  case less
  show ?case
  proof (cases "low \<le> high")
    case False
    have "r < q choose Suc i" if "position < q" "q \<le> U" for q
    proof -
      have "position \<le> high" using less.prems False by (metis le_antisym not_less not_less_eq_eq)
      then show ?thesis using that less.prems False by (cases "high < q") auto
    qed
    then show ?thesis using False less.prems by (simp add: unrank_search.simps)
  next
    case True
    define candidate where "candidate = low + (high - low) div 2"
    have c: "low \<le> candidate" "candidate \<le> high" using True by (auto simp: candidate_def)
    have step: "unrank_search (Suc i) (big r) low high position =
        (if (candidate choose Suc i) \<le> r then unrank_search (Suc i) (big r) (candidate + 1) high candidate
         else if candidate = 0 then Ok position
         else unrank_search (Suc i) (big r) low (candidate - 1) position)"
      using True c less.prems(2,3)
      by (subst unrank_search.simps)
        (simp add: combination_count_big big_simps compare_cases not_less flip: candidate_def)
    show ?thesis
    proof (cases "(candidate choose Suc i) \<le> r")
      case True
      show ?thesis
        using c True less.prems less.hyps [of high "candidate + 1" candidate] by (simp add: step)
    next
      case False
      then have "candidate \<noteq> 0" by (cases candidate) simp_all
      moreover have "r < q choose Suc i" if "candidate - 1 < q" for q
      proof -
        have "(candidate choose Suc i) \<le> (q choose Suc i)" using that by (intro binomial_mono_left) simp
        then show ?thesis using False by simp
      qed
      ultimately show ?thesis
        using c False less.prems less.hyps [of "candidate - 1" low position] by (simp add: step)
    qed
  qed
qed

lemma unrank_positions_rank:
  assumes "combination (Suc upper) k ps" "upper < 2 ^ 32" "k \<le> length acc" "k = 0 \<or> k \<le> Suc upper"
  shows "unrank_positions k (big (rank_of ps)) upper acc = Ok (Some (ps @ drop k acc))"
  using assms
proof (induction k arbitrary: upper ps acc)
  case 0
  then show ?case by (simp add: combination_def big_simps)
next
  case (Suc i)
  from Suc.prems(1) obtain qs p where q: "ps = qs @ [p]" "p < Suc upper" "combination p i qs"
    by (rule combination_SucE)
  have len: "length qs = i" using q(3) by (simp add: combination_def)
  have r: "rank_of ps = rank_of qs + (p choose Suc i)" "rank_of qs < p choose i"
    using q(1) rank_of_less [OF q(3)] len by (simp_all add: rank_of_snoc)
  obtain p' where p': "unrank_search (Suc i) (big (rank_of ps)) i upper i = Ok p'" "p' \<le> upper"
    "(p' choose Suc i) \<le> rank_of ps" "\<forall>q. p' < q \<and> q \<le> upper \<longrightarrow> rank_of ps < q choose Suc i"
    using unrank_search_big [of i upper upper i i "rank_of ps"] Suc.prems by (auto simp: binomial_eq_0)
  have "p' = p"
  proof (rule ccontr)
    assume "p' \<noteq> p"
    then consider "p < p'" | "p' < p" by linarith
    then show False
    proof cases
      case 1
      then have "(Suc p choose Suc i) \<le> (p' choose Suc i)" by (intro binomial_mono_left) simp
      then show False using r p'(3) by simp
    next
      case 2
      then show False using p'(4) q(2) r by (metis less_Suc_eq_le not_add_less2)
    qed
  qed
  have ip: "i \<le> p"
  proof (rule ccontr)
    assume "\<not> i \<le> p"
    then show False using r(2) by (simp add: binomial_eq_0)
  qed
  show ?case
  proof (cases "i = 0")
    case True
    then show ?thesis
      using p' \<open>p' = p\<close> Suc.prems r len q(1)
      by (cases acc) (simp_all add: combination_count_big big_simps)
  next
    case False
    then have "0 < p" using ip by simp
    then have "combination (Suc (p - 1)) i qs" using q(3) by simp
    then have "unrank_positions i (big (rank_of qs)) (p - 1) (acc[i := p])
        = Ok (Some (qs @ drop i (acc[i := p])))"
      using Suc.prems q(2) ip \<open>0 < p\<close> by (intro Suc.IH) auto
    moreover have "drop i (acc[i := p]) = p # drop (Suc i) acc"
      using Suc.prems(3) by (simp add: drop_update_swap upd_conv_take_nth_drop)
    ultimately show ?thesis
      using p' \<open>p' = p\<close> Suc.prems r q False \<open>0 < p\<close>
      by (simp add: combination_count_big big_simps)
  qed
qed

lemma unrank_positions_None:
  assumes "(Suc upper choose k) \<le> r" "upper < 2 ^ 32" "k \<le> Suc upper"
  shows "unrank_positions k (big r) upper acc = Ok None"
  using assms
proof (induction k arbitrary: upper r acc)
  case 0
  then show ?case by (simp add: big_simps)
next
  case (Suc i)
  obtain p where p: "unrank_search (Suc i) (big r) i upper i = Ok p" "p \<le> upper"
    "(p choose Suc i) \<le> r" "\<forall>q. p < q \<and> q \<le> upper \<longrightarrow> r < q choose Suc i"
    using unrank_search_big [of i upper upper i i r] Suc.prems by (auto simp: binomial_eq_0)
  have "(upper choose Suc i) \<le> r" using Suc.prems(1) by simp
  then have "p = upper" using p by (metis le_neq_implies_less not_less order_refl)
  have r: "(upper choose i) \<le> r - (upper choose Suc i)" using Suc.prems(1) by simp
  show ?case
  proof (cases "i > 0 \<and> upper > 0")
    case True
    then have "(unrank_positions i (big (r - (upper choose Suc i))) (upper - 1) (acc[i := upper]) :: codec_fault + _)
        = Ok None"
      using r Suc.prems by (intro Suc.IH) auto
    then show ?thesis
      using p \<open>p = upper\<close> Suc.prems True by (simp add: combination_count_big big_simps)
  next
    case False
    then show ?thesis
      using p \<open>p = upper\<close> Suc.prems r
      by (cases "i = 0") (simp_all add: combination_count_big big_simps)
  qed
qed

lemma combination_unrank_rank:
  assumes "combination n k ps" "n < 2 ^ 32"
  shows "combination_unrank n k (big (rank_of ps)) = Ok (Some ps)"
proof -
  have "k \<le> n"
  proof (rule ccontr)
    assume "\<not> k \<le> n"
    then show False using rank_of_less [OF assms(1)] by (simp add: binomial_eq_0)
  qed
  moreover have "ps = []" if "k = 0" using that assms(1) by (simp add: combination_def)
  moreover have "unrank_positions k (big (rank_of ps)) (n - 1) (replicate k 0) = Ok (Some ps)" if "k \<noteq> 0"
    using that \<open>k \<le> n\<close> assms unrank_positions_rank [of "n - 1" k ps "replicate k 0"]
    by (simp add: less_imp_diff_less)
  ultimately show ?thesis by (auto simp: combination_unrank_def big_simps)
qed

lemma combination_unrank_None:
  assumes "(n choose k) \<le> r" "n < 2 ^ 32" shows "combination_unrank n k (big r) = Ok None"
  using assms unrank_positions_None [of "n - 1" k r]
  by (auto simp: combination_unrank_def big_simps not_less less_imp_diff_less)

lemma combination_unrank_iff:
  assumes "n < 2 ^ 32"
  shows "combination_unrank n k (big r) = Ok (Some ps) \<longleftrightarrow> combination n k ps \<and> rank_of ps = r"
proof (cases "r < n choose k")
  case True
  then obtain qs where qs: "combination n k qs" "rank_of qs = r" by (rule rank_of_surj)
  have un: "combination_unrank n k (big r) = Ok (Some qs)"
    using combination_unrank_rank [OF qs(1) assms] qs(2) by simp
  show ?thesis
  proof
    assume "combination_unrank n k (big r) = Ok (Some ps)"
    then show "combination n k ps \<and> rank_of ps = r" using un qs by simp
  next
    assume "combination n k ps \<and> rank_of ps = r"
    then show "combination_unrank n k (big r) = Ok (Some ps)"
      using combination_unrank_rank [of n k ps] assms by blast
  qed
next
  case False
  then show ?thesis
    using combination_unrank_None [of n k r] assms rank_of_less [of n k ps] by auto
qed

lemma combination_unrank_total:
  assumes "n < 2 ^ 32"
  shows "\<exists>result. combination_unrank n k (big r) = Ok result \<and> (result = None \<longleftrightarrow> (n choose k) \<le> r)"
proof (cases "r < n choose k")
  case True
  then obtain qs where "combination n k qs" "rank_of qs = r" by (rule rank_of_surj)
  then show ?thesis using combination_unrank_rank [of n k qs] assms True by simp
next
  case False
  then show ?thesis using combination_unrank_None [of n k r] assms by simp
qed

text \<open>
  C10: Unranking inverts ranking.  For every normalized number, unranking gives a list of positions
  exactly when it is an increasing list of \<open>selected\<close> positions below \<open>total\<close> whose rank is that
  number; neither direction panics: unranking returns, with no list exactly when the number is not below
  the number of combinations, and every such list of positions has a normalized rank below it.
\<close>

theorem unrank_inverts_rank:
  assumes "total_cells < 2 ^ 32" "normalized rank"
  shows "(combination_unrank total_cells selected rank = Ok (Some positions) \<longleftrightarrow>
      (length positions = selected \<and> sorted_wrt (<) positions \<and> (\<forall>p\<in>set positions. p < total_cells)
        \<and> combination_rank positions = Ok rank)) \<and>
    (\<exists>result. combination_unrank total_cells selected rank = Ok result \<and>
      (result = None \<longleftrightarrow> (total_cells choose selected) \<le> big_val rank)) \<and>
    (length positions = selected \<and> sorted_wrt (<) positions \<and> (\<forall>p\<in>set positions. p < total_cells) \<longrightarrow>
      (\<exists>r. combination_rank positions = Ok r \<and> normalized r \<and> big_val r < total_cells choose selected))"
proof -
  have rank: "rank = big (big_val rank)" using assms(2) by (simp add: normalized_eq_big)
  have ranks: "combination_rank positions = Ok (big (rank_of positions))"
    if "combination total_cells selected positions"
    using that assms(1) by (intro combination_rank_big) (auto simp: combination_def)
  have "(combination total_cells selected positions \<and> combination_rank positions = Ok rank)
      \<longleftrightarrow> combination total_cells selected positions \<and> rank_of positions = big_val rank"
    using ranks rank by (metis big_val_big sum.inject(2))
  with combination_unrank_iff [OF assms(1), of selected "big_val rank" positions, folded rank]
    combination_unrank_total [OF assms(1), of selected "big_val rank", folded rank]
    ranks rank_of_less [of total_cells selected positions]
  show ?thesis by (auto simp: combination_def)
qed

theorem unrank_inverts_rank_witness:
  "combination_unrank 5 2 (BigNat [4]) = Ok (Some [1, 3]) \<and> combination_rank [1, 3] = Ok (BigNat [4])"
proof -
  have "combination_rank [1, 3] = Ok (BigNat [4])" by code_simp
  then show ?thesis
    using unrank_inverts_rank [of 5 "BigNat [4]" 2 "[1, 3]"] by (simp add: normalized_def)
qed

end
