(* ===== verification/BitStreams.thy ===== *)
theory BitStreams
  imports BigNats
begin

text \<open>
  The bit streams of the CTK3 codec (\<open>clearra-ctk3/src/bitstream.rs\<close>).  A writer is abstracted to
  the list of the bits written (\<open>writer_bits\<close>), a reader to the list of the bits still to come
  (\<open>reader_bits\<close>).  \<open>writes f bs\<close> says that \<open>f\<close> appends exactly \<open>bs\<close> to any well-formed writer and
  \<open>parses p bs x\<close> that \<open>p\<close> consumes exactly \<open>bs\<close> from any reader and returns \<open>x\<close>; both compose, so a
  codec is correct when some \<open>bs\<close> is written by the one and parsed by the other.  The locale
  \<open>bit_codec\<close> is that contract.
\<close>

section \<open>The writer\<close>

record BitWriter =
  bw_bytes :: "u8 list"
  bw_bit_len :: nat

definition bw_default :: BitWriter where
  "bw_default = \<lparr>bw_bytes = [], bw_bit_len = 0\<rparr>"

definition write_bit :: "bool \<Rightarrow> BitWriter \<Rightarrow> BitWriter" where
  "write_bit v w =
     (let byte_index = bw_bit_len w div 8;
          bit_index = bw_bit_len w mod 8;
          bytes = (if byte_index = length (bw_bytes w) then bw_bytes w @ [0] else bw_bytes w);
          bytes = (if v then bytes[byte_index := (bytes ! byte_index) OR push_bit bit_index 1] else bytes)
      in \<lparr>bw_bytes = bytes, bw_bit_len = bw_bit_len w + 1\<rparr>)"

definition write_bits :: "u32 \<Rightarrow> nat \<Rightarrow> BitWriter \<Rightarrow> codec_fault + BitWriter" where
  "write_bits v width w =
     (if width > 32 \<or> (width < 32 \<and> (ucast v :: u64) \<ge> push_bit width 1)
      then Err (Fault IntegerOverflow)
      else Ok (foldl (\<lambda>w i. write_bit (v AND push_bit i 1 \<noteq> 0) w) w [0..<width]))"

definition write_big_bits :: "BigNat \<Rightarrow> nat \<Rightarrow> BitWriter \<Rightarrow> codec_fault + BitWriter" where
  "write_big_bits v width w =
     (if big_bit_len v > width then Err (Fault IntegerOverflow)
      else Ok (foldl (\<lambda>w i. write_bit (big_bit v i) w) w [0..<width]))"

definition write_var_uint :: "u64 \<Rightarrow> BitWriter \<Rightarrow> codec_fault + BitWriter" where
  "write_var_uint v w =
     (if v > ucast (- 1 :: u32) then Err (Fault IntegerOverflow)
      else if v < 16 then write_bits (ucast v) 4 (write_bit False w)
      else if v < 256 then and_then (write_bits 1 2 w) (write_bits (ucast v) 8)
      else if v < 65536 then and_then (write_bits 3 3 w) (write_bits (ucast v) 16)
      else and_then (write_bits 7 3 w) (write_bits (ucast v) 32))"

definition write_signed_var_int :: "int \<Rightarrow> BitWriter \<Rightarrow> codec_fault + BitWriter" where
  "write_signed_var_int v w =
     and_then
       (ok_or (Fault IntegerOverflow)
         (if v \<ge> 0 then i64_checked (v * 2)
          else Option.bind (i64_checked (v * - 2)) (\<lambda>v. i64_checked (v - 1))))
       (\<lambda>encoded. write_var_uint (word_of_int encoded) w)"

definition write_bytes :: "u8 list \<Rightarrow> BitWriter \<Rightarrow> codec_fault + BitWriter" where
  "write_bytes bytes w = try_fold (\<lambda>w byte. write_bits (ucast byte) 8 w) w bytes"

definition append_writer :: "BitWriter \<Rightarrow> BitWriter \<Rightarrow> BitWriter" where
  "append_writer other w =
     foldl (\<lambda>w i. write_bit (bw_bytes other ! (i div 8) AND push_bit (i mod 8) 1 \<noteq> 0) w)
       w [0..<bw_bit_len other]"

section \<open>The reader\<close>

record BitReader =
  br_bytes :: "u8 list"
  br_bit_offset :: nat

definition br_new :: "u8 list \<Rightarrow> BitReader" where
  "br_new bytes = \<lparr>br_bytes = bytes, br_bit_offset = 0\<rparr>"

definition read_bit :: "BitReader \<Rightarrow> codec_fault + bool \<times> BitReader" where
  "read_bit r =
     (if br_bit_offset r \<ge> usize_saturating_mul (length (br_bytes r)) 8
      then Err (Fault (InvalidPayload ''payload ended unexpectedly''))
      else Ok (br_bytes r ! (br_bit_offset r div 8) AND push_bit (br_bit_offset r mod 8) 1 \<noteq> 0,
               r\<lparr>br_bit_offset := br_bit_offset r + 1\<rparr>))"

definition read_bits :: "nat \<Rightarrow> BitReader \<Rightarrow> codec_fault + u32 \<times> BitReader" where
  "read_bits width r =
     (if width > 32 then Err (Fault (InvalidPayload ''bit width is invalid''))
      else try_fold
             (\<lambda>(v, r) i. and_then (read_bit r) (\<lambda>(b, r). Ok (if b then v OR push_bit i 1 else v, r)))
             (0, r) [0..<width])"

definition read_big_bits :: "nat \<Rightarrow> BitReader \<Rightarrow> codec_fault + BigNat \<times> BitReader" where
  "read_big_bits width r =
     try_fold
       (\<lambda>(v, r) i. and_then (read_bit r) (\<lambda>(b, r). Ok (if b then set_bit_big v i else v, r)))
       (big_zero, r) [0..<width]"

definition read_var_uint :: "BitReader \<Rightarrow> codec_fault + u32 \<times> BitReader" where
  "read_var_uint r =
     and_then (read_bit r) (\<lambda>(b, r).
       if \<not> b then read_bits 4 r
       else and_then (read_bit r) (\<lambda>(b, r).
         if \<not> b then read_bits 8 r
         else and_then (read_bit r) (\<lambda>(b, r).
           if \<not> b then read_bits 16 r else read_bits 32 r)))"

definition read_signed_var_int :: "BitReader \<Rightarrow> codec_fault + int \<times> BitReader" where
  "read_signed_var_int r =
     and_then (read_var_uint r) (\<lambda>(v, r).
       Ok (if uint v AND 1 = 1 then - (uint v div 2 + 1) else uint v div 2, r))"

definition read_bytes :: "nat \<Rightarrow> BitReader \<Rightarrow> codec_fault + u8 list \<times> BitReader" where
  "read_bytes len r =
     and_then (ok_or (Fault IntegerOverflow) (usize_checked_mul len 8)) (\<lambda>required_bits.
       let remaining_bits = usize_saturating_mul (length (br_bytes r)) 8 - br_bit_offset r
       in if required_bits > remaining_bits
          then Err (Fault (InvalidPayload ''payload ended unexpectedly''))
          else try_fold
                 (\<lambda>(bytes, r) _. and_then (read_bits 8 r) (\<lambda>(v, r). Ok (bytes @ [ucast v], r)))
                 ([], r) [0..<len])"

text \<open>Collecting an iterator that reads \<open>n\<close> values.\<close>

definition read_n :: "nat \<Rightarrow> (BitReader \<Rightarrow> codec_fault + 'a \<times> BitReader) \<Rightarrow> BitReader \<Rightarrow> codec_fault + 'a list \<times> BitReader" where
  "read_n n p r = try_fold (\<lambda>(xs, r) _. and_then (p r) (\<lambda>(x, r). Ok (xs @ [x], r))) ([], r) [0..<n]"

function assert_zero_padding :: "BitReader \<Rightarrow> codec_fault + BitReader" where
  "assert_zero_padding r =
     (if br_bit_offset r < usize_saturating_mul (length (br_bytes r)) 8
      then and_then (read_bit r) (\<lambda>(b, r).
             if b then Err (Fault (InvalidPayload ''payload has trailing data'')) else assert_zero_padding r)
      else Ok r)"
  by pat_completeness auto
termination
  by (relation "measure (\<lambda>r. usize_saturating_mul (length (br_bytes r)) 8 - br_bit_offset r)")
    (auto simp: read_bit_def split: if_splits)

declare assert_zero_padding.simps [simp del]

section \<open>Writers as bit lists\<close>

definition byte_bit :: "u8 list \<Rightarrow> nat \<Rightarrow> bool" where
  "byte_bit bytes i = bit (bytes ! (i div 8)) (i mod 8)"

definition writer_bits :: "BitWriter \<Rightarrow> bool list" where
  "writer_bits w = map (byte_bit (bw_bytes w)) [0..<bw_bit_len w]"

definition wf_writer :: "BitWriter \<Rightarrow> bool" where
  "wf_writer w \<longleftrightarrow> length (bw_bytes w) = (bw_bit_len w + 7) div 8
     \<and> (\<forall>i. bw_bit_len w \<le> i \<and> i < 8 * length (bw_bytes w) \<longrightarrow> \<not> byte_bit (bw_bytes w) i)"

definition writes :: "(BitWriter \<Rightarrow> codec_fault + BitWriter) \<Rightarrow> bool list \<Rightarrow> bool" where
  "writes f bs \<longleftrightarrow> (\<forall>w. wf_writer w \<longrightarrow>
     (\<exists>w'. f w = Ok w' \<and> wf_writer w' \<and> writer_bits w' = writer_bits w @ bs))"

lemma length_writer_bits [simp]: "length (writer_bits w) = bw_bit_len w"
  by (simp add: writer_bits_def)

lemma wf_writer_default [simp]: "wf_writer bw_default"
  by (simp add: wf_writer_def bw_default_def)

lemma writer_bits_default [simp]: "writer_bits bw_default = []"
  by (simp add: writer_bits_def bw_default_def)

lemma byte_bit_append: "i < 8 * length bytes \<Longrightarrow> byte_bit (bytes @ tail) i = byte_bit bytes i"
  by (simp add: byte_bit_def nth_append less_mult_imp_div_less mult.commute)

lemma byte_bit_update:
  assumes "k < 8 * length bytes"
  shows "byte_bit (bytes[k div 8 := (bytes ! (k div 8)) OR push_bit (k mod 8) 1]) i
    \<longleftrightarrow> byte_bit bytes i \<or> i = k"
proof (cases "i div 8 = k div 8")
  case True
  then have "i = k \<longleftrightarrow> i mod 8 = k mod 8" by (metis div_mult_mod_eq)
  moreover have "bit (push_bit (k mod 8) 1 :: u8) (i mod 8) \<longleftrightarrow> i mod 8 = k mod 8"
    by (simp add: bit_exp_iff)
  moreover have "k div 8 < length bytes" using assms by (simp add: less_mult_imp_div_less mult.commute)
  ultimately show ?thesis using True by (simp add: byte_bit_def bit_or_iff)
next
  case False
  then have "i \<noteq> k" by auto
  then show ?thesis using False by (simp add: byte_bit_def)
qed

lemma write_bit_sound:
  assumes "wf_writer w"
  shows "wf_writer (write_bit v w)" "writer_bits (write_bit v w) = writer_bits w @ [v]"
proof -
  define k where "k = bw_bit_len w"
  define bytes where "bytes = (if k div 8 = length (bw_bytes w) then bw_bytes w @ [0] else bw_bytes w)"
  define bytes' where "bytes' = (if v then bytes[k div 8 := (bytes ! (k div 8)) OR push_bit (k mod 8) 1] else bytes)"
  have w: "write_bit v w = \<lparr>bw_bytes = bytes', bw_bit_len = k + 1\<rparr>"
    by (simp add: write_bit_def bytes'_def bytes_def k_def Let_def)
  have len0: "length (bw_bytes w) = (k + 7) div 8" using assms by (simp add: wf_writer_def k_def)
  have len: "length bytes = (k + 8) div 8" using len0 by (auto simp: bytes_def)
  then have k: "k < 8 * length bytes" by simp
  have old: "byte_bit bytes i = (i < 8 * length (bw_bytes w) \<and> byte_bit (bw_bytes w) i)"
    if "i < 8 * length bytes" for i
  proof (cases "i < 8 * length (bw_bytes w)")
    case False
    then have "i div 8 = length (bw_bytes w)" "bytes = bw_bytes w @ [0]"
      using that by (auto simp: bytes_def split: if_splits)
    then show ?thesis using False by (simp add: byte_bit_def nth_append)
  qed (simp add: byte_bit_append bytes_def)
  have new: "byte_bit bytes' i \<longleftrightarrow> (i < 8 * length (bw_bytes w) \<and> byte_bit (bw_bytes w) i) \<or> (v \<and> i = k)"
    if "i < 8 * length bytes" for i
    using old [OF that] byte_bit_update [OF k, of i] by (simp add: bytes'_def)
  have pad: "\<not> byte_bit (bw_bytes w) i" if "k \<le> i" "i < 8 * length (bw_bytes w)" for i
    using assms that by (simp add: wf_writer_def k_def)
  have len': "length bytes' = length bytes" by (simp add: bytes'_def)
  show "wf_writer (write_bit v w)"
    using new pad len len' by (auto simp: wf_writer_def w)
  have k0: "k \<le> 8 * length (bw_bytes w)" using len0 by simp
  have "byte_bit bytes' k = v" using new [OF k] pad by auto
  moreover have "byte_bit bytes' i = byte_bit (bw_bytes w) i" if "i < k" for i
    using new [of i] that k k0 by auto
  ultimately show "writer_bits (write_bit v w) = writer_bits w @ [v]"
    by (simp add: writer_bits_def w flip: k_def)
qed

lemma write_bits_sound:
  assumes "wf_writer w"
  shows "wf_writer (foldl (\<lambda>w i. write_bit (f i) w) w xs)
    \<and> writer_bits (foldl (\<lambda>w i. write_bit (f i) w) w xs) = writer_bits w @ map f xs"
  using assms by (induction xs arbitrary: w) (simp_all add: write_bit_sound)

named_theorems codec_intros \<open>introduction rules for \<open>writes\<close> and \<open>parses\<close>\<close>

lemma writes_bit [codec_intros]: "writes (\<lambda>w. Ok (write_bit v w)) [v]"
  by (simp add: writes_def write_bit_sound)

lemma writes_then: "writes f bs \<Longrightarrow> writes g cs \<Longrightarrow> writes (\<lambda>w. and_then (f w) g) (bs @ cs)"
  by (force simp: writes_def)

lemma writes_bit_then: "writes f bs \<Longrightarrow> writes (\<lambda>w. f (write_bit v w)) (v # bs)"
  using writes_then [OF writes_bit] by simp

lemma writes_then_bit: "writes f bs \<Longrightarrow> writes (\<lambda>w. and_then (f w) (\<lambda>w. Ok (write_bit v w))) (bs @ [v])"
  by (rule writes_then [OF _ writes_bit])

lemma writes_nothing [codec_intros]: "writes Ok []"
  by (simp add: writes_def)

lemma writes_try_fold:
  assumes "\<And>x. x \<in> set xs \<Longrightarrow> writes (f x) (enc x)"
  shows "writes (\<lambda>w. try_fold (\<lambda>w x. f x w) w xs) (concat (map enc xs))"
  using assms
proof (induction xs)
  case Nil
  show ?case by (simp add: writes_nothing)
next
  case (Cons x xs)
  have "writes (\<lambda>w. and_then (f x w) (\<lambda>w. try_fold (\<lambda>w x. f x w) w xs)) (enc x @ concat (map enc xs))"
    using Cons by (intro writes_then) simp_all
  then show ?case by simp
qed

text \<open>Loops that carry a value beside the writer.\<close>

definition writes_state :: "(BitWriter \<Rightarrow> codec_fault + BitWriter \<times> 's) \<Rightarrow> bool list \<Rightarrow> 's \<Rightarrow> bool" where
  "writes_state f bs s \<longleftrightarrow> (\<forall>w. wf_writer w \<longrightarrow>
     (\<exists>w'. f w = Ok (w', s) \<and> wf_writer w' \<and> writer_bits w' = writer_bits w @ bs))"

lemma writes_state_return: "writes_state (\<lambda>w. Ok (w, s)) [] s"
  by (simp add: writes_state_def)

lemma writes_state_bind:
  "writes f bs \<Longrightarrow> writes_state g cs s \<Longrightarrow> writes_state (\<lambda>w. and_then (f w) g) (bs @ cs) s"
  by (force simp: writes_state_def writes_def)

lemma writes_state_last: "writes f bs \<Longrightarrow> writes_state (\<lambda>w. and_then (f w) (\<lambda>w. Ok (w, s))) bs s"
  using writes_state_bind [OF _ writes_state_return] by fastforce

lemma writes_of_state:
  "writes_state f bs s \<Longrightarrow> writes (h s) cs \<Longrightarrow> writes (\<lambda>w. and_then (f w) (\<lambda>(w, s). h s w)) (bs @ cs)"
  by (force simp: writes_state_def writes_def)

lemma writes_state_end: "writes_state f bs s \<Longrightarrow> writes (\<lambda>w. and_then (f w) (\<lambda>(w, _). Ok w)) bs"
  using writes_of_state [of f bs s "\<lambda>_ w. Ok w" "[]"] writes_nothing by simp

lemma writes_state_loop:
  assumes "\<And>k. k < length xs \<Longrightarrow> writes_state (\<lambda>w. f (w, vs k) (xs ! k)) (enc k) (vs (Suc k))"
  shows "writes_state (\<lambda>w. try_fold f (w, vs 0) xs) (concat (map enc [0..<length xs])) (vs (length xs))"
  using assms
proof (induction xs rule: rev_induct)
  case Nil
  show ?case by (simp add: writes_state_return)
next
  case (snoc x xs)
  have 1: "writes_state (\<lambda>w. try_fold f (w, vs 0) xs) (concat (map enc [0..<length xs])) (vs (length xs))"
    using snoc.prems by (intro snoc.IH) (metis length_append_singleton less_Suc_eq nth_append)
  have 2: "writes_state (\<lambda>w. f (w, vs (length xs)) x) (enc (length xs)) (vs (Suc (length xs)))"
    using snoc.prems [of "length xs"] by simp
  show ?case unfolding writes_state_def
  proof (intro allI impI)
    fix w assume "wf_writer w"
    then obtain w1 where w1: "try_fold f (w, vs 0) xs = Ok (w1, vs (length xs))" "wf_writer w1"
      "writer_bits w1 = writer_bits w @ concat (map enc [0..<length xs])"
      using 1 by (auto simp: writes_state_def)
    then obtain w2 where "f (w1, vs (length xs)) x = Ok (w2, vs (Suc (length xs)))" "wf_writer w2"
      "writer_bits w2 = writer_bits w1 @ enc (length xs)"
      using 2 by (auto simp: writes_state_def)
    with w1 show "\<exists>w'. try_fold f (w, vs 0) (xs @ [x]) = Ok (w', vs (length (xs @ [x]))) \<and> wf_writer w'
        \<and> writer_bits w' = writer_bits w @ concat (map enc [0..<length (xs @ [x])])"
      by (simp add: try_fold_append)
  qed
qed

text \<open>The \<open>width\<close> low bits of a number, least significant first.\<close>

definition nat_bits :: "nat \<Rightarrow> nat \<Rightarrow> bool list" where
  "nat_bits width n = map (bit n) [0..<width]"

lemma length_nat_bits [simp]: "length (nat_bits width n) = width"
  by (simp add: nat_bits_def)

lemma bit_unat: "bit (unat (w :: 'a::len word)) i = bit w i"
  by (simp add: bit_unsigned_iff bit_imp_le_length)

lemma write_bits_fits:
  assumes "width \<le> 32" "unat v < 2 ^ width"
  shows "write_bits v width w = Ok (foldl (\<lambda>w i. write_bit (bit v i) w) w [0..<width])"
proof -
  have "\<not> push_bit width 1 \<le> (ucast v :: u64)" if "width < 32"
  proof -
    have "unat (word_of_nat (2 ^ width) :: u64) = 2 ^ width"
      using that by (intro unat_word_of_nat power_strict_increasing) simp_all
    then have "unat (push_bit width 1 :: u64) = 2 ^ width" by simp
    then show ?thesis using assms(2) by (simp only: word_le_nat_alt unat_ucast_u32_u64)
  qed
  then show ?thesis using assms(1) by (simp only: write_bits_def bit_iff_and_single) auto
qed

lemma writes_bits [codec_intros]:
  "width \<le> 32 \<Longrightarrow> unat v < 2 ^ width \<Longrightarrow> writes (write_bits v width) (nat_bits width (unat v))"
  using write_bits_sound [of _ "bit v" "[0..<width]"]
  by (simp add: writes_def write_bits_fits nat_bits_def bit_unat cong: map_cong)

lemma writes_big_bits [codec_intros]:
  assumes "n < 2 ^ width" shows "writes (write_big_bits (big n) width) (nat_bits width n)"
proof -
  have "\<not> width < big_bit_len (big n)" using assms by (simp add: big_bit_len_big not_less)
  then have "write_big_bits (big n) width w = Ok (foldl (\<lambda>w i. write_bit (bit n i) w) w [0..<width])" for w
    by (simp add: write_big_bits_def big_bit_big)
  then show ?thesis using write_bits_sound [of _ "bit n" "[0..<width]"] by (simp add: writes_def nat_bits_def)
qed

lemma append_writer_bits:
  assumes "wf_writer other"
  shows "append_writer other w = foldl (\<lambda>w i. write_bit (byte_bit (bw_bytes other) i) w) w [0..<bw_bit_len other]"
  unfolding append_writer_def byte_bit_def bit_iff_and_single ..

lemma append_writer_sound:
  assumes "wf_writer other" "wf_writer w"
  shows "wf_writer (append_writer other w)" "writer_bits (append_writer other w) = writer_bits w @ writer_bits other"
  using write_bits_sound [OF assms(2), of "byte_bit (bw_bytes other)" "[0..<bw_bit_len other]"]
  by (simp_all add: append_writer_bits [OF assms(1)] writer_bits_def)

lemma writes_append_writer [codec_intros]:
  "wf_writer other \<Longrightarrow> writes (\<lambda>w. Ok (append_writer other w)) (writer_bits other)"
  by (simp add: writes_def append_writer_sound)

text \<open>The bits of a variable-length unsigned number.\<close>

definition var_bits :: "nat \<Rightarrow> bool list" where
  "var_bits n =
     (if n < 16 then False # nat_bits 4 n
      else if n < 256 then [True, False] @ nat_bits 8 n
      else if n < 65536 then [True, True, False] @ nat_bits 16 n
      else [True, True, True] @ nat_bits 32 n)"

lemma nat_bits_small: "nat_bits 2 (Suc 0) = [True, False]" "nat_bits 3 3 = [True, True, False]" "nat_bits 3 7 = [True, True, True]"
  by code_simp+

lemma writes_var_uint [codec_intros]:
  assumes "n < 2 ^ 32" shows "writes (write_var_uint (word_of_nat n)) (var_bits n)"
proof -
  have u: "unat (word_of_nat n :: u64) = n" using assms by (intro unat_word_of_nat) simp
  have u32: "unat (ucast (word_of_nat n :: u64) :: u32) = n"
    using assms u by (simp add: unat_low_limb)
  have "unat (- 1 :: u32) = 4294967295" by (simp add: unsigned_minus_1_eq_mask mask_eq_exp_minus_1)
  then have gt: "\<not> (ucast (- 1 :: u32) :: u64) < word_of_nat n"
    using assms u by (simp add: word_less_nat_alt)
  have lt: "word_of_nat n < (16 :: u64) \<longleftrightarrow> n < 16" "word_of_nat n < (256 :: u64) \<longleftrightarrow> n < 256"
    "word_of_nat n < (65536 :: u64) \<longleftrightarrow> n < 65536"
    using u by (simp_all add: word_less_nat_alt)
  note f = write_var_uint_def [abs_def] gt lt if_False
  have w: "writes (write_bits (ucast (word_of_nat n :: u64)) k) (nat_bits k n)" if "n < 2 ^ k" "k \<le> 32" for k
    using writes_bits [of k "ucast (word_of_nat n :: u64)"] that u32 by simp
  consider "n < 16" | "16 \<le> n" "n < 256" | "256 \<le> n" "n < 65536" | "65536 \<le> n" by linarith
  then show ?thesis
  proof cases
    case 1
    then show ?thesis
      using writes_bit_then [OF w [of 4], of False] by (simp add: f var_bits_def)
  next
    case 2
    then show ?thesis
      using writes_then [OF writes_bits [of 2 1] w [of 8]] by (simp add: f var_bits_def nat_bits_small)
  next
    case 3
    then show ?thesis
      using writes_then [OF writes_bits [of 3 3] w [of 16]] by (simp add: f var_bits_def nat_bits_small)
  next
    case 4
    then show ?thesis
      using writes_then [OF writes_bits [of 3 7] w [of 32]] assms by (simp add: f var_bits_def nat_bits_small)
  qed
qed

text \<open>Signed numbers alternate: \<open>0, -1, 1, -2, 2, \<dots>\<close>.\<close>

definition zigzag :: "int \<Rightarrow> nat" where
  "zigzag v = nat (if v \<ge> 0 then v * 2 else v * - 2 - 1)"

lemma writes_signed_var_int [codec_intros]:
  assumes "zigzag v < 2 ^ 32" shows "writes (write_signed_var_int v) (var_bits (zigzag v))"
proof -
  have "ok_or (Fault IntegerOverflow) (if v \<ge> 0 then i64_checked (v * 2)
      else Option.bind (i64_checked (v * - 2)) (\<lambda>v. i64_checked (v - 1))) = Ok (int (zigzag v))"
    using assms by (cases "v \<ge> 0") (auto simp: i64_checked_def zigzag_def)
  then show ?thesis
    using writes_var_uint [OF assms] by (simp add: write_signed_var_int_def [abs_def])
qed

lemma writes_bytes [codec_intros]: "writes (write_bytes bytes) (concat (map (\<lambda>b. nat_bits 8 (unat b)) bytes))"
proof -
  have "writes (write_bits (ucast b) 8) (nat_bits 8 (unat b))" for b :: u8
    using writes_bits [of 8 "ucast b"] unat_lt2p [of b] by (simp add: unat_ucast_up)
  then show ?thesis
    using writes_try_fold [of bytes "\<lambda>b. write_bits (ucast b) 8" "\<lambda>b. nat_bits 8 (unat b)"]
    by (simp add: write_bytes_def [abs_def])
qed

section \<open>Readers as bit lists\<close>

definition reader_bits :: "BitReader \<Rightarrow> bool list" where
  "reader_bits r = map (byte_bit (br_bytes r))
     [br_bit_offset r..<usize_saturating_mul (length (br_bytes r)) 8]"

definition parses :: "(BitReader \<Rightarrow> codec_fault + 'a \<times> BitReader) \<Rightarrow> bool list \<Rightarrow> 'a \<Rightarrow> bool" where
  "parses p bs x \<longleftrightarrow> (\<forall>r rest. reader_bits r = bs @ rest \<longrightarrow>
     (\<exists>r'. p r = Ok (x, r') \<and> reader_bits r' = rest))"

lemma parsesD:
  assumes "parses p bs x" "reader_bits r = bs @ rest"
  obtains r' where "p r = Ok (x, r')" "reader_bits r' = rest"
  using assms by (auto simp: parses_def)

lemma parses_return [codec_intros]: "parses (\<lambda>r. Ok (x, r)) [] x"
  by (simp add: parses_def)

lemma parses_bind:
  "parses p bs x \<Longrightarrow> parses (q x) cs y \<Longrightarrow> parses (\<lambda>r. and_then (p r) (\<lambda>(x, r). q x r)) (bs @ cs) y"
  by (force simp: parses_def)

lemma parses_map:
  "parses p bs x \<Longrightarrow> parses (\<lambda>r. and_then (p r) (\<lambda>(x, r). Ok (f x, r))) bs (f x)"
  using parses_bind [of p bs x "\<lambda>x r. Ok (f x, r)" "[]" "f x"] by (simp add: parses_return)

lemma reader_bits_step:
  assumes "reader_bits r = b # rest"
  shows "br_bit_offset r < usize_saturating_mul (length (br_bytes r)) 8"
    "byte_bit (br_bytes r) (br_bit_offset r) = b"
    "reader_bits (r\<lparr>br_bit_offset := br_bit_offset r + 1\<rparr>) = rest"
proof -
  show *: "br_bit_offset r < usize_saturating_mul (length (br_bytes r)) 8"
  proof (rule ccontr)
    assume "\<not> ?thesis"
    then show False using assms by (simp add: reader_bits_def)
  qed
  show "byte_bit (br_bytes r) (br_bit_offset r) = b"
    "reader_bits (r\<lparr>br_bit_offset := br_bit_offset r + 1\<rparr>) = rest"
    using assms upt_conv_Cons [OF *] by (simp_all add: reader_bits_def)
qed

lemma parses_bit [codec_intros]: "parses read_bit [b] b"
proof -
  have "read_bit r = Ok (b, r\<lparr>br_bit_offset := br_bit_offset r + 1\<rparr>)"
    "reader_bits (r\<lparr>br_bit_offset := br_bit_offset r + 1\<rparr>) = rest"
    if "reader_bits r = b # rest" for r rest
    using reader_bits_step [OF that]
    unfolding read_bit_def byte_bit_def bit_iff_and_single by simp_all
  then show ?thesis by (auto simp: parses_def)
qed

lemma parses_loop:
  assumes "\<And>k. k < length xs \<Longrightarrow> parses (\<lambda>r. f (vs k, r) (xs ! k)) (enc k) (vs (Suc k))"
  shows "parses (\<lambda>r. try_fold f (vs 0, r) xs) (concat (map enc [0..<length xs])) (vs (length xs))"
  using assms
proof (induction xs rule: rev_induct)
  case Nil
  show ?case by (simp add: parses_return)
next
  case (snoc i xs)
  have 1: "parses (\<lambda>r. try_fold f (vs 0, r) xs) (concat (map enc [0..<length xs])) (vs (length xs))"
    using snoc.prems by (intro snoc.IH) (metis length_append_singleton less_Suc_eq nth_append)
  have 2: "parses (\<lambda>r. f (vs (length xs), r) i) (enc (length xs)) (vs (Suc (length xs)))"
    using snoc.prems [of "length xs"] by simp
  have "(\<lambda>r. try_fold f (vs 0, r) (xs @ [i]))
      = (\<lambda>r. and_then (try_fold f (vs 0, r) xs) (\<lambda>(v, r). f (v, r) i))"
    by (auto simp: try_fold_append and_then_def split: sum.splits)
  then show ?case
    using parses_bind [of _ _ _ "\<lambda>v r. f (v, r) i", OF 1 2] by simp
qed

lemma nat_bits_concat: "nat_bits k n = concat (map (\<lambda>i. [bit n i]) [0..<k])"
  by (induction k) (simp_all add: nat_bits_def)

lemma take_bit_step: "take_bit (Suc k) n = (if bit n k then take_bit k n OR push_bit k 1 else take_bit k n)"
  for n :: "'a::semiring_bit_operations"
  by (rule bit_eqI) (auto simp: bit_take_bit_iff bit_or_iff bit_exp_iff less_Suc_eq)

lemma parses_bits:
  assumes "width \<le> 32" shows "parses (read_bits width) (nat_bits width (unat v)) (take_bit width v)"
proof -
  have "parses (\<lambda>r. (\<lambda>(v, r) i. and_then (read_bit r)
        (\<lambda>(b, r). Ok (if b then v OR push_bit i 1 else v, r))) (take_bit k v, r) ([0..<width] ! k))
      [bit (unat v) k] (take_bit (Suc k) v)" if "k < width" for k
    using that parses_map [OF parses_bit [of "bit v k"], of "\<lambda>b. if b then take_bit k v OR push_bit k 1 else take_bit k v"]
    by (simp add: take_bit_step bit_unat)
  then show ?thesis
    using assms parses_loop [where vs = "\<lambda>k. take_bit k v" and xs = "[0..<width]"
        and enc = "\<lambda>k. [bit (unat v) k]"
        and f = "\<lambda>(v, r) i. and_then (read_bit r) (\<lambda>(b, r). Ok (if b then v OR push_bit i 1 else v, r))"]
    by (simp add: read_bits_def [abs_def] nat_bits_concat)
qed

lemma parses_bits_word [codec_intros]:
  "width \<le> 32 \<Longrightarrow> unat v < 2 ^ width \<Longrightarrow> parses (read_bits width) (nat_bits width (unat v)) v"
proof -
  assume a: "width \<le> 32" "unat v < 2 ^ width"
  have "take_bit width v = v"
    using a(2) by (intro word_eq_unatI) (simp add: unsigned_take_bit_eq take_bit_nat_eq_self)
  then show ?thesis using parses_bits [OF a(1), of v] by simp
qed

lemma set_bit_big_or: "set_bit_big (big n) k = big (n OR push_bit k 1)"
  by (subst set_bit_big_big) (simp only: set_bit_eq_or)

lemma parses_big_bits [codec_intros]:
  assumes "n < 2 ^ width" shows "parses (read_big_bits width) (nat_bits width n) (big n)"
proof -
  have "parses (\<lambda>r. (\<lambda>(v, r) i. and_then (read_bit r)
        (\<lambda>(b, r). Ok (if b then set_bit_big v i else v, r))) (big (take_bit k n), r) ([0..<width] ! k))
      [bit n k] (big (take_bit (Suc k) n))" if "k < width" for k
    using that parses_map [OF parses_bit [of "bit n k"],
        of "\<lambda>b. if b then set_bit_big (big (take_bit k n)) k else big (take_bit k n)"]
    by (cases "bit n k") (simp_all add: take_bit_step set_bit_big_or)
  then have "parses (read_big_bits width) (nat_bits width n) (big (take_bit width n))"
    using parses_loop [where vs = "\<lambda>k. big (take_bit k n)" and xs = "[0..<width]"
        and enc = "\<lambda>k. [bit n k]"
        and f = "\<lambda>(v, r) i. and_then (read_bit r) (\<lambda>(b, r). Ok (if b then set_bit_big v i else v, r))"]
    by (simp add: read_big_bits_def [abs_def] nat_bits_concat big_simps)
  then show ?thesis using assms by (simp add: take_bit_nat_eq_self)
qed

lemma parses_bit_then:
  "parses (q b) bs x \<Longrightarrow> parses (\<lambda>r. and_then (read_bit r) (\<lambda>(b, r). q b r)) (b # bs) x"
  using parses_bind [OF parses_bit] by fastforce

lemma parses_bits_nat:
  assumes "width \<le> 32" "n < 2 ^ width" shows "parses (read_bits width) (nat_bits width n) (word_of_nat n)"
proof -
  have "n < 2 ^ 32" using assms power_increasing [of width 32 "2 :: nat"] by (intro less_le_trans [OF assms(2)]) simp
  then have "unat (word_of_nat n :: u32) = n" by (intro unat_word_of_nat) simp
  then show ?thesis using parses_bits_word [of width "word_of_nat n"] assms by simp
qed

lemma parses_var_uint [codec_intros]:
  assumes "n < 2 ^ 32" shows "parses read_var_uint (var_bits n) (word_of_nat n)"
proof -
  define q3 where "q3 = (\<lambda>b. if \<not> b then read_bits 16 else read_bits 32)"
  define q2 where "q2 = (\<lambda>b. if \<not> b then read_bits 8 else (\<lambda>r. and_then (read_bit r) (\<lambda>(b, r). q3 b r)))"
  define q1 where "q1 = (\<lambda>b. if \<not> b then read_bits 4 else (\<lambda>r. and_then (read_bit r) (\<lambda>(b, r). q2 b r)))"
  have eq: "read_var_uint = (\<lambda>r. and_then (read_bit r) (\<lambda>(b, r). q1 b r))"
    by (auto simp: read_var_uint_def q1_def q2_def q3_def intro!: ext arg_cong2 [where f = and_then])
  consider "n < 16" | "16 \<le> n" "n < 256" | "256 \<le> n" "n < 65536" | "65536 \<le> n" by linarith
  then show ?thesis
  proof cases
    case 1
    then have "parses (q1 False) (nat_bits 4 n) (word_of_nat n)" by (simp add: q1_def parses_bits_nat)
    then show ?thesis unfolding eq using 1 by (simp add: var_bits_def parses_bit_then)
  next
    case 2
    then have "parses (q2 False) (nat_bits 8 n) (word_of_nat n)" by (simp add: q2_def parses_bits_nat)
    then have "parses (q1 True) (False # nat_bits 8 n) (word_of_nat n)"
      by (simp add: q1_def parses_bit_then)
    then show ?thesis unfolding eq using 2 by (simp add: var_bits_def parses_bit_then)
  next
    case 3
    then have "parses (q3 False) (nat_bits 16 n) (word_of_nat n)" by (simp add: q3_def parses_bits_nat)
    then have "parses (q2 True) (False # nat_bits 16 n) (word_of_nat n)"
      by (simp add: q2_def parses_bit_then)
    then have "parses (q1 True) (True # False # nat_bits 16 n) (word_of_nat n)"
      by (simp add: q1_def parses_bit_then)
    then show ?thesis unfolding eq using 3 by (simp add: var_bits_def parses_bit_then)
  next
    case 4
    then have "parses (q3 True) (nat_bits 32 n) (word_of_nat n)"
      using assms by (simp add: q3_def parses_bits_nat)
    then have "parses (q2 True) (True # nat_bits 32 n) (word_of_nat n)"
      by (simp add: q2_def parses_bit_then)
    then have "parses (q1 True) (True # True # nat_bits 32 n) (word_of_nat n)"
      by (simp add: q1_def parses_bit_then)
    then show ?thesis unfolding eq using 4 by (simp add: var_bits_def parses_bit_then)
  qed
qed

lemma zigzag_decode:
  "(if int (zigzag v) AND 1 = 1 then - (int (zigzag v) div 2 + 1) else int (zigzag v) div 2) = v"
  by (cases "v \<ge> 0") (auto simp: zigzag_def and_one_eq)

lemma parses_signed_var_int [codec_intros]:
  assumes "zigzag v < 2 ^ 32" shows "parses read_signed_var_int (var_bits (zigzag v)) v"
proof -
  have u: "uint (word_of_nat (zigzag v) :: u32) = int (zigzag v)"
    using unat_word_of_nat [of "zigzag v", where 'a = 32] assms by (simp add: uint_nat)
  define dec where "dec = (\<lambda>v :: u32. if uint v AND 1 = 1 then - (uint v div 2 + 1) else uint v div 2)"
  have "dec (word_of_nat (zigzag v)) = v" using zigzag_decode [of v] by (simp only: dec_def u)
  then show ?thesis
    using parses_map [OF parses_var_uint [OF assms], of dec]
    by (simp add: read_signed_var_int_def [abs_def] dec_def)
qed

lemma length_byte_bits: "length (concat (map (\<lambda>b. nat_bits 8 (unat b)) bytes)) = length bytes * 8"
  by (induction bytes) simp_all

lemma length_reader_bits:
  "length (reader_bits r) = usize_saturating_mul (length (br_bytes r)) 8 - br_bit_offset r"
  by (simp add: reader_bits_def)

lemma map_nth_comp: "map (\<lambda>k. f (xs ! k)) [0..<length xs] = map f xs"
  by (rule nth_equalityI) simp_all

lemma parses_n:
  assumes "\<And>x. x \<in> set xs \<Longrightarrow> parses p (enc x) x"
  shows "parses (read_n (length xs) p) (concat (map enc xs)) xs"
proof -
  define f where "f = (\<lambda>(ys, r) (_ :: nat). and_then (p r) (\<lambda>(x, r). Ok (ys @ [x], r)))"
  have "parses (\<lambda>r. f (take k xs, r) ([0..<length xs] ! k)) (enc (xs ! k)) (take (Suc k) xs)"
    if "k < length xs" for k
    using parses_map [OF assms [of "xs ! k"], of "\<lambda>x. take k xs @ [x]"] that
    by (simp add: f_def take_Suc_conv_app_nth)
  then show ?thesis
    using parses_loop [where f = f and vs = "\<lambda>k. take k xs" and xs = "[0..<length xs]" and enc = "\<lambda>k. enc (xs ! k)"]
      map_nth_comp [of enc xs]
    by (simp add: read_n_def [abs_def] f_def)
qed

lemma parses_bytes [codec_intros]:
  "parses (read_bytes (length bytes)) (concat (map (\<lambda>b. nat_bits 8 (unat b)) bytes)) bytes"
proof -
  define f :: "u8 list \<times> BitReader \<Rightarrow> nat \<Rightarrow> codec_fault + u8 list \<times> BitReader"
    where "f = (\<lambda>(bytes, r) _. and_then (read_bits 8 r) (\<lambda>(v, r). Ok (bytes @ [ucast v], r)))"
  have "parses (\<lambda>r. f (take k bytes, r) ([0..<length bytes] ! k)) (nat_bits 8 (unat (bytes ! k))) (take (Suc k) bytes)"
    if "k < length bytes" for k
  proof -
    have "unat (bytes ! k) < 2 ^ 8" using unat_lt2p [of "bytes ! k"] by simp
    then have "parses (read_bits 8) (nat_bits 8 (unat (bytes ! k))) (word_of_nat (unat (bytes ! k)))"
      by (intro parses_bits_nat) simp_all
    moreover have "(ucast (word_of_nat (unat (bytes ! k)) :: u32) :: u8) = bytes ! k"
      by (simp add: unsigned_ucast_eq take_bit_word_eq_self)
    ultimately show ?thesis
      using parses_map [of "read_bits 8" _ _ "\<lambda>v. take k bytes @ [ucast v]"] that
      by (force simp: f_def take_Suc_conv_app_nth)
  qed
  then have loop: "parses (\<lambda>r. try_fold f ([], r) [0..<length bytes])
      (concat (map (\<lambda>b. nat_bits 8 (unat b)) bytes)) bytes"
    using parses_loop [where f = f and vs = "\<lambda>k. take k bytes" and xs = "[0..<length bytes]"
        and enc = "\<lambda>k. nat_bits 8 (unat (bytes ! k))"]
      map_nth_comp [of "\<lambda>b. nat_bits 8 (unat b)" bytes]
    by simp
  show ?thesis unfolding parses_def
  proof (intro allI impI)
    fix r rest assume r: "reader_bits r = concat (map (\<lambda>b. nat_bits 8 (unat b)) bytes) @ rest"
    then have "length bytes * 8 \<le> usize_saturating_mul (length (br_bytes r)) 8 - br_bit_offset r"
      using length_reader_bits [of r] length_byte_bits [of bytes] by simp
    then have "read_bytes (length bytes) r = try_fold f ([], r) [0..<length bytes]"
      by (simp add: read_bytes_def usize_checked_mul_def usize_saturating_mul_def f_def)
    then show "\<exists>r'. read_bytes (length bytes) r = Ok (bytes, r') \<and> reader_bits r' = rest"
      using loop r by (auto simp: parses_def)
  qed
qed

lemma assert_zero_padding_ok:
  assumes "reader_bits r = replicate n False" shows "is_ok (assert_zero_padding r)"
  using assms
proof (induction n arbitrary: r)
  case 0
  then have "\<not> br_bit_offset r < usize_saturating_mul (length (br_bytes r)) 8"
    by (auto simp: reader_bits_def)
  then show ?case by (subst assert_zero_padding.simps) simp
next
  case (Suc n)
  then have r: "reader_bits r = [False] @ replicate n False" by simp
  obtain r' where "read_bit r = Ok (False, r')" "reader_bits r' = replicate n False"
    using parsesD [OF parses_bit r] .
  then show ?case
    using Suc.IH [of r'] by (subst assert_zero_padding.simps) simp
qed

section \<open>From a writer to a reader\<close>

definition padding :: "BitWriter \<Rightarrow> bool list" where
  "padding w = replicate (8 * length (bw_bytes w) - bw_bit_len w) False"

lemma reader_of_writer:
  assumes "wf_writer w" "8 * length (bw_bytes w) \<le> USIZE_MAX"
  shows "reader_bits (br_new (bw_bytes w)) = writer_bits w @ padding w"
proof -
  have le: "bw_bit_len w \<le> 8 * length (bw_bytes w)" using assms(1) by (simp add: wf_writer_def)
  have "reader_bits (br_new (bw_bytes w)) = map (byte_bit (bw_bytes w)) [0..<8 * length (bw_bytes w)]"
    using assms(2) by (simp add: reader_bits_def br_new_def usize_saturating_mul_def mult.commute)
  also have "[0..<8 * length (bw_bytes w)] = [0..<bw_bit_len w] @ [bw_bit_len w..<8 * length (bw_bytes w)]"
    using le upt_add_eq_append [of 0 "bw_bit_len w" "8 * length (bw_bytes w) - bw_bit_len w"] by simp
  also have "map (byte_bit (bw_bytes w)) [bw_bit_len w..<8 * length (bw_bytes w)] = padding w"
    using assms(1) unfolding padding_def
    by (intro nth_equalityI) (auto simp: wf_writer_def)
  then have "map (byte_bit (bw_bytes w)) ([0..<bw_bit_len w] @ [bw_bit_len w..<8 * length (bw_bytes w)])
      = writer_bits w @ padding w"
    by (simp add: writer_bits_def)
  finally show ?thesis .
qed

section \<open>Writers and readers that fit\<close>

text \<open>What \<open>put\<close> writes, \<open>get\<close> reads as \<open>x\<close>.\<close>

definition codec :: "(BitWriter \<Rightarrow> codec_fault + BitWriter) \<Rightarrow> (BitReader \<Rightarrow> codec_fault + 'a \<times> BitReader) \<Rightarrow> 'a \<Rightarrow> bool" where
  "codec put get x \<longleftrightarrow> (\<exists>bs. writes put bs \<and> parses get bs x)"

lemma codecI: "writes put bs \<Longrightarrow> parses get bs x \<Longrightarrow> codec put get x"
  by (auto simp: codec_def)

lemma codec_return: "codec Ok (\<lambda>r. Ok (x, r)) x"
  by (rule codecI [OF writes_nothing parses_return])

lemma codec_bind:
  assumes "codec f p x" "codec g (q x) y"
  shows "codec (\<lambda>w. and_then (f w) g) (\<lambda>r. and_then (p r) (\<lambda>(x, r). q x r)) y"
proof -
  obtain bs cs where b: "writes f bs" "parses p bs x" and c: "writes g cs" "parses (q x) cs y"
    using assms by (auto simp: codec_def)
  show ?thesis by (rule codecI [OF writes_then [OF b(1) c(1)] parses_bind [where q = q, OF b(2) c(2)]])
qed

lemma codec_map: "codec f p x \<Longrightarrow> codec f (\<lambda>r. and_then (p r) (\<lambda>(x, r). Ok (h x, r))) (h x)"
  by (auto simp: codec_def intro: parses_map)

lemma codec_bit_then: "codec g (q b) y \<Longrightarrow> codec (\<lambda>w. g (write_bit b w)) (\<lambda>r. and_then (read_bit r) (\<lambda>(b, r). q b r)) y"
  by (auto simp: codec_def intro: writes_bit_then parses_bit_then)

text \<open>A fixed prefix, read in any way that leaves the rest to \<open>q\<close>.\<close>

lemma codec_prefix:
  assumes "writes f bs" "codec g q y" "\<And>cs. parses q cs y \<Longrightarrow> parses p (bs @ cs) y"
  shows "codec (\<lambda>w. and_then (f w) g) p y"
proof -
  obtain cs where c: "writes g cs" "parses q cs y" using assms(2) by (auto simp: codec_def)
  show ?thesis by (rule codecI [OF writes_then [OF assms(1) c(1)] assms(3) [OF c(2)]])
qed

lemma codec_bits: "width \<le> 32 \<Longrightarrow> unat v < 2 ^ width \<Longrightarrow> codec (write_bits v width) (read_bits width) v"
  by (rule codecI [OF writes_bits parses_bits_word])

lemma codec_var_uint: "n < 2 ^ 32 \<Longrightarrow> codec (write_var_uint (word_of_nat n)) read_var_uint (word_of_nat n)"
  by (rule codecI [OF writes_var_uint parses_var_uint])

lemma codec_count:
  assumes "n < 2 ^ 32" shows "codec (write_var_uint (word_of_nat n)) (\<lambda>r. and_then (read_var_uint r) (\<lambda>(v, r). Ok (unat v, r))) n"
proof -
  have "unat (word_of_nat n :: u32) = n" by (rule unat_word_of_nat) (use assms in simp)
  then show ?thesis using codec_map [OF codec_var_uint [OF assms], of unat] by simp
qed

lemma codec_signed_var_int: "zigzag v < 2 ^ 32 \<Longrightarrow> codec (write_signed_var_int v) read_signed_var_int v"
  by (rule codecI [OF writes_signed_var_int parses_signed_var_int])

lemma codec_bytes: "codec (write_bytes bytes) (read_bytes (length bytes)) bytes"
  by (rule codecI [OF writes_bytes parses_bytes])

text \<open>
  The contract of a bit codec: every valid value is written as some list of bits that the reader
  consumes, returning that value.
\<close>

locale bit_codec =
  fixes put :: "'a \<Rightarrow> BitWriter \<Rightarrow> codec_fault + BitWriter"
    and get :: "BitReader \<Rightarrow> codec_fault + 'a \<times> BitReader"
    and valid :: "'a \<Rightarrow> bool"
  assumes codec: "valid x \<Longrightarrow> codec (put x) get x"
begin

lemma stream_roundtrip:
  assumes "valid x"
  obtains w where "put x bw_default = Ok w" "wf_writer w"
    "8 * length (bw_bytes w) \<le> USIZE_MAX \<Longrightarrow>
      \<exists>r. get (br_new (bw_bytes w)) = Ok (x, r) \<and> is_ok (assert_zero_padding r)"
proof -
  obtain bs where bs: "writes (put x) bs" "parses get bs x" using codec [OF assms] by (auto simp: codec_def)
  from bs(1) obtain w where w: "put x bw_default = Ok w" "wf_writer w" "writer_bits w = bs"
    by (force simp: writes_def)
  show ?thesis
  proof (rule that [OF w(1,2)])
    assume "8 * length (bw_bytes w) \<le> USIZE_MAX"
    then have "reader_bits (br_new (bw_bytes w)) = bs @ padding w"
      using reader_of_writer w by simp
    then obtain r where "get (br_new (bw_bytes w)) = Ok (x, r)" "reader_bits r = padding w"
      using parsesD [OF bs(2)] by blast
    then show "\<exists>r. get (br_new (bw_bytes w)) = Ok (x, r) \<and> is_ok (assert_zero_padding r)"
      using assert_zero_padding_ok by (auto simp: padding_def)
  qed
qed

text \<open>No two valid values share an encoding.\<close>

lemma encoding_inj:
  assumes "valid x" "valid y" "put x bw_default = Ok w" "put y bw_default = Ok w"
    "8 * length (bw_bytes w) \<le> USIZE_MAX"
  shows "x = y"
  using stream_roundtrip [OF assms(1)] stream_roundtrip [OF assms(2)] assms(3-5)
  by (metis prod.inject sum.inject(2))

end

interpretation var_uint: bit_codec "\<lambda>v :: u32. write_var_uint (ucast v)" read_var_uint "\<lambda>_. True"
proof
  fix v :: u32
  have "ucast v = (word_of_nat (unat v) :: u64)" "v = word_of_nat (unat v)"
    by simp_all
  then show "codec (write_var_uint (ucast v)) read_var_uint v"
    using codec_var_uint [of "unat v"] unat_lt2p [of v] by simp
qed

interpretation signed_var_int: bit_codec write_signed_var_int read_signed_var_int "\<lambda>v. zigzag v < 2 ^ 32"
  by unfold_locales (rule codec_signed_var_int)

end
