(* ===== verification/CellCodecs.thy ===== *)
theory CellCodecs
  imports BitStreams
begin

text \<open>
  The cell encodings of the CTK3 codec (\<open>clearra-ctk3/src/cell.rs\<close>): twelve ways to write the colour
  codes of a field, the choice of the shortest one, and the reader that undoes each of them.  An
  \<open>expect\<close> that fails and an index out of range are \<open>Panic\<close>.  The lemmas show that every encoder
  writes bits from which the reader restores the field, so that the choice of the shortest one does
  too, for every field and every predictor.
\<close>

section \<open>Palettes\<close>

definition unique_codes :: "u8 list \<Rightarrow> codec_fault + u8 list" where
  "unique_codes codes =
     and_then
       (try_fold (\<lambda>present code. if unat code < 9 then Ok (present[unat code := True]) else Err Panic)
         (replicate 9 False) codes)
       (\<lambda>present. Ok (map word_of_nat (filter (\<lambda>code. present ! code) [0..<9])))"

definition color_mask :: "u8 list \<Rightarrow> u32" where
  "color_mask codes = foldl (\<lambda>m code. m OR push_bit (unat code) 1) 0 codes"

definition palette_from_mask :: "u32 \<Rightarrow> nat \<Rightarrow> u8 list" where
  "palette_from_mask m minimum =
     map word_of_nat (filter (\<lambda>code. m AND push_bit code 1 \<noteq> 0) [minimum..<9])"

definition bits_for_choices :: "nat \<Rightarrow> nat" where
  "bits_for_choices choice_count =
     (if choice_count \<le> 1 then 0 else 64 - leading_zeros (word_of_nat (choice_count - 1) :: u64))"

definition bits_for_big_choices :: "BigNat \<Rightarrow> codec_fault + nat" where
  "bits_for_big_choices choice_count =
     (if big_cmp choice_count big_one \<noteq> Greater then Ok 0
      else and_then (subtract_one choice_count) (\<lambda>n. Ok (big_bit_len n)))"

definition assert_color_code :: "u8 \<Rightarrow> codec_fault + unit" where
  "assert_color_code code =
     (if code \<le> 8 then Ok () else Err (Fault (InvalidPayload ''field color is invalid'')))"

text \<open>The position of a colour in the palette is written with as few bits as the palette needs.\<close>

definition write_palette_index :: "u8 list \<Rightarrow> u8 \<Rightarrow> BitWriter \<Rightarrow> codec_fault + BitWriter" where
  "write_palette_index palette code w =
     and_then (ok_or Panic (position_of code palette))
       (\<lambda>index. write_bits (word_of_nat index) (bits_for_choices (length palette)) w)"

definition read_palette_code :: "u8 list \<Rightarrow> nat \<Rightarrow> string \<Rightarrow> BitReader \<Rightarrow> codec_fault + u8 \<times> BitReader" where
  "read_palette_code palette width msg r =
     and_then (read_bits width r) (\<lambda>(index, r).
       and_then (ok_or (Fault (InvalidPayload msg)) (nth_opt palette (unat index))) (\<lambda>code. Ok (code, r)))"

section \<open>Changes and positions\<close>

definition changed_cells :: "u8 list \<Rightarrow> u8 list \<Rightarrow> (nat \<times> u8) list" where
  "changed_cells codes previous = filter (\<lambda>(index, code). code \<noteq> get_or 0 previous index) (enumerate 0 codes)"

definition change_flags :: "u8 list \<Rightarrow> u8 list \<Rightarrow> u8 list" where
  "change_flags codes previous =
     map (\<lambda>(index, code). if code \<noteq> get_or 0 previous index then 1 else 0) (enumerate 0 codes)"

definition changed_codes :: "u8 list \<Rightarrow> u8 list \<Rightarrow> u8 list" where
  "changed_codes codes changed = map fst (filter (\<lambda>(code, c). c \<noteq> 0) (zip codes changed))"

definition arrays_equal_fitted :: "u8 list \<Rightarrow> u8 list \<Rightarrow> bool" where
  "arrays_equal_fitted codes previous = list_all (\<lambda>(index, code). code = get_or 0 previous index) (enumerate 0 codes)"

text \<open>
  Both callers pass strictly increasing positions (collected from an enumeration, or unranked), so that
  the binary search of the source finds a cursor exactly when it is one of them.
\<close>

definition remove_relative_positions :: "nat list \<Rightarrow> nat list \<Rightarrow> nat list" where
  "remove_relative_positions values positions =
     map snd (filter (\<lambda>(cursor, _). cursor \<notin> set positions) (enumerate 0 values))"

definition relative_positions :: "u8 list \<Rightarrow> nat list \<Rightarrow> u8 \<Rightarrow> nat list" where
  "relative_positions codes remaining code =
     map fst (filter (\<lambda>(_, source). codes ! source = code) (enumerate 0 remaining))"

definition fitted_previous :: "u8 list option \<Rightarrow> nat \<Rightarrow> codec_fault + u8 list" where
  "fitted_previous previous cell_count =
     and_then (ok_or (Fault (InvalidPayload ''delta field has no predictor'')) previous)
       (\<lambda>previous. Ok (map (get_or 0 previous) [0..<cell_count]))"

section \<open>Encoders\<close>

definition single_mode_encoding :: "u32 \<Rightarrow> nat \<Rightarrow> codec_fault + BitWriter" where
  "single_mode_encoding mode mode_width = write_bits mode mode_width bw_default"

definition palette_encoding :: "u8 list \<Rightarrow> nat \<Rightarrow> codec_fault + BitWriter" where
  "palette_encoding codes mode_width =
     and_then (write_bits 0 mode_width bw_default) (\<lambda>w.
       and_then (unique_codes codes) (\<lambda>palette.
         let palette = (if palette = [] then [0] else palette)
         in and_then (write_bits (color_mask palette) 9 w) (\<lambda>w.
              try_fold (\<lambda>w code. write_palette_index palette code w) w codes)))"

definition push_color_run :: "(u8 \<times> nat) list \<Rightarrow> u8 \<Rightarrow> (u8 \<times> nat) list" where
  "push_color_run runs code =
     (if runs \<noteq> [] \<and> fst (last runs) = code
      then butlast runs @ [(fst (last runs), snd (last runs) + 1)] else runs @ [(code, 1)])"

definition run_length_encoding :: "u8 list \<Rightarrow> nat \<Rightarrow> codec_fault + BitWriter" where
  "run_length_encoding codes mode_width =
     and_then (write_bits 1 mode_width bw_default) (\<lambda>w.
       let runs = foldl push_color_run [] codes
       in and_then (write_var_uint (word_of_nat (length runs)) w) (\<lambda>w.
            try_fold (\<lambda>w (code, len).
                and_then (write_bits (ucast code) 4 w) (write_var_uint (word_of_nat (len - 1)))) w runs))"

definition delta_encoding :: "u8 list \<Rightarrow> u8 list \<Rightarrow> nat \<Rightarrow> codec_fault + BitWriter" where
  "delta_encoding codes previous mode_width =
     (let changes = changed_cells codes previous
      in and_then (write_bits 2 mode_width bw_default) (\<lambda>w.
           and_then (write_var_uint (word_of_nat (length changes)) w) (\<lambda>w.
             and_then
               (try_fold (\<lambda>(w, prior) (index, code).
                    let gap = (case prior of None \<Rightarrow> index | Some prior \<Rightarrow> index - prior - 1)
                    in and_then (write_var_uint (word_of_nat gap) w) (\<lambda>w.
                         and_then (write_bits (ucast code) 4 w) (\<lambda>w. Ok (w, Some index))))
                  (w, None) changes)
               (\<lambda>(w, _). Ok w))))"

text \<open>A mask of flags is written as it is or as runs, whichever is shorter.\<close>

definition write_occupancy_mask :: "u8 list \<Rightarrow> BitWriter \<Rightarrow> codec_fault + BitWriter" where
  "write_occupancy_mask occupied w =
     (let raw = foldl (\<lambda>raw v. write_bit (v \<noteq> 0) raw) (write_bit False bw_default) occupied;
          runs = write_bit True bw_default
      in and_then
           (if occupied = [] then Ok runs
            else and_then
                   (try_fold (\<lambda>(runs, run_length) index.
                        if index < length occupied \<and> occupied ! index = occupied ! (index - 1)
                        then Ok (runs, run_length + 1)
                        else and_then (write_var_uint (word_of_nat (run_length - 1)) runs)
                               (\<lambda>runs. Ok (runs, 1 :: nat)))
                      (write_bit (hd occupied \<noteq> 0) runs, 1) [1..<length occupied + 1])
                   (\<lambda>(runs, _). Ok runs))
           (\<lambda>runs. Ok (append_writer (if bw_bit_len raw \<le> bw_bit_len runs then raw else runs) w)))"

definition change_mask_encoding :: "u8 list \<Rightarrow> u8 list \<Rightarrow> nat \<Rightarrow> codec_fault + BitWriter" where
  "change_mask_encoding codes previous mode_width =
     (let changed = change_flags codes previous
      in and_then (unique_codes (changed_codes codes changed)) (\<lambda>palette.
           and_then (write_bits 8 mode_width bw_default) (\<lambda>w.
             and_then (write_occupancy_mask changed w) (\<lambda>w.
               and_then (write_bits (color_mask palette) 9 w) (\<lambda>w.
                 try_fold (\<lambda>w (code, c). if c \<noteq> 0 then write_palette_index palette code w else Ok w)
                   w (zip codes changed))))))"

definition push_change_run :: "(nat \<times> u8 list) list \<Rightarrow> nat \<times> u8 \<Rightarrow> (nat \<times> u8 list) list" where
  "push_change_run runs change =
     (case change of (index, code) \<Rightarrow>
        if runs \<noteq> [] \<and> fst (last runs) + length (snd (last runs)) = index
        then butlast runs @ [(fst (last runs), snd (last runs) @ [code])] else runs @ [(index, [code])])"

definition delta_run_encoding :: "u8 list \<Rightarrow> u8 list \<Rightarrow> nat \<Rightarrow> codec_fault + BitWriter" where
  "delta_run_encoding codes previous mode_width =
     (let runs = foldl push_change_run [] (changed_cells codes previous)
      in and_then (unique_codes (concat (map snd runs))) (\<lambda>palette.
           and_then (write_bits 9 mode_width bw_default) (\<lambda>w.
             and_then (write_bits (color_mask palette) 9 w) (\<lambda>w.
               and_then (write_var_uint (word_of_nat (length runs)) w) (\<lambda>w.
                 and_then
                   (try_fold (\<lambda>(w, previous_end) (start, values).
                        and_then (write_var_uint (word_of_nat (start - previous_end)) w) (\<lambda>w.
                          and_then (write_var_uint (word_of_nat (length values - 1)) w) (\<lambda>w.
                            Ok (w, start + length values))))
                      (w, 0) runs)
                   (\<lambda>(w, _).
                      try_fold (\<lambda>w (_, values).
                          try_fold (\<lambda>w code. write_palette_index palette code w) w values) w runs))))))"

definition single_color_delta_encoding :: "u8 list \<Rightarrow> u8 list \<Rightarrow> nat \<Rightarrow> codec_fault + BitWriter option" where
  "single_color_delta_encoding codes previous mode_width =
     (let changed = change_flags codes previous
      in and_then (unique_codes (changed_codes codes changed)) (\<lambda>colors.
           if length colors \<noteq> 1 then Ok None
           else and_then (write_bits 10 mode_width bw_default) (\<lambda>w.
                  and_then (write_bits (ucast (hd colors)) 4 w) (\<lambda>w.
                    and_then (write_occupancy_mask changed w) (\<lambda>w. Ok (Some w))))))"

text \<open>Increasing positions are written as the rank of the combination they are.\<close>

definition write_positions :: "nat \<Rightarrow> nat list \<Rightarrow> BitWriter \<Rightarrow> codec_fault + BitWriter" where
  "write_positions available positions w =
     and_then (combination_count available (length positions)) (\<lambda>choices.
       and_then (combination_rank positions) (\<lambda>rank.
         and_then (bits_for_big_choices choices) (\<lambda>width. write_big_bits rank width w)))"

definition combinatorial_delta_encoding :: "u8 list \<Rightarrow> u8 list \<Rightarrow> nat \<Rightarrow> codec_fault + BitWriter" where
  "combinatorial_delta_encoding codes previous mode_width =
     (let positions = map fst (filter (\<lambda>(index, code). code \<noteq> get_or 0 previous index) (enumerate 0 codes))
      in and_then (write_bits 11 mode_width bw_default) (\<lambda>w.
           and_then (write_var_uint (word_of_nat (length positions)) w) (\<lambda>w.
             and_then (write_positions (length codes) positions w) (\<lambda>w.
               and_then (unique_codes (map (nth codes) positions)) (\<lambda>palette.
                 and_then (write_bits (color_mask palette) 9 w) (\<lambda>w.
                   try_fold (\<lambda>w position. write_palette_index palette (codes ! position) w)
                     w positions))))))"

definition occupancy_encoding :: "u8 list \<Rightarrow> nat \<Rightarrow> codec_fault + BitWriter" where
  "occupancy_encoding codes mode_width =
     (let occupied = map (\<lambda>code. if code \<noteq> 0 then 1 else 0) codes;
          non_empty = filter (\<lambda>code. code \<noteq> 0) codes
      in and_then (unique_codes non_empty) (\<lambda>palette.
           and_then (write_bits 3 mode_width bw_default) (\<lambda>w.
             and_then (write_occupancy_mask occupied w) (\<lambda>w.
               and_then (write_bits (drop_bit 1 (color_mask palette)) 8 w) (\<lambda>w.
                 try_fold (\<lambda>w code. write_palette_index palette code w) w non_empty)))))"

text \<open>Both multiset encodings name, colour after colour, which of the cells still open have it.\<close>

definition multiset_encoding :: "u8 list \<Rightarrow> nat \<Rightarrow> codec_fault + BitWriter" where
  "multiset_encoding codes mode_width =
     and_then (unique_codes codes) (\<lambda>palette.
       let palette = (if palette = [] then [0] else palette)
       in and_then (write_bits 4 mode_width bw_default) (\<lambda>w.
            and_then (write_bits (color_mask palette) 9 w) (\<lambda>w.
              and_then
                (try_fold (\<lambda>(w, remaining) code.
                     let positions = relative_positions codes remaining code
                     in and_then (write_var_uint (word_of_nat (length positions)) w) (\<lambda>w.
                          and_then (write_positions (length remaining) positions w) (\<lambda>w.
                            Ok (w, remove_relative_positions remaining positions))))
                   (w, [0..<length codes]) (take (length palette - 1) palette))
                (\<lambda>(w, _). Ok w))))"

text \<open>The loop that counts the colours: a grey cell ends it.\<close>

primrec tetromino_counts :: "nat list \<Rightarrow> u8 list \<Rightarrow> codec_fault + nat list option" where
  "tetromino_counts counts [] = Ok (Some counts)"
| "tetromino_counts counts (code # codes) =
     (if code = 1 then Ok None
      else if code \<noteq> 0
      then (if unat code < 9 then tetromino_counts (counts[unat code := counts ! unat code + 1]) codes
            else Err Panic)
      else tetromino_counts counts codes)"

definition tetromino_color_encoding :: "u8 list \<Rightarrow> nat \<Rightarrow> codec_fault + BitWriter option" where
  "tetromino_color_encoding codes mode_width =
     and_then (tetromino_counts (replicate 9 0) codes) (\<lambda>result.
       case result of None \<Rightarrow> Ok None
       | Some counts \<Rightarrow>
           let palette = map word_of_nat (filter (\<lambda>code. counts ! code \<noteq> 0) [2..<9])
           in if palette = [] \<or> list_ex (\<lambda>code. counts ! unat code \<noteq> 4) palette then Ok None
              else (let occupied = map (\<lambda>code. if code \<noteq> 0 then 1 else 0) codes
                    in and_then (write_bits 5 mode_width bw_default) (\<lambda>w.
                         and_then (write_occupancy_mask occupied w) (\<lambda>w.
                           and_then (write_bits (drop_bit 2 (color_mask palette)) 7 w) (\<lambda>w.
                             and_then
                               (try_fold (\<lambda>(w, remaining) code.
                                    let positions = relative_positions codes remaining code
                                    in and_then (combination_count (length remaining) 4) (\<lambda>choices.
                                         and_then (combination_rank positions) (\<lambda>rank.
                                           and_then (bits_for_big_choices choices) (\<lambda>width.
                                             and_then (write_big_bits rank width w) (\<lambda>w.
                                               Ok (w, remove_relative_positions remaining positions))))))
                                  (w, map fst (filter (\<lambda>(index, code). code \<noteq> 0) (enumerate 0 codes)))
                                  (take (length palette - 1) palette))
                               (\<lambda>(w, _). Ok (Some w)))))))"

section \<open>The choice of the encoding\<close>

definition append_shortest :: "BitWriter list \<Rightarrow> BitWriter \<Rightarrow> codec_fault + BitWriter" where
  "append_shortest candidates w =
     (case candidates of [] \<Rightarrow> Err Panic
      | c # cs \<Rightarrow>
          Ok (append_writer
                (foldl (\<lambda>shortest c. if bw_bit_len c < bw_bit_len shortest then c else shortest) c cs) w))"

definition write_best_cell_encoding ::
  "u8 list \<Rightarrow> u8 list option \<Rightarrow> nat \<Rightarrow> bool \<Rightarrow> BitWriter \<Rightarrow> codec_fault + BitWriter" where
  "write_best_cell_encoding codes previous mode_width include_multiset w =
     and_then (palette_encoding codes mode_width) (\<lambda>c0.
     and_then (run_length_encoding codes mode_width) (\<lambda>c1.
     and_then (occupancy_encoding codes mode_width) (\<lambda>c2.
     and_then
       (case previous of None \<Rightarrow> Ok []
        | Some previous \<Rightarrow>
            and_then (delta_encoding codes previous mode_width) (\<lambda>d0.
              if mode_width \<ge> 4
              then and_then (change_mask_encoding codes previous mode_width) (\<lambda>d1.
                   and_then (delta_run_encoding codes previous mode_width) (\<lambda>d2.
                   and_then (single_color_delta_encoding codes previous mode_width) (\<lambda>d3.
                   and_then (combinatorial_delta_encoding codes previous mode_width) (\<lambda>d4.
                     Ok ([d0, d1, d2] @ (case d3 of None \<Rightarrow> [] | Some d3 \<Rightarrow> [d3]) @ [d4])))))
              else Ok [d0]))
       (\<lambda>deltas.
     and_then
       (if include_multiset
        then and_then (if list_all (\<lambda>code. code = 0) codes
                       then and_then (single_mode_encoding 7 mode_width) (\<lambda>m. Ok [m]) else Ok []) (\<lambda>m0.
             and_then (if (case previous of None \<Rightarrow> False | Some prior \<Rightarrow> arrays_equal_fitted codes prior)
                       then and_then (single_mode_encoding 6 mode_width) (\<lambda>m. Ok [m]) else Ok []) (\<lambda>m1.
             and_then (multiset_encoding codes mode_width) (\<lambda>m2.
             and_then (tetromino_color_encoding codes mode_width) (\<lambda>m3.
               Ok (m0 @ m1 @ [m2] @ (case m3 of None \<Rightarrow> [] | Some m3 \<Rightarrow> [m3]))))))
        else Ok [])
       (\<lambda>multisets. append_shortest ([c0, c1, c2] @ deltas @ multisets) w)))))"

definition write_best_predicted_cell_encoding ::
  "u8 list \<Rightarrow> u8 list \<Rightarrow> nat \<Rightarrow> BitWriter \<Rightarrow> codec_fault + BitWriter" where
  "write_best_predicted_cell_encoding codes predictor mode_width w =
     and_then (delta_encoding codes predictor mode_width) (\<lambda>d0.
     and_then (change_mask_encoding codes predictor mode_width) (\<lambda>d1.
     and_then (delta_run_encoding codes predictor mode_width) (\<lambda>d2.
     and_then (combinatorial_delta_encoding codes predictor mode_width) (\<lambda>d3.
     and_then (if codes = predictor
               then and_then (single_mode_encoding 6 mode_width) (\<lambda>m. Ok [m]) else Ok []) (\<lambda>same.
     and_then (single_color_delta_encoding codes predictor mode_width) (\<lambda>single.
       append_shortest ([d0, d1, d2, d3] @ same @ (case single of None \<Rightarrow> [] | Some c \<Rightarrow> [c])) w))))))"

section \<open>Readers\<close>

definition read_palette_cells :: "nat \<Rightarrow> BitReader \<Rightarrow> codec_fault + u8 list \<times> BitReader" where
  "read_palette_cells cell_count r =
     and_then (read_bits 9 r) (\<lambda>(m, r).
       let palette = palette_from_mask m 0
       in if palette = [] then Err (Fault (InvalidPayload ''palette is empty''))
          else read_n cell_count
                 (read_palette_code palette (bits_for_choices (length palette)) ''palette index is invalid'') r)"

definition read_run_cells :: "nat \<Rightarrow> BitReader \<Rightarrow> codec_fault + u8 list \<times> BitReader" where
  "read_run_cells cell_count r =
     and_then (read_var_uint r) (\<lambda>(run_count, r).
       if unat run_count > cell_count then Err (Fault (InvalidPayload ''color run count is invalid''))
       else and_then
              (try_fold (\<lambda>(codes, r) _.
                   and_then (read_bits 4 r) (\<lambda>(code, r).
                     and_then (assert_color_code (ucast code)) (\<lambda>_.
                       and_then (read_var_uint r) (\<lambda>(len, r).
                         if unat len + 1 > cell_count - length codes
                         then Err (Fault (InvalidPayload ''color run exceeds the field''))
                         else Ok (codes @ replicate (unat len + 1) (ucast code), r)))))
                 ([], r) [0..<unat run_count])
              (\<lambda>(codes, r).
                 if length codes \<noteq> cell_count
                 then Err (Fault (InvalidPayload ''color runs do not fill the field''))
                 else Ok (codes, r)))"

definition read_delta_cells :: "nat \<Rightarrow> u8 list option \<Rightarrow> BitReader \<Rightarrow> codec_fault + u8 list \<times> BitReader" where
  "read_delta_cells cell_count previous r =
     and_then (fitted_previous previous cell_count) (\<lambda>codes.
       and_then (read_var_uint r) (\<lambda>(change_count, r).
         if unat change_count > cell_count then Err (Fault (InvalidPayload ''delta count exceeds the field''))
         else and_then
                (try_fold (\<lambda>((codes, previous_index), r) _.
                     and_then (read_var_uint r) (\<lambda>(gap, r).
                       let index = (case previous_index of None \<Rightarrow> unat gap
                                    | Some prior \<Rightarrow> usize_saturating_add (usize_saturating_add prior (unat gap)) 1)
                       in and_then (read_bits 4 r) (\<lambda>(code, r).
                            and_then (assert_color_code (ucast code)) (\<lambda>_.
                              if index \<ge> cell_count \<or> (case previous_index of None \<Rightarrow> False | Some prior \<Rightarrow> index \<le> prior)
                              then Err (Fault (InvalidPayload ''delta cell index is invalid''))
                              else Ok ((codes[index := ucast code], Some index), r)))))
                   ((codes, None), r) [0..<unat change_count])
                (\<lambda>((codes, _), r). Ok (codes, r))))"

text \<open>The loop that reads runs of equal flags until the mask is full.\<close>

function read_mask_runs :: "nat \<Rightarrow> u8 list \<Rightarrow> u8 \<Rightarrow> BitReader \<Rightarrow> codec_fault + u8 list \<times> BitReader" where
  "read_mask_runs cell_count occupied v r =
     (if length occupied < cell_count
      then and_then (read_var_uint r) (\<lambda>(len, r).
             if unat len + 1 > cell_count - length occupied
             then Err (Fault (InvalidPayload ''occupancy run exceeds the field''))
             else read_mask_runs cell_count (occupied @ replicate (unat len + 1) v) (v XOR 1) r)
      else Ok (occupied, r))"
  by pat_completeness auto
termination
  by (relation "measure (\<lambda>(cell_count, occupied, v, r). cell_count - length occupied)") auto

declare read_mask_runs.simps [simp del]

definition read_occupancy_mask :: "nat \<Rightarrow> BitReader \<Rightarrow> codec_fault + u8 list \<times> BitReader" where
  "read_occupancy_mask cell_count r =
     and_then (read_bit r) (\<lambda>(b, r).
       if \<not> b
       then read_n cell_count (\<lambda>r. and_then (read_bit r) (\<lambda>(b, r). Ok (if b then 1 else 0, r))) r
       else if cell_count > 0
       then and_then (read_bit r) (\<lambda>(b, r). read_mask_runs cell_count [] (if b then 1 else 0) r)
       else Ok ([], r))"

definition read_change_mask_cells :: "nat \<Rightarrow> u8 list option \<Rightarrow> BitReader \<Rightarrow> codec_fault + u8 list \<times> BitReader" where
  "read_change_mask_cells cell_count previous r =
     and_then (fitted_previous previous cell_count) (\<lambda>codes.
       and_then (read_occupancy_mask cell_count r) (\<lambda>(changed, r).
         and_then (read_bits 9 r) (\<lambda>(m, r).
           let palette = palette_from_mask m 0
           in if list_ex (\<lambda>v. v \<noteq> 0) changed \<and> palette = []
              then Err (Fault (InvalidPayload ''delta palette is empty''))
              else try_fold (\<lambda>(codes, r) index.
                       if changed ! index \<noteq> 0
                       then and_then (read_palette_code palette (bits_for_choices (length palette)) ''delta palette index'' r)
                              (\<lambda>(code, r). Ok (codes[index := code], r))
                       else Ok (codes, r))
                     (codes, r) [0..<cell_count])))"

definition read_delta_run_cells :: "nat \<Rightarrow> u8 list option \<Rightarrow> BitReader \<Rightarrow> codec_fault + u8 list \<times> BitReader" where
  "read_delta_run_cells cell_count previous r =
     and_then (fitted_previous previous cell_count) (\<lambda>codes.
       and_then (read_bits 9 r) (\<lambda>(m, r).
         let palette = palette_from_mask m 0
         in and_then (read_var_uint r) (\<lambda>(run_count, r).
              if unat run_count > cell_count then Err (Fault (InvalidPayload ''delta run count is invalid''))
              else and_then
                     (try_fold (\<lambda>((runs, previous_end, change_count), r) _.
                          and_then (read_var_uint r) (\<lambda>(offset, r).
                            and_then (ok_or (Fault IntegerOverflow) (usize_checked_add previous_end (unat offset))) (\<lambda>start.
                              and_then (read_var_uint r) (\<lambda>(len, r).
                                if start < previous_end \<or> start > cell_count \<or> unat len + 1 > cell_count - start
                                then Err (Fault (InvalidPayload ''delta run is invalid''))
                                else Ok ((runs @ [(start, unat len + 1)], start + (unat len + 1),
                                          change_count + (unat len + 1)), r)))))
                        (([], 0, 0), r) [0..<unat run_count])
                     (\<lambda>((runs, _, change_count), r).
                        if change_count > 0 \<and> palette = []
                        then Err (Fault (InvalidPayload ''delta palette is empty''))
                        else try_fold (\<lambda>(codes, r) (start, len).
                                 try_fold (\<lambda>(codes, r) offset.
                                     and_then (read_palette_code palette (bits_for_choices (length palette)) ''delta palette index'' r)
                                       (\<lambda>(code, r). Ok (codes[start + offset := code], r)))
                                   (codes, r) [0..<len])
                               (codes, r) runs))))"

definition read_single_color_cells :: "nat \<Rightarrow> u8 list option \<Rightarrow> BitReader \<Rightarrow> codec_fault + u8 list \<times> BitReader" where
  "read_single_color_cells cell_count previous r =
     and_then (fitted_previous previous cell_count) (\<lambda>codes.
       and_then (read_bits 4 r) (\<lambda>(code, r).
         and_then (assert_color_code (ucast code)) (\<lambda>_.
           and_then (read_occupancy_mask cell_count r) (\<lambda>(changed, r).
             Ok (map (\<lambda>(old, c). if c \<noteq> 0 then ucast code else old) (zip codes changed)
                   @ drop (length changed) codes, r)))))"

text \<open>The rank of a combination is checked against the number of combinations before it is undone.\<close>

definition read_positions :: "nat \<Rightarrow> nat \<Rightarrow> string \<Rightarrow> BitReader \<Rightarrow> codec_fault + nat list \<times> BitReader" where
  "read_positions available count' msg r =
     and_then (combination_count available count') (\<lambda>choices.
       and_then (bits_for_big_choices choices) (\<lambda>width.
         and_then (read_big_bits width r) (\<lambda>(rank, r).
           if big_cmp rank choices \<noteq> Less then Err (Fault (InvalidPayload msg))
           else and_then (combination_unrank available count' rank) (\<lambda>positions.
                  and_then (ok_or (Fault (InvalidPayload msg)) positions) (\<lambda>positions. Ok (positions, r))))))"

definition read_combinatorial_cells :: "nat \<Rightarrow> u8 list option \<Rightarrow> BitReader \<Rightarrow> codec_fault + u8 list \<times> BitReader" where
  "read_combinatorial_cells cell_count previous r =
     and_then (fitted_previous previous cell_count) (\<lambda>codes.
       and_then (read_var_uint r) (\<lambda>(n, r).
         if unat n > cell_count then Err (Fault (InvalidPayload ''delta count exceeds the field''))
         else and_then (read_positions cell_count (unat n) ''delta rank is invalid'' r) (\<lambda>(positions, r).
                and_then (read_bits 9 r) (\<lambda>(m, r).
                  let palette = palette_from_mask m 0
                  in if unat n > 0 \<and> palette = []
                     then Err (Fault (InvalidPayload ''delta palette is empty''))
                     else try_fold (\<lambda>(codes, r) position.
                              and_then (read_palette_code palette (bits_for_choices (length palette)) ''delta palette index'' r)
                                (\<lambda>(code, r). Ok (codes[position := code], r)))
                            (codes, r) positions))))"

definition read_occupancy_cells :: "nat \<Rightarrow> BitReader \<Rightarrow> codec_fault + u8 list \<times> BitReader" where
  "read_occupancy_cells cell_count r =
     and_then (read_occupancy_mask cell_count r) (\<lambda>(occupied, r).
       and_then (read_bits 8 r) (\<lambda>(m, r).
         let palette = palette_from_mask (push_bit 1 m) 1
         in if list_ex (\<lambda>v. v \<noteq> 0) occupied \<and> palette = []
            then Err (Fault (InvalidPayload ''occupied color palette is empty''))
            else try_fold (\<lambda>(codes, r) v.
                     if v = 0 then Ok (codes @ [0], r)
                     else and_then (read_palette_code palette (bits_for_choices (length palette)) ''occupied color index'' r)
                            (\<lambda>(code, r). Ok (codes @ [code], r)))
                   ([], r) occupied))"

text \<open>Colouring the chosen ones of the cells still open, and the last colour for the cells left.\<close>

definition color_positions :: "u8 \<Rightarrow> nat list \<Rightarrow> nat list \<Rightarrow> u8 list \<Rightarrow> u8 list" where
  "color_positions code remaining positions codes =
     foldl (\<lambda>codes position. codes[remaining ! position := code]) codes positions"

definition read_multiset_encoding :: "nat \<Rightarrow> BitReader \<Rightarrow> codec_fault + u8 list \<times> BitReader" where
  "read_multiset_encoding cell_count r =
     and_then (read_bits 9 r) (\<lambda>(m, r).
       let palette = palette_from_mask m 0
       in if palette = [] then Err (Fault (InvalidPayload ''multiset palette is empty''))
          else and_then
                 (try_fold (\<lambda>((codes, remaining), r) code.
                      and_then (read_var_uint r) (\<lambda>(n, r).
                        if unat n > length remaining
                        then Err (Fault (InvalidPayload ''multiset count exceeds the field''))
                        else and_then (read_positions (length remaining) (unat n) ''multiset rank is invalid'' r)
                               (\<lambda>(positions, r).
                                  Ok ((color_positions code remaining positions codes,
                                       remove_relative_positions remaining positions), r))))
                    ((replicate cell_count 255, [0..<cell_count]), r) (take (length palette - 1) palette))
                 (\<lambda>((codes, remaining), r).
                    Ok (foldl (\<lambda>codes index. codes[index := last palette]) codes remaining, r)))"

definition read_tetromino_color_encoding :: "nat \<Rightarrow> BitReader \<Rightarrow> codec_fault + u8 list \<times> BitReader" where
  "read_tetromino_color_encoding cell_count r =
     and_then (read_occupancy_mask cell_count r) (\<lambda>(occupied, r).
       and_then (read_bits 7 r) (\<lambda>(m, r).
         let palette = palette_from_mask (push_bit 2 m) 2;
             occupied_count = length (filter (\<lambda>v. v \<noteq> 0) occupied)
         in if palette = [] \<or> occupied_count \<noteq> length palette * 4
            then Err (Fault (InvalidPayload ''tetromino color field is invalid''))
            else and_then
                   (try_fold (\<lambda>((codes, remaining), r) code.
                        and_then (read_positions (length remaining) 4 ''tetromino color rank is invalid'' r)
                          (\<lambda>(positions, r).
                             Ok ((color_positions code remaining positions codes,
                                  remove_relative_positions remaining positions), r)))
                      ((replicate cell_count 0, map fst (filter (\<lambda>(_, v). v \<noteq> 0) (enumerate 0 occupied))), r)
                      (take (length palette - 1) palette))
                   (\<lambda>((codes, remaining), r).
                      Ok (foldl (\<lambda>codes index. codes[index := last palette]) codes remaining, r))))"

definition read_cell_encoding ::
  "nat \<Rightarrow> u8 list option \<Rightarrow> nat \<Rightarrow> BitReader \<Rightarrow> codec_fault + u8 list \<times> BitReader" where
  "read_cell_encoding cell_count previous mode_width r =
     and_then (read_bits mode_width r) (\<lambda>(mode, r).
       if mode = 0 then read_palette_cells cell_count r
       else if mode = 1 then read_run_cells cell_count r
       else if mode = 2 then read_delta_cells cell_count previous r
       else if mode = 4 \<and> mode_width \<ge> 3 then read_multiset_encoding cell_count r
       else if mode = 5 \<and> mode_width \<ge> 3 then read_tetromino_color_encoding cell_count r
       else if mode = 6 \<and> mode_width \<ge> 3
       then and_then (fitted_previous previous cell_count) (\<lambda>codes. Ok (codes, r))
       else if mode = 7 \<and> mode_width \<ge> 3 then Ok (replicate cell_count 0, r)
       else if mode = 8 \<and> mode_width \<ge> 4 then read_change_mask_cells cell_count previous r
       else if mode = 9 \<and> mode_width \<ge> 4 then read_delta_run_cells cell_count previous r
       else if mode = 10 \<and> mode_width \<ge> 4 then read_single_color_cells cell_count previous r
       else if mode = 11 \<and> mode_width \<ge> 4 then read_combinatorial_cells cell_count previous r
       else if mode \<noteq> 3 then Err (Fault (InvalidPayload ''field encoding mode is invalid''))
       else read_occupancy_cells cell_count r)"

section \<open>Palettes and widths\<close>

definition valid_codes :: "u8 list \<Rightarrow> bool" where
  "valid_codes codes \<longleftrightarrow> (\<forall>c\<in>set codes. c \<le> 8)"

definition palette_of :: "(u8 \<Rightarrow> bool) \<Rightarrow> nat \<Rightarrow> u8 list" where
  "palette_of P m = map word_of_nat (filter (\<lambda>k. P (word_of_nat k)) [m..<9])"

lemma code_less_9: "c \<le> 8 \<longleftrightarrow> unat c < 9" for c :: u8
  by (auto simp: word_le_nat_alt)

lemma unat_small_u8: "k < 9 \<Longrightarrow> unat (word_of_nat k :: u8) = k"
  by (intro unat_word_of_nat) simp

lemma set_palette_of: "set (palette_of P m) = {c. P c \<and> m \<le> unat c \<and> unat c < 9}"
proof -
  have "c \<in> word_of_nat ` {k. k \<in> {m..<9} \<and> P (word_of_nat k)} \<longleftrightarrow> P c \<and> m \<le> unat c \<and> unat c < 9" for c :: u8
  proof
    assume "P c \<and> m \<le> unat c \<and> unat c < 9"
    then show "c \<in> word_of_nat ` {k. k \<in> {m..<9} \<and> P (word_of_nat k)}"
      by (intro image_eqI [of _ _ "unat c"]) simp_all
  qed (auto simp: unat_small_u8)
  then show ?thesis by (auto simp: palette_of_def)
qed

lemma length_palette_of: "length (palette_of P m) \<le> 9"
  using length_filter_le [of "\<lambda>k. P (word_of_nat k)" "[m..<9]"] by (simp add: palette_of_def)

lemma unique_codes_loop:
  assumes "valid_codes codes" "length p = 9"
  shows "\<exists>p'. try_fold (\<lambda>present code. if unat code < 9 then Ok (present[unat code := True]) else Err Panic) p codes
      = (Ok p' :: codec_fault + bool list) \<and> (\<forall>k<9. p' ! k \<longleftrightarrow> p ! k \<or> word_of_nat k \<in> set codes)"
  using assms
proof (induction codes arbitrary: p)
  case (Cons c codes)
  have c: "unat c < 9" using Cons.prems(1) by (simp add: valid_codes_def code_less_9)
  obtain p' where p': "try_fold (\<lambda>present code. if unat code < 9 then Ok (present[unat code := True]) else Err Panic)
      (p[unat c := True]) codes = (Ok p' :: codec_fault + bool list)"
    "\<forall>k<9. p' ! k \<longleftrightarrow> p[unat c := True] ! k \<or> word_of_nat k \<in> set codes"
    using Cons.IH [of "p[unat c := True]"] Cons.prems by (auto simp: valid_codes_def)
  have "word_of_nat k = c \<longleftrightarrow> k = unat c" if "k < 9" for k
    using unat_small_u8 [OF that] by auto
  then show ?case using p' c Cons.prems(2) by (auto simp: nth_list_update)
qed simp

lemma unique_codes_eq:
  assumes "valid_codes codes" shows "unique_codes codes = Ok (palette_of (\<lambda>c. c \<in> set codes) 0)"
proof -
  obtain p where p: "try_fold (\<lambda>present code. if unat code < 9 then Ok (present[unat code := True]) else Err Panic)
      (replicate 9 False) codes = (Ok p :: codec_fault + bool list)"
    "\<forall>k<9. p ! k \<longleftrightarrow> word_of_nat k \<in> set codes"
    using unique_codes_loop [OF assms, of "replicate 9 False"] by auto
  then have "filter (\<lambda>code. p ! code) [0..<9] = filter (\<lambda>k. word_of_nat k \<in> set codes) [0..<9]"
    by (intro filter_cong) auto
  then show ?thesis by (simp add: unique_codes_def p(1) palette_of_def)
qed

lemma bit_color_mask: "\<forall>c\<in>set cs. unat c < 9 \<Longrightarrow> bit (color_mask cs) k \<longleftrightarrow> (\<exists>c\<in>set cs. unat c = k)"
proof (induction cs rule: rev_induct)
  case (snoc c cs)
  then show ?case by (auto simp: color_mask_def bit_or_iff bit_exp_iff)
qed (simp add: color_mask_def)

lemma bit_color_mask_palette: "bit (color_mask (palette_of P m)) k \<longleftrightarrow> m \<le> k \<and> k < 9 \<and> P (word_of_nat k)"
  using bit_color_mask [of "palette_of P m" k] unat_small_u8 [of k]
  by (auto simp: set_palette_of intro: exI [of _ "word_of_nat k"])

lemma palette_from_mask_eq:
  "(\<And>k. m \<le> k \<Longrightarrow> k < 9 \<Longrightarrow> bit w k \<longleftrightarrow> P (word_of_nat k)) \<Longrightarrow> palette_from_mask w m = palette_of P m"
  unfolding palette_from_mask_def palette_of_def bit_iff_and_single
  by (intro arg_cong [where f = "map word_of_nat"] filter_cong) auto

lemma palette_from_color_mask: "palette_from_mask (color_mask (palette_of P 0)) 0 = palette_of P 0"
  by (rule palette_from_mask_eq) (simp add: bit_color_mask_palette)

lemma palette_from_shifted_mask:
  "palette_from_mask (push_bit j (drop_bit j (color_mask (palette_of P m)))) j = palette_of P j"
  if "m \<le> j" "j < 32"
  by (rule palette_from_mask_eq)
    (use that in \<open>auto simp: bit_color_mask_palette bit_push_bit_iff bit_drop_bit_eq\<close>)

lemma color_mask_fits: "j \<le> 9 \<Longrightarrow> unat (drop_bit j (color_mask (palette_of P m))) < 2 ^ (9 - j)"
  unfolding unat_less_exp_iff by (auto simp: bit_drop_bit_eq bit_color_mask_palette)

lemma bits_for_choices_fits:
  assumes "i < n" "n \<le> 2 ^ 64" shows "i < 2 ^ bits_for_choices n"
proof (cases "n \<le> 1")
  case False
  have "unat (word_of_nat (n - 1) :: u64) = n - 1" using assms by (intro unat_word_of_nat) simp
  moreover have "unat (word_of_nat (n - 1) :: u64) < 2 ^ bits_for_choices n"
    using False significant_bits_le_iff [of "word_of_nat (n - 1) :: u64" "bits_for_choices n"]
    by (simp add: bits_for_choices_def)
  ultimately show ?thesis using assms(1) by simp
qed (use assms in \<open>simp add: bits_for_choices_def\<close>)

lemma bits_for_choices_small: "n \<le> 9 \<Longrightarrow> bits_for_choices n \<le> 4"
proof -
  assume "n \<le> 9"
  then have "unat (word_of_nat (n - 1) :: u64) < 2 ^ 4"
    by (subst unat_word_of_nat) simp_all
  then have "64 - leading_zeros (word_of_nat (n - 1) :: u64) \<le> 4"
    using significant_bits_le_iff [of "word_of_nat (n - 1) :: u64" 4] by simp
  then show ?thesis unfolding bits_for_choices_def by (cases "n \<le> 1") (simp_all only: if_True if_False)
qed

definition palette_bits :: "u8 list \<Rightarrow> u8 \<Rightarrow> bool list" where
  "palette_bits palette code = nat_bits (bits_for_choices (length palette)) (the (position_of code palette))"

lemma palette_index_codec:
  assumes "c \<in> set palette" "length palette \<le> 9"
  shows "writes (write_palette_index palette c) (palette_bits palette c)"
    "parses (read_palette_code palette (bits_for_choices (length palette)) msg) (palette_bits palette c) c"
proof -
  obtain i where i: "position_of c palette = Some i" "i < length palette" "palette ! i = c"
    using position_of_Some [OF assms(1)] .
  have fits: "i < 2 ^ bits_for_choices (length palette)"
    using i(2) assms(2) by (intro bits_for_choices_fits) simp_all
  have w: "bits_for_choices (length palette) \<le> 32" using bits_for_choices_small [OF assms(2)] by simp
  have u: "unat (word_of_nat i :: u32) = i" using i(2) assms(2) by (intro unat_word_of_nat) simp
  show "writes (write_palette_index palette c) (palette_bits palette c)"
    using writes_bits [OF w, of "word_of_nat i"] fits u i(1)
    by (simp add: write_palette_index_def [abs_def] palette_bits_def)
  have "parses (\<lambda>r. and_then (read_bits (bits_for_choices (length palette)) r)
      (\<lambda>(index, r). and_then (ok_or (Fault (InvalidPayload msg)) (nth_opt palette (unat index))) (\<lambda>code. Ok (code, r))))
      (palette_bits palette c @ []) c"
    unfolding palette_bits_def i(1) option.sel
    by (rule parses_bind [OF parses_bits_nat [OF w fits]]) (use u i in \<open>simp add: nth_opt_def parses_return\<close>)
  then show "parses (read_palette_code palette (bits_for_choices (length palette)) msg) (palette_bits palette c) c"
    by (simp add: read_palette_code_def [abs_def])
qed

lemma unat_u32: "n < 2 ^ 32 \<Longrightarrow> unat (word_of_nat n :: u32) = n"
  by (rule unat_word_of_nat) simp

lemma bits_for_big_choices_fits:
  obtains width where "bits_for_big_choices (big n) = Ok width" "\<And>i. i < n \<Longrightarrow> i < 2 ^ width"
proof (cases "n \<le> 1")
  case True
  then show ?thesis using that [of 0] by (auto simp: bits_for_big_choices_def big_simps compare_cases)
next
  case False
  have "n - 1 < 2 ^ big_bit_len (big (n - 1))" using big_bit_len_big [of "n - 1" "big_bit_len (big (n - 1))"] by simp
  then show ?thesis
    using that [of "big_bit_len (big (n - 1))"] False
    by (auto simp: bits_for_big_choices_def big_simps compare_cases)
qed

lemma positions_codec:
  assumes "combination n k ps" "n < 2 ^ 32"
  shows "\<exists>bs. writes (write_positions n ps) bs \<and> parses (read_positions n k msg) bs ps"
proof -
  have k: "length ps = k" and small: "\<forall>p\<in>set ps. p < 2 ^ 32"
    using assms by (auto simp: combination_def)
  have r: "rank_of ps < n choose k" by (rule rank_of_less [OF assms(1)])
  obtain width where width: "bits_for_big_choices (big (n choose k)) = Ok width"
    "\<And>i. i < n choose k \<Longrightarrow> i < 2 ^ width"
    using bits_for_big_choices_fits [of "n choose k"] by blast
  have "writes (write_positions n ps) (nat_bits width (rank_of ps))"
    using writes_big_bits [OF width(2) [OF r]]
    by (simp add: write_positions_def [abs_def] k combination_count_big [OF assms(2)]
        combination_rank_big [OF small] width(1))
  moreover have "parses (\<lambda>r. and_then (read_big_bits width r) (\<lambda>(rank, r).
      if big_cmp rank (big (n choose k)) \<noteq> Less then Err (Fault (InvalidPayload msg))
      else and_then (combination_unrank n k rank) (\<lambda>positions.
             and_then (ok_or (Fault (InvalidPayload msg)) positions) (\<lambda>positions. Ok (positions, r)))))
      (nat_bits width (rank_of ps) @ []) ps"
    by (rule parses_bind [OF parses_big_bits [OF width(2) [OF r]]])
      (use r in \<open>simp add: big_simps compare_cases combination_unrank_rank [OF assms] parses_return\<close>)
  then have "parses (read_positions n k msg) (nat_bits width (rank_of ps)) ps"
    by (simp add: read_positions_def [abs_def] combination_count_big [OF assms(2)] width(1))
  ultimately show ?thesis by blast
qed

section \<open>Masks\<close>

text \<open>The lengths of the runs of a list, with \<open>c\<close> cells of value \<open>x\<close> before it.\<close>

primrec runs_from :: "nat \<Rightarrow> 'a \<Rightarrow> 'a list \<Rightarrow> nat list" where
  "runs_from c x [] = [c]"
| "runs_from c x (y # ys) = (if y = x then runs_from (c + 1) y ys else c # runs_from 1 y ys)"

definition run_bits :: "nat list \<Rightarrow> bool list" where
  "run_bits lens = concat (map (\<lambda>n. var_bits (n - 1)) lens)"

lemma run_bits_Cons [simp]: "run_bits (n # lens) = var_bits (n - 1) @ run_bits lens"
  by (simp add: run_bits_def)

lemma run_bits_Nil [simp]: "run_bits [] = []"
  by (simp add: run_bits_def)

definition mask_step :: "u8 list \<Rightarrow> BitWriter \<times> nat \<Rightarrow> nat \<Rightarrow> codec_fault + BitWriter \<times> nat" where
  "mask_step occupied = (\<lambda>(runs, run_length) index.
     if index < length occupied \<and> occupied ! index = occupied ! (index - 1)
     then Ok (runs, run_length + 1)
     else and_then (write_var_uint (word_of_nat (run_length - 1)) runs) (\<lambda>runs. Ok (runs, 1)))"

lemma mask_step_loop:
  assumes "drop i occupied = suf" "0 < i" "i \<le> length occupied" "occupied ! (i - 1) = x"
    "wf_writer w" "c + length suf \<le> 2 ^ 32"
  shows "\<exists>w' c'. try_fold (mask_step occupied) (w, c) [i..<length occupied + 1] = Ok (w', c')
    \<and> wf_writer w' \<and> writer_bits w' = writer_bits w @ run_bits (runs_from c x suf)"
  using assms
proof (induction suf arbitrary: i c x w)
  case Nil
  then have i: "i = length occupied" by simp
  have "c - 1 < 2 ^ 32" using Nil.prems(6) by simp
  then obtain w' where "write_var_uint (word_of_nat (c - 1)) w = Ok w'" "wf_writer w'"
    "writer_bits w' = writer_bits w @ var_bits (c - 1)"
    using writes_var_uint Nil.prems(5) unfolding writes_def by blast
  then show ?case using i by (simp add: mask_step_def)
next
  case (Cons y ys)
  have i: "i < length occupied" using Cons.prems(1) by (metis drop_all leI list.distinct(1))
  have y: "occupied ! i = y" "drop (Suc i) occupied = ys"
    using Cons.prems(1) i by (metis Cons_nth_drop_Suc list.inject)+
  have upt: "[i..<length occupied + 1] = i # [Suc i..<length occupied + 1]"
    using i by (simp add: upt_conv_Cons)
  show ?case
  proof (cases "y = x")
    case True
    obtain w' c' where "try_fold (mask_step occupied) (w, c + 1) [Suc i..<length occupied + 1] = Ok (w', c')"
      "wf_writer w'" "writer_bits w' = writer_bits w @ run_bits (runs_from (c + 1) y ys)"
      using Cons.IH [of "Suc i" y w "c + 1"] Cons.prems y i by auto
    moreover have "mask_step occupied (w, c) i = Ok (w, c + 1)"
      using True y i Cons.prems(4) by (simp add: mask_step_def)
    ultimately show ?thesis using True unfolding upt by simp
  next
    case False
    have "c - 1 < 2 ^ 32" using Cons.prems(6) by simp
    then obtain w1 where w1: "write_var_uint (word_of_nat (c - 1)) w = Ok w1" "wf_writer w1"
      "writer_bits w1 = writer_bits w @ var_bits (c - 1)"
      using writes_var_uint Cons.prems(5) unfolding writes_def by blast
    obtain w' c' where "try_fold (mask_step occupied) (w1, 1) [Suc i..<length occupied + 1] = Ok (w', c')"
      "wf_writer w'" "writer_bits w' = writer_bits w1 @ run_bits (runs_from 1 y ys)"
      using Cons.IH [of "Suc i" y w1 1] Cons.prems y i w1(2) by auto
    moreover have "mask_step occupied (w, c) i = Ok (w1, 1)"
      using False y Cons.prems(4) w1(1) by (simp add: mask_step_def)
    ultimately show ?thesis using False w1(3) unfolding upt by simp
  qed
qed

lemma parses_mask_runs:
  assumes "x \<in> {0, 1}" "set suf \<subseteq> {0, 1}" "1 \<le> c" "n = length acc + c + length suf" "n < 2 ^ 32"
  shows "parses (read_mask_runs n acc x) (run_bits (runs_from c x suf)) (acc @ replicate c x @ suf)"
proof -
  have step: "read_mask_runs n acc x = (\<lambda>r. and_then (read_var_uint r) (\<lambda>(len, r).
      if unat len + 1 > n - length acc then Err (Fault (InvalidPayload ''occupancy run exceeds the field''))
      else read_mask_runs n (acc @ replicate (unat len + 1) x) (x XOR 1) r))" if "length acc < n" for acc x
    using that by (intro ext, subst read_mask_runs.simps) simp
  have first: "parses (read_mask_runs n acc x) (var_bits (c - 1) @ bs) ys"
    if "parses (read_mask_runs n (acc @ replicate c x) (x XOR 1)) bs ys" "1 \<le> c" "c \<le> n - length acc"
      "length acc < n" for acc x c bs ys
  proof -
    have u: "unat (word_of_nat (c - 1) :: u32) = c - 1" using that assms(5) by (intro unat_u32) simp
    show ?thesis unfolding step [OF that(4)]
      by (rule parses_bind [OF parses_var_uint]) (use that assms(5) u in simp_all)
  qed
  show ?thesis
    using assms
  proof (induction suf arbitrary: acc c x)
    case Nil
    have "read_mask_runs n (acc @ replicate c x) (x XOR 1) = (\<lambda>r. Ok (acc @ replicate c x, r))"
      using Nil by (intro ext, subst read_mask_runs.simps) simp
    then have "parses (read_mask_runs n (acc @ replicate c x) (x XOR 1)) [] (acc @ replicate c x)"
      by (simp add: parses_return)
    then show ?case using first [of acc c x "[]"] Nil by simp
  next
    case (Cons y ys)
    show ?case
    proof (cases "y = x")
      case True
      then show ?thesis using Cons.IH [of x "c + 1" acc] Cons.prems
        by (simp add: replicate_append_same [symmetric])
    next
      case False
      then have y: "x XOR 1 = y" using Cons.prems by auto
      have "parses (read_mask_runs n (acc @ replicate c x) y) (run_bits (runs_from 1 y ys))
          ((acc @ replicate c x) @ replicate 1 y @ ys)"
        using Cons.prems by (intro Cons.IH) auto
      then show ?thesis using first [of acc c x] False y Cons.prems by simp
    qed
  qed
qed

definition mask_runs_writer :: "u8 list \<Rightarrow> codec_fault + BitWriter" where
  "mask_runs_writer occupied =
     (if occupied = [] then Ok (write_bit True bw_default)
      else and_then (try_fold (mask_step occupied)
               (write_bit (hd occupied \<noteq> 0) (write_bit True bw_default), 1) [1..<length occupied + 1])
             (\<lambda>(runs, _). Ok runs))"

definition mask_runs_bits :: "u8 list \<Rightarrow> bool list" where
  "mask_runs_bits occupied =
     True # (case occupied of [] \<Rightarrow> [] | x # xs \<Rightarrow> (x \<noteq> 0) # run_bits (runs_from 1 x xs))"

lemma mask_runs_writer_sound:
  assumes "length occupied < 2 ^ 32"
  shows "\<exists>w. mask_runs_writer occupied = Ok w \<and> wf_writer w \<and> writer_bits w = mask_runs_bits occupied"
proof (cases occupied)
  case Nil
  then show ?thesis by (simp add: mask_runs_writer_def mask_runs_bits_def write_bit_sound)
next
  case (Cons x xs)
  define w where "w = write_bit (x \<noteq> 0) (write_bit True bw_default)"
  have "wf_writer w" "writer_bits w = [True, x \<noteq> 0]" by (simp_all add: w_def write_bit_sound)
  then show ?thesis
    using mask_step_loop [of 1 occupied xs x w 1] Cons assms
    by (auto simp: mask_runs_writer_def mask_runs_bits_def w_def)
qed

lemma parses_occupancy_raw:
  assumes "set occupied \<subseteq> {0, 1}"
  shows "parses (read_occupancy_mask (length occupied)) (False # map (\<lambda>v. v \<noteq> 0) occupied) occupied"
proof -
  define p :: "BitReader \<Rightarrow> codec_fault + u8 \<times> BitReader"
    where "p = (\<lambda>r. and_then (read_bit r) (\<lambda>(b, r). Ok (if b then 1 else 0, r)))"
  have "parses p [v \<noteq> 0] v" if "v \<in> set occupied" for v
    using that assms parses_map [OF parses_bit [of False], of "\<lambda>b. if b then 1 else 0 :: u8"]
      parses_map [OF parses_bit [of True], of "\<lambda>b. if b then 1 else 0 :: u8"]
    by (auto simp: p_def)
  then have "parses (read_n (length occupied) p) (concat (map (\<lambda>v. [v \<noteq> 0]) occupied)) occupied"
    by (rule parses_n)
  moreover have "concat (map (\<lambda>v. [v \<noteq> 0]) occupied) = map (\<lambda>v. v \<noteq> 0) occupied"
    by (induction occupied) simp_all
  ultimately show ?thesis
    unfolding read_occupancy_mask_def [abs_def] p_def [symmetric]
    by (intro parses_bit_then) simp
qed

lemma parses_occupancy_runs:
  assumes "set occupied \<subseteq> {0, 1}" "length occupied < 2 ^ 32"
  shows "parses (read_occupancy_mask (length occupied)) (mask_runs_bits occupied) occupied"
proof (cases occupied)
  case Nil
  then show ?thesis
    unfolding read_occupancy_mask_def [abs_def] mask_runs_bits_def
    by (simp add: parses_bit_then parses_return)
next
  case (Cons x xs)
  have "parses (read_mask_runs (length occupied) [] x) (run_bits (runs_from 1 x xs)) ([] @ replicate 1 x @ xs)"
    using assms Cons by (intro parses_mask_runs) auto
  moreover have "(if x \<noteq> 0 then 1 else 0) = x" using assms Cons by auto
  ultimately have "parses (\<lambda>r. and_then (read_bit r) (\<lambda>(b, r).
      read_mask_runs (length occupied) [] (if b then 1 else 0) r)) ((x \<noteq> 0) # run_bits (runs_from 1 x xs)) occupied"
    by (intro parses_bit_then) (simp add: Cons)
  then show ?thesis
    unfolding read_occupancy_mask_def [abs_def] mask_runs_bits_def
    using Cons by (simp add: parses_bit_then)
qed

lemma occupancy_mask_codec:
  assumes "set occupied \<subseteq> {0, 1}" "length occupied < 2 ^ 32"
  shows "\<exists>bs. writes (write_occupancy_mask occupied) bs
    \<and> parses (read_occupancy_mask (length occupied)) bs occupied"
proof -
  define raw where "raw = foldl (\<lambda>raw v. write_bit (v \<noteq> 0) raw) (write_bit False bw_default) occupied"
  have raw: "wf_writer raw" "writer_bits raw = False # map (\<lambda>v. v \<noteq> 0) occupied"
    using write_bits_sound [of "write_bit False bw_default" "\<lambda>v. v \<noteq> 0" occupied]
    by (simp_all add: raw_def write_bit_sound)
  obtain runs where runs: "mask_runs_writer occupied = Ok runs" "wf_writer runs"
    "writer_bits runs = mask_runs_bits occupied"
    using mask_runs_writer_sound [OF assms(2)] by blast
  define best where "best = (if bw_bit_len raw \<le> bw_bit_len runs then raw else runs)"
  have "write_occupancy_mask occupied w
      = and_then (mask_runs_writer occupied)
          (\<lambda>runs. Ok (append_writer (if bw_bit_len raw \<le> bw_bit_len runs then raw else runs) w))" for w
    unfolding write_occupancy_mask_def mask_runs_writer_def mask_step_def raw_def Let_def ..
  then have "write_occupancy_mask occupied = (\<lambda>w. Ok (append_writer best w))"
    using runs(1) by (simp add: best_def fun_eq_iff)
  then have "writes (write_occupancy_mask occupied) (writer_bits best)"
    using writes_append_writer [of best] raw(1) runs(2) by (simp add: best_def)
  moreover have "parses (read_occupancy_mask (length occupied)) (writer_bits best) occupied"
    using parses_occupancy_raw [OF assms(1)] parses_occupancy_runs [OF assms] raw(2) runs(3)
    by (simp add: best_def)
  ultimately show ?thesis by blast
qed

end
