(* ===== verification/CellRoundTrips.thy ===== *)
theory CellRoundTrips
  imports CellCodecs
begin

text \<open>
  Each of the twelve encoders of \<open>clearra-ctk3/src/cell.rs\<close> writes bits from which
  \<open>read_cell_encoding\<close> restores the field, and so does the shortest of them, whatever it is.
\<close>

section \<open>Every encoder is undone by the reader\<close>

text \<open>What the reader does after the mode; an encoding \<open>restores\<close> the codes when the reader finds them.\<close>

definition read_mode :: "nat \<Rightarrow> u8 list option \<Rightarrow> nat \<Rightarrow> u32 \<Rightarrow> BitReader \<Rightarrow> codec_fault + u8 list \<times> BitReader" where
  "read_mode n previous mode_width mode r =
     (if mode = 0 then read_palette_cells n r
      else if mode = 1 then read_run_cells n r
      else if mode = 2 then read_delta_cells n previous r
      else if mode = 4 \<and> mode_width \<ge> 3 then read_multiset_encoding n r
      else if mode = 5 \<and> mode_width \<ge> 3 then read_tetromino_color_encoding n r
      else if mode = 6 \<and> mode_width \<ge> 3 then and_then (fitted_previous previous n) (\<lambda>codes. Ok (codes, r))
      else if mode = 7 \<and> mode_width \<ge> 3 then Ok (replicate n 0, r)
      else if mode = 8 \<and> mode_width \<ge> 4 then read_change_mask_cells n previous r
      else if mode = 9 \<and> mode_width \<ge> 4 then read_delta_run_cells n previous r
      else if mode = 10 \<and> mode_width \<ge> 4 then read_single_color_cells n previous r
      else if mode = 11 \<and> mode_width \<ge> 4 then read_combinatorial_cells n previous r
      else if mode \<noteq> 3 then Err (Fault (InvalidPayload ''field encoding mode is invalid''))
      else read_occupancy_cells n r)"

lemma read_cell_encoding_mode:
  "read_cell_encoding n previous mode_width =
     (\<lambda>r. and_then (read_bits mode_width r) (\<lambda>(mode, r). read_mode n previous mode_width mode r))"
  by (rule ext) (simp add: read_cell_encoding_def read_mode_def)

definition restores :: "nat \<Rightarrow> u8 list option \<Rightarrow> nat \<Rightarrow> u8 list \<Rightarrow> codec_fault + BitWriter \<Rightarrow> bool" where
  "restores n previous mode_width codes f \<longleftrightarrow>
     (\<exists>w. f = Ok w \<and> wf_writer w \<and> parses (read_cell_encoding n previous mode_width) (writer_bits w) codes)"

lemma restoresI:
  assumes "writes f bs" "parses (read_mode n previous mode_width m) bs codes"
    "mode_width \<le> 32" "unat m < 2 ^ mode_width"
  shows "restores n previous mode_width codes (and_then (write_bits m mode_width bw_default) f)"
proof -
  have "writes (\<lambda>w. and_then (write_bits m mode_width w) f) (nat_bits mode_width (unat m) @ bs)"
    by (rule writes_then [OF writes_bits assms(1)]) (use assms in auto)
  then obtain w where "and_then (write_bits m mode_width bw_default) f = Ok w" "wf_writer w"
    "writer_bits w = nat_bits mode_width (unat m) @ bs"
    by (force simp: writes_def)
  moreover have "parses (read_cell_encoding n previous mode_width) (nat_bits mode_width (unat m) @ bs) codes"
    unfolding read_cell_encoding_mode
    by (rule parses_bind [OF parses_bits_word]) (use assms in auto)
  ultimately show ?thesis by (auto simp: restores_def)
qed

lemma small_mode:
  "2 \<le> k \<Longrightarrow> m < 4 \<Longrightarrow> m < (2 :: nat) ^ k" "3 \<le> k \<Longrightarrow> m < 8 \<Longrightarrow> m < (2 :: nat) ^ k"
  "4 \<le> k \<Longrightarrow> m < 16 \<Longrightarrow> m < (2 :: nat) ^ k"
  using power_increasing [of 2 k "2 :: nat"] power_increasing [of 3 k "2 :: nat"]
    power_increasing [of 4 k "2 :: nat"] by simp_all

lemma writes_color_mask:
  "j \<le> 9 \<Longrightarrow> writes (write_bits (drop_bit j (color_mask (palette_of P m))) (9 - j))
     (nat_bits (9 - j) (unat (drop_bit j (color_mask (palette_of P m)))))"
  by (intro writes_bits color_mask_fits) simp_all

lemma parses_color_mask:
  "j \<le> 9 \<Longrightarrow> parses (read_bits (9 - j)) (nat_bits (9 - j) (unat (drop_bit j (color_mask (palette_of P m)))))
     (drop_bit j (color_mask (palette_of P m)))"
  by (intro parses_bits_word color_mask_fits) simp_all

lemmas writes_color_mask_9 = writes_color_mask [of 0, simplified]
lemmas parses_color_mask_9 = parses_color_mask [of 0, simplified]

lemma palette_of_set: "valid_codes cs \<Longrightarrow> set (palette_of (\<lambda>c. c \<in> set cs) 0) = set cs"
  by (auto simp: set_palette_of valid_codes_def code_less_9)

lemma palette_of_empty_iff: "valid_codes cs \<Longrightarrow> palette_of (\<lambda>c. c \<in> set cs) 0 = [] \<longleftrightarrow> cs = []"
  using palette_of_set [of cs] by (metis set_empty)

lemma palette_of_zero: "palette_of (\<lambda>c. c = 0) 0 = [0]"
  by code_simp

definition palette_ok :: "u8 list \<Rightarrow> bool" where
  "palette_ok palette \<longleftrightarrow> (\<exists>P. palette = palette_of P 0)"

lemma palette_okD:
  assumes "palette_ok palette"
  shows "writes (write_bits (color_mask palette) 9) (nat_bits 9 (unat (color_mask palette)))"
    "parses (read_bits 9) (nat_bits 9 (unat (color_mask palette))) (color_mask palette)"
    "length palette \<le> 9" "palette_from_mask (color_mask palette) 0 = palette"
  using assms writes_color_mask_9 parses_color_mask_9 length_palette_of palette_from_color_mask
  by (auto simp: palette_ok_def)

text \<open>The colours of a field are written as a mask and then cell by cell.\<close>

lemma parses_palette_cells:
  assumes "set codes \<subseteq> set (palette_of P 0)" "palette_of P 0 \<noteq> []"
  shows "parses (read_palette_cells (length codes))
    (nat_bits 9 (unat (color_mask (palette_of P 0))) @ concat (map (palette_bits (palette_of P 0)) codes)) codes"
  unfolding read_palette_cells_def [abs_def]
  by (rule parses_bind [OF parses_color_mask_9])
    (use assms palette_index_codec(2) length_palette_of
      in \<open>auto simp: palette_from_color_mask Let_def intro!: parses_n\<close>)

lemma field_palette:
  assumes "valid_codes codes"
  obtains P where
    "(if palette_of (\<lambda>c. c \<in> set codes) 0 = [] then [0] else palette_of (\<lambda>c. c \<in> set codes) 0) = palette_of P 0"
    "palette_of P 0 \<noteq> []" "set codes \<subseteq> set (palette_of P 0)"
proof (rule that)
  define P where "P = (if codes = [] then (\<lambda>c :: u8. c = 0) else (\<lambda>c. c \<in> set codes))"
  show "(if palette_of (\<lambda>c. c \<in> set codes) 0 = [] then [0] else palette_of (\<lambda>c. c \<in> set codes) 0) = palette_of P 0"
    "palette_of P 0 \<noteq> []"
    using palette_of_empty_iff [OF assms] by (simp_all add: P_def palette_of_zero)
  show "set codes \<subseteq> set (palette_of P 0)"
    using assms by (auto simp: P_def set_palette_of valid_codes_def code_less_9)
qed

lemma palette_writes:
  assumes "set codes \<subseteq> set (palette_of P 0)"
  shows "writes (\<lambda>w. and_then (write_bits (color_mask (palette_of P 0)) 9 w)
      (\<lambda>w. try_fold (\<lambda>w code. write_palette_index (palette_of P 0) code w) w codes))
      (nat_bits 9 (unat (color_mask (palette_of P 0))) @ concat (map (palette_bits (palette_of P 0)) codes))"
  using assms by (intro writes_then writes_color_mask_9 writes_try_fold palette_index_codec(1) length_palette_of) auto

lemma palette_encoding_restores:
  assumes "valid_codes codes" "2 \<le> mode_width" "mode_width \<le> 32"
  shows "restores (length codes) previous mode_width codes (palette_encoding codes mode_width)"
proof -
  obtain P where P: "(if palette_of (\<lambda>c. c \<in> set codes) 0 = [] then [0] else palette_of (\<lambda>c. c \<in> set codes) 0) = palette_of P 0"
    "palette_of P 0 \<noteq> []" "set codes \<subseteq> set (palette_of P 0)"
    using field_palette [OF assms(1)] .
  show ?thesis
    unfolding palette_encoding_def unique_codes_eq [OF assms(1)] and_then_simps Let_def P(1)
    by (rule restoresI [OF palette_writes [OF P(3)]])
      (use assms parses_palette_cells [OF P(3,2)] in \<open>simp_all add: read_mode_def [abs_def]\<close>)
qed

text \<open>A colour index takes at most four bits, so the palette encoding bounds the shortest one.\<close>

lemma bits_for_choices_palette: "n \<le> 9 \<Longrightarrow> bits_for_choices n \<le> 4"
proof -
  have "list_all (\<lambda>n. bits_for_choices n \<le> 4) [0..<10]" by code_simp
  then show "n \<le> 9 \<Longrightarrow> bits_for_choices n \<le> 4" by (auto simp: list_all_iff)
qed

lemma writes_from_default:
  assumes "writes f bs" "f bw_default = Ok w" shows "writer_bits w = bs"
proof -
  have "\<exists>w'. f bw_default = Ok w' \<and> wf_writer w' \<and> writer_bits w' = writer_bits bw_default @ bs"
    using assms(1) wf_writer_default unfolding writes_def by blast
  then show ?thesis using assms(2) by auto
qed

lemma palette_encoding_size:
  assumes "valid_codes codes" "mode_width \<le> 32" "palette_encoding codes mode_width = Ok w"
  shows "bw_bit_len w \<le> mode_width + 9 + 4 * length codes"
proof -
  obtain P where P: "(if palette_of (\<lambda>c. c \<in> set codes) 0 = [] then [0] else palette_of (\<lambda>c. c \<in> set codes) 0) = palette_of P 0"
    "palette_of P 0 \<noteq> []" "set codes \<subseteq> set (palette_of P 0)"
    using field_palette [OF assms(1)] .
  define palette where "palette = palette_of P 0"
  have "writes (\<lambda>w. and_then (write_bits 0 mode_width w) (\<lambda>w. and_then (write_bits (color_mask palette) 9 w)
      (\<lambda>w. try_fold (\<lambda>w code. write_palette_index palette code w) w codes)))
      (nat_bits mode_width (unat (0 :: u32)) @ nat_bits 9 (unat (color_mask palette)) @ concat (map (palette_bits palette) codes))"
    unfolding palette_def by (intro writes_then [OF writes_bits palette_writes [OF P(3)]]) (use assms(2) in auto)
  from writes_from_default [OF this]
  have "writer_bits w = nat_bits mode_width 0 @ nat_bits 9 (unat (color_mask palette)) @ concat (map (palette_bits palette) codes)"
    using assms(3) unfolding palette_encoding_def unique_codes_eq [OF assms(1)] and_then_simps Let_def P(1) palette_def [symmetric]
    by simp
  then have "bw_bit_len w = mode_width + 9 + length codes * bits_for_choices (length palette)"
    unfolding length_writer_bits [symmetric]
    by (simp add: length_concat comp_def palette_bits_def sum_list_triv del: length_writer_bits)
  then show ?thesis
    using bits_for_choices_palette [OF length_palette_of, of P 0] by (simp add: palette_def mult.commute mult_le_mono)
qed

subsection \<open>Colour runs\<close>

definition expand_runs :: "(u8 \<times> nat) list \<Rightarrow> u8 list" where
  "expand_runs runs = concat (map (\<lambda>(code, len). replicate len code) runs)"

lemma expand_runs_snoc [simp]: "expand_runs (runs @ [(code, len)]) = expand_runs runs @ replicate len code"
  by (simp add: expand_runs_def)

lemma expand_runs_Nil [simp]: "expand_runs [] = []"
  by (simp add: expand_runs_def)

lemma color_runs:
  "expand_runs (foldl push_color_run [] codes) = codes
    \<and> (\<forall>(code, len) \<in> set (foldl push_color_run [] codes). 1 \<le> len \<and> code \<in> set codes)"
proof (induction codes rule: rev_induct)
  case (snoc c codes)
  define runs where "runs = foldl push_color_run [] codes"
  have IH: "expand_runs runs = codes" "\<forall>(code, len) \<in> set runs. 1 \<le> len \<and> code \<in> set codes"
    using snoc by (simp_all add: runs_def)
  show ?case
  proof (cases "runs \<noteq> [] \<and> fst (last runs) = c")
    case True
    then obtain rs len where rs: "runs = rs @ [(c, len)]"
      by (metis append_butlast_last_id prod.collapse)
    then have "push_color_run runs c = rs @ [(c, len + 1)]" by (simp add: push_color_run_def)
    then show ?thesis
      using IH rs by (auto simp: replicate_append_same simp flip: runs_def)
  next
    case False
    then have "push_color_run runs c = runs @ [(c, 1)]" by (auto simp: push_color_run_def)
    then show ?thesis using IH by (auto simp flip: runs_def)
  qed
qed simp

lemma length_runs_le: "\<forall>(code, len) \<in> set runs. 1 \<le> len \<Longrightarrow> length runs \<le> length (expand_runs runs)"
  by (induction runs) (auto simp: expand_runs_def)

lemma length_expand_take: "length (expand_runs (take k runs)) \<le> length (expand_runs runs)"
proof -
  have "expand_runs runs = expand_runs (take k runs) @ expand_runs (drop k runs)"
    unfolding expand_runs_def by (simp flip: map_append concat_append)
  then show ?thesis by simp
qed

lemma ucast_code [simp]: "ucast (ucast code :: u32) = (code :: u8)"
  by (rule word_eq_unatI) (simp add: unsigned_ucast_eq take_bit_word_eq_self)

lemma unat_ucast_code [simp]: "unat (ucast (code :: u8) :: u32) = unat code"
  by (simp add: unat_ucast_up)

lemma assert_color_code_ok: "code \<le> 8 \<Longrightarrow> assert_color_code code = Ok ()"
  by (simp add: assert_color_code_def)

lemma code_bits_codec:
  assumes "(code :: u8) \<le> 8"
  shows "parses (read_bits 4) (nat_bits 4 (unat code)) (ucast code)"
    and "writes (write_bits (ucast code) 4) (nat_bits 4 (unat code))"
proof -
  have "unat code < 2 ^ 4" using assms by (simp add: code_less_9)
  then show "parses (read_bits 4) (nat_bits 4 (unat code)) (ucast code)"
    "writes (write_bits (ucast code) 4) (nat_bits 4 (unat code))"
    using parses_bits_word [of 4 "ucast code"] writes_bits [of 4 "ucast code"] by simp_all
qed

definition run_code_bits :: "u8 \<times> nat \<Rightarrow> bool list" where
  "run_code_bits = (\<lambda>(code, len). nat_bits 4 (unat code) @ var_bits (len - 1))"

lemma parses_run_cells:
  assumes runs: "\<forall>(code, len) \<in> set runs. 1 \<le> len \<and> code \<le> 8" and n: "length (expand_runs runs) = n" "n < 2 ^ 32"
  shows "parses (read_run_cells n) (var_bits (length runs) @ concat (map run_code_bits runs)) (expand_runs runs)"
proof -
  define f where "f = (\<lambda>(codes :: u8 list, r) (_ :: nat).
      and_then (read_bits 4 r) (\<lambda>(code, r).
        and_then (assert_color_code (ucast code)) (\<lambda>_.
          and_then (read_var_uint r) (\<lambda>(len, r).
            if unat len + 1 > n - length codes
            then Err (Fault (InvalidPayload ''color run exceeds the field''))
            else Ok (codes @ replicate (unat len + 1) (ucast code), r)))))"
  have le: "length runs \<le> n" using length_runs_le [of runs] runs n by auto
  have step: "parses (\<lambda>r. f (expand_runs (take k runs), r) ([0..<length runs] ! k))
      (run_code_bits (runs ! k)) (expand_runs (take (Suc k) runs))" if k: "k < length runs" for k
  proof -
    obtain code len where cl: "runs ! k = (code, len)" by fastforce
    then have ok: "1 \<le> len" "code \<le> 8" using runs nth_mem [OF k] by auto
    have next': "expand_runs (take (Suc k) runs) = expand_runs (take k runs) @ replicate len code"
      using k cl by (simp add: take_Suc_conv_app_nth)
    then have fits: "len \<le> n - length (expand_runs (take k runs))"
      using length_expand_take [of "Suc k" runs] n by simp
    have u: "unat (word_of_nat (len - 1) :: u32) = len - 1" using fits n by (intro unat_u32) simp
    have p: "parses (\<lambda>r. and_then (read_bits 4 r) (\<lambda>(code, r).
        and_then (assert_color_code (ucast code)) (\<lambda>_.
          and_then (read_var_uint r) (\<lambda>(len, r).
            if unat len + 1 > n - length (expand_runs (take k runs))
            then Err (Fault (InvalidPayload ''color run exceeds the field''))
            else Ok (expand_runs (take k runs) @ replicate (unat len + 1) (ucast code), r)))))
        (nat_bits 4 (unat code) @ var_bits (len - 1) @ []) (expand_runs (take (Suc k) runs))"
      unfolding next'
    proof (rule parses_bind [OF code_bits_codec(1) [OF ok(2)]])
      show "parses (\<lambda>r. and_then (assert_color_code (ucast (ucast code :: u32))) (\<lambda>_.
          and_then (read_var_uint r) (\<lambda>(len, r).
            if unat len + 1 > n - length (expand_runs (take k runs))
            then Err (Fault (InvalidPayload ''color run exceeds the field''))
            else Ok (expand_runs (take k runs) @ replicate (unat len + 1) (ucast (ucast code :: u32)), r))))
          (var_bits (len - 1) @ []) (expand_runs (take k runs) @ replicate len code)"
        unfolding ucast_code assert_color_code_ok [OF ok(2)] and_then_simps
        by (rule parses_bind [OF parses_var_uint]) (use fits n ok(1) u in \<open>simp_all add: parses_return\<close>)
    qed
    then show ?thesis by (simp add: f_def cl run_code_bits_def)
  qed
  have loop: "parses (\<lambda>r. try_fold f ([], r) [0..<length runs]) (concat (map run_code_bits runs)) (expand_runs runs)"
    using parses_loop [where f = f and vs = "\<lambda>k. expand_runs (take k runs)" and xs = "[0..<length runs]"
        and enc = "\<lambda>k. run_code_bits (runs ! k)"] step map_nth_comp [of run_code_bits runs]
    by simp
  have u: "unat (word_of_nat (length runs) :: u32) = length runs" using le n by (intro unat_u32) simp
  have "parses (\<lambda>r. and_then (try_fold f ([], r) [0..<length runs]) (\<lambda>(codes, r).
      if length codes \<noteq> n then Err (Fault (InvalidPayload ''color runs do not fill the field'')) else Ok (codes, r)))
      (concat (map run_code_bits runs) @ []) (expand_runs runs)"
    by (rule parses_bind [OF loop]) (simp add: n parses_return)
  then show ?thesis
    unfolding read_run_cells_def [abs_def] f_def [symmetric]
    by (intro parses_bind [OF parses_var_uint]) (use le n u in simp_all)
qed

lemma run_length_encoding_restores:
  assumes "valid_codes codes" "2 \<le> mode_width" "mode_width \<le> 32" "length codes < 2 ^ 32"
  shows "restores (length codes) previous mode_width codes (run_length_encoding codes mode_width)"
proof -
  define runs where "runs = foldl push_color_run [] codes"
  have ex: "expand_runs runs = codes" and ok: "\<forall>(code, len) \<in> set runs. 1 \<le> len \<and> code \<le> 8"
    using color_runs [of codes] assms(1) by (auto simp: runs_def valid_codes_def)
  have le: "length runs \<le> length codes" using length_runs_le [of runs] ok ex by auto
  have len: "len - 1 < 2 ^ 32" if "(code, len) \<in> set runs" for code len
  proof -
    have "len \<le> length (expand_runs runs)"
      using that by (induction runs) (auto simp: expand_runs_def trans_le_add2)
    then show ?thesis using ex assms(4) by simp
  qed
  have "writes (\<lambda>w. and_then (write_var_uint (word_of_nat (length runs)) w) (\<lambda>w.
      try_fold (\<lambda>w x. (\<lambda>(code, len) w. and_then (write_bits (ucast code) 4 w) (write_var_uint (word_of_nat (len - 1)))) x w)
        w runs)) (var_bits (length runs) @ concat (map run_code_bits runs))"
    using ok le assms(4) len
    by (intro writes_then writes_var_uint writes_try_fold)
      (auto simp: run_code_bits_def intro!: writes_then code_bits_codec(2) writes_var_uint)
  then show ?thesis
    unfolding run_length_encoding_def Let_def runs_def [symmetric] case_prod_unfold
    by (rule restoresI)
      (use assms ok ex parses_run_cells [of runs "length codes"]
        in \<open>simp_all add: read_mode_def [abs_def] small_mode\<close>)
qed

subsection \<open>Changes against a predictor\<close>

definition apply_changes :: "u8 list \<Rightarrow> (nat \<times> u8) list \<Rightarrow> u8 list" where
  "apply_changes start cs = foldl (\<lambda>codes (i, c). codes[i := c]) start cs"

definition fitted :: "u8 list \<Rightarrow> nat \<Rightarrow> u8 list" where
  "fitted previous n = map (get_or 0 previous) [0..<n]"

lemma length_fitted [simp]: "length (fitted previous n) = n"
  by (simp add: fitted_def)

lemma nth_fitted [simp]: "i < n \<Longrightarrow> fitted previous n ! i = get_or 0 previous i"
  by (simp add: fitted_def)

lemma fitted_previous_Some [simp]: "fitted_previous (Some previous) n = Ok (fitted previous n)"
  by (simp add: fitted_previous_def fitted_def)

lemma length_apply_changes [simp]: "length (apply_changes start cs) = length start"
  by (induction cs rule: rev_induct) (auto simp: apply_changes_def)

lemma apply_changes_Nil [simp]: "apply_changes start [] = start"
  by (simp add: apply_changes_def)

lemma apply_changes_snoc: "apply_changes start (cs @ [(i, c)]) = (apply_changes start cs)[i := c]"
  by (simp add: apply_changes_def)

lemma apply_changes_take:
  "k < length cs \<Longrightarrow> cs ! k = (i, c) \<Longrightarrow> apply_changes start (take (Suc k) cs) = (apply_changes start (take k cs))[i := c]"
  by (simp add: take_Suc_conv_app_nth apply_changes_snoc)

lemma nth_apply_changes:
  assumes "\<forall>(i, c)\<in>set cs. c = codes ! i" "j < length start"
  shows "apply_changes start cs ! j = (if j \<in> fst ` set cs then codes ! j else start ! j)"
  using assms(1)
proof (induction cs rule: rev_induct)
  case (snoc x cs)
  obtain i c where "x = (i, c)" by fastforce
  then show ?case using snoc assms(2) by (cases "j = i") (simp_all add: apply_changes_snoc)
qed simp

lemma changed_cells_eq:
  "changed_cells codes previous = map (\<lambda>i. (i, codes ! i)) (filter (\<lambda>i. codes ! i \<noteq> get_or 0 previous i) [0..<length codes])"
proof (induction codes rule: rev_induct)
  case (snoc c codes)
  have "map (\<lambda>i. (i, codes ! i)) (filter (\<lambda>i. codes ! i \<noteq> get_or 0 previous i) [0..<length codes])
      = map (\<lambda>i. (i, (codes @ [c]) ! i)) (filter (\<lambda>i. (codes @ [c]) ! i \<noteq> get_or 0 previous i) [0..<length codes])"
    by (auto simp: nth_append intro!: map_cong filter_cong)
  then show ?case using snoc by (simp add: changed_cells_def enumerate_append_eq)
qed (simp add: changed_cells_def)

definition changed_positions :: "u8 list \<Rightarrow> u8 list \<Rightarrow> nat list" where
  "changed_positions codes previous = filter (\<lambda>i. codes ! i \<noteq> get_or 0 previous i) [0..<length codes]"

lemma map_fst_changed_cells: "map fst (changed_cells codes previous) = changed_positions codes previous"
  by (simp add: changed_cells_eq changed_positions_def comp_def)

lemma combination_changed_positions:
  "combination (length codes) (length (changed_positions codes previous)) (changed_positions codes previous)"
  by (simp add: combination_def changed_positions_def sorted_wrt_filter)

lemma set_changed_cells:
  "(i, c) \<in> set (changed_cells codes previous) \<longleftrightarrow> i < length codes \<and> c = codes ! i \<and> c \<noteq> get_or 0 previous i"
  by (auto simp: changed_cells_eq)

lemma apply_changed_cells:
  "apply_changes (fitted previous (length codes)) (changed_cells codes previous) = codes"
proof (rule nth_equalityI)
  fix j assume j: "j < length (apply_changes (fitted previous (length codes)) (changed_cells codes previous))"
  then show "apply_changes (fitted previous (length codes)) (changed_cells codes previous) ! j = codes ! j"
  proof -
    have "fst ` set (changed_cells codes previous) = set (changed_positions codes previous)"
      by (simp flip: map_fst_changed_cells)
    moreover have "\<forall>(i, c)\<in>set (changed_cells codes previous). c = codes ! i"
      by (auto simp: set_changed_cells)
    ultimately show ?thesis
      using j nth_apply_changes [of "changed_cells codes previous" codes j "fitted previous (length codes)"]
      by (simp add: changed_positions_def)
  qed
qed simp

lemma length_changed_cells: "length (changed_cells codes previous) \<le> length codes"
  using length_filter_le [of "\<lambda>i. codes ! i \<noteq> get_or 0 previous i" "[0..<length codes]"]
  by (simp add: changed_cells_eq)

lemma changed_cells_increasing:
  "k < length (changed_cells codes previous) \<Longrightarrow> 0 < k \<Longrightarrow>
    fst (changed_cells codes previous ! (k - 1)) < fst (changed_cells codes previous ! k)"
proof -
  assume k: "k < length (changed_cells codes previous)" "0 < k"
  have "sorted_wrt (<) (map fst (changed_cells codes previous))"
    using combination_changed_positions [of codes previous]
    by (simp add: map_fst_changed_cells combination_def)
  then show ?thesis using k sorted_wrt_nth_less [of "(<)" "map fst (changed_cells codes previous)" "k - 1" k] by simp
qed

definition prior_of :: "(nat \<times> u8) list \<Rightarrow> nat \<Rightarrow> nat option" where
  "prior_of cs k = (if k = 0 then None else Some (fst (cs ! (k - 1))))"

definition gap_of :: "(nat \<times> u8) list \<Rightarrow> nat \<Rightarrow> nat" where
  "gap_of cs k = (case prior_of cs k of None \<Rightarrow> fst (cs ! k) | Some prior \<Rightarrow> fst (cs ! k) - prior - 1)"

definition delta_bits :: "(nat \<times> u8) list \<Rightarrow> nat \<Rightarrow> bool list" where
  "delta_bits cs k = var_bits (gap_of cs k) @ nat_bits 4 (unat (snd (cs ! k)))"

lemma changed_cells_bounds:
  assumes "valid_codes codes" "k < length (changed_cells codes previous)"
  shows "fst (changed_cells codes previous ! k) < length codes" "snd (changed_cells codes previous ! k) \<le> 8"
    "gap_of (changed_cells codes previous) k \<le> length codes"
proof -
  have "i < length codes \<and> c \<le> 8" if "(i, c) \<in> set (changed_cells codes previous)" for i c
    using that assms(1) by (auto simp: set_changed_cells valid_codes_def)
  from this [of "fst (changed_cells codes previous ! k)" "snd (changed_cells codes previous ! k)"]
  show "fst (changed_cells codes previous ! k) < length codes" "snd (changed_cells codes previous ! k) \<le> 8"
    using assms(2) by simp_all
  then show "gap_of (changed_cells codes previous) k \<le> length codes"
    by (auto simp: gap_of_def split: option.splits)
qed

lemma writes_deltas:
  fixes codes previous :: "u8 list"
  assumes "valid_codes codes" "length codes < 2 ^ 32"
  defines "cs \<equiv> changed_cells codes previous"
  shows "writes_state (\<lambda>w. try_fold (\<lambda>(w, prior) (index, code).
      let gap = (case prior of None \<Rightarrow> index | Some prior \<Rightarrow> index - prior - 1)
      in and_then (write_var_uint (word_of_nat gap) w) (\<lambda>w.
           and_then (write_bits (ucast (code :: u8)) 4 w) (\<lambda>w. Ok (w, Some index)))) (w, None) cs)
    (concat (map (delta_bits cs) [0..<length cs])) (prior_of cs (length cs))"
proof -
  define f where "f = (\<lambda>(w, prior) (index, code).
      let gap = (case prior of None \<Rightarrow> index | Some prior \<Rightarrow> index - prior - 1)
      in and_then (write_var_uint (word_of_nat gap) w) (\<lambda>w.
           and_then (write_bits (ucast (code :: u8)) 4 w) (\<lambda>w. Ok (w, Some index))))"
  have "writes_state (\<lambda>w. f (w, prior_of cs k) (cs ! k)) (delta_bits cs k) (prior_of cs (Suc k))" if k: "k < length cs" for k
  proof -
    note bounds = changed_cells_bounds [OF assms(1) k [unfolded cs_def], folded cs_def]
    have "gap_of cs k < 2 ^ 32" using bounds(3) assms(2) by simp
    then have "writes_state (\<lambda>w. and_then (write_var_uint (word_of_nat (gap_of cs k)) w) (\<lambda>w.
        and_then (write_bits (ucast (snd (cs ! k))) 4 w) (\<lambda>w. Ok (w, prior_of cs (Suc k)))))
        (delta_bits cs k) (prior_of cs (Suc k))"
      unfolding delta_bits_def
      by (intro writes_state_bind writes_state_last writes_var_uint code_bits_codec bounds(2))
    then show ?thesis by (simp add: f_def gap_of_def prior_of_def case_prod_unfold)
  qed
  then show ?thesis
    unfolding f_def [symmetric] using writes_state_loop [of cs f "prior_of cs" "delta_bits cs"] by (simp add: prior_of_def)
qed

text \<open>One step of the reader's loop.\<close>

lemma parses_delta_step:
  fixes codes previous :: "u8 list"
  assumes "valid_codes codes" "length codes < 2 ^ 32"
  defines "cs \<equiv> changed_cells codes previous"
  assumes k: "k < length cs"
  shows "parses (\<lambda>r. and_then (read_var_uint r) (\<lambda>(gap, r).
        let index = (case prior_of cs k of None \<Rightarrow> unat gap
                     | Some prior \<Rightarrow> usize_saturating_add (usize_saturating_add prior (unat gap)) 1)
        in and_then (read_bits 4 r) (\<lambda>(code, r).
             and_then (assert_color_code (ucast code)) (\<lambda>_.
               if index \<ge> length codes \<or> (case prior_of cs k of None \<Rightarrow> False | Some prior \<Rightarrow> index \<le> prior)
               then Err (Fault (InvalidPayload ''delta cell index is invalid''))
               else Ok ((field[index := ucast code], Some index), r)))))
    (delta_bits cs k) (field[fst (cs ! k) := snd (cs ! k)], prior_of cs (Suc k))"
proof -
  note bounds = changed_cells_bounds [OF assms(1) k [unfolded cs_def], folded cs_def]
  have inc: "fst (cs ! (k - 1)) < fst (cs ! k)" if "0 < k"
    using k that unfolding cs_def by (rule changed_cells_increasing)
  have gap: "gap_of cs k < 2 ^ 32" using bounds(3) assms(2) by simp
  have u: "unat (word_of_nat (gap_of cs k) :: u32) = gap_of cs k" by (rule unat_u32 [OF gap])
  have index: "(case prior_of cs k of None \<Rightarrow> gap_of cs k
      | Some prior \<Rightarrow> usize_saturating_add (usize_saturating_add prior (gap_of cs k)) 1) = fst (cs ! k)"
    using inc bounds(1) assms(2) by (auto simp: prior_of_def gap_of_def usize_saturating_add_def USIZE_MAX_def)
  have good: "\<not> (fst (cs ! k) \<ge> length codes \<or> (case prior_of cs k of None \<Rightarrow> False | Some prior \<Rightarrow> fst (cs ! k) \<le> prior))"
    using inc bounds(1) by (auto simp: prior_of_def)
  show ?thesis
    unfolding delta_bits_def
    apply (rule parses_bind [OF parses_var_uint [OF gap]])
    apply (subst append_Nil2 [of "nat_bits 4 (unat (snd (cs ! k)))", symmetric])
    unfolding u index Let_def
    apply (rule parses_bind [OF code_bits_codec(1) [OF bounds(2)]])
    using good bounds(2) by (simp add: assert_color_code_ok parses_return prior_of_def)
qed

lemma parses_delta_cells:
  fixes codes previous :: "u8 list"
  assumes "valid_codes codes" "length codes < 2 ^ 32"
  defines "cs \<equiv> changed_cells codes previous"
  shows "parses (read_delta_cells (length codes) (Some previous))
    (var_bits (length cs) @ concat (map (delta_bits cs) [0..<length cs])) codes"
proof -
  define f where "f = (\<lambda>((field :: u8 list, prior), r) (_ :: nat).
      and_then (read_var_uint r) (\<lambda>(gap, r).
        let index = (case prior of None \<Rightarrow> unat gap
                     | Some prior \<Rightarrow> usize_saturating_add (usize_saturating_add prior (unat gap)) 1)
        in and_then (read_bits 4 r) (\<lambda>(code, r).
             and_then (assert_color_code (ucast code)) (\<lambda>_.
               if index \<ge> length codes \<or> (case prior of None \<Rightarrow> False | Some prior \<Rightarrow> index \<le> prior)
               then Err (Fault (InvalidPayload ''delta cell index is invalid''))
               else Ok ((field[index := ucast code], Some index), r)))))"
  define vs where "vs = (\<lambda>k. (apply_changes (fitted previous (length codes)) (take k cs), prior_of cs k))"
  have "parses (\<lambda>r. f (vs k, r) ([0..<length cs] ! k)) (delta_bits cs k) (vs (Suc k))" if "k < length cs" for k
  proof -
    have "vs (Suc k) = ((apply_changes (fitted previous (length codes)) (take k cs))[fst (cs ! k) := snd (cs ! k)], prior_of cs (Suc k))"
      using that by (simp add: vs_def apply_changes_take)
    then show ?thesis
      using parses_delta_step [OF assms(1,2) that [unfolded cs_def]] by (simp add: f_def vs_def cs_def)
  qed
  then have loop: "parses (\<lambda>r. try_fold f ((fitted previous (length codes), None), r) [0..<length cs])
      (concat (map (delta_bits cs) [0..<length cs])) (codes, prior_of cs (length cs))"
    using parses_loop [where f = f and vs = vs and xs = "[0..<length cs]" and enc = "delta_bits cs"]
      apply_changed_cells [of previous codes] by (simp add: vs_def prior_of_def cs_def)
  have "parses (\<lambda>r. and_then (try_fold f ((fitted previous (length codes), None), r) [0..<length cs]) (\<lambda>((codes, _), r). Ok (codes, r)))
      (concat (map (delta_bits cs) [0..<length cs]) @ []) codes"
    using parses_bind [OF loop, of "\<lambda>(codes, _) r. Ok (codes, r)" "[]" codes] parses_return [of codes]
    by (simp add: case_prod_unfold)
  moreover have "length cs \<le> length codes" by (simp add: cs_def length_changed_cells)
  moreover from this have "unat (word_of_nat (length cs) :: u32) = length cs" using assms(2) by (intro unat_u32) simp
  ultimately show ?thesis
    unfolding read_delta_cells_def [abs_def] fitted_previous_Some and_then_simps f_def [symmetric]
    by (intro parses_bind [OF parses_var_uint]) (use assms(2) in simp_all)
qed

lemma delta_encoding_restores:
  assumes "valid_codes codes" "2 \<le> mode_width" "mode_width \<le> 32" "length codes < 2 ^ 32"
  shows "restores (length codes) (Some previous) mode_width codes (delta_encoding codes previous mode_width)"
proof -
  have "length (changed_cells codes previous) < 2 ^ 32"
    using length_changed_cells [of codes previous] assms(4) by simp
  note writes_then [OF writes_var_uint [OF this] writes_state_end [OF writes_deltas [OF assms(1,4)]]]
  then show ?thesis
    unfolding delta_encoding_def Let_def using parses_delta_cells [OF assms(1,4), of previous]
    by (intro restoresI) (use assms in \<open>simp_all add: read_mode_def [abs_def] small_mode\<close>)
qed

subsection \<open>Change masks\<close>

lemma enumerate_eq: "enumerate 0 xs = map (\<lambda>i. (i, xs ! i)) [0..<length xs]"
  by (rule nth_equalityI) (simp_all add: nth_enumerate_eq)

lemma change_flags_eq:
  "change_flags codes previous = map (\<lambda>i. if codes ! i \<noteq> get_or 0 previous i then 1 else 0) [0..<length codes]"
  by (simp add: change_flags_def enumerate_eq comp_def)

lemma length_change_flags [simp]: "length (change_flags codes previous) = length codes"
  by (simp add: change_flags_eq)

lemma set_change_flags: "set (change_flags codes previous) \<subseteq> {0, 1}"
  by (auto simp: change_flags_eq)

lemma nth_change_flags:
  "i < length codes \<Longrightarrow> change_flags codes previous ! i = (if codes ! i \<noteq> get_or 0 previous i then 1 else 0)"
  by (simp add: change_flags_eq)

lemma set_changed_codes:
  "set (changed_codes codes (change_flags codes previous)) = {codes ! i | i. i < length codes \<and> codes ! i \<noteq> get_or 0 previous i}"
  by (force simp: changed_codes_def set_zip nth_change_flags image_iff split: if_splits)

lemma valid_changed_codes: "valid_codes codes \<Longrightarrow> valid_codes (changed_codes codes (change_flags codes previous))"
  by (auto simp: valid_codes_def set_changed_codes)

definition flagged_bits :: "u8 list \<Rightarrow> u8 \<times> u8 \<Rightarrow> bool list" where
  "flagged_bits palette = (\<lambda>(code, c). if c \<noteq> 0 then palette_bits palette code else [])"

lemma parses_change_mask_loop:
  assumes palette: "length palette \<le> 9" "set (changed_codes codes (change_flags codes previous)) \<subseteq> set palette"
  shows "parses (\<lambda>r. try_fold (\<lambda>(codes', r) index.
      if change_flags codes previous ! index \<noteq> 0
      then and_then (read_palette_code palette (bits_for_choices (length palette)) msg r)
             (\<lambda>(code, r). Ok (codes'[index := code], r))
      else Ok (codes', r)) (fitted previous (length codes), r) [0..<length codes])
    (concat (map (flagged_bits palette) (zip codes (change_flags codes previous)))) codes"
proof -
  define n where "n = length codes"
  define flags where "flags = change_flags codes previous"
  define f where "f = (\<lambda>(codes', r) index. if flags ! index \<noteq> 0
      then and_then (read_palette_code palette (bits_for_choices (length palette)) msg r)
             (\<lambda>(code, r). Ok (codes'[index := code], r))
      else Ok (codes', r))"
  define vs where "vs = (\<lambda>k. take k codes @ drop k (fitted previous n))"
  have "parses (\<lambda>r. f (vs k, r) ([0..<n] ! k)) (flagged_bits palette (zip codes flags ! k)) (vs (Suc k))"
    if k: "k < n" for k
  proof -
    have z: "zip codes flags ! k = (codes ! k, flags ! k)" using k by (simp add: flags_def n_def)
    have old: "drop k (fitted previous n) = get_or 0 previous k # drop (Suc k) (fitted previous n)"
      using k by (simp flip: Cons_nth_drop_Suc)
    have new: "take (Suc k) codes = take k codes @ [codes ! k]" using k by (simp add: n_def take_Suc_conv_app_nth)
    have len: "length codes = n" by (simp add: n_def)
    have upd: "(vs k)[k := codes ! k] = vs (Suc k)"
      using k by (simp add: vs_def old new list_update_append len)
    show ?thesis
    proof (cases "flags ! k \<noteq> 0")
      case True
      then have "codes ! k \<in> set palette"
        using palette(2) k by (auto simp: flags_def set_changed_codes nth_change_flags n_def split: if_splits)
      from parses_map [OF palette_index_codec(2) [OF this palette(1)], of msg "\<lambda>code. (vs k)[k := code]"] upd
      show ?thesis using k True by (simp add: f_def z flagged_bits_def)
    next
      case False
      then have "codes ! k = get_or 0 previous k"
        using k by (simp add: flags_def nth_change_flags n_def split: if_splits)
      then have "vs (Suc k) = vs k" by (simp add: vs_def old new)
      then show ?thesis using k False by (simp add: f_def z flagged_bits_def parses_return)
    qed
  qed
  then have "parses (\<lambda>r. try_fold f (vs 0, r) [0..<n]) (concat (map (\<lambda>k. flagged_bits palette (zip codes flags ! k)) [0..<n])) (vs n)"
    using parses_loop [where f = f and vs = vs and xs = "[0..<n]" and enc = "\<lambda>k. flagged_bits palette (zip codes flags ! k)"]
    by simp
  moreover have "vs 0 = fitted previous n" "vs n = codes" by (simp_all add: vs_def n_def)
  moreover have "map (\<lambda>k. flagged_bits palette (zip codes flags ! k)) [0..<n] = map (flagged_bits palette) (zip codes flags)"
    using map_nth_comp [of "flagged_bits palette" "zip codes flags"] by (simp add: n_def flags_def)
  ultimately show ?thesis by (simp add: f_def flags_def n_def)
qed

lemma list_ex_change_flags:
  assumes "valid_codes codes"
  shows "\<not> (list_ex (\<lambda>v. v \<noteq> 0) (change_flags codes previous)
    \<and> palette_of (\<lambda>c. c \<in> set (changed_codes codes (change_flags codes previous))) 0 = [])"
proof (clarify)
  assume "list_ex (\<lambda>v. v \<noteq> 0) (change_flags codes previous)"
  then obtain i where "i < length codes" "codes ! i \<noteq> get_or 0 previous i"
    by (auto simp: list_ex_iff change_flags_eq split: if_splits)
  then have "codes ! i \<in> set (changed_codes codes (change_flags codes previous))"
    by (auto simp: set_changed_codes)
  moreover assume "palette_of (\<lambda>c. c \<in> set (changed_codes codes (change_flags codes previous))) 0 = []"
  ultimately show False
    using palette_of_empty_iff [OF valid_changed_codes [OF assms, of previous]] by simp
qed

lemma change_mask_encoding_restores:
  assumes "valid_codes codes" "4 \<le> mode_width" "mode_width \<le> 32" "length codes < 2 ^ 32"
  shows "restores (length codes) (Some previous) mode_width codes (change_mask_encoding codes previous mode_width)"
proof -
  define flags where "flags = change_flags codes previous"
  define palette where "palette = palette_of (\<lambda>c. c \<in> set (changed_codes codes flags)) 0"
  have valid: "valid_codes (changed_codes codes flags)" by (simp add: flags_def valid_changed_codes assms(1))
  have ok: "palette_ok palette" by (auto simp: palette_ok_def palette_def)
  have pal: "set palette = set (changed_codes codes flags)"
    using palette_of_set [OF valid] by (simp add: palette_def)
  obtain bs where bs: "writes (write_occupancy_mask flags) bs" "parses (read_occupancy_mask (length codes)) bs flags"
    using occupancy_mask_codec [of flags] set_change_flags assms(4) by (auto simp: flags_def)
  have mem: "code \<in> set palette" if "(code, c) \<in> set (zip codes flags)" "c \<noteq> 0" for code c
    using that by (force simp: pal changed_codes_def)
  have "writes (\<lambda>w. and_then (write_occupancy_mask flags w) (\<lambda>w.
      and_then (write_bits (color_mask palette) 9 w) (\<lambda>w.
        try_fold (\<lambda>w x. (\<lambda>(code, c) w. if c \<noteq> 0 then write_palette_index palette code w else Ok w) x w) w (zip codes flags))))
      (bs @ nat_bits 9 (unat (color_mask palette)) @ concat (map (flagged_bits palette) (zip codes flags)))"
    by (intro writes_then bs(1) palette_okD(1) [OF ok] writes_try_fold)
      (auto simp: flagged_bits_def writes_nothing intro!: palette_index_codec(1) palette_okD(3) [OF ok] mem)
  moreover have "parses (read_change_mask_cells (length codes) (Some previous))
      (bs @ nat_bits 9 (unat (color_mask palette)) @ concat (map (flagged_bits palette) (zip codes flags))) codes"
    unfolding read_change_mask_cells_def [abs_def] fitted_previous_Some and_then_simps
  proof (rule parses_bind [OF bs(2)], rule parses_bind [OF palette_okD(2) [OF ok]])
    have ne: "\<not> (list_ex (\<lambda>v. v \<noteq> 0) flags \<and> palette = [])"
      using list_ex_change_flags [OF assms(1), of previous] by (simp only: flags_def palette_def) simp
    show "parses (\<lambda>r. let palette = palette_from_mask (color_mask palette) 0
        in if list_ex (\<lambda>v. v \<noteq> 0) flags \<and> palette = [] then Err (Fault (InvalidPayload ''delta palette is empty''))
           else try_fold (\<lambda>(codes, r) index.
                    if flags ! index \<noteq> 0
                    then and_then (read_palette_code palette (bits_for_choices (length palette)) ''delta palette index'' r)
                           (\<lambda>(code, r). Ok (codes[index := code], r))
                    else Ok (codes, r)) (fitted previous (length codes), r) [0..<length codes])
        (concat (map (flagged_bits palette) (zip codes flags))) codes"
      using parses_change_mask_loop [OF palette_okD(3) [OF ok], of codes previous "''delta palette index''"] pal
      unfolding palette_okD(4) [OF ok] Let_def if_not_P [OF ne] by (simp add: flags_def)
  qed
  ultimately show ?thesis
    unfolding change_mask_encoding_def Let_def flags_def [symmetric] unique_codes_eq [OF valid]
      palette_def [symmetric] and_then_simps case_prod_unfold
    by (intro restoresI) (use assms in \<open>simp_all add: read_mode_def [abs_def] small_mode\<close>)
qed

subsection \<open>A single changed colour\<close>

lemma single_color_restored:
  fixes codes previous :: "u8 list"
  defines "flags \<equiv> change_flags codes previous"
  assumes "set (changed_codes codes flags) = {c}"
  shows "map (\<lambda>(old, ch). if ch \<noteq> 0 then c else old) (zip (fitted previous (length codes)) flags)
    @ drop (length flags) (fitted previous (length codes)) = codes" (is "?restored = codes")
proof (rule nth_equalityI)
  show len: "length ?restored = length codes" by (simp add: flags_def)
  fix i assume "i < length ?restored"
  then have i: "i < length codes" using len by simp
  have "codes ! i = c" if "codes ! i \<noteq> get_or 0 previous i"
  proof -
    have "codes ! i \<in> set (changed_codes codes flags)" using i that by (auto simp: flags_def set_changed_codes)
    then show ?thesis using assms(2) by simp
  qed
  then show "?restored ! i = codes ! i" using i by (auto simp: nth_append flags_def nth_change_flags)
qed

lemma single_color_delta_restores:
  assumes "valid_codes codes" "4 \<le> mode_width" "mode_width \<le> 32" "length codes < 2 ^ 32"
  shows "\<exists>candidate. single_color_delta_encoding codes previous mode_width = Ok candidate
    \<and> (\<forall>w. candidate = Some w \<longrightarrow> restores (length codes) (Some previous) mode_width codes (Ok w))"
proof -
  define flags where "flags = change_flags codes previous"
  define colors where "colors = palette_of (\<lambda>c. c \<in> set (changed_codes codes flags)) 0"
  have valid: "valid_codes (changed_codes codes flags)" by (simp add: flags_def valid_changed_codes assms(1))
  have pal: "set colors = set (changed_codes codes flags)"
    using palette_of_set [OF valid] by (simp add: colors_def)
  define f where "f = (\<lambda>w. and_then (write_bits (ucast (hd colors)) 4 w) (write_occupancy_mask flags))"
  have single: "restores (length codes) (Some previous) mode_width codes
      (and_then (write_bits 10 mode_width bw_default) f)" if one: "length colors = 1"
  proof -
    obtain c where c: "colors = [c]" using one by (auto simp: length_Suc_conv)
    have cc: "set (changed_codes codes flags) = {c}" using pal c by simp
    have c8: "c \<le> 8" using valid cc by (simp add: valid_codes_def)
    obtain bs where bs: "writes (write_occupancy_mask flags) bs" "parses (read_occupancy_mask (length codes)) bs flags"
      using occupancy_mask_codec [of flags] set_change_flags assms(4) by (auto simp: flags_def)
    have "writes f (nat_bits 4 (unat c) @ bs)"
      unfolding f_def c list.sel by (intro writes_then code_bits_codec(2) c8 bs(1))
    moreover have "parses (read_single_color_cells (length codes) (Some previous)) (nat_bits 4 (unat c) @ bs) codes"
      unfolding read_single_color_cells_def [abs_def] fitted_previous_Some and_then_simps
      using parses_map [OF bs(2), of "\<lambda>changed. map (\<lambda>(old, ch). if ch \<noteq> 0 then c else old)
          (zip (fitted previous (length codes)) changed) @ drop (length changed) (fitted previous (length codes))"]
        single_color_restored [of codes previous c] cc
      by (intro parses_bind [OF code_bits_codec(1) [OF c8]])
        (unfold ucast_code assert_color_code_ok [OF c8] and_then_simps, simp flip: flags_def)
    ultimately show ?thesis
      by (intro restoresI) (use assms in \<open>simp_all add: read_mode_def [abs_def] small_mode\<close>)
  qed
  show ?thesis
  proof (cases "length colors = 1")
    case True
    obtain w where "and_then (write_bits 10 mode_width bw_default) f = Ok w"
      using single [OF True] by (auto simp: restores_def)
    moreover have "single_color_delta_encoding codes previous mode_width
        = and_then (and_then (write_bits 10 mode_width bw_default) f) (\<lambda>w. Ok (Some w))"
      using True unique_codes_eq [OF valid]
      by (simp add: single_color_delta_encoding_def f_def and_then_def colors_def flags_def split: sum.splits)
    ultimately show ?thesis using single [OF True] by simp
  next
    case False
    then show ?thesis
      using unique_codes_eq [OF valid] by (simp add: single_color_delta_encoding_def colors_def flags_def)
  qed
qed

subsection \<open>Combinations of changed cells\<close>

lemma changed_positions_eq:
  "map fst (filter (\<lambda>(index, code). code \<noteq> get_or 0 previous index) (enumerate 0 codes)) = changed_positions codes previous"
  using map_fst_changed_cells [of codes previous] by (simp add: changed_cells_def)

lemma parses_changes_loop:
  assumes palette: "length palette \<le> 9" "snd ` set cs \<subseteq> set palette"
  shows "parses (\<lambda>r. try_fold (\<lambda>(codes, r) position.
      and_then (read_palette_code palette (bits_for_choices (length palette)) msg r)
        (\<lambda>(code, r). Ok (codes[position := code], r))) (start, r) (map fst cs))
    (concat (map (palette_bits palette) (map snd cs))) (apply_changes start cs)"
proof -
  define f where "f = (\<lambda>(codes, r) position.
      and_then (read_palette_code palette (bits_for_choices (length palette)) msg r)
        (\<lambda>(code, r). Ok (codes[position := code], r)))"
  have "parses (\<lambda>r. f (apply_changes start (take k cs), r) (map fst cs ! k)) (palette_bits palette (snd (cs ! k)))
      (apply_changes start (take (Suc k) cs))" if k: "k < length cs" for k
  proof -
    obtain i c where ic: "cs ! k = (i, c)" by fastforce
    have "c \<in> set palette" using nth_mem [OF k] ic palette(2) by force
    from parses_map [OF palette_index_codec(2) [OF this palette(1)], of msg "\<lambda>c. (apply_changes start (take k cs))[i := c]"]
    show ?thesis using k by (simp add: f_def ic apply_changes_take [OF k ic])
  qed
  then show ?thesis
    using parses_loop [where f = f and vs = "\<lambda>k. apply_changes start (take k cs)" and xs = "map fst cs"
        and enc = "\<lambda>k. palette_bits palette (snd (cs ! k))"] map_nth_comp [of "\<lambda>x. palette_bits palette (snd x)" cs]
    by (simp add: f_def comp_def)
qed

lemma parses_combinatorial_cells:
  fixes codes previous :: "u8 list"
  defines "cs \<equiv> changed_cells codes previous" and "positions \<equiv> changed_positions codes previous"
  assumes ok: "palette_ok palette" and pal: "set palette = set (map snd cs)"
    and bs: "parses (read_positions (length codes) (length positions) ''delta rank is invalid'') bs positions"
    and len: "length codes < 2 ^ 32"
  defines "tail \<equiv> concat (map (palette_bits palette) (map snd cs))"
  shows "parses (read_combinatorial_cells (length codes) (Some previous))
    (var_bits (length positions) @ bs @ nat_bits 9 (unat (color_mask palette)) @ tail) codes"
  unfolding read_combinatorial_cells_def [abs_def] fitted_previous_Some and_then_simps
proof (rule parses_bind [OF parses_var_uint])
  have fst: "map fst cs = positions" by (simp add: cs_def positions_def map_fst_changed_cells)
  then have few: "length positions \<le> length codes"
    using length_changed_cells [of codes previous] by (metis cs_def length_map)
  show "length positions < 2 ^ 32" using few len by simp
  then have u: "unat (word_of_nat (length positions) :: u32) = length positions" by (rule unat_u32)
  have ne: "\<not> (length positions > 0 \<and> palette = [])" using pal fst by (cases cs) auto
  have le: "\<not> length positions > length codes" using few by simp
  have loop: "parses (\<lambda>r. try_fold (\<lambda>(codes, r) position.
      and_then (read_palette_code palette (bits_for_choices (length palette)) ''delta palette index'' r)
        (\<lambda>(code, r). Ok (codes[position := code], r))) (fitted previous (length codes), r) positions) tail codes"
    using parses_changes_loop [OF palette_okD(3) [OF ok], of cs "''delta palette index''" "fitted previous (length codes)"]
      pal apply_changed_cells [of previous codes]
    by (simp add: fst tail_def flip: cs_def)
  show "parses (\<lambda>r. if unat (word_of_nat (length positions) :: u32) > length codes
      then Err (Fault (InvalidPayload ''delta count exceeds the field''))
      else and_then (read_positions (length codes) (unat (word_of_nat (length positions) :: u32)) ''delta rank is invalid'' r)
        (\<lambda>(positions', r). and_then (read_bits 9 r) (\<lambda>(m, r).
           let palette = palette_from_mask m 0
           in if unat (word_of_nat (length positions) :: u32) > 0 \<and> palette = []
              then Err (Fault (InvalidPayload ''delta palette is empty''))
              else try_fold (\<lambda>(codes, r) position.
                       and_then (read_palette_code palette (bits_for_choices (length palette)) ''delta palette index'' r)
                         (\<lambda>(code, r). Ok (codes[position := code], r)))
                     (fitted previous (length codes), r) positions')))
      (bs @ nat_bits 9 (unat (color_mask palette)) @ tail) codes"
    unfolding u if_not_P [OF le]
    by (rule parses_bind [OF bs], rule parses_bind [OF palette_okD(2) [OF ok]])
      (use loop in \<open>simp only: palette_okD(4) [OF ok] Let_def if_not_P [OF ne]\<close>)
qed

lemma combinatorial_delta_restores:
  assumes "valid_codes codes" "4 \<le> mode_width" "mode_width \<le> 32" "length codes < 2 ^ 32"
  shows "restores (length codes) (Some previous) mode_width codes (combinatorial_delta_encoding codes previous mode_width)"
proof -
  define cs where "cs = changed_cells codes previous"
  define positions where "positions = changed_positions codes previous"
  define palette where "palette = palette_of (\<lambda>c. c \<in> set (map (nth codes) positions)) 0"
  have fst: "map fst cs = positions" by (simp add: cs_def positions_def map_fst_changed_cells)
  have snd: "map snd cs = map (nth codes) positions"
    by (simp add: cs_def positions_def changed_cells_eq changed_positions_def comp_def)
  have valid: "valid_codes (map (nth codes) positions)"
    using assms(1) by (auto simp: valid_codes_def positions_def changed_positions_def)
  have ok: "palette_ok palette" by (auto simp: palette_ok_def palette_def)
  have pal: "set palette = set (map snd cs)" using palette_of_set [OF valid] by (simp add: palette_def snd)
  have comb: "combination (length codes) (length positions) positions"
    unfolding positions_def by (rule combination_changed_positions)
  have len: "length positions \<le> length codes" using length_changed_cells [of codes previous] fst
    by (metis cs_def length_map)
  obtain bs where bs: "writes (write_positions (length codes) positions) bs"
    "parses (read_positions (length codes) (length positions) ''delta rank is invalid'') bs positions"
    using positions_codec [OF comb assms(4)] by blast
  define tail where "tail = concat (map (palette_bits palette) (map snd cs))"
  have tail: "tail = concat (map (\<lambda>p. palette_bits palette (codes ! p)) positions)"
    by (simp only: tail_def snd) (simp add: comp_def)
  have "writes (\<lambda>w. and_then (write_var_uint (word_of_nat (length positions)) w) (\<lambda>w.
      and_then (write_positions (length codes) positions w) (\<lambda>w.
        and_then (write_bits (color_mask palette) 9 w) (\<lambda>w.
          try_fold (\<lambda>w position. write_palette_index palette (codes ! position) w) w positions))))
      (var_bits (length positions) @ bs @ nat_bits 9 (unat (color_mask palette)) @ tail)"
    unfolding tail
    by (intro writes_then writes_var_uint bs(1) palette_okD(1) [OF ok] writes_try_fold palette_index_codec(1)
        palette_okD(3) [OF ok]) (use len assms(4) pal snd in auto)
  moreover have "parses (read_combinatorial_cells (length codes) (Some previous))
      (var_bits (length positions) @ bs @ nat_bits 9 (unat (color_mask palette)) @ tail) codes"
    unfolding tail_def cs_def
    using parses_combinatorial_cells [OF ok _ bs(2) [unfolded positions_def]] pal assms(4) by (simp add: cs_def positions_def)
  ultimately show ?thesis
    unfolding combinatorial_delta_encoding_def changed_positions_eq Let_def positions_def [symmetric]
      unique_codes_eq [OF valid] and_then_simps palette_def [symmetric]
    by (intro restoresI) (use assms in \<open>simp_all add: read_mode_def [abs_def] small_mode\<close>)
qed

subsection \<open>Occupied cells\<close>

lemma concat_map_filter: "concat (map f (filter P xs)) = concat (map (\<lambda>x. if P x then f x else []) xs)"
  by (induction xs) simp_all

lemma parses_occupied_loop:
  assumes palette: "length palette \<le> 9" "set (filter (\<lambda>c. c \<noteq> 0) codes) \<subseteq> set palette"
  shows "parses (\<lambda>r. try_fold (\<lambda>(codes, r) v.
      if v = 0 then Ok (codes @ [0], r)
      else and_then (read_palette_code palette (bits_for_choices (length palette)) msg r)
             (\<lambda>(code, r). Ok (codes @ [code], r))) ([], r) (map (\<lambda>code. if code \<noteq> 0 then 1 else 0 :: u8) codes))
    (concat (map (palette_bits palette) (filter (\<lambda>c. c \<noteq> 0) codes))) codes"
proof -
  define f where "f = (\<lambda>(codes, r) v :: u8. if v = 0 then Ok (codes @ [0], r)
      else and_then (read_palette_code palette (bits_for_choices (length palette)) msg r)
             (\<lambda>(code, r). Ok (codes @ [code], r)))"
  define enc where "enc = (\<lambda>c. if c \<noteq> 0 then palette_bits palette c else [])"
  have "parses (\<lambda>r. f (take k codes, r) (map (\<lambda>code. if code \<noteq> 0 then 1 else 0) codes ! k)) (enc (codes ! k)) (take (Suc k) codes)"
    if k: "k < length codes" for k
  proof (cases "codes ! k = 0")
    case True
    then show ?thesis using k by (simp add: f_def enc_def parses_return take_Suc_conv_app_nth)
  next
    case False
    then have "codes ! k \<in> set palette" using k palette(2) by auto
    from parses_map [OF palette_index_codec(2) [OF this palette(1)], of msg "\<lambda>c. take k codes @ [c]"]
    show ?thesis using k False by (simp add: f_def enc_def take_Suc_conv_app_nth)
  qed
  then show ?thesis
    using parses_loop [where f = f and vs = "\<lambda>k. take k codes" and enc = "\<lambda>k. enc (codes ! k)"
        and xs = "map (\<lambda>code. if code \<noteq> 0 then 1 else 0) codes"] map_nth_comp [of enc codes]
    by (simp add: f_def enc_def concat_map_filter)
qed

lemma palette_of_raise: "(\<And>c. P c \<Longrightarrow> j \<le> unat c) \<Longrightarrow> j \<le> 9 \<Longrightarrow> palette_of P 0 = palette_of P j"
proof -
  assume a: "\<And>c. P c \<Longrightarrow> j \<le> unat c" "j \<le> 9"
  have "[0..<9] = [0..<j] @ [j..<9]" using a(2) upt_add_eq_append [of 0 j "9 - j"] by simp
  moreover have "filter (\<lambda>k. P (word_of_nat k)) [0..<j] = []"
    using a unat_small_u8 by (fastforce simp: filter_empty_conv)
  ultimately show ?thesis by (simp add: palette_of_def)
qed

lemma occupancy_encoding_restores:
  assumes "valid_codes codes" "2 \<le> mode_width" "mode_width \<le> 32" "length codes < 2 ^ 32"
  shows "restores (length codes) previous mode_width codes (occupancy_encoding codes mode_width)"
proof -
  define occupied where "occupied = map (\<lambda>code. if code \<noteq> 0 then 1 else 0 :: u8) codes"
  define non_empty where "non_empty = filter (\<lambda>code. code \<noteq> 0) codes"
  define P where "P = (\<lambda>c. c \<in> set non_empty)"
  define palette where "palette = palette_of P 0"
  have valid: "valid_codes non_empty" using assms(1) by (simp add: valid_codes_def non_empty_def)
  have pal: "set palette = set non_empty" using palette_of_set [OF valid] by (simp add: palette_def P_def)
  have len9: "length palette \<le> 9" by (simp add: palette_def length_palette_of)
  have raise: "palette = palette_of P 1"
    unfolding palette_def by (rule palette_of_raise) (auto simp: P_def non_empty_def Suc_le_eq unat_gt_0)
  obtain bs where bs: "writes (write_occupancy_mask occupied) bs" "parses (read_occupancy_mask (length codes)) bs occupied"
    using occupancy_mask_codec [of occupied] assms(4) by (auto simp: occupied_def)
  define m where "m = drop_bit 1 (color_mask palette)"
  have m1: "writes (write_bits m 8) (nat_bits 8 (unat m))"
    using writes_color_mask [of 1 P 0] by (simp add: m_def palette_def)
  have m2: "parses (read_bits 8) (nat_bits 8 (unat m)) m"
    using parses_color_mask [of 1 P 0] by (simp add: m_def palette_def)
  have m3: "palette_from_mask (push_bit 1 m) 1 = palette"
    by (subst raise, unfold m_def palette_def, rule palette_from_shifted_mask) simp_all
  define tail where "tail = concat (map (palette_bits palette) non_empty)"
  have "writes (\<lambda>w. and_then (write_occupancy_mask occupied w) (\<lambda>w.
      and_then (write_bits m 8 w) (\<lambda>w. try_fold (\<lambda>w code. write_palette_index palette code w) w non_empty)))
      (bs @ nat_bits 8 (unat m) @ tail)"
    unfolding tail_def
    by (intro writes_then bs(1) m1 writes_try_fold palette_index_codec(1) len9) (simp add: pal)
  moreover have "parses (read_occupancy_cells (length codes)) (bs @ nat_bits 8 (unat m) @ tail) codes"
    unfolding read_occupancy_cells_def [abs_def]
  proof (rule parses_bind [OF bs(2)], rule parses_bind [OF m2])
    have ne: "\<not> (list_ex (\<lambda>v. v \<noteq> 0) occupied \<and> palette = [])"
    proof clarify
      assume "list_ex (\<lambda>v. v \<noteq> 0) occupied"
      then obtain c where "c \<in> set codes" "c \<noteq> 0"
        by (auto simp: list_ex_iff occupied_def split: if_splits)
      then have "c \<in> set palette" unfolding pal by (simp add: non_empty_def)
      moreover assume "palette = []"
      ultimately show False by simp
    qed
    show "parses (\<lambda>r. let palette = palette_from_mask (push_bit 1 m) 1
        in if list_ex (\<lambda>v. v \<noteq> 0) occupied \<and> palette = []
           then Err (Fault (InvalidPayload ''occupied color palette is empty''))
           else try_fold (\<lambda>(codes, r) v. if v = 0 then Ok (codes @ [0], r)
                    else and_then (read_palette_code palette (bits_for_choices (length palette)) ''occupied color index'' r)
                           (\<lambda>(code, r). Ok (codes @ [code], r))) ([], r) occupied) tail codes"
      unfolding m3 Let_def if_not_P [OF ne]
      using parses_occupied_loop [OF len9, of codes "''occupied color index''"] pal
      by (simp add: occupied_def tail_def non_empty_def)
  qed
  ultimately show ?thesis
    unfolding occupancy_encoding_def Let_def occupied_def [symmetric] non_empty_def [symmetric]
      unique_codes_eq [OF valid] and_then_simps P_def [symmetric] palette_def [symmetric] m_def [symmetric]
    by (intro restoresI) (use assms in \<open>simp_all add: read_mode_def [abs_def] small_mode\<close>)
qed

subsection \<open>Runs of changed cells\<close>

definition run_changes :: "nat \<times> u8 list \<Rightarrow> (nat \<times> u8) list" where
  "run_changes run = zip [fst run..<fst run + length (snd run)] (snd run)"

definition flat_changes :: "(nat \<times> u8 list) list \<Rightarrow> (nat \<times> u8) list" where
  "flat_changes runs = concat (map run_changes runs)"

definition run_end :: "nat \<times> u8 list \<Rightarrow> nat" where
  "run_end run = fst run + length (snd run)"

lemma change_runs:
  "flat_changes (foldl push_change_run [] cs) = cs \<and> (\<forall>run\<in>set (foldl push_change_run [] cs). snd run \<noteq> [])"
proof (induction cs rule: rev_induct)
  case (snoc x cs)
  obtain i c where x: "x = (i, c)" by fastforce
  define runs where "runs = foldl push_change_run [] cs"
  have IH: "flat_changes runs = cs" "\<forall>run\<in>set runs. snd run \<noteq> []" using snoc by (simp_all add: runs_def)
  show ?case
  proof (cases "runs \<noteq> [] \<and> fst (last runs) + length (snd (last runs)) = i")
    case True
    then obtain rs s vs where rs: "runs = rs @ [(s, vs)]" "s + length vs = i"
      by (metis append_butlast_last_id prod.collapse)
    then have "push_change_run runs (i, c) = rs @ [(s, vs @ [c])]" by (simp add: push_change_run_def)
    moreover have "run_changes (s, vs @ [c]) = run_changes (s, vs) @ [(i, c)]"
      using rs(2) by (simp add: run_changes_def)
    ultimately show ?thesis using IH rs x by (auto simp: flat_changes_def simp flip: runs_def)
  next
    case False
    then have "push_change_run runs (i, c) = runs @ [(i, [c])]" by (auto simp: push_change_run_def)
    then show ?thesis using IH x by (auto simp: flat_changes_def run_changes_def simp flip: runs_def)
  qed
qed (simp add: flat_changes_def)

lemma run_changes_bounds:
  assumes "snd run \<noteq> []"
  shows "fst run \<in> fst ` set (run_changes run)" "run_end run - 1 \<in> fst ` set (run_changes run)" "fst run < run_end run"
proof -
  have "map fst (run_changes run) = [fst run..<run_end run]" by (simp add: run_changes_def run_end_def)
  then have "fst ` set (run_changes run) = {fst run..<run_end run}" by (metis list.set_map set_upt)
  then show "fst run \<in> fst ` set (run_changes run)" "run_end run - 1 \<in> fst ` set (run_changes run)"
    "fst run < run_end run"
    using assms length_greater_0_conv [of "snd run"] by (auto simp: run_end_def simp del: length_greater_0_conv)
qed

lemma change_runs_order:
  assumes "sorted_wrt (<) (map fst (flat_changes runs))" "\<forall>run\<in>set runs. snd run \<noteq> []" "Suc k < length runs"
  shows "run_end (runs ! k) \<le> fst (runs ! Suc k)"
proof -
  have split: "flat_changes runs = flat_changes (take (Suc k) runs) @ flat_changes (drop (Suc k) runs)"
    unfolding flat_changes_def by (simp flip: map_append concat_append)
  have nonempty: "snd (runs ! k) \<noteq> []" "snd (runs ! Suc k) \<noteq> []" using assms(2,3) by simp_all
  have "run_end (runs ! k) - 1 \<in> fst ` set (flat_changes (take (Suc k) runs))"
    using run_changes_bounds(2) [OF nonempty(1)] assms(3)
    by (simp add: flat_changes_def take_Suc_conv_app_nth image_Un)
  moreover have "fst (runs ! Suc k) \<in> fst ` set (flat_changes (drop (Suc k) runs))"
    using run_changes_bounds(1) [OF nonempty(2)] assms(3)
    by (simp add: flat_changes_def image_Un flip: Cons_nth_drop_Suc)
  ultimately have "run_end (runs ! k) - 1 < fst (runs ! Suc k)"
    using assms(1) unfolding split by (fastforce simp: sorted_wrt_append)
  then show ?thesis by simp
qed

definition end_before :: "(nat \<times> u8 list) list \<Rightarrow> nat \<Rightarrow> nat" where
  "end_before runs k = (if k = 0 then 0 else run_end (runs ! (k - 1)))"

definition run_header_bits :: "(nat \<times> u8 list) list \<Rightarrow> nat \<Rightarrow> bool list" where
  "run_header_bits runs k =
     var_bits (fst (runs ! k) - end_before runs k) @ var_bits (length (snd (runs ! k)) - 1)"

text \<open>Runs in order, none empty, within a field of \<open>n\<close> cells.\<close>

definition ordered_runs :: "nat \<Rightarrow> (nat \<times> u8 list) list \<Rightarrow> bool" where
  "ordered_runs n runs \<longleftrightarrow> (\<forall>k<length runs. end_before runs k \<le> fst (runs ! k)
     \<and> snd (runs ! k) \<noteq> [] \<and> run_end (runs ! k) \<le> n)"

lemma ordered_change_runs:
  fixes codes previous
  defines "runs \<equiv> foldl push_change_run [] (changed_cells codes previous)"
  shows "ordered_runs (length codes) runs" "flat_changes runs = changed_cells codes previous"
proof -
  show flat: "flat_changes runs = changed_cells codes previous"
    using change_runs [of "changed_cells codes previous"] by (simp add: runs_def)
  have ne: "\<forall>run\<in>set runs. snd run \<noteq> []"
    using change_runs [of "changed_cells codes previous"] by (simp add: runs_def)
  have sorted: "sorted_wrt (<) (map fst (flat_changes runs))"
    using combination_changed_positions [of codes previous]
    by (simp add: flat map_fst_changed_cells combination_def)
  have "end_before runs k \<le> fst (runs ! k) \<and> snd (runs ! k) \<noteq> [] \<and> run_end (runs ! k) \<le> length codes"
    if k: "k < length runs" for k
  proof (intro conjI)
    show "end_before runs k \<le> fst (runs ! k)"
      using k change_runs_order [OF sorted ne, of "k - 1"] by (cases k) (simp_all add: end_before_def)
    show nek: "snd (runs ! k) \<noteq> []" using ne k by simp
    have "run_end (runs ! k) - 1 \<in> fst ` set (flat_changes runs)"
      using run_changes_bounds(2) [OF nek] nth_mem [OF k] by (auto simp: flat_changes_def image_iff)
    then have "run_end (runs ! k) - 1 < length codes" by (auto simp: flat set_changed_cells)
    then show "run_end (runs ! k) \<le> length codes" by simp
  qed
  then show "ordered_runs (length codes) runs" by (simp add: ordered_runs_def)
qed

lemma writes_run_headers:
  assumes "ordered_runs n runs" "n < 2 ^ 32"
  shows "writes_state (\<lambda>w. try_fold (\<lambda>(w, previous_end) (start, vals).
      and_then (write_var_uint (word_of_nat (start - previous_end)) w) (\<lambda>w.
        and_then (write_var_uint (word_of_nat (length vals - 1)) w) (\<lambda>w.
          Ok (w, start + length vals)))) (w, 0) runs)
    (concat (map (run_header_bits runs) [0..<length runs])) (end_before runs (length runs))"
proof -
  define f where "f = (\<lambda>(w, previous_end) (start, vals :: u8 list).
      and_then (write_var_uint (word_of_nat (start - previous_end)) w) (\<lambda>w.
        and_then (write_var_uint (word_of_nat (length vals - 1)) w) (\<lambda>w.
          Ok (w, start + length vals))))"
  have "writes_state (\<lambda>w. f (w, end_before runs k) (runs ! k)) (run_header_bits runs k) (end_before runs (Suc k))"
    if k: "k < length runs" for k
  proof -
    obtain start vals where run: "runs ! k = (start, vals)" by fastforce
    have b: "start + length vals \<le> n" using assms(1) k run by (auto simp: ordered_runs_def run_end_def)
    have "writes_state (\<lambda>w. and_then (write_var_uint (word_of_nat (start - end_before runs k)) w) (\<lambda>w.
        and_then (write_var_uint (word_of_nat (length vals - 1)) w) (\<lambda>w. Ok (w, start + length vals))))
        (var_bits (start - end_before runs k) @ var_bits (length vals - 1)) (start + length vals)"
      using b assms(2) by (intro writes_state_bind writes_state_last writes_var_uint) auto
    then show ?thesis by (simp add: f_def run run_header_bits_def end_before_def run_end_def)
  qed
  then show ?thesis
    using writes_state_loop [of runs f "end_before runs" "run_header_bits runs"]
    by (simp add: f_def end_before_def)
qed

definition change_total :: "(nat \<times> u8 list) list \<Rightarrow> nat" where
  "change_total runs = sum_list (map (\<lambda>run. length (snd run)) runs)"

lemma read_count: "n < 2 ^ 32 \<Longrightarrow> \<exists>w. parses read_var_uint (var_bits n) w \<and> unat w = n"
  using parses_var_uint unat_u32 by blast

lemma parses_run_headers:
  assumes "ordered_runs n runs" "n < 2 ^ 32"
  shows "parses (\<lambda>r. try_fold (\<lambda>((runs, previous_end, change_count), r) _.
      and_then (read_var_uint r) (\<lambda>(offset, r).
        and_then (ok_or (Fault IntegerOverflow) (usize_checked_add previous_end (unat offset))) (\<lambda>start.
          and_then (read_var_uint r) (\<lambda>(len, r).
            if start < previous_end \<or> start > n \<or> unat len + 1 > n - start
            then Err (Fault (InvalidPayload ''delta run is invalid''))
            else Ok ((runs @ [(start, unat len + 1)], start + (unat len + 1), change_count + (unat len + 1)), r)))))
      (([], 0, 0), r) [0..<length runs])
    (concat (map (run_header_bits runs) [0..<length runs]))
    (map (\<lambda>run. (fst run, length (snd run))) runs, end_before runs (length runs), change_total runs)"
proof -
  define f where "f = (\<lambda>((runs, previous_end, change_count), r) (_ :: nat).
      and_then (read_var_uint r) (\<lambda>(offset, r).
        and_then (ok_or (Fault IntegerOverflow) (usize_checked_add previous_end (unat offset))) (\<lambda>start.
          and_then (read_var_uint r) (\<lambda>(len, r).
            if start < previous_end \<or> start > n \<or> unat len + 1 > n - start
            then Err (Fault (InvalidPayload ''delta run is invalid''))
            else Ok ((runs @ [(start, unat len + 1)], start + (unat len + 1), change_count + (unat len + 1)), r)))))"
  define vs where "vs = (\<lambda>k. (map (\<lambda>run. (fst run, length (snd run))) (take k runs), end_before runs k, change_total (take k runs)))"
  have "parses (\<lambda>r. f (vs k, r) ([0..<length runs] ! k)) (run_header_bits runs k) (vs (Suc k))" if k: "k < length runs" for k
  proof -
    define start len where "start = fst (runs ! k)" and "len = length (snd (runs ! k))"
    have b: "end_before runs k \<le> start" "1 \<le> len" "start + len \<le> n"
      using assms(1) k by (auto simp: ordered_runs_def run_end_def start_def len_def Suc_le_eq)
    have b': "start - end_before runs k < 2 ^ 32" "len - 1 < 2 ^ 32" using b assms(2) by linarith+
    obtain offset where offset: "parses read_var_uint (var_bits (start - end_before runs k)) offset"
      "unat offset = start - end_before runs k"
      using read_count b' by blast
    obtain more_cells where more_cells: "parses read_var_uint (var_bits (len - 1)) more_cells" "unat more_cells = len - 1"
      using read_count b' by blast
    have add: "usize_checked_add (end_before runs k) (unat offset) = Some start"
      using b assms(2) by (simp add: usize_checked_add_def USIZE_MAX_def offset(2))
    have len: "unat more_cells + 1 = len" using b more_cells(2) by simp
    have fits: "\<not> (start < end_before runs k \<or> start > n \<or> len > n - start)" using b by auto
    have nxt: "vs (Suc k) = (map (\<lambda>run. (fst run, length (snd run))) (take k runs) @ [(start, len)], start + len,
        change_total (take k runs) + len)"
      using k by (simp add: vs_def take_Suc_conv_app_nth end_before_def run_end_def start_def len_def change_total_def)
    have "parses (\<lambda>r. f (vs k, r) i)
        (var_bits (start - end_before runs k) @ var_bits (len - 1) @ []) (vs (Suc k))" for i
      unfolding f_def prod.case 
      by (subst vs_def, unfold prod.case, rule parses_bind [OF offset(1)], unfold add ok_or_simps and_then_simps,
          rule parses_bind [OF more_cells(1)], unfold len if_not_P [OF fits] nxt, rule parses_return)
    then show ?thesis by (simp add: run_header_bits_def start_def len_def)
  qed
  then show ?thesis
    using parses_loop [where f = f and vs = vs and xs = "[0..<length runs]" and enc = "run_header_bits runs"]
    by (simp add: f_def vs_def end_before_def change_total_def)
qed

lemma parses_run_values:
  assumes palette: "length palette \<le> 9" "snd ` set (flat_changes runs) \<subseteq> set palette"
  shows "parses (\<lambda>r. try_fold (\<lambda>(codes, r) (start, len).
        try_fold (\<lambda>(codes, r) offset.
            and_then (read_palette_code palette (bits_for_choices (length palette)) msg r)
              (\<lambda>(code, r). Ok (codes[start + offset := code], r)))
          (codes, r) [0..<len]) (old, r) (map (\<lambda>run. (fst run, length (snd run))) runs))
    (concat (map (\<lambda>run. concat (map (palette_bits palette) (snd run))) runs))
    (apply_changes old (flat_changes runs))"
proof -
  define place where "place = (\<lambda>(codes, r) position.
      and_then (read_palette_code palette (bits_for_choices (length palette)) msg r)
        (\<lambda>(code, r). Ok (codes[position := code], r)))"
  define f where "f = (\<lambda>acc (start, len).
      try_fold (\<lambda>(codes, r) offset.
          and_then (read_palette_code palette (bits_for_choices (length palette)) msg r)
            (\<lambda>(code, r). Ok (codes[start + offset := code], r))) acc [0..<len])"
  have f: "f acc (fst run, length (snd run)) = try_fold place acc (map fst (run_changes run))" for acc run
  proof -
    have "map fst (run_changes run) = map ((+) (fst run)) [0..<length (snd run)]"
      unfolding run_changes_def by (rule nth_equalityI) simp_all
    then show ?thesis by (simp add: f_def try_fold_map place_def case_prod_unfold)
  qed
  have "parses (\<lambda>r. f (apply_changes old (flat_changes (take k runs)), r) (map (\<lambda>run. (fst run, length (snd run))) runs ! k))
      (concat (map (palette_bits palette) (snd (runs ! k)))) (apply_changes old (flat_changes (take (Suc k) runs)))"
    if k: "k < length runs" for k
  proof -
    have "set (run_changes (runs ! k)) \<subseteq> set (flat_changes runs)" using nth_mem [OF k] by (auto simp: flat_changes_def)
    then have "snd ` set (run_changes (runs ! k)) \<subseteq> set palette" using palette(2) by blast
    from parses_changes_loop [OF palette(1) this, of msg "apply_changes old (flat_changes (take k runs))"]
    have "parses (\<lambda>r. try_fold place (apply_changes old (flat_changes (take k runs)), r) (map fst (run_changes (runs ! k))))
        (concat (map (palette_bits palette) (snd (runs ! k))))
        (apply_changes (apply_changes old (flat_changes (take k runs))) (run_changes (runs ! k)))"
      unfolding place_def by (simp add: run_changes_def)
    then show ?thesis using k
      by (simp add: f flat_changes_def take_Suc_conv_app_nth apply_changes_def)
  qed
  then show ?thesis
    using parses_loop [where f = f and vs = "\<lambda>k. apply_changes old (flat_changes (take k runs))"
        and xs = "map (\<lambda>run. (fst run, length (snd run))) runs"
        and enc = "\<lambda>k. concat (map (palette_bits palette) (snd (runs ! k)))"]
      map_nth_comp [of "\<lambda>run. concat (map (palette_bits palette) (snd run))" runs]
    by (simp add: f_def comp_def case_prod_unfold flat_changes_def [of "[]"])
qed

lemma length_ordered_runs: "\<forall>run\<in>set runs. snd run \<noteq> [] \<Longrightarrow> length runs \<le> length (flat_changes runs)"
proof (induction runs)
  case (Cons run runs)
  moreover have "0 < length (snd run)" using Cons.prems by simp
  ultimately show ?case by (simp add: flat_changes_def run_changes_def del: length_greater_0_conv)
qed simp

lemma change_total_pos: "0 < change_total runs \<Longrightarrow> flat_changes runs \<noteq> []"
  by (induction runs) (auto simp: change_total_def flat_changes_def run_changes_def)

lemma map_snd_flat_changes: "map snd (flat_changes runs) = concat (map snd runs)"
  by (induction runs) (auto simp: flat_changes_def run_changes_def)

lemma change_runs_facts:
  fixes codes previous :: "u8 list"
  defines "runs \<equiv> foldl push_change_run [] (changed_cells codes previous)"
  shows "ordered_runs (length codes) runs" "flat_changes runs = changed_cells codes previous" "length runs \<le> length codes"
proof -
  show ord: "ordered_runs (length codes) runs" and flat: "flat_changes runs = changed_cells codes previous"
    unfolding runs_def by (rule ordered_change_runs)+
  show "length runs \<le> length codes"
    using length_ordered_runs [of runs] ord length_changed_cells [of codes previous]
    by (force simp: flat ordered_runs_def in_set_conv_nth)
qed

lemma parses_delta_run_cells:
  fixes codes previous :: "u8 list"
  defines "runs \<equiv> foldl push_change_run [] (changed_cells codes previous)"
  assumes ok: "palette_ok palette" and pal: "set palette = set (map snd (changed_cells codes previous))"
    and codes: "length codes < 2 ^ 32"
  defines "tail \<equiv> concat (map (\<lambda>run. concat (map (palette_bits palette) (snd run))) runs)"
  shows "parses (read_delta_run_cells (length codes) (Some previous))
    (nat_bits 9 (unat (color_mask palette)) @ var_bits (length runs)
      @ concat (map (run_header_bits runs) [0..<length runs]) @ tail) codes"
proof -
  note facts = change_runs_facts [of codes previous, folded runs_def]
  have total: "\<not> (change_total runs > 0 \<and> palette = [])"
    using change_total_pos [of runs] pal by (auto simp: facts)
  obtain run_count where run_count: "parses read_var_uint (var_bits (length runs)) run_count" "unat run_count = length runs"
    using read_count facts(3) codes by (metis le_less_trans)
  have le: "\<not> length runs > length codes" using facts(3) by simp
  show ?thesis
    unfolding read_delta_run_cells_def [abs_def] fitted_previous_Some and_then_simps
  proof (rule parses_bind [OF palette_okD(2) [OF ok]], unfold palette_okD(4) [OF ok] Let_def,
      rule parses_bind [OF run_count(1)], unfold run_count(2) if_not_P [OF le],
      rule parses_bind [OF parses_run_headers [OF facts(1) codes]], unfold prod.case if_not_P [OF total])
    show "parses (\<lambda>r. try_fold (\<lambda>(codes, r) (start, len).
        try_fold (\<lambda>(codes, r) offset.
            and_then (read_palette_code palette (bits_for_choices (length palette)) ''delta palette index'' r)
              (\<lambda>(code, r). Ok (codes[start + offset := code], r)))
          (codes, r) [0..<len]) (fitted previous (length codes), r) (map (\<lambda>run. (fst run, length (snd run))) runs)) tail codes"
      using parses_run_values [OF palette_okD(3) [OF ok], of runs "''delta palette index''" "fitted previous (length codes)"]
        pal apply_changed_cells [of previous codes]
      by (simp add: tail_def facts)
  qed
qed

lemma delta_run_encoding_restores:
  assumes "valid_codes codes" "4 \<le> mode_width" "mode_width \<le> 32" "length codes < 2 ^ 32"
  shows "restores (length codes) (Some previous) mode_width codes (delta_run_encoding codes previous mode_width)"
proof -
  define runs where "runs = foldl push_change_run [] (changed_cells codes previous)"
  define vals where "vals = concat (map snd runs)"
  define palette where "palette = palette_of (\<lambda>c. c \<in> set vals) 0"
  note ord = change_runs_facts(1) [of codes previous, folded runs_def]
    and flat = change_runs_facts(2) [of codes previous, folded runs_def]
    and len = change_runs_facts(3) [of codes previous, folded runs_def]
  have vals: "vals = map snd (changed_cells codes previous)"
    unfolding vals_def flat [symmetric] map_snd_flat_changes ..
  have valid: "valid_codes vals"
    using assms(1) by (auto simp: vals valid_codes_def changed_cells_eq changed_positions_def)
  have ok: "palette_ok palette" by (auto simp: palette_ok_def palette_def)
  have pal: "set palette = set vals" using palette_of_set [OF valid] by (simp add: palette_def)
  define tail where "tail = concat (map (\<lambda>run. concat (map (palette_bits palette) (snd run))) runs)"
  have tail: "writes (\<lambda>w. try_fold (\<lambda>w (_, vals).
      try_fold (\<lambda>w code. write_palette_index palette code w) w vals) w runs) tail"
    unfolding tail_def case_prod_unfold
    by (intro writes_try_fold palette_index_codec(1) palette_okD(3) [OF ok]) (auto simp: pal vals_def)
  define bits where "bits = nat_bits 9 (unat (color_mask palette)) @ var_bits (length runs)
    @ concat (map (run_header_bits runs) [0..<length runs]) @ tail"
  have "writes (\<lambda>w. and_then (write_bits (color_mask palette) 9 w) (\<lambda>w.
      and_then (write_var_uint (word_of_nat (length runs)) w) (\<lambda>w.
        and_then
          (try_fold (\<lambda>(w, previous_end) (start, vals).
               and_then (write_var_uint (word_of_nat (start - previous_end)) w) (\<lambda>w.
                 and_then (write_var_uint (word_of_nat (length vals - 1)) w) (\<lambda>w.
                   Ok (w, start + length vals)))) (w, 0) runs)
          (\<lambda>(w, _). try_fold (\<lambda>w (_, vals).
              try_fold (\<lambda>w code. write_palette_index palette code w) w vals) w runs)))) bits"
    unfolding bits_def
    by (intro writes_then palette_okD(1) [OF ok] writes_var_uint writes_of_state [OF writes_run_headers [OF ord assms(4)]] tail)
      (use len assms(4) in auto)
  moreover have "parses (read_delta_run_cells (length codes) (Some previous)) bits codes"
    unfolding bits_def tail_def runs_def
    using parses_delta_run_cells [OF ok _ assms(4), of previous] pal by (simp add: vals)
  ultimately show ?thesis
    unfolding delta_run_encoding_def Let_def runs_def [symmetric] vals_def [symmetric]
      unique_codes_eq [OF valid] and_then_simps palette_def [symmetric]
    by (intro restoresI) (use assms in \<open>simp_all add: read_mode_def [abs_def] small_mode\<close>)
qed

end
