(* ===== verification/CellChoices.thy ===== *)
theory CellChoices
  imports CellRoundTrips
begin

text \<open>
  The two encodings of \<open>clearra-ctk3/src/cell.rs\<close> that name, colour after colour, which of the
  open cells have it, and the choice of the shortest encoding: whatever
  \<open>write_best_cell_encoding\<close> chooses, \<open>read_cell_encoding\<close> restores the field.
\<close>

section \<open>The cells of one colour among the open ones\<close>

lemma relative_positions_eq:
  "relative_positions codes remaining code = filter (\<lambda>k. codes ! (remaining ! k) = code) [0..<length remaining]"
  by (simp add: relative_positions_def enumerate_eq filter_map comp_def)

lemma remove_relative_positions_eq:
  "remove_relative_positions remaining (relative_positions codes remaining code)
   = filter (\<lambda>i. codes ! i \<noteq> code) remaining"
proof -
  have "remove_relative_positions remaining (relative_positions codes remaining code)
      = map (nth remaining) (filter (\<lambda>k. codes ! (remaining ! k) \<noteq> code) [0..<length remaining])"
    by (auto simp: remove_relative_positions_def relative_positions_eq enumerate_eq filter_map comp_def
        intro!: arg_cong [where f = "map (nth remaining)"] filter_cong)
  also have "\<dots> = filter (\<lambda>i. codes ! i \<noteq> code) (map (nth remaining) [0..<length remaining])"
    by (simp add: filter_map comp_def)
  finally show ?thesis by (simp add: map_nth)
qed

lemma combination_relative_positions:
  "combination (length remaining) (length (relative_positions codes remaining code)) (relative_positions codes remaining code)"
  by (auto simp: combination_def relative_positions_eq sorted_wrt_filter)

definition paint :: "u8 \<Rightarrow> nat list \<Rightarrow> u8 list \<Rightarrow> u8 list" where
  "paint code indices codes = foldl (\<lambda>codes index. codes[index := code]) codes indices"

lemma length_paint [simp]: "length (paint code indices codes) = length codes"
  by (induction indices rule: rev_induct) (simp_all add: paint_def)

lemma nth_paint: "j < length codes \<Longrightarrow> paint code indices codes ! j = (if j \<in> set indices then code else codes ! j)"
proof (induction indices rule: rev_induct)
  case (snoc index indices)
  then show ?case using length_paint [of code indices codes] by (cases "index = j") (auto simp: paint_def)
qed (simp add: paint_def)

lemma color_positions_eq:
  "color_positions code remaining (relative_positions source remaining code) codes
   = paint code (filter (\<lambda>i. source ! i = code) remaining) codes"
proof -
  have "filter (\<lambda>i. source ! i = code) (map (nth remaining) [0..<length remaining])
      = map (nth remaining) (relative_positions source remaining code)"
    by (simp add: relative_positions_eq filter_map comp_def)
  then show ?thesis by (simp add: color_positions_def paint_def map_nth foldl_map)
qed

text \<open>The cells still open after the colours \<open>done\<close>, and the field coloured so far.\<close>

definition open_cells :: "u8 list \<Rightarrow> nat list \<Rightarrow> u8 list \<Rightarrow> nat list" where
  "open_cells codes start painted = filter (\<lambda>i. codes ! i \<notin> set painted) start"

definition painted_cells :: "u8 list \<Rightarrow> u8 \<Rightarrow> nat list \<Rightarrow> u8 list \<Rightarrow> u8 list" where
  "painted_cells codes background start painted =
     map (\<lambda>i. if i \<in> set start \<and> codes ! i \<in> set painted then codes ! i else background) [0..<length codes]"

lemma open_cells_Nil [simp]: "open_cells codes start [] = start"
  by (simp add: open_cells_def)

lemma painted_cells_Nil [simp]: "painted_cells codes background start [] = replicate (length codes) background"
  by (simp add: painted_cells_def map_replicate_const)

lemma length_open_cells: "length (open_cells codes start painted) \<le> length start"
  by (simp add: open_cells_def)

lemma open_cells_snoc:
  "open_cells codes start (painted @ [c]) = filter (\<lambda>i. codes ! i \<noteq> c) (open_cells codes start painted)"
  by (auto simp: open_cells_def intro: filter_cong)

lemma painted_cells_snoc:
  assumes "c \<notin> set painted"
  shows "painted_cells codes background start (painted @ [c])
    = paint c (filter (\<lambda>i. codes ! i = c) (open_cells codes start painted)) (painted_cells codes background start painted)"
  using assms by (intro nth_equalityI) (auto simp: nth_paint painted_cells_def open_cells_def)

lemma paint_last_color:
  assumes "set codes' \<subseteq> set (painted @ [c])" "c \<notin> set painted" "codes' = map (nth codes) start"
    "\<And>i. i < length codes \<Longrightarrow> i \<notin> set start \<Longrightarrow> codes ! i = background"
  shows "paint c (open_cells codes start painted) (painted_cells codes background start painted) = codes"
proof (rule nth_equalityI)
  fix i assume "i < length (paint c (open_cells codes start painted) (painted_cells codes background start painted))"
  then have i: "i < length codes" by (simp add: painted_cells_def)
  have "i \<in> set start \<Longrightarrow> codes ! i \<in> set (painted @ [c])" using assms(1,3) by auto
  then show "paint c (open_cells codes start painted) (painted_cells codes background start painted) ! i = codes ! i"
    using i assms(4) [OF i] by (auto simp: nth_paint painted_cells_def open_cells_def)
qed (simp add: painted_cells_def)

section \<open>The loop over the colours\<close>

definition named_positions :: "u8 list \<Rightarrow> nat list \<Rightarrow> u8 list \<Rightarrow> nat \<Rightarrow> nat list" where
  "named_positions codes start colors k =
     relative_positions codes (open_cells codes start (take k colors)) (colors ! k)"

lemma writes_color_loop:
  assumes "\<And>k. k < length colors \<Longrightarrow>
    writes (put (open_cells codes start (take k colors)) (named_positions codes start colors k)) (enc k)"
  shows "writes_state (\<lambda>w. try_fold (\<lambda>(w, remaining) code.
      let positions = relative_positions codes remaining code
      in and_then (put remaining positions w) (\<lambda>w. Ok (w, remove_relative_positions remaining positions)))
      (w, start) colors) (concat (map enc [0..<length colors])) (open_cells codes start colors)"
proof -
  define f where "f = (\<lambda>(w, remaining) code. let positions = relative_positions codes remaining code
      in and_then (put remaining positions w) (\<lambda>w. Ok (w, remove_relative_positions remaining positions)))"
  have "writes_state (\<lambda>w. f (w, open_cells codes start (take k colors)) (colors ! k)) (enc k)
      (open_cells codes start (take (Suc k) colors))" if k: "k < length colors" for k
    using writes_state_last [OF assms [OF k], of "open_cells codes start (take (Suc k) colors)"] k
    by (simp add: f_def named_positions_def remove_relative_positions_eq take_Suc_conv_app_nth open_cells_snoc)
  then show ?thesis
    using writes_state_loop [where xs = colors and f = f and vs = "\<lambda>k. open_cells codes start (take k colors)" and enc = enc]
    by (simp add: f_def)
qed

lemma parses_color_loop:
  assumes "\<And>k. k < length colors \<Longrightarrow>
    parses (get (open_cells codes start (take k colors))) (enc k) (named_positions codes start colors k)" "distinct colors"
  shows "parses (\<lambda>r. try_fold (\<lambda>((codes, remaining), r) code.
      and_then (get remaining r) (\<lambda>(positions, r).
        Ok ((color_positions code remaining positions codes, remove_relative_positions remaining positions), r)))
      ((replicate (length codes) background, start), r) colors) (concat (map enc [0..<length colors]))
    (painted_cells codes background start colors, open_cells codes start colors)"
proof -
  define f where "f = (\<lambda>((codes, remaining), r) code. and_then (get remaining r) (\<lambda>(positions, r).
        Ok ((color_positions code remaining positions codes, remove_relative_positions remaining positions), r)))"
  define vs where "vs = (\<lambda>k. (painted_cells codes background start (take k colors), open_cells codes start (take k colors)))"
  have "parses (\<lambda>r. f (vs k, r) (colors ! k)) (enc k) (vs (Suc k))" if k: "k < length colors" for k
  proof -
    have new: "colors ! k \<notin> set (take k colors)" using assms(2) k by (auto simp: in_set_conv_nth nth_eq_iff_index_eq)
    have "vs (Suc k) = (color_positions (colors ! k) (snd (vs k)) (named_positions codes start colors k) (fst (vs k)),
        remove_relative_positions (snd (vs k)) (named_positions codes start colors k))"
      using k by (simp add: vs_def named_positions_def color_positions_eq remove_relative_positions_eq
          take_Suc_conv_app_nth open_cells_snoc painted_cells_snoc [OF new])
    with parses_map [OF assms(1) [OF k], of "\<lambda>positions. (color_positions (colors ! k) (snd (vs k)) positions (fst (vs k)),
        remove_relative_positions (snd (vs k)) positions)"]
    show ?thesis by (simp add: f_def vs_def)
  qed
  then show ?thesis
    using parses_loop [where xs = colors and f = f and vs = vs and enc = enc] by (simp add: f_def vs_def)
qed

section \<open>The multiset encoding\<close>

lemma distinct_palette_of: "distinct (palette_of P m)"
proof -
  have "inj_on (word_of_nat :: nat \<Rightarrow> u8) {..<9}" by (rule inj_on_inverseI [of _ unat]) (simp add: unat_small_u8)
  then show ?thesis by (auto simp: palette_of_def distinct_map intro: inj_on_subset)
qed

lemma palette_split: "palette \<noteq> [] \<Longrightarrow> palette = take (length palette - 1) palette @ [last palette]"
  by (metis append_butlast_last_id butlast_conv_take)

lemma length_relative_positions: "length (relative_positions codes remaining code) \<le> length remaining"
  using length_filter_le [of _ "[0..<length remaining]"] by (simp add: relative_positions_eq)

definition write_color_positions :: "nat list \<Rightarrow> nat list \<Rightarrow> BitWriter \<Rightarrow> codec_fault + BitWriter" where
  "write_color_positions remaining positions w =
     and_then (write_var_uint (word_of_nat (length positions)) w) (write_positions (length remaining) positions)"

definition read_color_positions :: "nat list \<Rightarrow> BitReader \<Rightarrow> codec_fault + nat list \<times> BitReader" where
  "read_color_positions remaining r =
     and_then (read_var_uint r) (\<lambda>(n, r).
       if unat n > length remaining then Err (Fault (InvalidPayload ''multiset count exceeds the field''))
       else read_positions (length remaining) (unat n) ''multiset rank is invalid'' r)"

lemma write_color_positions_then:
  "and_then (write_color_positions remaining positions w) f =
     and_then (write_var_uint (word_of_nat (length positions)) w) (\<lambda>w.
       and_then (write_positions (length remaining) positions w) f)"
  by (auto simp: write_color_positions_def and_then_def split: sum.split)

lemma read_color_positions_then:
  "and_then (read_color_positions remaining r) f =
     and_then (read_var_uint r) (\<lambda>(n, r).
       if unat n > length remaining then Err (Fault (InvalidPayload ''multiset count exceeds the field''))
       else and_then (read_positions (length remaining) (unat n) ''multiset rank is invalid'' r) f)"
  by (auto simp: read_color_positions_def and_then_def split: sum.split)

lemma color_positions_codec:
  assumes "length remaining < 2 ^ 32"
  shows "\<exists>bs. writes (write_color_positions remaining (relative_positions codes remaining code)) bs
    \<and> parses (read_color_positions remaining) bs (relative_positions codes remaining code)"
proof -
  define positions where "positions = relative_positions codes remaining code"
  have len: "length positions \<le> length remaining" unfolding positions_def by (rule length_relative_positions)
  then have small: "length positions < 2 ^ 32" using assms by linarith
  have fits: "\<not> length positions > length remaining" using len by simp
  obtain n where n: "parses read_var_uint (var_bits (length positions)) n" "unat n = length positions"
    using read_count [OF small] by blast
  obtain bs where bs: "writes (write_positions (length remaining) positions) bs"
    "parses (read_positions (length remaining) (length positions) ''multiset rank is invalid'') bs positions"
    using positions_codec [OF combination_relative_positions assms, of codes code] unfolding positions_def by blast
  have "writes (write_color_positions remaining positions) (var_bits (length positions) @ bs)"
    unfolding write_color_positions_def [abs_def] by (intro writes_then writes_var_uint small bs(1))
  moreover have "parses (read_color_positions remaining) (var_bits (length positions) @ bs) positions"
    unfolding read_color_positions_def [abs_def]
    by (rule parses_bind [OF n(1)], unfold n(2) if_not_P [OF fits], rule bs(2))
  ultimately show ?thesis unfolding positions_def by blast
qed

lemma multiset_encoding_restores:
  assumes "valid_codes codes" "3 \<le> mode_width" "mode_width \<le> 32" "length codes < 2 ^ 32"
  shows "restores (length codes) previous mode_width codes (multiset_encoding codes mode_width)"
proof -
  obtain P where P: "(if palette_of (\<lambda>c. c \<in> set codes) 0 = [] then [0] else palette_of (\<lambda>c. c \<in> set codes) 0) = palette_of P 0"
    "palette_of P 0 \<noteq> []" "set codes \<subseteq> set (palette_of P 0)"
    using field_palette [OF assms(1)] .
  define palette where "palette = palette_of P 0"
  note pal = P(1,2) [folded palette_def]
  note sub = P(3) [folded palette_def]
  have ok: "palette_ok palette" by (auto simp: palette_ok_def palette_def)
  define colors where "colors = take (length palette - 1) palette"
  have split: "palette = colors @ [last palette]" unfolding colors_def by (rule palette_split [OF pal(2)])
  have dist: "distinct colors" "last palette \<notin> set colors"
    using distinct_palette_of [of P 0] split unfolding palette_def [symmetric] by (metis distinct_append distinct_singleton not_distinct_conv_prefix)+
  define start where "start = [0..<length codes]"
  have "\<exists>bs. writes (write_color_positions (open_cells codes start (take k colors)) (named_positions codes start colors k)) bs
      \<and> parses (read_color_positions (open_cells codes start (take k colors))) bs (named_positions codes start colors k)" for k
    unfolding named_positions_def
    by (rule color_positions_codec) (use assms(4) length_open_cells [of codes start "take k colors"] in \<open>simp add: start_def\<close>)
  then obtain enc where enc:
    "\<And>k. writes (write_color_positions (open_cells codes start (take k colors)) (named_positions codes start colors k)) (enc k)"
    "\<And>k. parses (read_color_positions (open_cells codes start (take k colors))) (enc k) (named_positions codes start colors k)"
    by metis
  define tail where "tail = concat (map enc [0..<length colors])"
  define bits where "bits = nat_bits 9 (unat (color_mask palette)) @ tail"
  have "writes (\<lambda>w. and_then (write_bits (color_mask palette) 9 w) (\<lambda>w.
      and_then (try_fold (\<lambda>(w, remaining) code.
          let positions = relative_positions codes remaining code
          in and_then (write_color_positions remaining positions w) (\<lambda>w.
               Ok (w, remove_relative_positions remaining positions))) (w, start) colors) (\<lambda>(w, _). Ok w))) bits"
    unfolding bits_def tail_def
    by (intro writes_then palette_okD(1) [OF ok] writes_state_end [OF writes_color_loop] enc(1))
  moreover have "parses (read_multiset_encoding (length codes)) bits codes"
  proof -
    have whole: "paint (last palette) (open_cells codes start colors) (painted_cells codes 255 start colors) = codes"
      by (rule paint_last_color) (use sub split dist(2) in \<open>auto simp: start_def map_nth\<close>)
    have "parses (\<lambda>r. and_then (try_fold (\<lambda>((codes, remaining), r) code.
        and_then (read_color_positions remaining r) (\<lambda>(positions, r).
          Ok ((color_positions code remaining positions codes, remove_relative_positions remaining positions), r)))
        ((replicate (length codes) 255, start), r) colors)
        (\<lambda>((codes, remaining), r). Ok (foldl (\<lambda>codes index. codes[index := last palette]) codes remaining, r))) (tail @ []) codes"
      unfolding tail_def
      by (rule parses_bind [OF parses_color_loop [OF enc(2) dist(1)]])
        (simp only: prod.case paint_def [symmetric] whole, rule parses_return)
    then show ?thesis
      unfolding read_multiset_encoding_def [abs_def] bits_def
      by (intro parses_bind [OF palette_okD(2) [OF ok]])
        (simp only: palette_okD(4) [OF ok] if_not_P [OF pal(2)] read_color_positions_then Let_def
          colors_def [symmetric] start_def [symmetric] append_Nil2)
  qed
  ultimately show ?thesis
    unfolding multiset_encoding_def unique_codes_eq [OF assms(1)] and_then_simps Let_def pal(1) colors_def [symmetric] start_def [symmetric]
      write_color_positions_then
    by (intro restoresI) (use assms in \<open>simp_all add: read_mode_def [abs_def] small_mode\<close>)
qed

section \<open>The tetromino encoding\<close>

lemma tetromino_counts_eq:
  assumes "valid_codes codes" "length counts = 9"
  shows "tetromino_counts counts codes =
    (if 1 \<in> set codes then Ok None
     else Ok (Some (map (\<lambda>k. counts ! k + (if k = 0 then 0 else count_list codes (word_of_nat k))) [0..<9])))"
  using assms
proof (induction codes arbitrary: counts)
  case Nil
  then show ?case by (auto simp: list_eq_iff_nth_eq)
next
  case (Cons code codes)
  have lt: "unat code < 9" using Cons.prems by (simp add: valid_codes_def code_less_9)
  have eq: "word_of_nat k = code \<longleftrightarrow> k = unat code" if "k < 9" for k
    using that unat_small_u8 [OF that] by auto
  show ?case
  proof (cases "code = 0")
    case True
    then show ?thesis using Cons eq by (auto simp: valid_codes_def)
  next
    case False
    then have "unat code \<noteq> 0" by (simp add: unat_eq_zero)
    then show ?thesis using Cons lt False
      by (auto simp: valid_codes_def nth_list_update unat_small_u8)
  qed
qed

lemma length_filter_nth: "length (filter (\<lambda>i. codes ! i = c) [0..<length codes]) = count_list codes c"
proof -
  have "filter (\<lambda>x. x = c) codes = map (nth codes) (filter (\<lambda>i. codes ! i = c) [0..<length codes])"
    using filter_map [of "\<lambda>x. x = c" "nth codes" "[0..<length codes]"] by (simp add: map_nth comp_def)
  then have "length (filter (\<lambda>i. codes ! i = c) [0..<length codes]) = length (filter (\<lambda>x. x = c) codes)" by simp
  also have "\<dots> = count_list codes c" by (induction codes) simp_all
  finally show ?thesis .
qed

lemma count_list_filter: "count_list (filter P xs) x = (if P x then count_list xs x else 0)"
  by (induction xs) auto

text \<open>A field without grey cells in which every colour has four cells.\<close>

definition tetromino_field :: "u8 list \<Rightarrow> bool" where
  "tetromino_field codes \<longleftrightarrow> 1 \<notin> set codes \<and> (\<exists>c\<in>set codes. c \<noteq> 0) \<and> (\<forall>c\<in>set codes. c \<noteq> 0 \<longrightarrow> count_list codes c = 4)"

abbreviation tetromino_palette :: "u8 list \<Rightarrow> u8 list" where
  "tetromino_palette codes \<equiv> palette_of (\<lambda>c. c \<in> set codes \<and> 2 \<le> unat c) 2"

lemma occupied_code: "1 \<notin> set codes \<Longrightarrow> c \<in> set codes \<Longrightarrow> c \<noteq> 0 \<longleftrightarrow> 2 \<le> unat c" for c :: u8
proof -
  assume "1 \<notin> set codes" "c \<in> set codes"
  then have "unat c \<noteq> 1" by (metis unat_1 word_unat_eq_iff)
  then show ?thesis using unat_eq_zero [of c] by linarith
qed

lemma set_tetromino_palette:
  assumes "valid_codes codes" "1 \<notin> set codes"
  shows "set (tetromino_palette codes) = set (filter (\<lambda>c. c \<noteq> 0) codes)"
  using assms(1) occupied_code [OF assms(2)] by (auto simp: set_palette_of valid_codes_def code_less_9)

lemma tetromino_cell_count:
  assumes "valid_codes codes" "tetromino_field codes"
  shows "length (filter (\<lambda>c. c \<noteq> 0) codes) = length (tetromino_palette codes) * 4"
proof -
  define palette where "palette = tetromino_palette codes"
  have set: "set palette = set (filter (\<lambda>c. c \<noteq> 0) codes)"
    unfolding palette_def using assms by (intro set_tetromino_palette) (auto simp: tetromino_field_def)
  have "length (filter (\<lambda>c. c \<noteq> 0) codes) = sum (count_list (filter (\<lambda>c. c \<noteq> 0) codes)) (set palette)"
    unfolding set by (rule sum_count_set [symmetric]) simp_all
  also have "\<dots> = sum (\<lambda>_. 4) (set palette)"
    by (rule sum.cong) (use assms(2) in \<open>auto simp: set count_list_filter tetromino_field_def\<close>)
  also have "\<dots> = length palette * 4"
    by (simp add: distinct_card distinct_palette_of palette_def)
  finally show ?thesis by (simp add: palette_def)
qed

lemma named_positions_four:
  assumes "valid_codes codes" "tetromino_field codes" "k < length colors"
    "set colors \<subseteq> set (tetromino_palette codes)" "distinct colors"
  shows "length (named_positions codes (filter (\<lambda>i. codes ! i \<noteq> 0) [0..<length codes]) colors k) = 4"
proof -
  have c: "colors ! k \<in> set codes" "colors ! k \<noteq> 0"
    using subsetD [OF assms(4) nth_mem [OF assms(3)]] by (auto simp: set_palette_of)
  have new: "colors ! k \<notin> set (take k colors)"
    using assms(3,5) by (auto simp: in_set_conv_nth nth_eq_iff_index_eq)
  have "map (nth remaining) (relative_positions codes remaining c) = filter (\<lambda>i. codes ! i = c) remaining" for remaining c
    by (subst (3) map_nth [of remaining, symmetric]) (simp add: relative_positions_eq filter_map comp_def)
  then have "length (named_positions codes (filter (\<lambda>i. codes ! i \<noteq> 0) [0..<length codes]) colors k)
      = length (filter (\<lambda>i. codes ! i = colors ! k)
          (open_cells codes (filter (\<lambda>i. codes ! i \<noteq> 0) [0..<length codes]) (take k colors)))"
    unfolding named_positions_def by (metis length_map)
  also have "\<dots> = length (filter (\<lambda>i. codes ! i = colors ! k) [0..<length codes])"
    using c new by (auto simp: open_cells_def intro!: arg_cong [where f = length] filter_cong)
  also have "\<dots> = 4" using assms(2) c by (simp add: length_filter_nth tetromino_field_def)
  finally show ?thesis .
qed

definition write_four :: "nat list \<Rightarrow> nat list \<Rightarrow> BitWriter \<Rightarrow> codec_fault + BitWriter" where
  "write_four remaining positions w =
     and_then (combination_count (length remaining) 4) (\<lambda>choices.
       and_then (combination_rank positions) (\<lambda>rank.
         and_then (bits_for_big_choices choices) (\<lambda>width. write_big_bits rank width w)))"

lemma write_four_then:
  "and_then (write_four remaining positions w) f =
     and_then (combination_count (length remaining) 4) (\<lambda>choices.
       and_then (combination_rank positions) (\<lambda>rank.
         and_then (bits_for_big_choices choices) (\<lambda>width. and_then (write_big_bits rank width w) f)))"
  by (auto simp: write_four_def and_then_def split: sum.split)

definition tetromino_writer :: "u8 list \<Rightarrow> BitWriter \<Rightarrow> codec_fault + BitWriter" where
  "tetromino_writer codes w =
     and_then (write_occupancy_mask (map (\<lambda>code. if code \<noteq> 0 then 1 else 0) codes) w) (\<lambda>w.
       and_then (write_bits (drop_bit 2 (color_mask (tetromino_palette codes))) 7 w) (\<lambda>w.
         and_then
           (try_fold (\<lambda>(w, remaining) code.
                let positions = relative_positions codes remaining code
                in and_then (write_four remaining positions w) (\<lambda>w. Ok (w, remove_relative_positions remaining positions)))
              (w, filter (\<lambda>i. codes ! i \<noteq> 0) [0..<length codes])
              (take (length (tetromino_palette codes) - 1) (tetromino_palette codes)))
           (\<lambda>(w, _). Ok w)))"

lemma tetromino_color_encoding_eq:
  assumes "valid_codes codes"
  shows "tetromino_color_encoding codes mode_width =
    (if tetromino_field codes
     then and_then (and_then (write_bits 5 mode_width bw_default) (tetromino_writer codes)) (\<lambda>w. Ok (Some w))
     else Ok None)"
proof (cases "1 \<in> set codes")
  case True
  then show ?thesis by (simp add: tetromino_color_encoding_def tetromino_counts_eq [OF assms] tetromino_field_def)
next
  case False
  define counts where "counts = map (\<lambda>k. replicate 9 0 ! k + (if k = 0 then 0 else count_list codes (word_of_nat k))) [0..<9]"
  have counts: "tetromino_counts (replicate 9 0) codes = Ok (Some counts)"
    using False by (simp add: tetromino_counts_eq [OF assms] counts_def)
  have nth: "counts ! k = count_list codes (word_of_nat k)" if "2 \<le> k" "k < 9" for k
    using that by (simp add: counts_def)
  have palette: "map word_of_nat (filter (\<lambda>code. counts ! code \<noteq> 0) [2..<9]) = tetromino_palette codes"
    by (auto simp: palette_of_def nth count_list_0_iff unat_small_u8 intro!: arg_cong [where f = "map word_of_nat"] filter_cong)
  have field: "(tetromino_palette codes = [] \<or> list_ex (\<lambda>code. counts ! unat code \<noteq> 4) (tetromino_palette codes))
      \<longleftrightarrow> \<not> tetromino_field codes"
  proof -
    have "list_ex (\<lambda>code. counts ! unat code \<noteq> 4) (tetromino_palette codes)
        \<longleftrightarrow> (\<exists>c\<in>set (tetromino_palette codes). count_list codes c \<noteq> 4)"
      unfolding list_ex_iff by (rule bex_cong) (auto simp: set_palette_of nth)
    moreover have "tetromino_palette codes = [] \<longleftrightarrow> \<not> (\<exists>c\<in>set codes. c \<noteq> 0)"
      unfolding set_empty [symmetric] set_tetromino_palette [OF assms False] by auto
    ultimately show ?thesis
      using False by (auto simp: set_tetromino_palette [OF assms False] tetromino_field_def)
  qed
  have start: "map fst (filter (\<lambda>(index, code). code \<noteq> 0) (enumerate 0 codes)) = filter (\<lambda>i. codes ! i \<noteq> 0) [0..<length codes]"
    by (simp add: enumerate_eq filter_map comp_def)
  show ?thesis
    unfolding tetromino_color_encoding_def counts and_then_simps option.case Let_def palette field start [unfolded case_prod_unfold]
      tetromino_writer_def write_four_then and_then_assoc case_prod_unfold by simp
qed

lemma tetromino_step_codec:
  fixes codes colors k
  defines "start \<equiv> filter (\<lambda>i. codes ! i \<noteq> 0) [0..<length codes]"
  assumes "valid_codes codes" "tetromino_field codes" "k < length colors"
    "set colors \<subseteq> set (tetromino_palette codes)" "distinct colors" "length codes < 2 ^ 32"
  shows "\<exists>bs. writes (write_four (open_cells codes start (take k colors)) (named_positions codes start colors k)) bs
    \<and> parses (read_positions (length (open_cells codes start (take k colors))) 4 ''tetromino color rank is invalid'') bs
        (named_positions codes start colors k)"
proof -
  define remaining positions where "remaining = open_cells codes start (take k colors)"
    and "positions = named_positions codes start colors k"
  have four: "length positions = 4"
    unfolding positions_def start_def using assms by (intro named_positions_four) simp_all
  have "combination (length remaining) (length positions) positions"
    unfolding remaining_def positions_def named_positions_def by (rule combination_relative_positions)
  moreover have "length remaining < 2 ^ 32"
    using assms(7) length_open_cells [of codes start "take k colors"] length_filter_le [of "\<lambda>i. codes ! i \<noteq> 0" "[0..<length codes]"]
    by (simp add: remaining_def start_def)
  moreover have "write_four remaining positions = write_positions (length remaining) positions"
    by (simp add: fun_eq_iff write_four_def write_positions_def four)
  ultimately show ?thesis
    unfolding remaining_def [symmetric] positions_def [symmetric]
    using positions_codec [of "length remaining" 4 positions] by (simp add: four)
qed

text \<open>The loop over all colours but the last, and the last colour on the cells that stay open.\<close>

lemma parses_tetromino_colors:
  assumes enc: "\<And>k. k < length colors \<Longrightarrow> parses (read_positions (length (open_cells codes start (take k colors))) 4 ''tetromino color rank is invalid'') (enc k)
      (named_positions codes start colors k)"
    and dist: "distinct colors" "final \<notin> set colors"
    and start: "start = filter (\<lambda>i. codes ! i \<noteq> 0) [0..<length codes]"
    and set: "set (map (nth codes) start) \<subseteq> set (colors @ [final])"
  shows "parses (\<lambda>r. and_then (try_fold (\<lambda>((codes, remaining), r) code.
      and_then (read_positions (length remaining) 4 ''tetromino color rank is invalid'' r) (\<lambda>(positions, r).
        Ok ((color_positions code remaining positions codes, remove_relative_positions remaining positions), r)))
      ((replicate (length codes) 0, start), r) colors)
      (\<lambda>((codes, remaining), r). Ok (foldl (\<lambda>codes index. codes[index := final]) codes remaining, r)))
    (concat (map enc [0..<length colors])) codes"
proof -
  have whole: "paint final (open_cells codes start colors) (painted_cells codes 0 start colors) = codes"
    by (rule paint_last_color [OF set]) (use dist(2) in \<open>auto simp: start\<close>)
  show ?thesis
    by (subst append_Nil2 [symmetric], rule parses_bind [OF parses_color_loop [OF enc dist(1)]])
      (simp_all only: prod.case paint_def [symmetric] whole parses_return)
qed

lemma tetromino_writer_restores:
  assumes "valid_codes codes" "3 \<le> mode_width" "mode_width \<le> 32" "length codes < 2 ^ 32" and field: "tetromino_field codes"
  shows "restores (length codes) previous mode_width codes
    (and_then (write_bits 5 mode_width bw_default) (tetromino_writer codes))"
proof -
  define P where "P = (\<lambda>c. c \<in> set codes \<and> 2 \<le> unat c)"
  define palette where "palette = tetromino_palette codes"
  define start where "start = filter (\<lambda>i. codes ! i \<noteq> 0) [0..<length codes]"
  define occupied where "occupied = map (\<lambda>code. if code \<noteq> 0 then 1 else (0 :: u8)) codes"
  define colors where "colors = take (length palette - 1) palette"
  have set: "set palette = set (filter (\<lambda>c. c \<noteq> 0) codes)"
    unfolding palette_def using field by (intro set_tetromino_palette assms(1)) (simp add: tetromino_field_def)
  then have ne: "palette \<noteq> []" using field by (auto simp: tetromino_field_def filter_empty_conv)
  have split: "palette = colors @ [last palette]" unfolding colors_def by (rule palette_split [OF ne])
  have "distinct (colors @ [last palette])"
    by (subst split [symmetric], unfold palette_def, rule distinct_palette_of)
  then have dist: "distinct colors" "last palette \<notin> set colors" by auto
  have count: "\<not> (palette = [] \<or> length (filter (\<lambda>v. v \<noteq> 0) occupied) \<noteq> length palette * 4)"
    using ne tetromino_cell_count [OF assms(1) field] by (simp add: occupied_def filter_map comp_def palette_def)
  have occ_start: "map fst (filter (\<lambda>(_, v). v \<noteq> 0) (enumerate 0 occupied)) = start"
    by (auto simp: occupied_def start_def enumerate_eq filter_map comp_def intro!: filter_cong)
  obtain bs where bs: "writes (write_occupancy_mask occupied) bs" "parses (read_occupancy_mask (length codes)) bs occupied"
    using occupancy_mask_codec [of occupied] assms(4) by (auto simp: occupied_def)
  define m where "m = drop_bit 2 (color_mask palette)"
  have m: "writes (write_bits m 7) (nat_bits 7 (unat m))" "parses (read_bits 7) (nat_bits 7 (unat m)) m"
    using writes_color_mask [of 2 P 2] parses_color_mask [of 2 P 2] by (simp_all add: m_def palette_def P_def)
  have m3: "palette_from_mask (push_bit 2 m) 2 = palette"
    unfolding m_def palette_def by (rule palette_from_shifted_mask) simp_all
  have sub: "set colors \<subseteq> set (tetromino_palette codes)"
    by (auto simp: colors_def palette_def dest: in_set_takeD)
  from tetromino_step_codec [OF assms(1) field _ sub dist(1) assms(4), folded start_def]
  obtain enc where enc:
    "\<And>k. k < length colors \<Longrightarrow> writes (write_four (open_cells codes start (take k colors)) (named_positions codes start colors k)) (enc k)"
    "\<And>k. k < length colors \<Longrightarrow> parses (read_positions (length (open_cells codes start (take k colors))) 4 ''tetromino color rank is invalid'') (enc k)
          (named_positions codes start colors k)"
    by metis
  define tail where "tail = concat (map enc [0..<length colors])"
  have "writes (tetromino_writer codes) (bs @ nat_bits 7 (unat m) @ tail)"
    unfolding tetromino_writer_def [abs_def] tail_def palette_def [symmetric] m_def [symmetric]
      colors_def [symmetric] start_def [symmetric] occupied_def [symmetric]
    by (intro writes_then bs(1) m(1) writes_state_end [OF writes_color_loop] enc(1))
  moreover have "set (map (nth codes) start) \<subseteq> set (colors @ [last palette])"
    unfolding split [symmetric] set by (auto simp: start_def)
  then have "parses (read_tetromino_color_encoding (length codes)) (bs @ nat_bits 7 (unat m) @ tail) codes"
    unfolding read_tetromino_color_encoding_def [abs_def]
    by (intro parses_bind [OF bs(2)] parses_bind [OF m(2)])
      (simp only: m3 Let_def if_not_P [OF count] occ_start colors_def [symmetric] tail_def
        parses_tetromino_colors [OF enc(2) dist start_def])
  ultimately show ?thesis
    by (intro restoresI) (use assms in \<open>simp_all add: read_mode_def [abs_def] small_mode\<close>)
qed

lemma tetromino_color_encoding_restores:
  assumes "valid_codes codes" "3 \<le> mode_width" "mode_width \<le> 32" "length codes < 2 ^ 32"
  shows "\<exists>candidate. tetromino_color_encoding codes mode_width = Ok candidate
    \<and> (\<forall>w. candidate = Some w \<longrightarrow> restores (length codes) previous mode_width codes (Ok w))"
proof (cases "tetromino_field codes")
  case True
  from tetromino_writer_restores [OF assms True, of previous]
  show ?thesis using True by (force simp: tetromino_color_encoding_eq [OF assms(1)] restores_def)
qed (simp add: tetromino_color_encoding_eq [OF assms(1)])

section \<open>Repeated and empty fields\<close>

lemma empty_mode_restores:
  assumes "list_all (\<lambda>code. code = 0) codes" "3 \<le> mode_width" "mode_width \<le> 32"
  shows "restores (length codes) previous mode_width codes (single_mode_encoding 7 mode_width)"
proof -
  have "codes = replicate (length codes) 0"
    using assms(1) by (auto simp: list_all_iff intro!: replicate_eqI)
  then have "restores (length codes) previous mode_width codes (and_then (write_bits 7 mode_width bw_default) Ok)"
    using assms by (intro restoresI [OF writes_nothing]) (auto simp: read_mode_def [abs_def] small_mode parses_return)
  then show ?thesis by (simp add: single_mode_encoding_def and_then_def split: sum.splits)
qed

lemma repeat_mode_restores:
  assumes "fitted previous (length codes) = codes" "3 \<le> mode_width" "mode_width \<le> 32"
  shows "restores (length codes) (Some previous) mode_width codes (single_mode_encoding 6 mode_width)"
proof -
  have "restores (length codes) (Some previous) mode_width codes (and_then (write_bits 6 mode_width bw_default) Ok)"
    using assms by (intro restoresI [OF writes_nothing]) (auto simp: read_mode_def [abs_def] small_mode parses_return)
  then show ?thesis by (simp add: single_mode_encoding_def and_then_def split: sum.splits)
qed

lemma fitted_equal: "arrays_equal_fitted codes previous \<Longrightarrow> fitted previous (length codes) = codes"
  by (rule nth_equalityI) (auto simp: arrays_equal_fitted_def list_all_iff enumerate_eq)

section \<open>The shortest encoding\<close>

definition candidate :: "(BitReader \<Rightarrow> codec_fault + 'a \<times> BitReader) \<Rightarrow> 'a \<Rightarrow> BitWriter \<Rightarrow> bool" where
  "candidate get x w \<longleftrightarrow> wf_writer w \<and> parses get (writer_bits w) x"

lemma candidate_of_codec:
  assumes "codec put get x" obtains c where "put bw_default = Ok c" "candidate get x c"
proof -
  obtain bs where "writes put bs" "parses get bs x" using assms by (auto simp: codec_def)
  then show ?thesis using that by (force simp: writes_def candidate_def)
qed

definition shortest :: "BitWriter \<Rightarrow> BitWriter list \<Rightarrow> BitWriter" where
  "shortest = foldl (\<lambda>shortest c. if bw_bit_len c < bw_bit_len shortest then c else shortest)"

lemma shortest_in: "shortest c cs \<in> set (c # cs)"
  by (induction cs rule: rev_induct) (auto simp: shortest_def)

lemma shortest_le: "d \<in> set (c # cs) \<Longrightarrow> bw_bit_len (shortest c cs) \<le> bw_bit_len d"
  by (induction cs rule: rev_induct) (auto simp: shortest_def)

lemma append_shortest_writes:
  assumes "\<forall>c\<in>set candidates. candidate get x c" "candidates \<noteq> []"
  shows "\<exists>bs. writes (append_shortest candidates) bs \<and> parses get bs x \<and> (\<forall>c\<in>set candidates. length bs \<le> bw_bit_len c)"
proof -
  obtain c cs where c: "candidates = c # cs" using assms(2) by (cases candidates) auto
  have eq: "append_shortest candidates = (\<lambda>w. Ok (append_writer (shortest c cs) w))"
    by (simp add: append_shortest_def c shortest_def fun_eq_iff)
  have "candidate get x (shortest c cs)" using assms(1) shortest_in unfolding c by blast
  then have "wf_writer (shortest c cs)" "parses get (writer_bits (shortest c cs)) x"
    by (auto simp: candidate_def)
  then show ?thesis
    using shortest_le [of _ c cs] unfolding eq unfolding c
    by (intro exI [of _ "writer_bits (shortest c cs)"]) (auto intro: writes_append_writer)
qed

lemma codec_shortest: "\<forall>c\<in>set candidates. candidate get x c \<Longrightarrow> candidates \<noteq> [] \<Longrightarrow> codec (append_shortest candidates) get x"
  using append_shortest_writes [of candidates get x] by (auto simp: codec_def)

abbreviation restoring :: "nat \<Rightarrow> u8 list option \<Rightarrow> nat \<Rightarrow> u8 list \<Rightarrow> BitWriter \<Rightarrow> bool" where
  "restoring n previous mode_width codes \<equiv> candidate (read_cell_encoding n previous mode_width) codes"

lemma restores_iff: "restores n previous mode_width codes f \<longleftrightarrow> (\<exists>w. f = Ok w \<and> restoring n previous mode_width codes w)"
  by (auto simp: restores_def candidate_def)

text \<open>A list of candidates that all restore the field.\<close>

definition candidates_ok :: "nat \<Rightarrow> u8 list option \<Rightarrow> nat \<Rightarrow> u8 list \<Rightarrow> codec_fault + BitWriter list \<Rightarrow> bool" where
  "candidates_ok n previous mode_width codes f \<longleftrightarrow>
     (\<exists>cs. f = Ok cs \<and> (\<forall>c\<in>set cs. restoring n previous mode_width codes c))"

lemma candidates_nil: "candidates_ok n previous mode_width codes (Ok [])"
  by (simp add: candidates_ok_def)

lemma candidates_one:
  "restores n previous mode_width codes f \<Longrightarrow> candidates_ok n previous mode_width codes (and_then f (\<lambda>c. Ok [c]))"
  by (auto simp: candidates_ok_def restores_iff)

definition delta_candidate_list :: "u8 list \<Rightarrow> u8 list option \<Rightarrow> nat \<Rightarrow> codec_fault + BitWriter list" where
  "delta_candidate_list codes previous mode_width =
     (case previous of None \<Rightarrow> Ok []
      | Some previous \<Rightarrow>
          and_then (delta_encoding codes previous mode_width) (\<lambda>d0.
            if mode_width \<ge> 4
            then and_then (change_mask_encoding codes previous mode_width) (\<lambda>d1.
                 and_then (delta_run_encoding codes previous mode_width) (\<lambda>d2.
                 and_then (single_color_delta_encoding codes previous mode_width) (\<lambda>d3.
                 and_then (combinatorial_delta_encoding codes previous mode_width) (\<lambda>d4.
                   Ok ([d0, d1, d2] @ (case d3 of None \<Rightarrow> [] | Some d3 \<Rightarrow> [d3]) @ [d4])))))
            else Ok [d0]))"

definition multiset_candidate_list :: "u8 list \<Rightarrow> u8 list option \<Rightarrow> nat \<Rightarrow> codec_fault + BitWriter list" where
  "multiset_candidate_list codes previous mode_width =
     and_then (if list_all (\<lambda>code. code = 0) codes
               then and_then (single_mode_encoding 7 mode_width) (\<lambda>m. Ok [m]) else Ok []) (\<lambda>m0.
     and_then (if (case previous of None \<Rightarrow> False | Some prior \<Rightarrow> arrays_equal_fitted codes prior)
               then and_then (single_mode_encoding 6 mode_width) (\<lambda>m. Ok [m]) else Ok []) (\<lambda>m1.
     and_then (multiset_encoding codes mode_width) (\<lambda>m2.
     and_then (tetromino_color_encoding codes mode_width) (\<lambda>m3.
       Ok (m0 @ m1 @ [m2] @ (case m3 of None \<Rightarrow> [] | Some m3 \<Rightarrow> [m3]))))))"

lemma fitted_self: "fitted codes (length codes) = codes"
  by (rule nth_equalityI) (simp_all add: get_or_def)

lemma delta_candidates:
  assumes "valid_codes codes" "2 \<le> mode_width" "mode_width \<le> 32" "length codes < 2 ^ 32"
  shows "candidates_ok (length codes) (Some previous) mode_width codes (delta_candidate_list codes (Some previous) mode_width)"
proof (cases "4 \<le> mode_width")
  case True
  show ?thesis
    unfolding delta_candidate_list_def option.case
    using delta_encoding_restores [OF assms, of previous] change_mask_encoding_restores [OF assms(1) True assms(3,4), of previous]
      delta_run_encoding_restores [OF assms(1) True assms(3,4), of previous]
      single_color_delta_restores [OF assms(1) True assms(3,4), of previous]
      combinatorial_delta_restores [OF assms(1) True assms(3,4), of previous] True
    by (auto simp: candidates_ok_def restores_iff split: option.splits)
next
  case False
  then show ?thesis
    unfolding delta_candidate_list_def option.case
    using delta_encoding_restores [OF assms, of previous] by (auto simp: candidates_ok_def restores_iff)
qed

lemma multiset_candidates:
  assumes "valid_codes codes" "3 \<le> mode_width" "mode_width \<le> 32" "length codes < 2 ^ 32"
  shows "candidates_ok (length codes) previous mode_width codes (multiset_candidate_list codes previous mode_width)"
proof -
  have "candidates_ok (length codes) previous mode_width codes (if list_all (\<lambda>code. code = 0) codes
      then and_then (single_mode_encoding 7 mode_width) (\<lambda>m. Ok [m]) else Ok [])"
    using empty_mode_restores [OF _ assms(2,3)] by (simp add: candidates_nil candidates_one)
  moreover have "candidates_ok (length codes) previous mode_width codes
      (if (case previous of None \<Rightarrow> False | Some prior \<Rightarrow> arrays_equal_fitted codes prior)
       then and_then (single_mode_encoding 6 mode_width) (\<lambda>m. Ok [m]) else Ok [])"
    using repeat_mode_restores [OF fitted_equal assms(2,3)]
    by (cases previous) (simp_all add: candidates_nil candidates_one)
  ultimately show ?thesis
    unfolding multiset_candidate_list_def
    using multiset_encoding_restores [OF assms, of previous] tetromino_color_encoding_restores [OF assms, of previous]
    by (fastforce simp: candidates_ok_def restores_iff split: option.splits)
qed

lemma write_best_writes:
  assumes "valid_codes codes" "2 \<le> mode_width" "mode_width \<le> 32" "length codes < 2 ^ 32"
    "include_multiset \<longrightarrow> 3 \<le> mode_width"
  shows "\<exists>bs. writes (write_best_cell_encoding codes previous mode_width include_multiset) bs
    \<and> parses (read_cell_encoding (length codes) previous mode_width) bs codes
    \<and> length bs \<le> mode_width + 9 + 4 * length codes"
proof -
  obtain c0 c1 c2 where c: "palette_encoding codes mode_width = Ok c0" "run_length_encoding codes mode_width = Ok c1"
    "occupancy_encoding codes mode_width = Ok c2"
    "\<forall>c\<in>{c0, c1, c2}. restoring (length codes) previous mode_width codes c"
    using palette_encoding_restores [OF assms(1-3), of previous] run_length_encoding_restores [OF assms(1-4), of previous]
      occupancy_encoding_restores [OF assms(1-4), of previous] by (auto simp: restores_iff)
  obtain ds where ds: "delta_candidate_list codes previous mode_width = Ok ds"
    "\<forall>c\<in>set ds. restoring (length codes) previous mode_width codes c"
    using candidates_nil [of "length codes" previous mode_width codes] delta_candidates [OF assms(1-4)]
    by (cases previous) (auto simp: candidates_ok_def delta_candidate_list_def [of _ None])
  obtain ms where ms: "(if include_multiset then multiset_candidate_list codes previous mode_width else Ok []) = Ok ms"
    "\<forall>c\<in>set ms. restoring (length codes) previous mode_width codes c"
    using multiset_candidates [OF assms(1) _ assms(3,4), of previous] assms(5) candidates_nil
    unfolding candidates_ok_def by (cases include_multiset) (simp only: if_True if_False; blast)+
  have "write_best_cell_encoding codes previous mode_width include_multiset = append_shortest ([c0, c1, c2] @ ds @ ms)"
    unfolding write_best_cell_encoding_def [abs_def] c(1-3) delta_candidate_list_def [symmetric]
      multiset_candidate_list_def [symmetric] ds(1) ms(1) by simp
  then show ?thesis
    using append_shortest_writes [of "[c0, c1, c2] @ ds @ ms" "read_cell_encoding (length codes) previous mode_width" codes] c(4) ds(2) ms(2)
      palette_encoding_size [OF assms(1,3) c(1)] by fastforce
qed

lemma write_best_codec:
  assumes "valid_codes codes" "2 \<le> mode_width" "mode_width \<le> 32" "length codes < 2 ^ 32"
    "include_multiset \<longrightarrow> 3 \<le> mode_width"
  shows "codec (write_best_cell_encoding codes previous mode_width include_multiset)
    (read_cell_encoding (length codes) previous mode_width) codes"
  using write_best_writes [OF assms, of previous] by (auto simp: codec_def)

lemma write_best_predicted_codec:
  assumes "valid_codes codes" "4 \<le> mode_width" "mode_width \<le> 32" "length codes < 2 ^ 32"
  shows "codec (write_best_predicted_cell_encoding codes predictor mode_width)
    (read_cell_encoding (length codes) (Some predictor) mode_width) codes"
proof -
  have mw: "2 \<le> mode_width" "3 \<le> mode_width" using assms(2) by simp_all
  obtain d0 d1 d2 d3 single where d: "delta_encoding codes predictor mode_width = Ok d0"
    "change_mask_encoding codes predictor mode_width = Ok d1" "delta_run_encoding codes predictor mode_width = Ok d2"
    "combinatorial_delta_encoding codes predictor mode_width = Ok d3"
    "single_color_delta_encoding codes predictor mode_width = Ok single"
    "\<forall>c\<in>{d0, d1, d2, d3} \<union> set_option single. restoring (length codes) (Some predictor) mode_width codes c"
    using delta_encoding_restores [OF assms(1) mw(1) assms(3,4), of predictor] change_mask_encoding_restores [OF assms, of predictor]
      delta_run_encoding_restores [OF assms, of predictor] combinatorial_delta_restores [OF assms, of predictor]
      single_color_delta_restores [OF assms, of predictor]
    by (auto simp: restores_iff)
  have "candidates_ok (length codes) (Some predictor) mode_width codes
      (if codes = predictor then and_then (single_mode_encoding 6 mode_width) (\<lambda>m. Ok [m]) else Ok [])"
    using candidates_one [OF repeat_mode_restores [OF _ mw(2) assms(3), of predictor codes]] fitted_self [of codes]
    by (auto simp: candidates_nil)
  then obtain same where same:
    "(if codes = predictor then and_then (single_mode_encoding 6 mode_width) (\<lambda>m. Ok [m]) else Ok []) = Ok same"
    "\<forall>c\<in>set same. restoring (length codes) (Some predictor) mode_width codes c"
    unfolding candidates_ok_def by blast
  have "write_best_predicted_cell_encoding codes predictor mode_width
      = append_shortest ([d0, d1, d2, d3] @ same @ (case single of None \<Rightarrow> [] | Some c \<Rightarrow> [c]))"
    by (simp add: fun_eq_iff write_best_predicted_cell_encoding_def d(1-5) same(1))
  then show ?thesis
    using codec_shortest [of "[d0, d1, d2, d3] @ same @ (case single of None \<Rightarrow> [] | Some c \<Rightarrow> [c])"
        "read_cell_encoding (length codes) (Some predictor) mode_width" codes] d(6) same(2)
    by (auto split: option.splits)
qed

interpretation cells: bit_codec "\<lambda>codes. write_best_cell_encoding codes previous mode_width include_multiset"
  "read_cell_encoding n previous mode_width"
  "\<lambda>codes. valid_codes codes \<and> length codes = n \<and> n < 2 ^ 32 \<and> 2 \<le> mode_width \<and> mode_width \<le> 32
     \<and> (include_multiset \<longrightarrow> 3 \<le> mode_width)"
  for previous mode_width include_multiset n
  by unfold_locales (use write_best_codec in blast)

interpretation predicted_cells: bit_codec "\<lambda>codes. write_best_predicted_cell_encoding codes predictor mode_width"
  "read_cell_encoding n (Some predictor) mode_width"
  "\<lambda>codes. valid_codes codes \<and> length codes = n \<and> n < 2 ^ 32 \<and> 4 \<le> mode_width \<and> mode_width \<le> 32"
  for predictor mode_width n
  by unfold_locales (use write_best_predicted_codec in blast)

section \<open>Properties\<close>

text \<open>C3: whichever of its encodings \<open>write_best_cell_encoding\<close> finds shortest, the bytes hold at
  most four bits a cell beyond the mode and the palette, and \<open>read_cell_encoding\<close> reads the field
  back from them, for every predictor, mode width and set of candidates; only zero padding is left.\<close>

theorem cell_encoding_roundtrip:
  assumes "valid_codes codes" "length codes < 2 ^ 32" "2 \<le> mode_width" "mode_width \<le> 32"
    "include_multiset \<longrightarrow> 3 \<le> mode_width"
  shows "\<exists>w r. write_best_cell_encoding codes previous mode_width include_multiset bw_default = Ok w
    \<and> bw_bit_len w \<le> mode_width + 9 + 4 * length codes
    \<and> read_cell_encoding (length codes) previous mode_width (br_new (bw_bytes w)) = Ok (codes, r)
    \<and> is_ok (assert_zero_padding r)"
proof -
  obtain w where w: "write_best_cell_encoding codes previous mode_width include_multiset bw_default = Ok w" "wf_writer w"
    "8 * length (bw_bytes w) \<le> USIZE_MAX \<Longrightarrow>
      \<exists>r. read_cell_encoding (length codes) previous mode_width (br_new (bw_bytes w)) = Ok (codes, r)
        \<and> is_ok (assert_zero_padding r)"
    using cells.stream_roundtrip [of codes "length codes" mode_width include_multiset previous] assms by blast
  obtain bs where bs: "writes (write_best_cell_encoding codes previous mode_width include_multiset) bs"
    "length bs \<le> mode_width + 9 + 4 * length codes"
    using write_best_writes [OF assms(1,3,4,2,5)] by blast
  have len: "bw_bit_len w \<le> mode_width + 9 + 4 * length codes"
    using writes_from_default [OF bs(1) w(1)] bs(2) by (metis length_writer_bits)
  then have "8 * length (bw_bytes w) \<le> USIZE_MAX"
    using w(2) assms(2,4) by (simp add: wf_writer_def USIZE_MAX_def)
  then show ?thesis using w len by blast
qed

theorem cell_encoding_roundtrip_witness:
  "\<exists>w r. write_best_cell_encoding [0, 2, 2, 2, 2, 8] (Some [0, 2, 2]) 4 True bw_default = Ok w
    \<and> bw_bit_len w \<le> 37
    \<and> read_cell_encoding 6 (Some [0, 2, 2]) 4 (br_new (bw_bytes w)) = Ok ([0, 2, 2, 2, 2, 8], r)
    \<and> is_ok (assert_zero_padding r)"
proof -
  have len: "length [0, 2, 2, 2, 2, 8 :: u8] = 6" by simp
  have "valid_codes [0, 2, 2, 2, 2, 8]" by code_simp
  from cell_encoding_roundtrip [OF this, of 4 True "Some [0, 2, 2]", unfolded len] show ?thesis by simp
qed

text \<open>C19: the encodings of a field predicted from another one are undone in the same way by a reader
  that has the same predictor.\<close>

theorem predicted_encoding_roundtrip:
  assumes "valid_codes codes" "length codes < 2 ^ 32" "4 \<le> mode_width" "mode_width \<le> 32"
  shows "\<exists>w. write_best_predicted_cell_encoding codes predictor mode_width bw_default = Ok w
    \<and> (8 * length (bw_bytes w) \<le> USIZE_MAX \<longrightarrow>
        (\<exists>r. read_cell_encoding (length codes) (Some predictor) mode_width (br_new (bw_bytes w)) = Ok (codes, r)
          \<and> is_ok (assert_zero_padding r)))"
  using predicted_cells.stream_roundtrip [of codes "length codes" mode_width predictor] assms by blast

theorem predicted_encoding_roundtrip_witness:
  "\<exists>w. write_best_predicted_cell_encoding [1, 0, 3] [1, 1] 4 bw_default = Ok w
    \<and> (8 * length (bw_bytes w) \<le> USIZE_MAX \<longrightarrow>
        (\<exists>r. read_cell_encoding 3 (Some [1, 1]) 4 (br_new (bw_bytes w)) = Ok ([1, 0, 3], r)
          \<and> is_ok (assert_zero_padding r)))"
proof -
  have len: "length [1, 0, 3 :: u8] = 3" by simp
  have "valid_codes [1, 0, 3]" by code_simp
  from predicted_encoding_roundtrip [OF this, of 4 "[1, 1]", unfolded len] show ?thesis by simp
qed

end
