(* ===== verification/Pages.thy ===== *)
theory Pages
  imports BigNats "HOL-Library.Product_Lexorder"
begin

text \<open>
  Documents and pages of the CTK3 codec (\<open>clearra-ctk3/src/lib.rs\<close>) and the geometry of their
  operations (\<open>geometry.rs\<close>).  A comment is the list of its UTF-8 bytes, so that a Rust \<open>String\<close> is a
  list with \<open>is_utf8\<close>; coordinates are integers and \<open>i32::try_from\<close> is an explicit range check.  The
  lemmas show that the canonical form of an operation depends on its cells only and that normalized
  pages satisfy what the encoders rely on.
\<close>

section \<open>Pieces, colours and rotations\<close>

datatype Ctk3Piece = Ctk3I | Ctk3O | Ctk3T | Ctk3S | Ctk3Z | Ctk3J | Ctk3L

primrec wire_index :: "Ctk3Piece \<Rightarrow> u32" where
  "wire_index Ctk3I = 0"
| "wire_index Ctk3O = 1"
| "wire_index Ctk3T = 2"
| "wire_index Ctk3S = 3"
| "wire_index Ctk3Z = 4"
| "wire_index Ctk3J = 5"
| "wire_index Ctk3L = 6"

definition from_wire_index :: "u32 \<Rightarrow> Ctk3Piece option" where
  "from_wire_index index =
     (if index = 0 then Some Ctk3I else if index = 1 then Some Ctk3O else if index = 2 then Some Ctk3T
      else if index = 3 then Some Ctk3S else if index = 4 then Some Ctk3Z else if index = 5 then Some Ctk3J
      else if index = 6 then Some Ctk3L else None)"

datatype Ctk3Color = Empty | Gray | Piece Ctk3Piece

primrec color_code :: "Ctk3Color \<Rightarrow> u8" where
  "color_code Empty = 0"
| "color_code Gray = 1"
| "color_code (Piece piece) = ucast (wire_index piece) + 2"

definition color_from_code :: "u8 \<Rightarrow> Ctk3Color option" where
  "color_from_code c =
     (if c = 0 then Some Empty else if c = 1 then Some Gray else if c = 2 then Some (Piece Ctk3I)
      else if c = 3 then Some (Piece Ctk3O) else if c = 4 then Some (Piece Ctk3T) else if c = 5 then Some (Piece Ctk3S)
      else if c = 6 then Some (Piece Ctk3Z) else if c = 7 then Some (Piece Ctk3J) else if c = 8 then Some (Piece Ctk3L)
      else None)"

datatype Ctk3Rotation = Spawn | Right | Reverse | Left

definition rotation_from_quarter_turns :: "u32 \<Rightarrow> Ctk3Rotation option" where
  "rotation_from_quarter_turns index =
     (if index = 0 then Some Spawn else if index = 1 then Some Right else if index = 2 then Some Reverse
      else if index = 3 then Some Left else None)"

record Ctk3Operation =
  co_piece :: Ctk3Piece
  co_rotation :: Ctk3Rotation
  co_x :: int
  co_y :: int

section \<open>Flags, pages and documents\<close>

record Ctk3PageFlags =
  pf_lock :: bool
  pf_mirror :: bool
  pf_colorize :: bool
  pf_rise :: bool
  pf_quiz :: bool

definition default_flags :: Ctk3PageFlags where
  "default_flags = \<lparr>pf_lock = True, pf_mirror = False, pf_colorize = True, pf_rise = False, pf_quiz = False\<rparr>"

definition flags_bits :: "Ctk3PageFlags \<Rightarrow> u32" where
  "flags_bits flags =
     of_bool (pf_lock flags) OR push_bit 1 (of_bool (pf_mirror flags)) OR push_bit 2 (of_bool (pf_colorize flags))
       OR push_bit 3 (of_bool (pf_rise flags)) OR push_bit 4 (of_bool (pf_quiz flags))"

definition flags_from_bits :: "u32 \<Rightarrow> Ctk3PageFlags" where
  "flags_from_bits bits =
     \<lparr>pf_lock = (bits AND 1 \<noteq> 0), pf_mirror = (bits AND 2 \<noteq> 0), pf_colorize = (bits AND 4 \<noteq> 0),
      pf_rise = (bits AND 8 \<noteq> 0), pf_quiz = (bits AND 16 \<noteq> 0)\<rparr>"

record Ctk3Page =
  pg_height :: nat
  pg_cells :: "Ctk3Color list"
  pg_comment :: "u8 list"
  pg_operation :: "Ctk3Operation option"
  pg_flags :: Ctk3PageFlags
  pg_garbage :: "Ctk3Color list option"

record Ctk3Document =
  doc_width :: nat
  doc_pages :: "Ctk3Page list"

record NormalizedPage =
  np_height :: nat
  np_codes :: "u8 list"
  np_comment :: "u8 list"
  np_operation :: "Ctk3Operation option"
  np_flags :: Ctk3PageFlags
  np_garbage :: "u8 list option"

abbreviation CTK3_MAX_SEGMENT_PAGES :: nat where "CTK3_MAX_SEGMENT_PAGES \<equiv> 4096"
abbreviation CTK3_MAX_BUNDLE_PAGES :: nat where "CTK3_MAX_BUNDLE_PAGES \<equiv> 1048576"
abbreviation MAX_WIDTH :: nat where "MAX_WIDTH \<equiv> 31"
abbreviation MAX_HEIGHT :: nat where "MAX_HEIGHT \<equiv> 31"
abbreviation MAX_COMMENT_BYTES :: nat where "MAX_COMMENT_BYTES \<equiv> 1048576"
abbreviation MAX_OPERATION_COORDINATE :: nat where "MAX_OPERATION_COORDINATE \<equiv> 1073741823"

section \<open>Geometry of operations\<close>

primrec operation_rotations :: "Ctk3Piece \<Rightarrow> Ctk3Rotation list" where
  "operation_rotations Ctk3O = [Spawn]"
| "operation_rotations Ctk3I = [Spawn, Right]"
| "operation_rotations Ctk3S = [Spawn, Right]"
| "operation_rotations Ctk3Z = [Spawn, Right]"
| "operation_rotations Ctk3T = [Spawn, Right, Reverse, Left]"
| "operation_rotations Ctk3J = [Spawn, Right, Reverse, Left]"
| "operation_rotations Ctk3L = [Spawn, Right, Reverse, Left]"

definition operation_offsets :: "Ctk3Piece \<Rightarrow> Ctk3Rotation \<Rightarrow> (int \<times> int) list" where
  "operation_offsets piece rotation =
     (let offsets =
            (case piece of
               Ctk3I \<Rightarrow> [(- 1, 0), (0, 0), (1, 0), (2, 0)]
             | Ctk3O \<Rightarrow> [(0, 0), (1, 0), (0, 1), (1, 1)]
             | Ctk3T \<Rightarrow> [(- 1, 0), (0, 0), (1, 0), (0, 1)]
             | Ctk3S \<Rightarrow> [(- 1, 0), (0, 0), (0, 1), (1, 1)]
             | Ctk3Z \<Rightarrow> [(- 1, 1), (0, 1), (0, 0), (1, 0)]
             | Ctk3J \<Rightarrow> [(- 1, 1), (- 1, 0), (0, 0), (1, 0)]
             | Ctk3L \<Rightarrow> [(1, 1), (- 1, 0), (0, 0), (1, 0)])
      in if piece = Ctk3O then offsets
         else let turns = (case rotation of Spawn \<Rightarrow> 0 | Right \<Rightarrow> 1 | Reverse \<Rightarrow> 2 | Left \<Rightarrow> 3)
              in (map (\<lambda>(x, y). (y, - x)) ^^ turns) offsets)"

definition operation_cells :: "Ctk3Operation \<Rightarrow> (int \<times> int) list" where
  "operation_cells operation =
     map (\<lambda>(x, y). (co_x operation + x, co_y operation + y))
       (operation_offsets (co_piece operation) (co_rotation operation))"

definition i32_try_from :: "int \<Rightarrow> int option" where
  "i32_try_from v = (if - 2147483648 \<le> v \<and> v \<le> 2147483647 then Some v else None)"

text \<open>The candidates in the order the three nested loops of \<open>operation_from_cells\<close> try them.\<close>

definition operation_candidates :: "Ctk3Piece \<Rightarrow> (int \<times> int) list \<Rightarrow> Ctk3Operation list" where
  "operation_candidates piece target_cells =
     concat (map (\<lambda>rotation.
       concat (map (\<lambda>target_cell.
         concat (map (\<lambda>offset.
           case (i32_try_from (fst target_cell - fst offset), i32_try_from (snd target_cell - snd offset)) of
             (Some x, Some y) \<Rightarrow> [\<lparr>co_piece = piece, co_rotation = rotation, co_x = x, co_y = y\<rparr>]
           | _ \<Rightarrow> []) (operation_offsets piece rotation))) target_cells)) (operation_rotations piece))"

definition operation_from_cells :: "Ctk3Piece \<Rightarrow> (int \<times> int) list \<Rightarrow> Ctk3Operation option" where
  "operation_from_cells piece cells =
     (let target_cells = sort_key (\<lambda>(x, y). (y, x)) cells
      in List.find (\<lambda>candidate. list_all (\<lambda>cell. cell \<in> set target_cells) (operation_cells candidate))
           (operation_candidates piece target_cells))"

definition canonicalize_operation :: "Ctk3Operation \<Rightarrow> Ctk3Operation option" where
  "canonicalize_operation operation =
     operation_from_cells (co_piece operation) (sort_key (\<lambda>(x, y). (y, x)) (operation_cells operation))"

section \<open>Normalization\<close>

text \<open>The validity of UTF-8 that \<open>String\<close> guarantees and \<open>String::from_utf8\<close> checks.\<close>

definition utf8_continuation :: "u8 \<Rightarrow> bool" where
  "utf8_continuation b \<longleftrightarrow> 0x80 \<le> b \<and> b \<le> 0xBF"

fun is_utf8 :: "u8 list \<Rightarrow> bool" where
  "is_utf8 [] = True"
| "is_utf8 (a # s) =
     (if a < 0x80 then is_utf8 s
      else if 0xC2 \<le> a \<and> a \<le> 0xDF
      then (case s of b # s \<Rightarrow> utf8_continuation b \<and> is_utf8 s | _ \<Rightarrow> False)
      else if 0xE0 \<le> a \<and> a \<le> 0xEF
      then (case s of b # c # s \<Rightarrow>
              utf8_continuation b \<and> (a = 0xE0 \<longrightarrow> 0xA0 \<le> b) \<and> (a = 0xED \<longrightarrow> b \<le> 0x9F)
                \<and> utf8_continuation c \<and> is_utf8 s
            | _ \<Rightarrow> False)
      else if 0xF0 \<le> a \<and> a \<le> 0xF4
      then (case s of b # c # d # s \<Rightarrow>
              utf8_continuation b \<and> (a = 0xF0 \<longrightarrow> 0x90 \<le> b) \<and> (a = 0xF4 \<longrightarrow> b \<le> 0x8F)
                \<and> utf8_continuation c \<and> utf8_continuation d \<and> is_utf8 s
            | _ \<Rightarrow> False)
      else False)"

primrec trimmed_height :: "nat \<Rightarrow> u8 list \<Rightarrow> nat \<Rightarrow> nat" where
  "trimmed_height width codes 0 = 0"
| "trimmed_height width codes (Suc height) =
     (if list_all (\<lambda>c. c = 0) (take width (drop (height * width) codes))
      then trimmed_height width codes height else Suc height)"

definition coordinates_fit :: "Ctk3Operation \<Rightarrow> bool" where
  "coordinates_fit operation \<longleftrightarrow>
     nat \<bar>co_x operation\<bar> \<le> MAX_OPERATION_COORDINATE \<and> nat \<bar>co_y operation\<bar> \<le> MAX_OPERATION_COORDINATE"

definition normalize_operation :: "nat \<Rightarrow> Ctk3Operation option \<Rightarrow> codec_fault + Ctk3Operation option" where
  "normalize_operation index operation =
     (case operation of None \<Rightarrow> Ok None
      | Some operation \<Rightarrow>
          if \<not> coordinates_fit operation then Err (Fault (InvalidOperationCoordinate index))
          else and_then (ok_or (Fault (InvalidOperationCoordinate index)) (canonicalize_operation operation)) (\<lambda>canonical.
                 if \<not> coordinates_fit canonical then Err (Fault (InvalidOperationCoordinate index))
                 else Ok (Some canonical)))"

definition normalize_garbage :: "nat \<Rightarrow> nat \<Rightarrow> Ctk3Color list option \<Rightarrow> codec_fault + u8 list option" where
  "normalize_garbage width index garbage =
     (case garbage of None \<Rightarrow> Ok None
      | Some garbage \<Rightarrow>
          if length garbage \<noteq> width then Err (Fault (InvalidGarbageWidth index width (length garbage)))
          else let codes = map color_code garbage in Ok (if list_ex (\<lambda>c. c \<noteq> 0) codes then Some codes else None))"

definition normalize_page :: "nat \<Rightarrow> nat \<Rightarrow> Ctk3Page \<Rightarrow> codec_fault + NormalizedPage" where
  "normalize_page width index page =
     (if pg_height page > MAX_HEIGHT then Err (Fault (InvalidHeight index (pg_height page)))
      else and_then (ok_or (Fault IntegerOverflow) (usize_checked_mul (pg_height page) width)) (\<lambda>expected.
        if length (pg_cells page) \<noteq> expected
        then Err (Fault (InvalidCellCount index expected (length (pg_cells page))))
        else if length (pg_comment page) > MAX_COMMENT_BYTES
        then Err (Fault (CommentTooLong index (length (pg_comment page))))
        else let codes = map color_code (pg_cells page);
                 height = trimmed_height width codes (pg_height page)
             in and_then (normalize_operation index (pg_operation page)) (\<lambda>operation.
                  and_then (normalize_garbage width index (pg_garbage page)) (\<lambda>garbage.
                    Ok \<lparr>np_height = height, np_codes = take (height * width) codes, np_comment = pg_comment page,
                        np_operation = operation,
                        np_flags = (if take 3 (pg_comment page) = [0x23, 0x51, 0x3D]
                                    then (pg_flags page)\<lparr>pf_quiz := True\<rparr> else pg_flags page),
                        np_garbage = garbage\<rparr>))))"

definition normalize_document :: "Ctk3Document \<Rightarrow> codec_fault + NormalizedPage list" where
  "normalize_document document =
     (if doc_width document = 0 \<or> doc_width document > MAX_WIDTH
      then Err (Fault (InvalidWidth (doc_width document)))
      else if doc_pages document = [] \<or> length (doc_pages document) > CTK3_MAX_SEGMENT_PAGES
      then Err (Fault (InvalidPageCount (length (doc_pages document))))
      else try_map (\<lambda>(index, page). normalize_page (doc_width document) index page)
             (enumerate 0 (doc_pages document)))"

definition colors_from_codes :: "string \<Rightarrow> u8 list \<Rightarrow> codec_fault + Ctk3Color list" where
  "colors_from_codes msg = try_map (\<lambda>c. ok_or (Fault (InvalidPayload msg)) (color_from_code c))"

definition normalized_to_page :: "NormalizedPage \<Rightarrow> codec_fault + Ctk3Page" where
  "normalized_to_page page =
     and_then (colors_from_codes ''field color is invalid'' (np_codes page)) (\<lambda>cells.
       and_then (case np_garbage page of None \<Rightarrow> Ok None
                 | Some codes \<Rightarrow> and_then (colors_from_codes ''garbage color is invalid'' codes) (\<lambda>g. Ok (Some g))) (\<lambda>garbage.
         Ok \<lparr>pg_height = np_height page, pg_cells = cells, pg_comment = np_comment page,
             pg_operation = np_operation page, pg_flags = np_flags page, pg_garbage = garbage\<rparr>))"

section \<open>Codes and flags\<close>

lemma from_wire_index_wire_index [simp]: "from_wire_index (wire_index piece) = Some piece"
  by (cases piece) (simp_all add: from_wire_index_def)

lemma wire_index_bound: "unat (wire_index piece) < 2 ^ 3"
  by (cases piece) simp_all

lemma color_from_color_code [simp]: "color_from_code (color_code c) = Some c"
proof (cases c)
  case (Piece p)
  then show ?thesis by (cases p) (simp_all add: color_from_code_def)
qed (simp_all add: color_from_code_def)

lemma color_code_bound: "color_code c \<le> 8"
proof (cases c)
  case (Piece p)
  then show ?thesis by (cases p) simp_all
qed simp_all

lemma color_code_zero [simp]: "color_code c = 0 \<longleftrightarrow> c = Empty"
proof (cases c)
  case (Piece p)
  then show ?thesis by (cases p) simp_all
qed simp_all

lemma colors_from_color_codes [simp]: "colors_from_codes msg (map color_code cs) = Ok cs"
  by (induction cs) (simp_all add: colors_from_codes_def)

lemma flags_roundtrip [simp]: "flags_from_bits (flags_bits flags) = flags"
  by (cases flags) (auto simp: flags_from_bits_def flags_bits_def of_bool_def)

lemma flags_bits_bound: "unat (flags_bits flags) < 2 ^ 5"
  by (cases flags) (auto simp: flags_bits_def of_bool_def)

section \<open>Canonical operations\<close>

lemma offsets_distinct: "distinct (operation_offsets piece rotation)" "length (operation_offsets piece rotation) = 4"
  by (cases piece; cases rotation; simp add: operation_offsets_def numeral_2_eq_2 numeral_3_eq_3)+

lemma cells_distinct: "distinct (operation_cells operation)" "length (operation_cells operation) = 4"
  by (auto simp: operation_cells_def distinct_map offsets_distinct inj_on_def)

lemma set_operation_cells:
  "set (operation_cells operation) =
     (\<lambda>(x, y). (co_x operation + x, co_y operation + y)) ` set (operation_offsets (co_piece operation) (co_rotation operation))"
  by (simp add: operation_cells_def)

lemma sort_cells_eq:
  fixes xs ys :: "(int \<times> int) list"
  assumes "distinct xs" "distinct ys" "set xs = set ys"
  shows "sort_key (\<lambda>(x, y). (y, x)) xs = sort_key (\<lambda>(x, y). (y, x)) ys"
proof -
  let ?key = "\<lambda>(x, y). (y :: int, x :: int)"
  have inj: "inj ?key" by (auto simp: inj_on_def)
  have "map ?key (sort_key ?key xs) = map ?key (sort_key ?key ys)"
    by (rule sorted_distinct_set_unique) (use assms inj in \<open>auto simp: distinct_map sorted_sort_key intro: inj_on_subset\<close>)
  then show ?thesis using inj by (simp add: inj_map_eq_map)
qed

text \<open>The canonical form is a function of the piece and the set of cells.\<close>

lemma canonicalize_cong:
  assumes "co_piece a = co_piece b" "set (operation_cells a) = set (operation_cells b)"
  shows "canonicalize_operation a = canonicalize_operation b"
  unfolding canonicalize_operation_def assms(1)
  using sort_cells_eq [OF cells_distinct(1) cells_distinct(1) assms(2)] by simp

lemma set_operation_candidates:
  "candidate \<in> set (operation_candidates piece targets) \<longleftrightarrow>
     co_piece candidate = piece \<and> co_rotation candidate \<in> set (operation_rotations piece)
     \<and> i32_try_from (co_x candidate) = Some (co_x candidate) \<and> i32_try_from (co_y candidate) = Some (co_y candidate)
     \<and> (\<exists>t\<in>set targets. \<exists>offset\<in>set (operation_offsets piece (co_rotation candidate)).
          co_x candidate = fst t - fst offset \<and> co_y candidate = snd t - snd offset)"
proof -
  have "(\<exists>t\<in>set targets. \<exists>offset\<in>set (operation_offsets piece rotation).
      candidate \<in> set (case (i32_try_from (fst t - fst offset), i32_try_from (snd t - snd offset)) of
        (Some x, Some y) \<Rightarrow> [\<lparr>co_piece = piece, co_rotation = rotation, co_x = x, co_y = y\<rparr>] | _ \<Rightarrow> []))
    \<longleftrightarrow> co_piece candidate = piece \<and> co_rotation candidate = rotation
     \<and> i32_try_from (co_x candidate) = Some (co_x candidate) \<and> i32_try_from (co_y candidate) = Some (co_y candidate)
     \<and> (\<exists>t\<in>set targets. \<exists>offset\<in>set (operation_offsets piece rotation).
          co_x candidate = fst t - fst offset \<and> co_y candidate = snd t - snd offset)" for rotation
    by (cases candidate) (force simp: i32_try_from_def split: option.splits)
  then show ?thesis by (auto simp: operation_candidates_def)
qed

lemma canonicalize_sound:
  assumes "canonicalize_operation operation = Some canonical"
  shows "co_piece canonical = co_piece operation" "co_rotation canonical \<in> set (operation_rotations (co_piece operation))"
    "set (operation_cells canonical) = set (operation_cells operation)"
    "i32_try_from (co_x canonical) = Some (co_x canonical)" "i32_try_from (co_y canonical) = Some (co_y canonical)"
proof -
  define targets where "targets = sort_key (\<lambda>(x, y). (y, x)) (sort_key (\<lambda>(x, y). (y, x)) (operation_cells operation))"
  have set: "set targets = set (operation_cells operation)" by (simp add: targets_def)
  have "List.find (\<lambda>candidate. list_all (\<lambda>cell. cell \<in> set targets) (operation_cells candidate))
      (operation_candidates (co_piece operation) targets) = Some canonical"
    using assms by (simp add: canonicalize_operation_def operation_from_cells_def targets_def Let_def)
  then have c: "canonical \<in> set (operation_candidates (co_piece operation) targets)"
    "set (operation_cells canonical) \<subseteq> set (operation_cells operation)"
    unfolding find_Some_iff by (auto simp: list_all_iff set)
  then show "co_piece canonical = co_piece operation" "co_rotation canonical \<in> set (operation_rotations (co_piece operation))"
    "i32_try_from (co_x canonical) = Some (co_x canonical)" "i32_try_from (co_y canonical) = Some (co_y canonical)"
    by (simp_all add: set_operation_candidates)
  show "set (operation_cells canonical) = set (operation_cells operation)"
    by (rule card_subset_eq) (use c(2) cells_distinct in \<open>simp_all add: distinct_card\<close>)
qed

lemma canonicalize_idem:
  assumes "canonicalize_operation operation = Some canonical"
  shows "canonicalize_operation canonical = Some canonical"
  using canonicalize_cong [of canonical operation] canonicalize_sound [OF assms] assms by simp

text \<open>Every rotation is one of the listed ones, moved by at most one cell.\<close>

lemma rotation_listed:
  "\<exists>listed\<in>set (operation_rotations piece). \<exists>dx\<in>{- 1, 0, 1}. \<exists>dy\<in>{- 1, 0, 1}.
     (\<lambda>(x, y). (dx + x, dy + y)) ` set (operation_offsets piece listed) = set (operation_offsets piece rotation)"
proof -
  have "list_all (\<lambda>piece. list_all (\<lambda>rotation. list_ex (\<lambda>listed. list_ex (\<lambda>dx. list_ex (\<lambda>dy.
      set (map (\<lambda>(x, y). (dx + x, dy + y)) (operation_offsets piece listed)) = set (operation_offsets piece rotation))
      [- 1, 0, 1]) [- 1, 0, 1]) (operation_rotations piece)) [Spawn, Right, Reverse, Left])
      [Ctk3I, Ctk3O, Ctk3T, Ctk3S, Ctk3Z, Ctk3J, Ctk3L]"
    by code_simp
  moreover have "piece \<in> set [Ctk3I, Ctk3O, Ctk3T, Ctk3S, Ctk3Z, Ctk3J, Ctk3L]" by (cases piece) simp_all
  moreover have "rotation \<in> set [Spawn, Right, Reverse, Left]" by (cases rotation) simp_all
  ultimately have "list_ex (\<lambda>listed. list_ex (\<lambda>dx. list_ex (\<lambda>dy.
      set (map (\<lambda>(x, y). (dx + x, dy + y)) (operation_offsets piece listed)) = set (operation_offsets piece rotation))
      [- 1, 0, 1]) [- 1, 0, 1]) (operation_rotations piece)"
    unfolding list_all_iff by blast
  then show ?thesis by (simp only: list_ex_iff set_map list.set)
qed

lemma canonicalize_total:
  assumes "coordinates_fit operation"
  obtains canonical where "canonicalize_operation operation = Some canonical"
proof -
  define piece where "piece = co_piece operation"
  obtain listed dx dy where l: "listed \<in> set (operation_rotations piece)" "dx \<in> {- 1, 0, 1}" "dy \<in> {- 1, 0, 1}"
    "(\<lambda>(x, y). (dx + x, dy + y)) ` set (operation_offsets piece listed) = set (operation_offsets piece (co_rotation operation))"
    using rotation_listed by blast
  define c where "c = \<lparr>co_piece = piece, co_rotation = listed, co_x = co_x operation + dx, co_y = co_y operation + dy\<rparr>"
  have cells: "set (operation_cells c) = set (operation_cells operation)"
    unfolding set_operation_cells c_def piece_def [symmetric] l(4) [symmetric] by (force simp: image_image case_prod_unfold)
  define targets where "targets = sort_key (\<lambda>(x, y). (y, x)) (sort_key (\<lambda>(x, y). (y, x)) (operation_cells operation))"
  have set: "set targets = set (operation_cells c)" by (simp add: targets_def cells)
  have off: "hd (operation_offsets piece listed) \<in> set (operation_offsets piece listed)"
    using offsets_distinct(2) [of piece listed] by (intro hd_in_set) auto
  have "i32_try_from (co_x c) = Some (co_x c)" "i32_try_from (co_y c) = Some (co_y c)"
    using assms l(2,3) by (auto simp: c_def i32_try_from_def coordinates_fit_def)
  moreover have "(co_x c + fst (hd (operation_offsets piece listed)), co_y c + snd (hd (operation_offsets piece listed))) \<in> set targets"
    using off unfolding set set_operation_cells by (force simp: c_def)
  ultimately have "c \<in> set (operation_candidates piece targets)"
    unfolding set_operation_candidates using off l(1) by (force simp: c_def)
  moreover have "list_all (\<lambda>cell. cell \<in> set targets) (operation_cells c)" by (simp add: list_all_iff set)
  ultimately have "List.find (\<lambda>candidate. list_all (\<lambda>cell. cell \<in> set targets) (operation_cells candidate))
      (operation_candidates piece targets) \<noteq> None"
    unfolding find_None_iff by blast
  then show ?thesis
    using that by (auto simp: canonicalize_operation_def operation_from_cells_def piece_def targets_def Let_def)
qed

section \<open>Normalized pages\<close>

text \<open>What the encoders rely on, and what makes a page a fixed point of normalization.\<close>

definition wf_operation :: "Ctk3Operation \<Rightarrow> bool" where
  "wf_operation operation \<longleftrightarrow> canonicalize_operation operation = Some operation \<and> coordinates_fit operation"

definition wf_page :: "nat \<Rightarrow> NormalizedPage \<Rightarrow> bool" where
  "wf_page width page \<longleftrightarrow>
     np_height page \<le> MAX_HEIGHT \<and> length (np_codes page) = np_height page * width \<and> (\<forall>c\<in>set (np_codes page). c \<le> 8)
     \<and> (\<forall>garbage\<in>set_option (np_garbage page). length garbage = width \<and> (\<forall>c\<in>set garbage. c \<le> 8))
     \<and> (\<forall>operation\<in>set_option (np_operation page). wf_operation operation)
     \<and> length (np_comment page) \<le> MAX_COMMENT_BYTES \<and> is_utf8 (np_comment page)"

definition fixed_page :: "nat \<Rightarrow> NormalizedPage \<Rightarrow> bool" where
  "fixed_page width page \<longleftrightarrow>
     trimmed_height width (np_codes page) (np_height page) = np_height page
     \<and> (\<forall>garbage\<in>set_option (np_garbage page). \<exists>c\<in>set garbage. c \<noteq> 0)
     \<and> (take 3 (np_comment page) = [0x23, 0x51, 0x3D] \<longrightarrow> pf_quiz (np_flags page))"

lemma wf_operation_rotation: "wf_operation operation \<Longrightarrow> co_rotation operation \<in> set (operation_rotations (co_piece operation))"
  using canonicalize_sound(2) by (auto simp: wf_operation_def)

lemma trimmed_height_le: "trimmed_height width codes height \<le> height"
  by (induction height) auto

lemma trimmed_height_take:
  "height \<le> k \<Longrightarrow> trimmed_height width (take (k * width) codes) height = trimmed_height width codes height"
proof (induction height)
  case (Suc height)
  then have "width + height * width \<le> k * width" using mult_le_mono1 [of "Suc height" k width] by simp
  then have "take width (drop (height * width) (take (k * width) codes)) = take width (drop (height * width) codes)"
    by (simp add: drop_take min_def)
  then show ?case using Suc by simp
qed simp

lemma trimmed_height_idem: "trimmed_height width codes (trimmed_height width codes height) = trimmed_height width codes height"
  by (induction height) auto

lemma normalize_operation_wf:
  assumes "normalize_operation index operation = Ok result"
  shows "\<forall>operation\<in>set_option result. wf_operation operation"
  using assms canonicalize_idem
  by (auto simp: normalize_operation_def and_then_eq_Ok_iff wf_operation_def split: option.splits if_splits)

lemma normalize_operation_fixed:
  "\<forall>operation\<in>set_option result. wf_operation operation \<Longrightarrow> normalize_operation index result = Ok result"
  by (cases result) (auto simp: normalize_operation_def wf_operation_def)

lemma normalize_page_wf:
  assumes "normalize_page width index page = Ok normal" "is_utf8 (pg_comment page)"
  shows "wf_page width normal" "fixed_page width normal"
proof -
  define codes where "codes = map color_code (pg_cells page)"
  define height where "height = trimmed_height width codes (pg_height page)"
  obtain operation garbage where ok: "pg_height page \<le> MAX_HEIGHT" "length codes = pg_height page * width"
    "length (pg_comment page) \<le> MAX_COMMENT_BYTES" "normalize_operation index (pg_operation page) = Ok operation"
    "normalize_garbage width index (pg_garbage page) = Ok garbage"
    "normal = \<lparr>np_height = height, np_codes = take (height * width) codes, np_comment = pg_comment page,
       np_operation = operation,
       np_flags = (if take 3 (pg_comment page) = [0x23, 0x51, 0x3D] then (pg_flags page)\<lparr>pf_quiz := True\<rparr> else pg_flags page),
       np_garbage = garbage\<rparr>"
    using assms(1)
    by (auto simp: normalize_page_def and_then_eq_Ok_iff Let_def usize_checked_mul_def codes_def height_def split: if_splits)
  have h: "height \<le> pg_height page" by (simp add: height_def trimmed_height_le)
  have g: "\<forall>g\<in>set_option garbage. length g = width \<and> (\<forall>c\<in>set g. c \<le> 8) \<and> (\<exists>c\<in>set g. c \<noteq> 0)"
    using ok(5) color_code_bound by (auto simp: normalize_garbage_def Let_def list_ex_iff split: option.splits if_splits)
  have c: "\<forall>c\<in>set codes. c \<le> 8" using color_code_bound by (auto simp: codes_def)
  have len: "length (take (height * width) codes) = height * width" using ok(2) mult_le_mono1 [OF h, of width] by simp
  show "wf_page width normal"
    using ok(1,3,6) h g c len assms(2) normalize_operation_wf [OF ok(4)]
    by (auto simp: wf_page_def dest: in_set_takeD)
  show "fixed_page width normal"
    using ok(6) g trimmed_height_take [of height height width codes] trimmed_height_idem [of width codes "pg_height page"]
    by (simp add: fixed_page_def height_def)
qed

lemma color_codes_surj:
  assumes "\<forall>c\<in>set codes. c \<le> (8 :: u8)" obtains colors where "codes = map color_code colors"
proof -
  have "\<exists>color. c = color_code color" if "c \<le> 8" for c :: u8
  proof -
    have "c \<in> word_of_nat ` {0..<9}" using that unat_word_of_nat by (intro image_eqI [of _ _ "unat c"]) (auto simp: word_le_nat_alt)
    moreover have "{0..<9} = {0, 1, 2, 3, 4, 5, 6, 7, 8 :: nat}" by auto
    ultimately have "c \<in> color_code ` {Empty, Gray, Piece Ctk3I, Piece Ctk3O, Piece Ctk3T, Piece Ctk3S, Piece Ctk3Z, Piece Ctk3J, Piece Ctk3L}"
      by simp
    then show ?thesis by blast
  qed
  then have "\<exists>colors. codes = map color_code colors" using assms
    by (induction codes) (auto, metis list.simps(9))
  then show ?thesis using that by blast
qed

text \<open>A normalized page is read back as a page with the same normal form.\<close>

lemma normalized_to_page_fixed:
  assumes "wf_page width normal" "fixed_page width normal" "width \<le> MAX_WIDTH"
  obtains page where "normalized_to_page normal = Ok page" "normalize_page width index page = Ok normal"
proof -
  obtain cells where cells: "np_codes normal = map color_code cells"
    using color_codes_surj assms(1) by (metis wf_page_def)
  have "\<exists>garbage. np_garbage normal = map_option (map color_code) garbage"
  proof (cases "np_garbage normal")
    case (Some g)
    then have "\<forall>c\<in>set g. c \<le> 8" using assms(1) by (simp add: wf_page_def)
    then show ?thesis using Some by (metis color_codes_surj option.simps(9))
  qed simp
  then obtain garbage where garbage: "np_garbage normal = map_option (map color_code) garbage" by blast
  define page where "page = \<lparr>pg_height = np_height normal, pg_cells = cells, pg_comment = np_comment normal,
    pg_operation = np_operation normal, pg_flags = np_flags normal, pg_garbage = garbage\<rparr>"
  have "normalized_to_page normal = Ok page"
    by (cases garbage) (simp_all add: normalized_to_page_def page_def cells garbage)
  moreover have "normalize_page width index page = Ok normal"
  proof -
    have mul: "usize_checked_mul (np_height normal) width = Some (np_height normal * width)"
      using assms(1,3) mult_le_mono [of "np_height normal" 31 width 31]
      by (simp add: usize_checked_mul_def USIZE_MAX_def wf_page_def)
    have garbage': "normalize_garbage width index garbage = Ok (np_garbage normal)"
      using assms(1,2) garbage
      by (cases garbage) (auto simp: normalize_garbage_def wf_page_def fixed_page_def list_ex_iff Let_def)
    have codes: "trimmed_height width (map color_code cells) (np_height normal) = np_height normal"
      "length cells = np_height normal * width"
      using assms(1,2) by (simp_all add: fixed_page_def wf_page_def cells)
    have flags: "take 3 (np_comment normal) = [0x23, 0x51, 0x3D] \<Longrightarrow> (np_flags normal)\<lparr>pf_quiz := True\<rparr> = np_flags normal"
      using assms(2) by (cases "np_flags normal") (auto simp: fixed_page_def)
    have op: "normalize_operation index (np_operation normal) = Ok (np_operation normal)"
      using assms(1) by (intro normalize_operation_fixed) (simp add: wf_page_def)
    have bounds: "\<not> np_height normal > MAX_HEIGHT" "\<not> length (np_comment normal) > MAX_COMMENT_BYTES"
      using assms(1) by (simp_all add: wf_page_def)
    have "normalize_page width index page = Ok \<lparr>np_height = np_height normal, np_codes = map color_code cells,
        np_comment = np_comment normal, np_operation = np_operation normal, np_flags = np_flags normal, np_garbage = np_garbage normal\<rparr>"
      using bounds unfolding normalize_page_def page_def by (simp add: mul garbage' codes flags op Let_def)
    then show ?thesis by (simp flip: cells)
  qed
  ultimately show ?thesis using that by blast
qed

section \<open>Properties\<close>

text \<open>C22: canonicalization of operations.  Every operation within the coordinate range has a canonical
  form: the same piece on the same four cells, in a rotation of the piece's short list.  It is a fixed
  point, and two operations of one piece have the same canonical form exactly when they cover the same
  cells.\<close>

theorem canonical_operation_unique:
  assumes "coordinates_fit a" "coordinates_fit b" "co_piece a = co_piece b"
  shows "\<exists>canonical. canonicalize_operation a = Some canonical
    \<and> co_piece canonical = co_piece a \<and> set (operation_cells canonical) = set (operation_cells a)
    \<and> co_rotation canonical \<in> set (operation_rotations (co_piece a))
    \<and> canonicalize_operation canonical = Some canonical
    \<and> (canonicalize_operation b = Some canonical \<longleftrightarrow> set (operation_cells b) = set (operation_cells a))"
proof -
  obtain canonical where c: "canonicalize_operation a = Some canonical" using canonicalize_total [OF assms(1)] .
  have "canonicalize_operation b = Some canonical" if "set (operation_cells b) = set (operation_cells a)"
    using canonicalize_cong [of b a] assms(3) that c by simp
  moreover have "set (operation_cells b) = set (operation_cells a)" if "canonicalize_operation b = Some canonical"
    using canonicalize_sound(3) [OF that] canonicalize_sound(3) [OF c] by simp
  ultimately show ?thesis using c canonicalize_sound [OF c] canonicalize_idem [OF c] by blast
qed

theorem canonical_operation_unique_witness:
  "\<exists>canonical. canonicalize_operation \<lparr>co_piece = Ctk3S, co_rotation = Reverse, co_x = 4, co_y = 1\<rparr> = Some canonical
    \<and> co_piece canonical = Ctk3S
    \<and> set (operation_cells canonical) = {(3, 0), (4, 0), (4, 1), (5, 1)}
    \<and> (canonicalize_operation \<lparr>co_piece = Ctk3S, co_rotation = Spawn, co_x = 4, co_y = 0\<rparr> = Some canonical)"
proof -
  define a where "a = \<lparr>co_piece = Ctk3S, co_rotation = Reverse, co_x = 4, co_y = 1\<rparr>"
  define b where "b = \<lparr>co_piece = Ctk3S, co_rotation = Spawn, co_x = 4, co_y = 0\<rparr>"
  have fit: "coordinates_fit a" "coordinates_fit b" by (simp_all add: a_def b_def coordinates_fit_def)
  have cells: "set (operation_cells a) = {(3, 0), (4, 0), (4, 1), (5, 1)}" "set (operation_cells b) = set (operation_cells a)"
    by (auto simp: a_def b_def operation_cells_def operation_offsets_def numeral_2_eq_2)
  have "co_piece a = co_piece b" "co_piece a = Ctk3S" by (simp_all add: a_def b_def)
  then show ?thesis
    using canonical_operation_unique [OF fit] cells unfolding a_def [symmetric] b_def [symmetric] by metis
qed

end
