(* ===== verification/PageCodecs.thy ===== *)
theory PageCodecs
  imports CellChoices Pages
begin

text \<open>
  Pages as bits: the writers of \<open>clearra-ctk3/src/codec.rs\<close> and the readers of \<open>decoder.rs\<close>.  A page
  is written on its own (revision 1) or against the pages before it (revisions 2 and 3), where each
  part is the shortest of several candidates.  The hash maps of the writer are maps; the copies of the
  field predictors in both files are the same functions and are modelled once.  Widths are at least
  one, as both files check before they come here, so that the rows of a field are its chunks.
\<close>

section \<open>Predicted fields\<close>

definition fit_codes :: "u8 list \<Rightarrow> nat \<Rightarrow> u8 list" where
  "fit_codes codes target_len = map (get_or 0 codes) [0..<target_len]"

definition grayscale_codes :: "u8 list \<Rightarrow> nat \<Rightarrow> u8 list" where
  "grayscale_codes codes target_len = map (\<lambda>index. if get_or 0 codes index \<noteq> 0 then 1 else 0) [0..<target_len]"

definition mirror_color :: "u8 \<Rightarrow> u8" where
  "mirror_color c = (if c = 5 then 6 else if c = 6 then 5 else if c = 7 then 8 else if c = 8 then 7 else c)"

definition mirror_codes :: "u8 list \<Rightarrow> nat \<Rightarrow> nat \<Rightarrow> nat \<Rightarrow> u8 list" where
  "mirror_codes source source_height width target_height =
     foldl (\<lambda>mirrored y.
         foldl (\<lambda>mirrored x. mirrored[y * width + (width - x - 1) := mirror_color (get_or 0 source (y * width + x))])
           mirrored [0..<width])
       (replicate (target_height * width) 0) [0..<min source_height target_height]"

text \<open>The cells of the field with the operation locked into it, when it fits.\<close>

definition locked_cells :: "NormalizedPage \<Rightarrow> nat \<Rightarrow> u8 list" where
  "locked_cells previous width =
     (let occupied = (case np_operation previous of None \<Rightarrow> [] | Some operation \<Rightarrow> operation_cells operation);
          operation_height = foldl (\<lambda>height (_, y). max height (y + 1)) 0 occupied;
          source_height = (if operation_height \<ge> 0 \<and> nat operation_height \<le> MAX_HEIGHT
                           then max (np_height previous) (nat operation_height) else np_height previous);
          cells = fit_codes (np_codes previous) (source_height * width)
      in case np_operation previous of
           Some operation \<Rightarrow>
             if pf_lock (np_flags previous)
                \<and> list_all (\<lambda>(x, y). x \<ge> 0 \<and> nat x < width \<and> y \<ge> 0 \<and> nat y < source_height
                      \<and> cells ! (nat y * width + nat x) = 0) occupied
             then foldl (\<lambda>cells (x, y). cells[nat y * width + nat x :=
                     (if pf_colorize (np_flags previous) then ucast (wire_index (co_piece operation)) + 2 else 1)])
                    cells occupied
             else cells
         | None \<Rightarrow> cells)"

definition predict_locked_codes :: "NormalizedPage \<Rightarrow> nat \<Rightarrow> nat \<Rightarrow> bool \<Rightarrow> bool \<Rightarrow> u8 list" where
  "predict_locked_codes previous width target_height clear_rows grayscale =
     (let cells = locked_cells previous width;
          rows = map (\<lambda>y. take width (drop (y * width) cells)) [0..<length cells div width];
          kept = filter (\<lambda>row. \<not> (clear_rows \<and> list_all (\<lambda>c. c \<noteq> 0) row)) rows;
          transformed = concat (map (map (\<lambda>c. if grayscale \<and> c \<noteq> 0 then 1 else c)) kept)
      in fit_codes transformed (target_height * width))"

section \<open>Writing single pages\<close>

definition write_operation_body :: "Ctk3Operation \<Rightarrow> BitWriter \<Rightarrow> codec_fault + BitWriter" where
  "write_operation_body operation w =
     and_then (write_bits (wire_index (co_piece operation)) 3 w) (\<lambda>w.
       let rotations = operation_rotations (co_piece operation)
       in and_then (ok_or (Fault (InvalidPayload ''operation rotation is not canonical''))
                     (position_of (co_rotation operation) rotations)) (\<lambda>rotation.
            and_then (write_bits (word_of_nat rotation) (bits_for_choices (length rotations)) w) (\<lambda>w.
              and_then (write_signed_var_int (co_x operation) w) (write_signed_var_int (co_y operation)))))"

definition write_compact_page :: "NormalizedPage \<Rightarrow> NormalizedPage option \<Rightarrow> BitWriter \<Rightarrow> codec_fault + BitWriter" where
  "write_compact_page page previous w =
     (let flag_mode = (if np_flags page = default_flags then 0
                       else if (case previous of None \<Rightarrow> False | Some previous \<Rightarrow> np_flags previous = np_flags page)
                       then 1 else 2)
      in and_then (write_bits flag_mode 2 w) (\<lambda>w.
           and_then (if flag_mode = 2 then write_bits (flags_bits (np_flags page)) 5 w else Ok w) (\<lambda>w.
             let w = write_bit (np_comment page \<noteq> []) w;
                 w = write_bit (np_operation page \<noteq> None) w;
                 w = write_bit (np_garbage page \<noteq> None) w
             in and_then
                  (case previous of
                     Some previous \<Rightarrow>
                       let same_height = (np_height page = np_height previous);
                           w = write_bit same_height w
                       in if \<not> same_height then write_var_uint (word_of_nat (np_height page)) w else Ok w
                   | None \<Rightarrow> write_var_uint (word_of_nat (np_height page)) w) (\<lambda>w.
                and_then (write_best_cell_encoding (np_codes page) (map_option np_codes previous) 3 True w) (\<lambda>w.
                  and_then (case np_garbage page of
                              Some garbage \<Rightarrow> write_best_cell_encoding garbage None 3 True w
                            | None \<Rightarrow> Ok w) (\<lambda>w.
                    and_then (if np_comment page \<noteq> []
                              then and_then (write_var_uint (word_of_nat (length (np_comment page))) w)
                                     (write_bytes (np_comment page))
                              else Ok w) (\<lambda>w.
                      case np_operation page of
                        Some operation \<Rightarrow> write_operation_body operation w
                      | None \<Rightarrow> Ok w)))))))"

section \<open>Writing pages against the ones before\<close>

record SharedFieldPredictor =
  sf_height :: nat
  sf_codes :: "u8 list"

record TemporalContext =
  tc_pages :: "NormalizedPage list"
  tc_shared :: "SharedFieldPredictor option"
  tc_latest_field :: "nat \<times> u8 list \<Rightarrow> nat option"
  tc_latest_page :: "NormalizedPage \<Rightarrow> nat option"
  tc_latest_comment :: "u8 list \<Rightarrow> nat option"

definition build_shared_field :: "NormalizedPage list \<Rightarrow> nat \<Rightarrow> SharedFieldPredictor option" where
  "build_shared_field pages width =
     (if length pages < 2 \<or> np_codes (hd pages) = [] then None
      else let common = foldl (\<lambda>common page.
                   map (\<lambda>(index, c). if c \<noteq> 0 \<and> c \<noteq> get_or 0 (np_codes page) index then 0 else c) (enumerate 0 common))
                 (np_codes (hd pages)) (tl pages);
               height = trimmed_height width common ((length common + width - 1) div width)
           in if height = 0 then None
              else Some \<lparr>sf_height = height, sf_codes = take (height * width) common\<rparr>)"

definition write_temporal_flags :: "Ctk3PageFlags \<Rightarrow> Ctk3PageFlags option \<Rightarrow> BitWriter \<Rightarrow> codec_fault + BitWriter" where
  "write_temporal_flags flags previous w =
     (if flags = default_flags then Ok (write_bit False w)
      else if previous = Some flags then write_bits 1 2 w
      else and_then (write_bits 3 2 w) (write_bits (flags_bits flags) 5))"

definition write_temporal_garbage :: "u8 list option \<Rightarrow> u8 list option \<Rightarrow> BitWriter \<Rightarrow> codec_fault + BitWriter" where
  "write_temporal_garbage garbage previous w =
     (case garbage of
        None \<Rightarrow> Ok (write_bit False w)
      | Some codes \<Rightarrow>
          if previous = Some codes then write_bits 1 2 w
          else and_then (write_bits 3 2 w) (write_best_cell_encoding codes previous 4 True))"

text \<open>A reference to an earlier page that is not the previous one.\<close>

definition far_reference :: "nat \<Rightarrow> nat option \<Rightarrow> nat option" where
  "far_reference index prior = (case prior of Some prior \<Rightarrow> if prior + 1 \<noteq> index then Some prior else None | None \<Rightarrow> None)"

definition write_temporal_comment :: "u8 list \<Rightarrow> TemporalContext \<Rightarrow> nat \<Rightarrow> BitWriter \<Rightarrow> codec_fault + BitWriter" where
  "write_temporal_comment comment ctx index w =
     (if comment = [] then Ok (write_bit False w)
      else and_then (and_then (write_bits 7 3 bw_default) (\<lambda>c.
                       and_then (write_var_uint (word_of_nat (length comment)) c) (write_bytes comment))) (\<lambda>literal.
             and_then (if index > 0 \<and> np_comment (tc_pages ctx ! (index - 1)) = comment
                       then and_then (write_bits 1 2 bw_default) (\<lambda>c. Ok [c]) else Ok []) (\<lambda>copied.
               and_then (case far_reference index (tc_latest_comment ctx comment) of
                           Some prior \<Rightarrow> and_then (write_bits 3 3 bw_default) (\<lambda>c.
                             and_then (write_var_uint (word_of_nat (index - prior - 1)) c) (\<lambda>c. Ok [c]))
                         | None \<Rightarrow> Ok []) (\<lambda>referenced.
                 append_shortest ([literal] @ copied @ referenced) w))))"

definition write_temporal_operation :: "Ctk3Operation option \<Rightarrow> Ctk3Operation option \<Rightarrow> BitWriter \<Rightarrow> codec_fault + BitWriter" where
  "write_temporal_operation operation previous w =
     (case operation of
        None \<Rightarrow> Ok (write_bit False w)
      | Some operation \<Rightarrow>
          if previous = Some operation then write_bits 1 2 w
          else and_then (and_then (write_bits 7 3 bw_default) (write_operation_body operation)) (\<lambda>literal.
                 and_then (case previous of
                             Some previous \<Rightarrow>
                               if co_piece previous = co_piece operation \<and> co_rotation previous = co_rotation operation
                               then and_then (write_bits 3 3 bw_default) (\<lambda>c.
                                      and_then (write_signed_var_int (co_x operation - co_x previous) c) (\<lambda>c.
                                        and_then (write_signed_var_int (co_y operation - co_y previous) c) (\<lambda>c. Ok [c])))
                               else Ok []
                           | None \<Rightarrow> Ok []) (\<lambda>delta.
                   append_shortest ([literal] @ delta) w)))"

definition add_field_candidate ::
  "BitWriter list \<Rightarrow> u32 \<Rightarrow> u8 list \<Rightarrow> u8 list option \<Rightarrow> nat option \<Rightarrow> codec_fault + BitWriter list" where
  "add_field_candidate candidates mode codes predictor reference_distance =
     and_then (write_bits mode 4 bw_default) (\<lambda>c.
       and_then (case reference_distance of
                   Some distance \<Rightarrow> write_var_uint (word_of_nat (distance - 1)) c
                 | None \<Rightarrow> Ok c) (\<lambda>c.
         and_then (case predictor of
                     Some predictor \<Rightarrow> write_best_predicted_cell_encoding codes predictor 4 c
                   | None \<Rightarrow> write_best_cell_encoding codes None 4 True c) (\<lambda>c.
           Ok (candidates @ [c]))))"

text \<open>The earlier pages a field is compared with: the latest equal one and the window before the page.\<close>

definition field_references :: "NormalizedPage \<Rightarrow> TemporalContext \<Rightarrow> nat \<Rightarrow> nat list" where
  "field_references page ctx index =
     foldl (\<lambda>references prior. if prior \<in> set references then references else references @ [prior])
       (case far_reference index (tc_latest_field ctx (np_height page, np_codes page)) of
          Some prior \<Rightarrow> [prior] | None \<Rightarrow> [])
       [index - 16..<index - 1]"

definition write_temporal_field :: "NormalizedPage \<Rightarrow> TemporalContext \<Rightarrow> nat \<Rightarrow> nat \<Rightarrow> BitWriter \<Rightarrow> codec_fault + BitWriter" where
  "write_temporal_field page ctx index width w =
     (let codes = np_codes page;
          target_len = np_height page * width
      in and_then (add_field_candidate [] 0 codes None None) (\<lambda>candidates.
           and_then
             (if index > 0
              then let previous = tc_pages ctx ! (index - 1)
                   in and_then (add_field_candidate candidates 1 codes (Some (fit_codes (np_codes previous) target_len)) None) (\<lambda>candidates.
                      and_then (add_field_candidate candidates 2 codes (Some (grayscale_codes (np_codes previous) target_len)) None) (\<lambda>candidates.
                      and_then (add_field_candidate candidates 3 codes
                                 (Some (mirror_codes (np_codes previous) (np_height previous) width (np_height page))) None) (\<lambda>candidates.
                        try_fold (\<lambda>candidates (mode, clear_rows, grayscale).
                            add_field_candidate candidates mode codes
                              (Some (predict_locked_codes previous width (np_height page) clear_rows grayscale)) None)
                          candidates [(4, False, False), (5, False, True), (6, True, False), (7, True, True)])))
              else Ok candidates) (\<lambda>candidates.
             and_then
               (try_fold (\<lambda>candidates prior.
                    let reference = tc_pages ctx ! prior; distance = index - prior
                    in and_then (add_field_candidate candidates 8 codes (Some (fit_codes (np_codes reference) target_len)) (Some distance)) (\<lambda>candidates.
                         add_field_candidate candidates 9 codes
                           (Some (mirror_codes (np_codes reference) (np_height reference) width (np_height page))) (Some distance)))
                  candidates (field_references page ctx index)) (\<lambda>candidates.
               and_then
                 (case tc_shared ctx of
                    Some shared \<Rightarrow> add_field_candidate candidates 10 codes (Some (fit_codes (sf_codes shared) target_len)) None
                  | None \<Rightarrow> Ok candidates) (\<lambda>candidates.
                 append_shortest candidates w)))))"

definition write_temporal_page :: "NormalizedPage \<Rightarrow> TemporalContext \<Rightarrow> nat \<Rightarrow> nat \<Rightarrow> BitWriter \<Rightarrow> codec_fault + BitWriter" where
  "write_temporal_page page ctx index width w =
     (let previous = (if index = 0 then None else Some (tc_pages ctx ! (index - 1)))
      in and_then (write_temporal_flags (np_flags page) (map_option np_flags previous) w) (\<lambda>w.
           and_then
             (case previous of
                Some previous \<Rightarrow>
                  let same_height = (np_height page = np_height previous);
                      w = write_bit (\<not> same_height) w
                  in if \<not> same_height then write_var_uint (word_of_nat (np_height page)) w else Ok w
              | None \<Rightarrow> write_var_uint (word_of_nat (np_height page)) w) (\<lambda>w.
             and_then (write_temporal_field page ctx index width w) (\<lambda>w.
               and_then (write_temporal_garbage (np_garbage page) (Option.bind previous np_garbage) w) (\<lambda>w.
                 and_then (write_temporal_comment (np_comment page) ctx index w) (\<lambda>w.
                   write_temporal_operation (np_operation page) (Option.bind previous np_operation) w))))))"

definition record_temporal_page :: "TemporalContext \<Rightarrow> nat \<Rightarrow> TemporalContext" where
  "record_temporal_page ctx index =
     (let page = tc_pages ctx ! index
      in ctx\<lparr>tc_latest_field := (tc_latest_field ctx)((np_height page, np_codes page) \<mapsto> index),
           tc_latest_page := (tc_latest_page ctx)(page \<mapsto> index),
           tc_latest_comment := (if np_comment page \<noteq> [] then (tc_latest_comment ctx)(np_comment page \<mapsto> index)
                                 else tc_latest_comment ctx)\<rparr>)"

lemma tc_pages_record [simp]: "tc_pages (record_temporal_page ctx index) = tc_pages ctx"
  by (simp add: record_temporal_page_def Let_def)

lemma tc_pages_records [simp]: "tc_pages (foldl record_temporal_page ctx indices) = tc_pages ctx"
  by (induction indices arbitrary: ctx) simp_all

text \<open>A run of pages equal to the previous one, when writing it as a run is shorter.\<close>

definition repeat_run :: "NormalizedPage list \<Rightarrow> nat \<Rightarrow> codec_fault + (nat \<times> BitWriter) option" where
  "repeat_run pages index =
     (if index > 0 \<and> pages ! (index - 1) = pages ! index
      then let repeat_count = 1 + length (takeWhile (\<lambda>page. page = pages ! (index - 1)) (drop (index + 1) pages))
           in if repeat_count \<ge> 2
              then and_then (write_bits 3 2 bw_default) (\<lambda>run.
                     and_then (write_var_uint (word_of_nat (repeat_count - 2)) run) (\<lambda>run.
                       Ok (if bw_bit_len run < repeat_count * 2 then Some (repeat_count, run) else None)))
              else Ok None
      else Ok None)"

definition page_candidates :: "TemporalContext \<Rightarrow> nat \<Rightarrow> nat \<Rightarrow> codec_fault + BitWriter list" where
  "page_candidates ctx index width =
     (let page = tc_pages ctx ! index
      in and_then (and_then (write_bits 0 2 bw_default) (write_temporal_page page ctx index width)) (\<lambda>normal.
           and_then (if index > 0 \<and> tc_pages ctx ! (index - 1) = page
                     then and_then (write_bits 1 2 bw_default) (\<lambda>c. Ok [c]) else Ok []) (\<lambda>copied.
             and_then (case far_reference index (tc_latest_page ctx page) of
                         Some prior \<Rightarrow> and_then (write_bits 2 2 bw_default) (\<lambda>c.
                           and_then (write_var_uint (word_of_nat (index - prior - 1)) c) (\<lambda>c. Ok [c]))
                       | None \<Rightarrow> Ok []) (\<lambda>referenced.
               Ok ([normal] @ copied @ referenced)))))"

lemma repeat_run_positive: "repeat_run pages index = Ok (Some (repeat_count, run)) \<Longrightarrow> 0 < repeat_count"
  by (auto simp: repeat_run_def and_then_eq_Ok_iff Let_def split: if_splits)

function write_temporal_loop :: "nat \<Rightarrow> TemporalContext \<Rightarrow> nat \<Rightarrow> BitWriter \<Rightarrow> codec_fault + BitWriter" where
  "write_temporal_loop width ctx index w =
     (if index < length (tc_pages ctx)
      then and_then (repeat_run (tc_pages ctx) index) (\<lambda>run.
             case run of
               Some (repeat_count, run) \<Rightarrow>
                 write_temporal_loop width (foldl record_temporal_page ctx [index..<index + repeat_count])
                   (index + repeat_count) (append_writer run w)
             | None \<Rightarrow>
                 and_then (page_candidates ctx index width) (\<lambda>candidates.
                   and_then (append_shortest candidates w) (\<lambda>w.
                     write_temporal_loop width (record_temporal_page ctx index) (index + 1) w)))
      else Ok w)"
  by pat_completeness auto
termination
  by (relation "measure (\<lambda>(width, ctx, index, w). length (tc_pages ctx) - index)")
    (auto dest: repeat_run_positive)

declare write_temporal_loop.simps [simp del]

definition write_temporal_pages :: "NormalizedPage list \<Rightarrow> nat \<Rightarrow> SharedFieldPredictor option \<Rightarrow> BitWriter \<Rightarrow> codec_fault + BitWriter" where
  "write_temporal_pages pages width shared_field w =
     write_temporal_loop width
       \<lparr>tc_pages = pages, tc_shared = shared_field, tc_latest_field = Map.empty, tc_latest_page = Map.empty,
        tc_latest_comment = Map.empty\<rparr> 0 w"

section \<open>Reading single pages\<close>

definition normalize_decoded_operation :: "Ctk3Operation \<Rightarrow> codec_fault + Ctk3Operation" where
  "normalize_decoded_operation operation =
     (if \<not> coordinates_fit operation then Err (Fault (InvalidPayload ''operation is invalid''))
      else and_then (ok_or (Fault (InvalidPayload ''operation is invalid'')) (canonicalize_operation operation)) (\<lambda>canonical.
             if \<not> coordinates_fit canonical then Err (Fault (InvalidPayload ''operation is invalid''))
             else Ok canonical))"

definition read_coordinate :: "BitReader \<Rightarrow> codec_fault + int \<times> BitReader" where
  "read_coordinate r =
     and_then (read_signed_var_int r) (\<lambda>(v, r).
       if nat \<bar>v\<bar> > MAX_OPERATION_COORDINATE then Err (Fault (InvalidPayload ''operation coordinate is invalid''))
       else and_then (ok_or (Fault (InvalidPayload ''operation coordinate is invalid'')) (i32_try_from v)) (\<lambda>v. Ok (v, r)))"

text \<open>The two coordinates that end an operation.\<close>

definition read_located :: "Ctk3Piece \<Rightarrow> Ctk3Rotation \<Rightarrow> BitReader \<Rightarrow> codec_fault + Ctk3Operation \<times> BitReader" where
  "read_located piece rotation r =
     and_then (read_coordinate r) (\<lambda>(x, r).
       and_then (read_coordinate r) (\<lambda>(y, r).
         and_then (normalize_decoded_operation \<lparr>co_piece = piece, co_rotation = rotation, co_x = x, co_y = y\<rparr>)
           (\<lambda>operation. Ok (operation, r))))"

definition read_operation_body :: "BitReader \<Rightarrow> codec_fault + Ctk3Operation \<times> BitReader" where
  "read_operation_body r =
     and_then (read_bits 3 r) (\<lambda>(index, r).
       and_then (ok_or (Fault (InvalidPayload ''operation piece is invalid'')) (from_wire_index index)) (\<lambda>piece.
         let rotations = operation_rotations piece
         in and_then (read_bits (bits_for_choices (length rotations)) r) (\<lambda>(index, r).
              and_then (ok_or (Fault (InvalidPayload ''operation rotation is invalid'')) (nth_opt rotations (unat index)))
                (\<lambda>rotation. read_located piece rotation r))))"

definition read_comment_literal :: "BitReader \<Rightarrow> codec_fault + u8 list \<times> BitReader" where
  "read_comment_literal r =
     and_then (read_var_uint r) (\<lambda>(len, r).
       if unat len > MAX_COMMENT_BYTES then Err (Fault (InvalidPayload ''page comment is too long''))
       else and_then (read_bytes (unat len) r) (\<lambda>(bytes, r).
              if is_utf8 bytes then Ok (bytes, r) else Err (Fault InvalidUtf8)))"

text \<open>The parts of a page that both linear revisions read after the flags.\<close>

definition read_page_tail ::
  "nat \<Rightarrow> NormalizedPage option \<Rightarrow> nat \<Rightarrow> Ctk3PageFlags \<Rightarrow> nat \<Rightarrow> bool \<Rightarrow> bool
   \<Rightarrow> (BitReader \<Rightarrow> codec_fault + Ctk3Operation option \<times> BitReader) \<Rightarrow> BitReader \<Rightarrow> codec_fault + NormalizedPage \<times> BitReader" where
  "read_page_tail width previous mode_width flags height has_garbage has_comment read_operation r =
     (if height > MAX_HEIGHT then Err (Fault (InvalidPayload ''page height is invalid''))
      else and_then (ok_or (Fault IntegerOverflow) (usize_checked_mul width height)) (\<lambda>cell_count.
        and_then (read_cell_encoding cell_count (map_option np_codes previous) mode_width r) (\<lambda>(codes, r).
          and_then (if has_garbage
                    then and_then (read_cell_encoding width None mode_width r) (\<lambda>(garbage, r). Ok (Some garbage, r))
                    else Ok (None, r)) (\<lambda>(garbage, r).
            and_then (if has_comment then read_comment_literal r else Ok ([], r)) (\<lambda>(comment, r).
              and_then (read_operation r) (\<lambda>(operation, r).
                Ok (\<lparr>np_height = height, np_codes = codes, np_comment = comment, np_operation = operation,
                     np_flags = flags, np_garbage = garbage\<rparr>, r)))))))"

definition read_compact_page :: "nat \<Rightarrow> NormalizedPage option \<Rightarrow> BitReader \<Rightarrow> codec_fault + NormalizedPage \<times> BitReader" where
  "read_compact_page width previous r =
     and_then (read_bits 2 r) (\<lambda>(flag_mode, r).
       and_then
         (if flag_mode = 0 then Ok (default_flags, r)
          else if flag_mode = 1
          then and_then (ok_or (Fault (InvalidPayload ''page flag reference is invalid'')) (map_option np_flags previous))
                 (\<lambda>flags. Ok (flags, r))
          else if flag_mode = 2 then and_then (read_bits 5 r) (\<lambda>(bits, r). Ok (flags_from_bits bits, r))
          else Err (Fault (InvalidPayload ''page flag mode is invalid''))) (\<lambda>(flags, r).
         and_then (read_bit r) (\<lambda>(has_comment, r).
           and_then (read_bit r) (\<lambda>(has_operation, r).
             and_then (read_bit r) (\<lambda>(has_garbage, r).
               and_then
                 (case previous of
                    Some previous \<Rightarrow>
                      and_then (read_bit r) (\<lambda>(same_height, r).
                        if same_height then Ok (np_height previous, r)
                        else and_then (read_var_uint r) (\<lambda>(height, r). Ok (unat height, r)))
                  | None \<Rightarrow> and_then (read_var_uint r) (\<lambda>(height, r). Ok (unat height, r))) (\<lambda>(height, r).
                 read_page_tail width previous 3 flags height has_garbage has_comment
                   (\<lambda>r. if has_operation then and_then (read_operation_body r) (\<lambda>(operation, r). Ok (Some operation, r))
                        else Ok (None, r)) r))))))"

definition read_legacy_page :: "nat \<Rightarrow> NormalizedPage option \<Rightarrow> BitReader \<Rightarrow> codec_fault + NormalizedPage \<times> BitReader" where
  "read_legacy_page width previous r =
     and_then (read_bits 8 r) (\<lambda>(metadata, r).
       and_then (read_var_uint r) (\<lambda>(height, r).
         read_page_tail width previous 2 (flags_from_bits (metadata AND 0x1f)) (unat height)
           (metadata AND 0x80 \<noteq> 0) (metadata AND 0x20 \<noteq> 0)
           (\<lambda>r. if metadata AND 0x40 \<noteq> 0
                then and_then (read_bits 3 r) (\<lambda>(index, r).
                       and_then (ok_or (Fault (InvalidPayload ''operation piece is invalid'')) (from_wire_index index)) (\<lambda>piece.
                         and_then (read_bits 2 r) (\<lambda>(turns, r).
                           and_then (ok_or (Fault (InvalidPayload ''operation rotation is invalid'')) (rotation_from_quarter_turns turns))
                             (\<lambda>rotation. and_then (read_located piece rotation r) (\<lambda>(operation, r). Ok (Some operation, r))))))
                else Ok (None, r)) r))"

definition read_linear_pages :: "nat \<Rightarrow> nat \<Rightarrow> u32 \<Rightarrow> BitReader \<Rightarrow> codec_fault + NormalizedPage list \<times> BitReader" where
  "read_linear_pages width page_count revision r =
     try_fold (\<lambda>(pages, r) _.
         let previous = (if pages = [] then None else Some (last pages))
         in and_then (if revision = 0 then read_legacy_page width previous r else read_compact_page width previous r)
              (\<lambda>(page, r). Ok (pages @ [page], r)))
       ([], r) [0..<page_count]"

section \<open>Reading pages against the ones before\<close>

definition read_temporal_flags :: "Ctk3PageFlags option \<Rightarrow> BitReader \<Rightarrow> codec_fault + Ctk3PageFlags \<times> BitReader" where
  "read_temporal_flags previous r =
     and_then (read_bit r) (\<lambda>(b, r).
       if \<not> b then Ok (default_flags, r)
       else and_then (read_bit r) (\<lambda>(b, r).
              if \<not> b
              then and_then (ok_or (Fault (InvalidPayload ''page flag reference is invalid'')) previous) (\<lambda>flags. Ok (flags, r))
              else and_then (read_bits 5 r) (\<lambda>(bits, r). Ok (flags_from_bits bits, r))))"

definition read_temporal_garbage :: "nat \<Rightarrow> u8 list option \<Rightarrow> BitReader \<Rightarrow> codec_fault + u8 list option \<times> BitReader" where
  "read_temporal_garbage width previous r =
     and_then (read_bit r) (\<lambda>(b, r).
       if \<not> b then Ok (None, r)
       else and_then (read_bit r) (\<lambda>(b, r).
              if \<not> b
              then and_then (ok_or (Fault (InvalidPayload ''garbage reference is invalid'')) previous) (\<lambda>codes. Ok (Some codes, r))
              else and_then (read_cell_encoding width previous 4 r) (\<lambda>(codes, r). Ok (Some codes, r))))"

text \<open>The page a distance refers back to.\<close>

definition back_reference :: "string \<Rightarrow> NormalizedPage list \<Rightarrow> u32 \<Rightarrow> codec_fault + NormalizedPage" where
  "back_reference msg history distance =
     (if unat distance + 1 \<le> length history then Ok (history ! (length history - (unat distance + 1)))
      else Err (Fault (InvalidPayload msg)))"

definition read_temporal_comment :: "NormalizedPage list \<Rightarrow> BitReader \<Rightarrow> codec_fault + u8 list \<times> BitReader" where
  "read_temporal_comment history r =
     and_then (read_bit r) (\<lambda>(b, r).
       if \<not> b then Ok ([], r)
       else and_then (read_bit r) (\<lambda>(b, r).
              if \<not> b
              then if history = [] then Err (Fault (InvalidPayload ''comment reference is invalid''))
                   else Ok (np_comment (last history), r)
              else and_then (read_bit r) (\<lambda>(b, r).
                     if \<not> b
                     then and_then (read_var_uint r) (\<lambda>(distance, r).
                            and_then (back_reference ''comment reference is invalid'' history distance) (\<lambda>page.
                              if np_comment page = [] then Err (Fault (InvalidPayload ''comment reference is empty''))
                              else Ok (np_comment page, r)))
                     else read_comment_literal r)))"

definition read_temporal_operation :: "Ctk3Operation option \<Rightarrow> BitReader \<Rightarrow> codec_fault + Ctk3Operation option \<times> BitReader" where
  "read_temporal_operation previous r =
     and_then (read_bit r) (\<lambda>(b, r).
       if \<not> b then Ok (None, r)
       else and_then (read_bit r) (\<lambda>(b, r).
              if \<not> b
              then and_then (ok_or (Fault (InvalidPayload ''operation reference is invalid'')) previous)
                     (\<lambda>operation. Ok (Some operation, r))
              else and_then (read_bit r) (\<lambda>(b, r).
                     if \<not> b
                     then and_then (ok_or (Fault (InvalidPayload ''operation delta has no reference'')) previous) (\<lambda>previous.
                            and_then (read_signed_var_int r) (\<lambda>(dx, r).
                              and_then (ok_or (Fault IntegerOverflow) (i64_checked (co_x previous + dx))) (\<lambda>x.
                                and_then (read_signed_var_int r) (\<lambda>(dy, r).
                                  and_then (ok_or (Fault IntegerOverflow) (i64_checked (co_y previous + dy))) (\<lambda>y.
                                    and_then (ok_or (Fault (InvalidPayload ''operation is invalid'')) (i32_try_from x)) (\<lambda>x.
                                      and_then (ok_or (Fault (InvalidPayload ''operation is invalid'')) (i32_try_from y)) (\<lambda>y.
                                        and_then (normalize_decoded_operation (previous\<lparr>co_x := x, co_y := y\<rparr>))
                                          (\<lambda>operation. Ok (Some operation, r)))))))))
                     else and_then (read_operation_body r) (\<lambda>(operation, r). Ok (Some operation, r)))))"

definition field_predictor ::
  "u32 \<Rightarrow> nat \<Rightarrow> nat \<Rightarrow> nat \<Rightarrow> NormalizedPage list \<Rightarrow> u8 list option \<Rightarrow> BitReader \<Rightarrow> codec_fault + u8 list option \<times> BitReader" where
  "field_predictor mode target_len width height history shared r =
     (if mode = 0 then Ok (None, r)
      else if 1 \<le> mode \<and> mode \<le> 7
      then if history = [] then Err (Fault (InvalidPayload ''temporal field has no previous page''))
           else let previous = last history
                in Ok (Some
                     (if mode = 1 then fit_codes (np_codes previous) target_len
                      else if mode = 2 then grayscale_codes (np_codes previous) target_len
                      else if mode = 3 then mirror_codes (np_codes previous) (np_height previous) width height
                      else if mode = 4 then predict_locked_codes previous width height False False
                      else if mode = 5 then predict_locked_codes previous width height False True
                      else if mode = 6 then predict_locked_codes previous width height True False
                      else predict_locked_codes previous width height True True), r)
      else if mode = 8 \<or> mode = 9
      then and_then (read_var_uint r) (\<lambda>(distance, r).
             and_then (back_reference ''temporal field reference is invalid'' history distance) (\<lambda>reference.
               Ok (Some (if mode = 8 then fit_codes (np_codes reference) target_len
                         else mirror_codes (np_codes reference) (np_height reference) width height), r)))
      else if mode = 10
      then and_then (ok_or (Fault (InvalidPayload ''shared field reference is invalid'')) shared)
             (\<lambda>codes. Ok (Some (fit_codes codes target_len), r))
      else Err (Fault (InvalidPayload ''temporal field mode is invalid'')))"

definition read_temporal_field ::
  "nat \<Rightarrow> nat \<Rightarrow> NormalizedPage list \<Rightarrow> u8 list option \<Rightarrow> BitReader \<Rightarrow> codec_fault + u8 list \<times> BitReader" where
  "read_temporal_field width height history shared r =
     and_then (read_bits 4 r) (\<lambda>(mode, r).
       and_then (ok_or (Fault IntegerOverflow) (usize_checked_mul width height)) (\<lambda>target_len.
         and_then (field_predictor mode target_len width height history shared r) (\<lambda>(predictor, r).
           read_cell_encoding target_len predictor 4 r)))"

definition read_temporal_page ::
  "nat \<Rightarrow> NormalizedPage list \<Rightarrow> u8 list option \<Rightarrow> BitReader \<Rightarrow> codec_fault + NormalizedPage \<times> BitReader" where
  "read_temporal_page width history shared r =
     (let previous = (if history = [] then None else Some (last history))
      in and_then (read_temporal_flags (map_option np_flags previous) r) (\<lambda>(flags, r).
           and_then
             (case previous of
                Some previous \<Rightarrow>
                  and_then (read_bit r) (\<lambda>(changed, r).
                    if changed then and_then (read_var_uint r) (\<lambda>(height, r). Ok (unat height, r))
                    else Ok (np_height previous, r))
              | None \<Rightarrow> and_then (read_var_uint r) (\<lambda>(height, r). Ok (unat height, r))) (\<lambda>(height, r).
             if height > MAX_HEIGHT then Err (Fault (InvalidPayload ''page height is invalid''))
             else and_then (read_temporal_field width height history shared r) (\<lambda>(codes, r).
               and_then (read_temporal_garbage width (Option.bind previous np_garbage) r) (\<lambda>(garbage, r).
                 and_then (read_temporal_comment history r) (\<lambda>(comment, r).
                   and_then (read_temporal_operation (Option.bind previous np_operation) r) (\<lambda>(operation, r).
                     Ok (\<lparr>np_height = height, np_codes = codes, np_comment = comment, np_operation = operation,
                          np_flags = flags, np_garbage = garbage\<rparr>, r))))))))"

function read_temporal_pages ::
  "nat \<Rightarrow> nat \<Rightarrow> u8 list option \<Rightarrow> NormalizedPage list \<Rightarrow> BitReader \<Rightarrow> codec_fault + NormalizedPage list \<times> BitReader" where
  "read_temporal_pages width page_count shared pages r =
     (if length pages < page_count
      then and_then (read_bits 2 r) (\<lambda>(mode, r).
             if mode = 0
             then and_then (read_temporal_page width pages shared r) (\<lambda>(page, r).
                    read_temporal_pages width page_count shared (pages @ [page]) r)
             else if mode = 1
             then if pages = [] then Err (Fault (InvalidPayload ''repeated page has no reference''))
                  else read_temporal_pages width page_count shared (pages @ [last pages]) r
             else if mode = 2
             then and_then (read_var_uint r) (\<lambda>(distance, r).
                    and_then (back_reference ''page reference is invalid'' pages distance) (\<lambda>page.
                      read_temporal_pages width page_count shared (pages @ [page]) r))
             else if pages = [] then Err (Fault (InvalidPayload ''repeated page run has no reference''))
             else and_then (read_var_uint r) (\<lambda>(repeat_count, r).
                    if unat repeat_count + 2 > page_count - length pages
                    then Err (Fault (InvalidPayload ''repeated page run is invalid''))
                    else read_temporal_pages width page_count shared (pages @ replicate (unat repeat_count + 2) (last pages)) r))
      else Ok (pages, r))"
  by pat_completeness auto
termination
  by (relation "measure (\<lambda>(width, page_count, shared, pages, r). page_count - length pages)") auto

declare read_temporal_pages.simps [simp del]

end
