(* ===== verification/PageRoundTrips.thy ===== *)
theory PageRoundTrips
  imports PageCodecs
begin

text \<open>
  The readers of operations, comments and compact pages undo the writers, part by part, and so do the
  loops over the pages of a revision-1 document.
\<close>

lemma codec_last: "codec f p x \<Longrightarrow> (\<And>r. q x r = Ok (y, r)) \<Longrightarrow> codec f (\<lambda>r. and_then (p r) (\<lambda>(x, r). q x r)) y"
proof -
  assume a: "codec f p x" "\<And>r. q x r = Ok (y, r)"
  have "q x = (\<lambda>r. Ok (y, r))" using a(2) by (rule ext)
  then show ?thesis using codec_bind [of f p x Ok q y] codec_return [of y] a(1) by simp
qed

section \<open>Operations and comments\<close>

lemma codec_coordinate:
  assumes "nat \<bar>v\<bar> \<le> MAX_OPERATION_COORDINATE" shows "codec (write_signed_var_int v) read_coordinate v"
proof -
  have small: "zigzag v < 2 ^ 32" using assms by (auto simp: zigzag_def)
  have "i32_try_from v = Some v" using assms by (auto simp: i32_try_from_def)
  then show ?thesis
    unfolding read_coordinate_def [abs_def] using assms by (intro codec_last [OF codec_signed_var_int [OF small]]) simp
qed

lemma normalize_wf_operation: "wf_operation operation \<Longrightarrow> normalize_decoded_operation operation = Ok operation"
  by (simp add: wf_operation_def normalize_decoded_operation_def)

lemma codec_operation_body:
  assumes "wf_operation operation" shows "codec (write_operation_body operation) read_operation_body operation"
proof -
  define rotations where "rotations = operation_rotations (co_piece operation)"
  obtain i where i: "position_of (co_rotation operation) rotations = Some i" "i < length rotations" "rotations ! i = co_rotation operation"
    using wf_operation_rotation [OF assms] position_of_Some unfolding rotations_def by metis
  have n: "length rotations \<le> 9" by (cases "co_piece operation") (simp_all add: rotations_def)
  have fits: "i < 2 ^ bits_for_choices (length rotations)" "bits_for_choices (length rotations) \<le> 32"
    using bits_for_choices_fits [OF i(2)] bits_for_choices_palette [OF n] n by simp_all
  have ui: "unat (word_of_nat i :: u32) = i" using i(2) n by (intro unat_word_of_nat) simp
  have fit: "nat \<bar>co_x operation\<bar> \<le> MAX_OPERATION_COORDINATE" "nat \<bar>co_y operation\<bar> \<le> MAX_OPERATION_COORDINATE"
    using assms by (simp_all add: wf_operation_def coordinates_fit_def)
  have eta: "\<lparr>co_piece = co_piece operation, co_rotation = co_rotation operation, co_x = co_x operation, co_y = co_y operation\<rparr> = operation"
    by (cases operation) simp
  have located: "codec (\<lambda>w. and_then (write_signed_var_int (co_x operation) w) (write_signed_var_int (co_y operation)))
      (read_located (co_piece operation) (co_rotation operation)) operation"
    unfolding read_located_def [abs_def]
    by (rule codec_bind [OF codec_coordinate [OF fit(1)]], rule codec_last [OF codec_coordinate [OF fit(2)]])
      (simp add: eta normalize_wf_operation [OF assms])
  have "codec (\<lambda>w. and_then (write_bits (wire_index (co_piece operation)) 3 w) (\<lambda>w.
      and_then (write_bits (word_of_nat i) (bits_for_choices (length rotations)) w) (\<lambda>w.
        and_then (write_signed_var_int (co_x operation) w) (write_signed_var_int (co_y operation))))) read_operation_body operation"
    unfolding read_operation_body_def [abs_def]
    by (rule codec_bind [OF codec_bits], simp, rule wire_index_bound,
        simp only: from_wire_index_wire_index ok_or_simps and_then_simps Let_def rotations_def [symmetric],
        rule codec_bind [OF codec_bits])
      (use fits ui located i in \<open>simp_all add: nth_opt_def\<close>)
  then show ?thesis
    by (simp add: write_operation_body_def [abs_def] i(1) Let_def flip: rotations_def)
qed

lemma codec_comment_literal:
  assumes "length comment \<le> MAX_COMMENT_BYTES" "is_utf8 comment"
  shows "codec (\<lambda>w. and_then (write_var_uint (word_of_nat (length comment)) w) (write_bytes comment)) read_comment_literal comment"
proof -
  have n: "length comment < 2 ^ 32" using assms(1) by simp
  have u: "unat (word_of_nat (length comment) :: u32) = length comment" by (rule unat_u32 [OF n])
  show ?thesis
    unfolding read_comment_literal_def [abs_def]
    by (rule codec_bind [OF codec_var_uint [OF n]], unfold u)
      (use assms codec_last [OF codec_bytes [of comment], of "\<lambda>bytes r. if is_utf8 bytes then Ok (bytes, r) else Err (Fault InvalidUtf8)"] in simp)
qed

section \<open>Linear pages\<close>

lemma codec_cells:
  assumes "\<forall>c\<in>set codes. c \<le> 8" "length codes = n" "n < 2 ^ 32" "mode_width = 3 \<or> mode_width = 4"
  shows "codec (write_best_cell_encoding codes previous mode_width True) (read_cell_encoding n previous mode_width) codes"
  using write_best_codec [of codes mode_width True previous] assms by (auto simp: valid_codes_def)

lemma page_cell_count:
  assumes "wf_page width page" "width \<le> MAX_WIDTH"
  shows "usize_checked_mul width (np_height page) = Some (width * np_height page)" "width * np_height page < 2 ^ 32"
proof -
  have "width * np_height page \<le> 31 * 31" using assms by (intro mult_le_mono) (simp_all add: wf_page_def)
  then show "usize_checked_mul width (np_height page) = Some (width * np_height page)" "width * np_height page < 2 ^ 32"
    by (simp_all add: usize_checked_mul_def USIZE_MAX_def)
qed

lemma codec_case_option:
  assumes "\<And>x. v = Some x \<Longrightarrow> codec (f x) p y" "v = None \<Longrightarrow> codec g p y"
  shows "codec (\<lambda>w. case v of Some x \<Rightarrow> f x w | None \<Rightarrow> g w) p y"
  using assms by (cases v) simp_all

lemma codec_page_tail:
  assumes wf: "wf_page width page" "width \<le> MAX_WIDTH"
    and op: "codec put_operation get_operation (np_operation page)"
  shows "codec (\<lambda>w. and_then (write_best_cell_encoding (np_codes page) (map_option np_codes previous) 3 True w) (\<lambda>w.
      and_then (case np_garbage page of Some garbage \<Rightarrow> write_best_cell_encoding garbage None 3 True w | None \<Rightarrow> Ok w) (\<lambda>w.
        and_then (if np_comment page \<noteq> []
                  then and_then (write_var_uint (word_of_nat (length (np_comment page))) w) (write_bytes (np_comment page))
                  else Ok w) put_operation)))
    (read_page_tail width previous 3 (np_flags page) (np_height page) (np_garbage page \<noteq> None) (np_comment page \<noteq> []) get_operation) page"
proof -
  note count = page_cell_count [OF wf]
  have h: "\<not> np_height page > MAX_HEIGHT" using wf(1) by (simp add: wf_page_def)
  have codes: "codec (write_best_cell_encoding (np_codes page) (map_option np_codes previous) 3 True)
      (read_cell_encoding (width * np_height page) (map_option np_codes previous) 3) (np_codes page)"
    using wf(1) count(2) by (intro codec_cells) (simp_all add: wf_page_def mult.commute)
  have garbage: "codec (\<lambda>w. case np_garbage page of Some garbage \<Rightarrow> write_best_cell_encoding garbage None 3 True w | None \<Rightarrow> Ok w)
      (\<lambda>r. if np_garbage page \<noteq> None
            then and_then (read_cell_encoding width None 3 r) (\<lambda>(garbage, r). Ok (Some garbage, r)) else Ok (None, r)) (np_garbage page)"
  proof (cases "np_garbage page")
    case (Some g)
    then have "codec (write_best_cell_encoding g None 3 True) (read_cell_encoding width None 3) g"
      using wf by (intro codec_cells) (simp_all add: wf_page_def)
    from codec_map [OF this, of Some] Some show ?thesis by simp
  qed (simp add: codec_return)
  have comment: "codec (\<lambda>w. if np_comment page \<noteq> []
      then and_then (write_var_uint (word_of_nat (length (np_comment page))) w) (write_bytes (np_comment page)) else Ok w)
      (\<lambda>r. if np_comment page \<noteq> [] then read_comment_literal r else Ok ([], r)) (np_comment page)"
  proof (cases "np_comment page = []")
    case False
    then show ?thesis using codec_comment_literal [of "np_comment page"] wf(1) by (simp add: wf_page_def)
  qed (simp add: codec_return)
  have eta: "\<lparr>np_height = np_height page, np_codes = np_codes page, np_comment = np_comment page, np_operation = np_operation page,
      np_flags = np_flags page, np_garbage = np_garbage page\<rparr> = page" by (cases page) simp
  show ?thesis
    unfolding read_page_tail_def [abs_def] if_not_P [OF h] count(1) ok_or_simps and_then_simps
    by (rule codec_bind [OF codes], rule codec_bind [OF garbage], rule codec_bind [OF comment], rule codec_last [OF op])
      (simp add: eta)
qed

lemma codec_same_height:
  assumes "height \<le> MAX_HEIGHT"
  shows "codec (\<lambda>w. case previous of
        Some previous \<Rightarrow>
          let same_height = (height = np_height previous); w = write_bit same_height w
          in if \<not> same_height then write_var_uint (word_of_nat height) w else Ok w
      | None \<Rightarrow> write_var_uint (word_of_nat height) w)
    (\<lambda>r. case previous of
        Some previous \<Rightarrow>
          and_then (read_bit r) (\<lambda>(same_height, r).
            if same_height then Ok (np_height previous, r)
            else and_then (read_var_uint r) (\<lambda>(height, r). Ok (unat height, r)))
      | None \<Rightarrow> and_then (read_var_uint r) (\<lambda>(height, r). Ok (unat height, r))) height"
proof (cases previous)
  case None
  then show ?thesis using assms codec_count [of height] by simp
next
  case (Some p)
  have "codec (\<lambda>w. if height \<noteq> np_height p then write_var_uint (word_of_nat height) w else Ok w)
      (\<lambda>r. if height = np_height p then Ok (np_height p, r) else and_then (read_var_uint r) (\<lambda>(height, r). Ok (unat height, r))) height"
    using assms codec_count [of height] codec_return by (cases "height = np_height p") simp_all
  then show ?thesis
    using codec_bit_then [where b = "height = np_height p"
        and q = "\<lambda>same_height r. if same_height then Ok (np_height p, r) else and_then (read_var_uint r) (\<lambda>(height, r). Ok (unat height, r))"
        and g = "\<lambda>w. if height \<noteq> np_height p then write_var_uint (word_of_nat height) w else Ok w" and y = height]
    by (simp add: Some Let_def)
qed

definition flag_mode :: "Ctk3PageFlags \<Rightarrow> Ctk3PageFlags option \<Rightarrow> u32" where
  "flag_mode flags previous = (if flags = default_flags then 0 else if previous = Some flags then 1 else 2)"

lemma codec_compact_flags:
  "codec (\<lambda>w. if flag_mode flags previous = 2 then write_bits (flags_bits flags) 5 w else Ok w)
     (\<lambda>r. if flag_mode flags previous = 0 then Ok (default_flags, r)
          else if flag_mode flags previous = 1
          then and_then (ok_or (Fault (InvalidPayload ''page flag reference is invalid'')) previous) (\<lambda>flags. Ok (flags, r))
          else if flag_mode flags previous = 2 then and_then (read_bits 5 r) (\<lambda>(bits, r). Ok (flags_from_bits bits, r))
          else Err (Fault (InvalidPayload ''page flag mode is invalid''))) flags"
  using codec_map [OF codec_bits [OF _ flags_bits_bound], of flags flags_from_bits]
  by (simp add: flag_mode_def codec_return)

lemma codec_compact_page:
  assumes wf: "wf_page width page" "width \<le> MAX_WIDTH"
  shows "codec (write_compact_page page previous) (read_compact_page width previous) page"
proof -
  define mode where "mode = flag_mode (np_flags page) (map_option np_flags previous)"
  have mode: "(if np_flags page = default_flags then 0
      else if (case previous of None \<Rightarrow> False | Some previous \<Rightarrow> np_flags previous = np_flags page) then 1 else 2) = mode"
    by (cases previous) (auto simp: mode_def flag_mode_def)
  have small: "unat mode < 2 ^ 2" by (simp add: mode_def flag_mode_def)
  have height: "np_height page \<le> MAX_HEIGHT" using wf(1) by (simp add: wf_page_def)
  have op: "codec (\<lambda>w. case np_operation page of Some operation \<Rightarrow> write_operation_body operation w | None \<Rightarrow> Ok w)
      (\<lambda>r. if np_operation page \<noteq> None
           then and_then (read_operation_body r) (\<lambda>(operation, r). Ok (Some operation, r)) else Ok (None, r)) (np_operation page)"
  proof (cases "np_operation page")
    case (Some operation)
    then have "wf_operation operation" using wf(1) by (simp add: wf_page_def)
    from codec_map [OF codec_operation_body [OF this], of Some] Some show ?thesis by simp
  qed (simp add: codec_return)
  define G where "G = (\<lambda>w. and_then
      (case previous of
         Some previous \<Rightarrow>
           let same_height = (np_height page = np_height previous); w = write_bit same_height w
           in if \<not> same_height then write_var_uint (word_of_nat (np_height page)) w else Ok w
       | None \<Rightarrow> write_var_uint (word_of_nat (np_height page)) w) (\<lambda>w.
      and_then (write_best_cell_encoding (np_codes page) (map_option np_codes previous) 3 True w) (\<lambda>w.
      and_then (case np_garbage page of Some garbage \<Rightarrow> write_best_cell_encoding garbage None 3 True w | None \<Rightarrow> Ok w) (\<lambda>w.
        and_then (if np_comment page \<noteq> []
                  then and_then (write_var_uint (word_of_nat (length (np_comment page))) w) (write_bytes (np_comment page))
                  else Ok w) (\<lambda>w. case np_operation page of Some operation \<Rightarrow> write_operation_body operation w | None \<Rightarrow> Ok w)))))"
  define Q where "Q = (\<lambda>has_comment has_operation has_garbage r. and_then
      (case previous of
         Some previous \<Rightarrow>
           and_then (read_bit r) (\<lambda>(same_height, r).
             if same_height then Ok (np_height previous, r)
             else and_then (read_var_uint r) (\<lambda>(height, r). Ok (unat height, r)))
       | None \<Rightarrow> and_then (read_var_uint r) (\<lambda>(height, r). Ok (unat height, r))) (\<lambda>(height, r).
      read_page_tail width previous 3 (np_flags page) height has_garbage has_comment
        (\<lambda>r. if has_operation then and_then (read_operation_body r) (\<lambda>(operation, r). Ok (Some operation, r))
             else Ok (None, r)) r))"
  have "codec G (Q (np_comment page \<noteq> []) (np_operation page \<noteq> None) (np_garbage page \<noteq> None)) page"
    unfolding G_def Q_def by (rule codec_bind, rule codec_same_height [OF height], rule codec_page_tail [OF wf op])
  then have bits: "codec (\<lambda>w. G (write_bit (np_garbage page \<noteq> None) (write_bit (np_operation page \<noteq> None) (write_bit (np_comment page \<noteq> []) w))))
      (\<lambda>r. and_then (read_bit r) (\<lambda>(has_comment, r). and_then (read_bit r) (\<lambda>(has_operation, r).
         and_then (read_bit r) (\<lambda>(has_garbage, r). Q has_comment has_operation has_garbage r)))) page"
    by (intro codec_bit_then [where q = "\<lambda>has_comment r. and_then (read_bit r) (\<lambda>(has_operation, r).
         and_then (read_bit r) (\<lambda>(has_garbage, r). Q has_comment has_operation has_garbage r))"
         and g = "\<lambda>w. G (write_bit (np_garbage page \<noteq> None) (write_bit (np_operation page \<noteq> None) w))"]
        codec_bit_then [where q = "\<lambda>has_operation r. and_then (read_bit r) (\<lambda>(has_garbage, r). Q (np_comment page \<noteq> []) has_operation has_garbage r)"
         and g = "\<lambda>w. G (write_bit (np_garbage page \<noteq> None) w)"]
        codec_bit_then [where q = "Q (np_comment page \<noteq> []) (np_operation page \<noteq> None)" and g = G])
  show ?thesis
    unfolding write_compact_page_def [abs_def] read_compact_page_def [abs_def] mode
    unfolding Let_def
    by (rule codec_bind [OF codec_bits [OF _ small]], simp, unfold mode_def, rule codec_bind [OF codec_compact_flags])
      (use bits in \<open>simp only: G_def Q_def Let_def\<close>)
qed

lemma try_fold_snoc: "try_fold f s (xs @ [x]) = and_then (try_fold f s xs) (\<lambda>s. f s x)"
  by (simp add: try_fold_append)

lemma codec_linear_pages:
  assumes wf: "\<forall>page\<in>set pages. wf_page width page" "width \<le> MAX_WIDTH" and n: "n \<le> length pages"
  shows "codec (\<lambda>w. try_fold (\<lambda>w index. write_compact_page (pages ! index)
        (if index = 0 then None else Some (pages ! (index - 1))) w) w [0..<n])
      (read_linear_pages width n 1) (take n pages)"
  using n
proof (induction n)
  case 0
  show ?case by (simp add: read_linear_pages_def [abs_def] codec_return)
next
  case (Suc n)
  define previous where "previous = (if n = 0 then None else Some (pages ! (n - 1)))"
  have prev: "(if take n pages = [] then None else Some (last (take n pages))) = previous"
    using Suc.prems by (cases n) (auto simp: previous_def take_Suc_conv_app_nth)
  have more: "take n pages @ [pages ! n] = take (Suc n) pages" using Suc.prems by (simp add: take_Suc_conv_app_nth)
  have "codec (write_compact_page (pages ! n) previous)
      (\<lambda>r. and_then (read_compact_page width previous r) (\<lambda>(page, r). Ok (take n pages @ [page], r))) (take (Suc n) pages)"
    using codec_map [OF codec_compact_page [OF _ wf(2)], of "pages ! n" previous "\<lambda>page. take n pages @ [page]"] Suc.prems wf(1)
    by (simp add: more)
  moreover define step where "step = (\<lambda>pages r. and_then (read_compact_page width (if pages = [] then None else Some (last pages)) r)
      (\<lambda>(page, r). Ok (pages @ [page], r)))"
  ultimately have "codec (write_compact_page (pages ! n) previous) (step (take n pages)) (take (Suc n) pages)"
    by (simp only: prev)
  moreover have "read_linear_pages width (Suc n) 1 = (\<lambda>r. and_then (read_linear_pages width n 1 r) (\<lambda>(pages, r). step pages r))"
    by (simp add: read_linear_pages_def fun_eq_iff try_fold_snoc step_def Let_def split_def)
  ultimately show ?case
    using codec_bind [where q = step, OF Suc.IH] Suc.prems by (simp add: try_fold_snoc previous_def)
qed

interpretation operation_body: bit_codec write_operation_body read_operation_body wf_operation
  by unfold_locales (rule codec_operation_body)

interpretation compact_page: bit_codec "\<lambda>page. write_compact_page page previous" "read_compact_page width previous"
  "\<lambda>page. wf_page width page \<and> width \<le> MAX_WIDTH" for width previous
  by unfold_locales (use codec_compact_page in blast)

end
