(* ===== verification/TemporalRoundTrips.thy ===== *)
theory TemporalRoundTrips
  imports PageRoundTrips
begin

text \<open>
  The readers of temporal pages undo the writers.  Every candidate a writer compares is read back as the
  same part, so the choice of the shortest one is free; the tables of the writer only refer to pages the
  reader already has.
\<close>

section \<open>Tagged alternatives\<close>

text \<open>The readers of temporal parts decide bit by bit which form follows.\<close>

definition branch :: "(BitReader \<Rightarrow> codec_fault + 'a \<times> BitReader) \<Rightarrow> (BitReader \<Rightarrow> codec_fault + 'a \<times> BitReader)
    \<Rightarrow> BitReader \<Rightarrow> codec_fault + 'a \<times> BitReader" where
  "branch p q r = and_then (read_bit r) (\<lambda>(b, r). if \<not> b then p r else q r)"

lemma parses_branch: "parses p bs x \<Longrightarrow> parses (branch p q) (False # bs) x" "parses q bs x \<Longrightarrow> parses (branch p q) (True # bs) x"
  using parses_bit_then [of "\<lambda>b r. if \<not> b then p r else q r"] by (simp_all add: branch_def [abs_def])

lemma codec_tag0: "codec (\<lambda>w. Ok (write_bit False w)) (branch (\<lambda>r. Ok (x, r)) q) x"
  by (rule codecI [OF writes_bit parses_branch(1) [OF parses_return]])

lemma codec_tag10: "codec g p1 x \<Longrightarrow> codec (\<lambda>w. and_then (write_bits 1 2 w) g) (branch p0 (branch p1 p2)) x"
  by (rule codec_prefix [OF writes_bits]) (auto simp: nat_bits_small intro: parses_branch)

lemma codec_tag11: "codec g p2 x \<Longrightarrow> codec (\<lambda>w. and_then (write_bits 3 2 w) g) (branch p0 (branch p1 p2)) x"
proof (rule codec_prefix [OF writes_bits])
  have "nat_bits 2 (unat (3 :: u32)) = [True, True]" by code_simp
  then show "parses (branch p0 (branch p1 p2)) (nat_bits 2 (unat (3 :: u32)) @ cs) x" if "parses p2 cs x" for cs
    using that by (simp add: parses_branch)
qed simp_all

lemma codec_tag110:
  "codec g p2 x \<Longrightarrow> codec (\<lambda>w. and_then (write_bits 3 3 w) g) (branch p0 (branch p1 (branch p2 p3))) x"
  by (rule codec_prefix [OF writes_bits]) (auto simp: nat_bits_small intro: parses_branch)

lemma codec_tag111:
  "codec g p3 x \<Longrightarrow> codec (\<lambda>w. and_then (write_bits 7 3 w) g) (branch p0 (branch p1 (branch p2 p3))) x"
  by (rule codec_prefix [OF writes_bits]) (auto simp: nat_bits_small intro: parses_branch)

lemma codec_copy: "codec (write_bits 1 2) (branch p0 (branch (\<lambda>r. Ok (x, r)) p2)) x"
  using codec_tag10 [OF codec_return] by fastforce

section \<open>Flags, heights, garbage and operations\<close>

lemma codec_temporal_flags: "codec (write_temporal_flags flags previous) (read_temporal_flags previous) flags"
proof -
  have eq: "read_temporal_flags previous = branch (\<lambda>r. Ok (default_flags, r))
      (branch (\<lambda>r. and_then (ok_or (Fault (InvalidPayload ''page flag reference is invalid'')) previous) (\<lambda>flags. Ok (flags, r)))
        (\<lambda>r. and_then (read_bits 5 r) (\<lambda>(bits, r). Ok (flags_from_bits bits, r))))"
    unfolding read_temporal_flags_def [abs_def] branch_def [abs_def] by (rule refl)
  have "codec (write_bits (flags_bits flags) 5) (\<lambda>r. and_then (read_bits 5 r) (\<lambda>(bits, r). Ok (flags_from_bits bits, r))) flags"
    using codec_map [OF codec_bits [OF _ flags_bits_bound], of flags flags_from_bits] by simp
  from codec_tag11 [OF this] show ?thesis
    unfolding eq write_temporal_flags_def [abs_def]
    by (cases "flags = default_flags"; cases "previous = Some flags") (simp_all add: codec_tag0 codec_copy)
qed

lemma codec_temporal_height:
  assumes "height \<le> MAX_HEIGHT"
  shows "codec (\<lambda>w. case previous of
        Some previous \<Rightarrow>
          let same_height = (height = np_height previous); w = write_bit (\<not> same_height) w
          in if \<not> same_height then write_var_uint (word_of_nat height) w else Ok w
      | None \<Rightarrow> write_var_uint (word_of_nat height) w)
    (\<lambda>r. case previous of
        Some previous \<Rightarrow>
          and_then (read_bit r) (\<lambda>(changed, r).
            if changed then and_then (read_var_uint r) (\<lambda>(height, r). Ok (unat height, r))
            else Ok (np_height previous, r))
      | None \<Rightarrow> and_then (read_var_uint r) (\<lambda>(height, r). Ok (unat height, r))) height"
proof (cases previous)
  case None
  then show ?thesis using assms codec_count [of height] by simp
next
  case (Some p)
  have "codec (\<lambda>w. if height \<noteq> np_height p then write_var_uint (word_of_nat height) w else Ok w)
      (\<lambda>r. if height \<noteq> np_height p then and_then (read_var_uint r) (\<lambda>(height, r). Ok (unat height, r)) else Ok (np_height p, r)) height"
    using assms codec_count [of height] codec_return by (cases "height = np_height p") simp_all
  then show ?thesis
    using codec_bit_then [where b = "height \<noteq> np_height p"
        and q = "\<lambda>changed r. if changed then and_then (read_var_uint r) (\<lambda>(height, r). Ok (unat height, r)) else Ok (np_height p, r)"
        and g = "\<lambda>w. if height \<noteq> np_height p then write_var_uint (word_of_nat height) w else Ok w" and y = height]
    by (simp add: Some Let_def)
qed

lemma codec_temporal_garbage:
  assumes "\<forall>codes\<in>set_option garbage. length codes = width \<and> (\<forall>c\<in>set codes. c \<le> 8)" "width \<le> MAX_WIDTH"
  shows "codec (write_temporal_garbage garbage previous) (read_temporal_garbage width previous) garbage"
proof -
  have eq: "read_temporal_garbage width previous = branch (\<lambda>r. Ok (None, r))
      (branch (\<lambda>r. and_then (ok_or (Fault (InvalidPayload ''garbage reference is invalid'')) previous) (\<lambda>codes. Ok (Some codes, r)))
        (\<lambda>r. and_then (read_cell_encoding width previous 4 r) (\<lambda>(codes, r). Ok (Some codes, r))))"
    unfolding read_temporal_garbage_def [abs_def] branch_def [abs_def] by (rule refl)
  show ?thesis
  proof (cases garbage)
    case (Some codes)
    then have "codec (write_best_cell_encoding codes previous 4 True) (read_cell_encoding width previous 4) codes"
      using assms by (intro codec_cells) simp_all
    from codec_tag11 [OF codec_map [OF this, of Some]] show ?thesis
      unfolding eq write_temporal_garbage_def [abs_def] Some option.case
      by (cases "previous = Some codes") (simp_all add: codec_copy)
  qed (simp add: eq write_temporal_garbage_def [abs_def] codec_tag0)
qed

definition read_operation_delta :: "Ctk3Operation option \<Rightarrow> BitReader \<Rightarrow> codec_fault + Ctk3Operation option \<times> BitReader" where
  "read_operation_delta previous r =
     and_then (ok_or (Fault (InvalidPayload ''operation delta has no reference'')) previous) (\<lambda>previous.
       and_then (read_signed_var_int r) (\<lambda>(dx, r).
         and_then (ok_or (Fault IntegerOverflow) (i64_checked (co_x previous + dx))) (\<lambda>x.
           and_then (read_signed_var_int r) (\<lambda>(dy, r).
             and_then (ok_or (Fault IntegerOverflow) (i64_checked (co_y previous + dy))) (\<lambda>y.
               and_then (ok_or (Fault (InvalidPayload ''operation is invalid'')) (i32_try_from x)) (\<lambda>x.
                 and_then (ok_or (Fault (InvalidPayload ''operation is invalid'')) (i32_try_from y)) (\<lambda>y.
                   and_then (normalize_decoded_operation (previous\<lparr>co_x := x, co_y := y\<rparr>))
                     (\<lambda>operation. Ok (Some operation, r)))))))))"

lemma read_temporal_operation_branch:
  "read_temporal_operation previous = branch (\<lambda>r. Ok (None, r))
     (branch (\<lambda>r. and_then (ok_or (Fault (InvalidPayload ''operation reference is invalid'')) previous)
                (\<lambda>operation. Ok (Some operation, r)))
       (branch (read_operation_delta previous)
         (\<lambda>r. and_then (read_operation_body r) (\<lambda>(operation, r). Ok (Some operation, r)))))"
  unfolding read_temporal_operation_def [abs_def] branch_def [abs_def] read_operation_delta_def [abs_def] by (rule refl)

lemma zigzag_bound: "\<bar>v\<bar> < 2 ^ 31 \<Longrightarrow> zigzag v < 2 ^ 32"
  by (cases "v \<ge> 0") (simp_all add: zigzag_def nat_less_iff)

lemma difference_bound: "\<bar>a\<bar> < 2 ^ 30 \<Longrightarrow> \<bar>b\<bar> < 2 ^ 30 \<Longrightarrow> \<bar>a - b\<bar> < 2 ^ 31" for a b :: int
  using abs_triangle_ineq4 [of a b] by simp

lemma small_integers: "\<bar>v\<bar> < 2 ^ 31 \<Longrightarrow> i64_checked v = Some v" "\<bar>v\<bar> < 2 ^ 31 \<Longrightarrow> i32_try_from v = Some v"
  by (simp_all add: i64_checked_def i32_try_from_def abs_less_iff)

lemma wf_operation_bound: "wf_operation operation \<Longrightarrow> \<bar>co_x operation\<bar> < 2 ^ 30 \<and> \<bar>co_y operation\<bar> < 2 ^ 30"
  by (simp add: wf_operation_def coordinates_fit_def nat_le_iff)

lemma codec_operation_delta:
  assumes wf: "wf_operation operation" "wf_operation previous"
    and same: "co_piece previous = co_piece operation" "co_rotation previous = co_rotation operation"
  shows "codec (\<lambda>w. and_then (write_signed_var_int (co_x operation - co_x previous) w)
      (write_signed_var_int (co_y operation - co_y previous))) (read_operation_delta (Some previous)) (Some operation)"
proof -
  note fit = wf_operation_bound [OF wf(1)] wf_operation_bound [OF wf(2)]
  have "\<bar>co_x operation - co_x previous\<bar> < 2 ^ 31 \<and> \<bar>co_y operation - co_y previous\<bar> < 2 ^ 31"
    using fit difference_bound by blast
  then have small: "zigzag (co_x operation - co_x previous) < 2 ^ 32" "zigzag (co_y operation - co_y previous) < 2 ^ 32"
    using zigzag_bound by blast+
  have checked: "i64_checked (co_x operation) = Some (co_x operation)" "i64_checked (co_y operation) = Some (co_y operation)"
    "i32_try_from (co_x operation) = Some (co_x operation)" "i32_try_from (co_y operation) = Some (co_y operation)"
    using fit by (auto intro!: small_integers)
  have moved: "previous\<lparr>co_x := co_x operation, co_y := co_y operation\<rparr> = operation"
    using same by (cases previous; cases operation) simp
  show ?thesis
    unfolding read_operation_delta_def [abs_def] ok_or_simps and_then_simps
    by (rule codec_bind [OF codec_signed_var_int [OF small(1)]], simp add: checked,
        rule codec_last [OF codec_signed_var_int [OF small(2)]])
      (simp add: checked moved normalize_wf_operation [OF wf(1)])
qed

section \<open>Candidates\<close>

text \<open>A computation of candidates that succeeds, and every candidate is read back as the same part.\<close>

definition candidates :: "(BitReader \<Rightarrow> codec_fault + 'a \<times> BitReader) \<Rightarrow> 'a \<Rightarrow> codec_fault + BitWriter list \<Rightarrow> bool" where
  "candidates get x f \<longleftrightarrow> (\<exists>cs. f = Ok cs \<and> (\<forall>c\<in>set cs. candidate get x c))"

lemma candidates_none: "candidates get x (Ok [])"
  by (simp add: candidates_def)

lemma candidates_single: "codec put get x \<Longrightarrow> candidates get x (and_then (put bw_default) (\<lambda>c. Ok [c]))"
  by (erule candidate_of_codec) (simp add: candidates_def)

lemma candidates_when:
  "(P \<Longrightarrow> codec put get x) \<Longrightarrow> candidates get x (if P then and_then (put bw_default) (\<lambda>c. Ok [c]) else Ok [])"
  by (simp add: candidates_none candidates_single)

lemma candidates_case:
  "(\<And>v. prior = Some v \<Longrightarrow> codec (put v) get x)
   \<Longrightarrow> candidates get x (case prior of Some v \<Rightarrow> and_then (put v bw_default) (\<lambda>c. Ok [c]) | None \<Rightarrow> Ok [])"
  by (cases prior) (simp_all add: candidates_none candidates_single)

lemma codec_temporal_operation:
  assumes "\<forall>operation\<in>set_option operation. wf_operation operation" "\<forall>operation\<in>set_option previous. wf_operation operation"
  shows "codec (write_temporal_operation operation previous) (read_temporal_operation previous) operation"
proof (cases operation)
  case None
  then show ?thesis by (simp add: write_temporal_operation_def [abs_def] read_temporal_operation_branch codec_tag0)
next
  case (Some o')
  then have wf: "wf_operation o'" using assms(1) by simp
  show ?thesis
  proof (cases "previous = Some o'")
    case True
    then show ?thesis
      by (simp add: Some write_temporal_operation_def [abs_def] read_temporal_operation_branch codec_copy)
  next
    case False
    obtain literal where literal: "and_then (write_bits 7 3 bw_default) (write_operation_body o') = Ok literal"
      "candidate (read_temporal_operation previous) operation literal"
      using candidate_of_codec [OF codec_tag111 [OF codec_map [OF codec_operation_body [OF wf], of Some]]]
      unfolding read_temporal_operation_branch Some by blast
    have "candidates (read_temporal_operation previous) operation (case previous of
        Some previous \<Rightarrow>
          if co_piece previous = co_piece o' \<and> co_rotation previous = co_rotation o'
          then and_then (write_bits 3 3 bw_default) (\<lambda>c.
                 and_then (write_signed_var_int (co_x o' - co_x previous) c) (\<lambda>c.
                   and_then (write_signed_var_int (co_y o' - co_y previous) c) (\<lambda>c. Ok [c])))
          else Ok []
      | None \<Rightarrow> Ok [])"
      using candidates_single [OF codec_tag110 [OF codec_operation_delta [OF wf]]] assms(2)
      unfolding read_temporal_operation_branch Some
      by (auto simp: candidates_none and_then_assoc split: option.split)
    then obtain delta where delta: "(case previous of
        Some previous \<Rightarrow>
          if co_piece previous = co_piece o' \<and> co_rotation previous = co_rotation o'
          then and_then (write_bits 3 3 bw_default) (\<lambda>c.
                 and_then (write_signed_var_int (co_x o' - co_x previous) c) (\<lambda>c.
                   and_then (write_signed_var_int (co_y o' - co_y previous) c) (\<lambda>c. Ok [c])))
          else Ok []
      | None \<Rightarrow> Ok []) = Ok delta" "\<forall>c\<in>set delta. candidate (read_temporal_operation previous) operation c"
      unfolding candidates_def by blast
    have "write_temporal_operation operation previous = append_shortest ([literal] @ delta)"
      by (simp only: fun_eq_iff write_temporal_operation_def Some option.case if_not_P [OF False] literal(1) delta(1) and_then_simps)
        simp
    then show ?thesis
      using codec_shortest [of "[literal] @ delta" "read_temporal_operation previous" operation] literal(2) delta(2) by simp
  qed
qed

section \<open>Comments and fields\<close>

text \<open>The tables of the writer when the pages before \<open>index\<close> have been recorded.\<close>

definition context_ok :: "NormalizedPage list \<Rightarrow> TemporalContext \<Rightarrow> nat \<Rightarrow> bool" where
  "context_ok pages ctx index \<longleftrightarrow> tc_pages ctx = pages
     \<and> (\<forall>field prior. tc_latest_field ctx field = Some prior \<longrightarrow> prior < index)
     \<and> (\<forall>page prior. tc_latest_page ctx page = Some prior \<longrightarrow> prior < index \<and> pages ! prior = page)
     \<and> (\<forall>comment prior. tc_latest_comment ctx comment = Some prior \<longrightarrow>
          prior < index \<and> comment \<noteq> [] \<and> np_comment (pages ! prior) = comment)"

lemma context_ok_record: "context_ok pages ctx index \<Longrightarrow> context_ok pages (record_temporal_page ctx index) (Suc index)"
  by (auto simp: context_ok_def record_temporal_page_def Let_def less_Suc_eq)

lemma context_ok_records: "context_ok pages ctx index \<Longrightarrow> context_ok pages (foldl record_temporal_page ctx [index..<index + n]) (index + n)"
  by (induction n) (simp_all add: context_ok_record)

lemma tc_shared_record [simp]: "tc_shared (record_temporal_page ctx index) = tc_shared ctx"
  by (simp add: record_temporal_page_def Let_def)

lemma tc_shared_records [simp]: "tc_shared (foldl record_temporal_page ctx indices) = tc_shared ctx"
  by (induction indices arbitrary: ctx) simp_all

lemma far_reference_prior: "far_reference index prior = Some p \<Longrightarrow> prior = Some p"
  by (auto simp: far_reference_def split: option.splits if_splits)

lemma back_reference_prior:
  assumes "prior < index" "index \<le> length pages" "length pages < 2 ^ 32"
  shows "back_reference msg (take index pages) (word_of_nat (index - prior - 1)) = Ok (pages ! prior)"
proof -
  have "unat (word_of_nat (index - prior - 1) :: u32) = index - prior - 1" using assms by (intro unat_u32) simp
  then show ?thesis using assms unfolding back_reference_def by simp
qed

lemma last_history: "0 < index \<Longrightarrow> index \<le> length pages \<Longrightarrow> last (take index pages) = pages ! (index - 1) \<and> take index pages \<noteq> []"
  by (cases pages) (auto simp: last_conv_nth min_absorb2 nth_take)

definition read_comment_reference :: "NormalizedPage list \<Rightarrow> BitReader \<Rightarrow> codec_fault + u8 list \<times> BitReader" where
  "read_comment_reference history r =
     and_then (read_var_uint r) (\<lambda>(distance, r).
       and_then (back_reference ''comment reference is invalid'' history distance) (\<lambda>page.
         if np_comment page = [] then Err (Fault (InvalidPayload ''comment reference is empty''))
         else Ok (np_comment page, r)))"

lemma read_temporal_comment_branch:
  "read_temporal_comment history = branch (\<lambda>r. Ok ([], r))
     (branch (\<lambda>r. if history = [] then Err (Fault (InvalidPayload ''comment reference is invalid'')) else Ok (np_comment (last history), r))
       (branch (read_comment_reference history) read_comment_literal))"
  unfolding read_temporal_comment_def [abs_def] branch_def [abs_def] read_comment_reference_def [abs_def] by (rule refl)

lemma codec_comment_reference:
  assumes "prior < index" "index \<le> length pages" "length pages < 2 ^ 32" "np_comment (pages ! prior) \<noteq> []"
  shows "codec (write_var_uint (word_of_nat (index - prior - 1))) (read_comment_reference (take index pages)) (np_comment (pages ! prior))"
proof -
  have n: "index - prior - 1 < 2 ^ 32" using assms(2,3) by simp
  show ?thesis
    unfolding read_comment_reference_def [abs_def]
    by (rule codec_last [OF codec_var_uint [OF n]])
      (simp only: back_reference_prior [OF assms(1-3)] and_then_simps if_not_P [OF assms(4)])
qed

lemma codec_temporal_comment:
  assumes ctx: "context_ok pages ctx index" "index \<le> length pages" "length pages < 2 ^ 32"
    and comment: "length comment \<le> MAX_COMMENT_BYTES" "is_utf8 comment"
  shows "codec (write_temporal_comment comment ctx index) (read_temporal_comment (take index pages)) comment"
proof (cases "comment = []")
  case True
  then show ?thesis by (simp add: write_temporal_comment_def [abs_def] read_temporal_comment_branch codec_tag0)
next
  case False
  let ?get = "read_temporal_comment (take index pages)"
  have pages: "tc_pages ctx = pages" using ctx(1) by (simp add: context_ok_def)
  obtain literal where literal: "and_then (write_bits 7 3 bw_default) (\<lambda>c.
      and_then (write_var_uint (word_of_nat (length comment)) c) (write_bytes comment)) = Ok literal" "candidate ?get comment literal"
    using candidate_of_codec [OF codec_tag111 [OF codec_comment_literal [OF comment]]]
    unfolding read_temporal_comment_branch by blast
  have "candidates ?get comment (if index > 0 \<and> np_comment (tc_pages ctx ! (index - 1)) = comment
      then and_then (write_bits 1 2 bw_default) (\<lambda>c. Ok [c]) else Ok [])"
    using candidates_single [OF codec_copy [where x = comment]] last_history [OF _ ctx(2)]
    by (auto simp: candidates_none pages read_temporal_comment_branch)
  then obtain copied where copied: "(if index > 0 \<and> np_comment (tc_pages ctx ! (index - 1)) = comment
      then and_then (write_bits 1 2 bw_default) (\<lambda>c. Ok [c]) else Ok []) = Ok copied" "\<forall>c\<in>set copied. candidate ?get comment c"
    unfolding candidates_def by blast
  have "candidates ?get comment (case far_reference index (tc_latest_comment ctx comment) of
      Some prior \<Rightarrow> and_then (write_bits 3 3 bw_default) (\<lambda>c. and_then (write_var_uint (word_of_nat (index - prior - 1)) c) (\<lambda>c. Ok [c]))
    | None \<Rightarrow> Ok [])"
  proof (cases "far_reference index (tc_latest_comment ctx comment)")
    case (Some prior)
    then have prior: "prior < index" "np_comment (pages ! prior) = comment"
      using far_reference_prior [OF Some] ctx(1) by (auto simp: context_ok_def)
    from candidates_single [OF codec_tag110 [OF codec_comment_reference [OF prior(1) ctx(2,3)]]] prior(2) False
    show ?thesis unfolding Some option.case read_temporal_comment_branch by (simp only: and_then_assoc simp_thms)
  qed (simp add: candidates_none)
  then obtain referenced where referenced: "(case far_reference index (tc_latest_comment ctx comment) of
      Some prior \<Rightarrow> and_then (write_bits 3 3 bw_default) (\<lambda>c. and_then (write_var_uint (word_of_nat (index - prior - 1)) c) (\<lambda>c. Ok [c]))
    | None \<Rightarrow> Ok []) = Ok referenced" "\<forall>c\<in>set referenced. candidate ?get comment c"
    unfolding candidates_def by blast
  have "write_temporal_comment comment ctx index = append_shortest ([literal] @ copied @ referenced)"
    by (simp only: fun_eq_iff write_temporal_comment_def if_not_P [OF False] literal(1) copied(1) referenced(1) and_then_simps) simp
  then show ?thesis
    using codec_shortest [of "[literal] @ copied @ referenced" ?get comment] literal(2) copied(2) referenced(2) by auto
qed

text \<open>Every form of the field has the mode, the reference if there is one, and the cells against the predictor.\<close>

lemma codec_field_form:
  assumes codes: "\<forall>c\<in>set codes. c \<le> 8" "length codes = width * height" "width * height < 2 ^ 32" "unat mode < 2 ^ 4"
    and put: "codec put (field_predictor mode (width * height) width height history shared) predictor"
  shows "codec (\<lambda>w. and_then (write_bits mode 4 w) (\<lambda>w. and_then (put w) (\<lambda>w.
      case predictor of Some predictor \<Rightarrow> write_best_predicted_cell_encoding codes predictor 4 w
      | None \<Rightarrow> write_best_cell_encoding codes None 4 True w))) (read_temporal_field width height history shared) codes"
proof -
  have "usize_checked_mul width height = Some (width * height)"
    using codes(3) by (simp add: usize_checked_mul_def USIZE_MAX_def)
  moreover have "codec (\<lambda>w. case predictor of Some predictor \<Rightarrow> write_best_predicted_cell_encoding codes predictor 4 w
      | None \<Rightarrow> write_best_cell_encoding codes None 4 True w) (read_cell_encoding (width * height) predictor 4) codes"
    using codec_cells [OF codes(1-3), of 4 None] write_best_predicted_codec [of codes 4] codes
    by (cases predictor) (simp_all add: valid_codes_def)
  ultimately show ?thesis
    unfolding read_temporal_field_def [abs_def]
    by (intro codec_bind [OF codec_bits [OF _ codes(4)]]) (simp_all add: codec_bind [OF put])
qed

text \<open>Lists of candidates that are not empty.\<close>

definition some_candidates :: "(BitReader \<Rightarrow> codec_fault + 'a \<times> BitReader) \<Rightarrow> 'a \<Rightarrow> BitWriter list \<Rightarrow> bool" where
  "some_candidates get x cs \<longleftrightarrow> cs \<noteq> [] \<and> (\<forall>c\<in>set cs. candidate get x c)"

definition extends :: "(BitReader \<Rightarrow> codec_fault + 'a \<times> BitReader) \<Rightarrow> 'a \<Rightarrow> codec_fault + BitWriter list \<Rightarrow> bool" where
  "extends get x f \<longleftrightarrow> (\<exists>cs. f = Ok cs \<and> some_candidates get x cs)"

lemma extends_Ok: "some_candidates get x cs \<Longrightarrow> extends get x (Ok cs)"
  by (simp add: extends_def)

lemma extends_bind: "extends get x f \<Longrightarrow> (\<And>cs. some_candidates get x cs \<Longrightarrow> extends get x (g cs)) \<Longrightarrow> extends get x (and_then f g)"
  by (auto simp: extends_def)

lemma extends_fold:
  assumes "some_candidates get x cs" "\<And>cs v. v \<in> set vs \<Longrightarrow> some_candidates get x cs \<Longrightarrow> extends get x (g cs v)"
  shows "extends get x (try_fold g cs vs)"
  using assms by (induction vs arbitrary: cs) (auto intro!: extends_Ok extends_bind)

lemma codec_extends:
  assumes "extends get x f" "\<And>cs. some_candidates get x cs \<Longrightarrow> codec (g cs) get x"
  shows "codec (\<lambda>w. and_then f (\<lambda>cs. g cs w)) get x"
  using assms by (auto simp: extends_def)

lemma codec_some_candidates: "some_candidates get x cs \<Longrightarrow> codec (append_shortest cs) get x"
  by (auto simp: some_candidates_def intro: codec_shortest)

lemma extends_field_candidate:
  assumes codes: "\<forall>c\<in>set codes. c \<le> 8" "length codes = width * height" "width * height < 2 ^ 32" "unat mode < 2 ^ 4"
    and put: "codec (\<lambda>w. case distance of Some distance \<Rightarrow> write_var_uint (word_of_nat (distance - 1)) w | None \<Rightarrow> Ok w)
      (field_predictor mode (width * height) width height history shared) predictor"
    and cs: "\<forall>c\<in>set cs. candidate (read_temporal_field width height history shared) codes c"
  shows "extends (read_temporal_field width height history shared) codes (add_field_candidate cs mode codes predictor distance)"
proof -
  from candidate_of_codec [OF codec_field_form [OF codes put]] obtain c where
    "and_then (write_bits mode 4 bw_default) (\<lambda>c. and_then
       (case distance of Some distance \<Rightarrow> write_var_uint (word_of_nat (distance - 1)) c | None \<Rightarrow> Ok c) (\<lambda>c.
       case predictor of Some predictor \<Rightarrow> write_best_predicted_cell_encoding codes predictor 4 c
       | None \<Rightarrow> write_best_cell_encoding codes None 4 True c)) = Ok c"
    "candidate (read_temporal_field width height history shared) codes c" by blast
  then show ?thesis
    using cs unfolding extends_def some_candidates_def add_field_candidate_def
    by (force simp: and_then_eq_Ok_iff)
qed

lemma field_references_prior:
  assumes "context_ok pages ctx index" "prior \<in> set (field_references page ctx index)" shows "prior < index"
proof -
  have "set (foldl (\<lambda>references prior. if prior \<in> set references then references else references @ [prior]) references priors)
      = set references \<union> set priors" for references priors :: "nat list"
    by (induction priors arbitrary: references) (auto simp: insert_absorb)
  then have "prior \<in> set (case far_reference index (tc_latest_field ctx (np_height page, np_codes page)) of Some prior \<Rightarrow> [prior] | None \<Rightarrow> [])
      \<union> {index - 16..<index - 1}"
    using assms(2) unfolding field_references_def by simp
  then consider "far_reference index (tc_latest_field ctx (np_height page, np_codes page)) = Some prior" | "prior < index - 1"
    by (auto split: option.splits)
  then show ?thesis
  proof cases
    case 1
    from far_reference_prior [OF this] assms(1) show ?thesis unfolding context_ok_def by blast
  qed simp
qed

text \<open>The predictors of the reader.\<close>

lemma field_predictor_previous:
  assumes "mode \<in> {1, 2, 3, 4, 5, 6, 7}" "0 < index" "index \<le> length pages"
  shows "codec Ok (field_predictor mode n width height (take index pages) shared)
    (Some (if mode = 1 then fit_codes (np_codes (pages ! (index - 1))) n
      else if mode = 2 then grayscale_codes (np_codes (pages ! (index - 1))) n
      else if mode = 3 then mirror_codes (np_codes (pages ! (index - 1))) (np_height (pages ! (index - 1))) width height
      else predict_locked_codes (pages ! (index - 1)) width height (mode = 6 \<or> mode = 7) (mode = 5 \<or> mode = 7)))"
  using last_history [OF assms(2,3)] assms(1) codec_return unfolding field_predictor_def [abs_def] Let_def by auto

lemma field_predictor_reference:
  assumes "mode = 8 \<or> mode = 9" "prior < index" "index \<le> length pages" "length pages < 2 ^ 32"
  shows "codec (write_var_uint (word_of_nat (index - prior - 1))) (field_predictor mode n width height (take index pages) shared)
    (Some (if mode = 8 then fit_codes (np_codes (pages ! prior)) n
      else mirror_codes (np_codes (pages ! prior)) (np_height (pages ! prior)) width height))"
proof -
  have bound: "index - prior - 1 < 2 ^ 32" using assms(3,4) by simp
  have mode: "mode \<noteq> 0" "\<not> mode \<le> 7" using assms(1) by auto
  have "field_predictor mode n width height (take index pages) shared = (\<lambda>r. and_then (read_var_uint r) (\<lambda>(distance, r).
      and_then (back_reference ''temporal field reference is invalid'' (take index pages) distance) (\<lambda>reference.
        Ok (Some (if mode = 8 then fit_codes (np_codes reference) n
                  else mirror_codes (np_codes reference) (np_height reference) width height), r))))"
    using assms(1) mode by (simp add: field_predictor_def fun_eq_iff)
  then show ?thesis
    by (simp only:) (rule codec_last [OF codec_var_uint [OF bound]], simp only: back_reference_prior [OF assms(2-4)] and_then_simps)
qed

text \<open>What the field of a page is written and read with.\<close>

definition page_setting :: "nat \<Rightarrow> NormalizedPage \<Rightarrow> NormalizedPage list \<Rightarrow> TemporalContext \<Rightarrow> nat \<Rightarrow> bool" where
  "page_setting width page pages ctx index \<longleftrightarrow> wf_page width page \<and> width \<le> MAX_WIDTH
     \<and> context_ok pages ctx index \<and> index \<le> length pages \<and> length pages < 2 ^ 32"

abbreviation get_field :: "nat \<Rightarrow> NormalizedPage \<Rightarrow> NormalizedPage list \<Rightarrow> TemporalContext \<Rightarrow> nat
    \<Rightarrow> BitReader \<Rightarrow> codec_fault + u8 list \<times> BitReader" where
  "get_field width page pages ctx index \<equiv>
     read_temporal_field width (np_height page) (take index pages) (map_option sf_codes (tc_shared ctx))"

lemma extends_field:
  assumes "page_setting width page pages ctx index" "unat mode < 2 ^ 4"
    and "\<forall>c\<in>set cs. candidate (get_field width page pages ctx index) (np_codes page) c"
    and "codec (\<lambda>w. case distance of Some distance \<Rightarrow> write_var_uint (word_of_nat (distance - 1)) w | None \<Rightarrow> Ok w)
      (field_predictor mode (np_height page * width) width (np_height page) (take index pages) (map_option sf_codes (tc_shared ctx))) predictor"
  shows "extends (get_field width page pages ctx index) (np_codes page) (add_field_candidate cs mode (np_codes page) predictor distance)"
  using assms page_cell_count(2) [of width page]
  by (intro extends_field_candidate) (simp_all add: page_setting_def wf_page_def mult.commute)

lemma extends_previous:
  assumes set: "page_setting width page pages ctx index" "0 < index"
    and cs: "some_candidates (get_field width page pages ctx index) (np_codes page) cs" and mode: "mode \<in> {1, 2, 3, 4, 5, 6, 7}"
  shows "extends (get_field width page pages ctx index) (np_codes page) (add_field_candidate cs mode (np_codes page) (Some
      (if mode = 1 then fit_codes (np_codes (pages ! (index - 1))) (np_height page * width)
       else if mode = 2 then grayscale_codes (np_codes (pages ! (index - 1))) (np_height page * width)
       else if mode = 3 then mirror_codes (np_codes (pages ! (index - 1))) (np_height (pages ! (index - 1))) width (np_height page)
       else predict_locked_codes (pages ! (index - 1)) width (np_height page) (mode = 6 \<or> mode = 7) (mode = 5 \<or> mode = 7))) None)"
proof -
  have "unat mode < 2 ^ 4" using mode by auto
  then show ?thesis
    using field_predictor_previous [OF mode set(2)] set(1) cs
    by (intro extends_field [OF set(1)]) (simp_all add: some_candidates_def page_setting_def)
qed

lemma extends_reference:
  assumes set: "page_setting width page pages ctx index" "prior < index"
    and cs: "some_candidates (get_field width page pages ctx index) (np_codes page) cs" and mode: "mode = 8 \<or> mode = 9"
  shows "extends (get_field width page pages ctx index) (np_codes page) (add_field_candidate cs mode (np_codes page) (Some
      (if mode = 8 then fit_codes (np_codes (pages ! prior)) (np_height page * width)
       else mirror_codes (np_codes (pages ! prior)) (np_height (pages ! prior)) width (np_height page))) (Some (index - prior)))"
proof -
  have "unat mode < 2 ^ 4" using mode by auto
  then show ?thesis
    using field_predictor_reference [OF mode set(2)] set(1) cs
    by (intro extends_field [OF set(1)]) (simp_all add: some_candidates_def page_setting_def)
qed

lemma extends_shared:
  assumes set: "page_setting width page pages ctx index"
    and cs: "some_candidates (get_field width page pages ctx index) (np_codes page) cs"
  shows "extends (get_field width page pages ctx index) (np_codes page) (case tc_shared ctx of
      Some shared \<Rightarrow> add_field_candidate cs 10 (np_codes page) (Some (fit_codes (sf_codes shared) (np_height page * width))) None
    | None \<Rightarrow> Ok cs)"
proof (cases "tc_shared ctx")
  case None
  show ?thesis using extends_Ok [OF cs] by (simp only: None option.case)
next
  case (Some shared)
  have "extends (get_field width page pages ctx index) (np_codes page)
      (add_field_candidate cs 10 (np_codes page) (Some (fit_codes (sf_codes shared) (np_height page * width))) None)"
    using cs by (intro extends_field [OF set]) (simp_all add: Some field_predictor_def [abs_def] codec_return some_candidates_def)
  then show ?thesis by (simp only: Some option.case)
qed

lemma extends_previous_forms:
  assumes set: "page_setting width page pages ctx index"
    and cs: "some_candidates (get_field width page pages ctx index) (np_codes page) cs"
  shows "extends (get_field width page pages ctx index) (np_codes page) (if index > 0
      then and_then (add_field_candidate cs 1 (np_codes page) (Some (fit_codes (np_codes (pages ! (index - 1))) (np_height page * width))) None) (\<lambda>cs.
        and_then (add_field_candidate cs 2 (np_codes page) (Some (grayscale_codes (np_codes (pages ! (index - 1))) (np_height page * width))) None) (\<lambda>cs.
        and_then (add_field_candidate cs 3 (np_codes page)
                   (Some (mirror_codes (np_codes (pages ! (index - 1))) (np_height (pages ! (index - 1))) width (np_height page))) None) (\<lambda>cs.
          try_fold (\<lambda>cs (mode, clear_rows, grayscale).
              add_field_candidate cs mode (np_codes page)
                (Some (predict_locked_codes (pages ! (index - 1)) width (np_height page) clear_rows grayscale)) None)
            cs [(4, False, False), (5, False, True), (6, True, False), (7, True, True)])))
      else Ok cs)"
proof (cases "index > 0")
  case True
  note form = extends_previous [OF set True]
  show ?thesis
    unfolding if_P [OF True]
    using form [of _ 1] form [of _ 2] form [of _ 3] form [of _ 4] form [of _ 5] form [of _ 6] form [of _ 7] cs
    by (intro extends_bind extends_fold) auto
qed (use extends_Ok [OF cs] in \<open>simp only: if_False\<close>)

lemma extends_references:
  assumes set: "page_setting width page pages ctx index"
    and cs: "some_candidates (get_field width page pages ctx index) (np_codes page) cs"
  shows "extends (get_field width page pages ctx index) (np_codes page) (try_fold (\<lambda>cs prior.
      and_then (add_field_candidate cs 8 (np_codes page) (Some (fit_codes (np_codes (pages ! prior)) (np_height page * width))) (Some (index - prior))) (\<lambda>cs.
        add_field_candidate cs 9 (np_codes page)
          (Some (mirror_codes (np_codes (pages ! prior)) (np_height (pages ! prior)) width (np_height page))) (Some (index - prior))))
    cs (field_references page ctx index))"
  using extends_reference [OF set, of _ _ 8] extends_reference [OF set, of _ _ 9] field_references_prior [of pages ctx index _ page] set
  by (intro extends_fold [OF cs] extends_bind) (simp_all add: page_setting_def)

lemma codec_temporal_field:
  assumes set: "page_setting width page pages ctx index"
  shows "codec (write_temporal_field page ctx index width) (get_field width page pages ctx index) (np_codes page)"
proof -
  have pages: "tc_pages ctx = pages" using set by (simp add: page_setting_def context_ok_def)
  have start: "extends (get_field width page pages ctx index) (np_codes page) (add_field_candidate [] 0 (np_codes page) None None)"
    by (rule extends_field [OF set]) (simp_all add: field_predictor_def [abs_def] codec_return)
  show ?thesis
    unfolding write_temporal_field_def [abs_def] Let_def pages
    by (rule codec_extends [OF start], rule codec_extends, rule extends_previous_forms [OF set], assumption,
        rule codec_extends, rule extends_references [OF set], assumption,
        rule codec_extends, rule extends_shared [OF set], assumption, rule codec_some_candidates)
qed

section \<open>Pages\<close>

lemma codec_temporal_page:
  assumes set: "page_setting width page pages ctx index" and wf: "\<forall>page\<in>set pages. wf_page width page"
  shows "codec (write_temporal_page page ctx index width)
    (read_temporal_page width (take index pages) (map_option sf_codes (tc_shared ctx))) page"
proof -
  define previous where "previous = (if index = 0 then None else Some (pages ! (index - 1)))"
  have pages: "tc_pages ctx = pages" and ctx: "context_ok pages ctx index" "index \<le> length pages" "length pages < 2 ^ 32"
    and page: "wf_page width page" "width \<le> MAX_WIDTH"
    using set by (simp_all add: page_setting_def context_ok_def)
  have prev: "(if take index pages = [] then None else Some (last (take index pages))) = previous"
    using last_history [OF _ ctx(2)] by (auto simp: previous_def)
  have "\<forall>page\<in>set_option previous. wf_page width page"
    using wf ctx(2) by (auto simp: previous_def)
  then have op: "\<forall>operation\<in>set_option (Option.bind previous np_operation). wf_operation operation"
    by (cases previous) (auto simp: wf_page_def)
  have parts: "np_height page \<le> MAX_HEIGHT" "\<not> np_height page > MAX_HEIGHT"
    "\<forall>codes\<in>set_option (np_garbage page). length codes = width \<and> (\<forall>c\<in>set codes. c \<le> 8)"
    "length (np_comment page) \<le> MAX_COMMENT_BYTES" "is_utf8 (np_comment page)"
    "\<forall>operation\<in>set_option (np_operation page). wf_operation operation"
    using page(1) by (simp_all add: wf_page_def)
  have eta: "\<lparr>np_height = np_height page, np_codes = np_codes page, np_comment = np_comment page, np_operation = np_operation page,
      np_flags = np_flags page, np_garbage = np_garbage page\<rparr> = page" by (cases page) simp
  show ?thesis
    unfolding write_temporal_page_def [abs_def] read_temporal_page_def [abs_def] pages prev previous_def [symmetric]
    by (subst (1 2) Let_def, rule codec_bind [OF codec_temporal_flags], rule codec_bind, rule codec_temporal_height [OF parts(1)],
        unfold if_not_P [OF parts(2)], rule codec_bind [OF codec_temporal_field [OF set]],
        rule codec_bind [OF codec_temporal_garbage [OF parts(3) page(2)]],
        rule codec_bind [OF codec_temporal_comment [OF ctx parts(4,5)]],
        rule codec_last [OF codec_temporal_operation [OF parts(6) op]])
      (simp add: eta)
qed

text \<open>One entry of the page list that stands for a single page.\<close>

definition read_entry :: "nat \<Rightarrow> u8 list option \<Rightarrow> NormalizedPage list \<Rightarrow> BitReader \<Rightarrow> codec_fault + NormalizedPage \<times> BitReader" where
  "read_entry width shared pages r =
     and_then (read_bits 2 r) (\<lambda>(mode, r).
       if mode = 0 then read_temporal_page width pages shared r
       else if mode = 1
       then if pages = [] then Err (Fault (InvalidPayload ''repeated page has no reference'')) else Ok (last pages, r)
       else if mode = 2
       then and_then (read_var_uint r) (\<lambda>(distance, r).
              and_then (back_reference ''page reference is invalid'' pages distance) (\<lambda>page. Ok (page, r)))
       else Err (Fault (InvalidPayload ''page mode'')))"

lemma read_temporal_pages_entry:
  assumes "read_entry width shared pages r = Ok (page, r')" "length pages < page_count"
  shows "read_temporal_pages width page_count shared pages r = read_temporal_pages width page_count shared (pages @ [page]) r'"
  using assms
  by (subst read_temporal_pages.simps) (auto simp: read_entry_def and_then_eq_Ok_iff split: if_splits)

lemma parses_entry:
  assumes "parses (read_entry width shared pages) bs page" "length pages < page_count"
    and "parses (read_temporal_pages width page_count shared (pages @ [page])) cs result"
  shows "parses (read_temporal_pages width page_count shared pages) (bs @ cs) result"
  unfolding parses_def
proof (intro allI impI)
  fix r rest assume r: "reader_bits r = (bs @ cs) @ rest"
  obtain r1 where r1: "read_entry width shared pages r = Ok (page, r1)" "reader_bits r1 = cs @ rest"
    using parsesD [OF assms(1)] r by (metis append_assoc)
  show "\<exists>r'. read_temporal_pages width page_count shared pages r = Ok (result, r') \<and> reader_bits r' = rest"
    using assms(3) r1(2) unfolding read_temporal_pages_entry [OF r1(1) assms(2)] parses_def by blast
qed

lemma codec_entry_copy:
  assumes "0 < index" "index \<le> length pages" "pages ! (index - 1) = page"
  shows "codec (write_bits 1 2) (read_entry width shared (take index pages)) page"
  unfolding read_entry_def [abs_def]
  by (rule codec_last [OF codec_bits]) (use assms(3) last_history [OF assms(1,2)] in auto)

lemma codec_entry_reference:
  assumes "prior < index" "index \<le> length pages" "length pages < 2 ^ 32" "pages ! prior = page"
  shows "codec (\<lambda>w. and_then (write_bits 2 2 w) (write_var_uint (word_of_nat (index - prior - 1))))
    (read_entry width shared (take index pages)) page"
proof -
  have n: "index - prior - 1 < 2 ^ 32" using assms(2,3) by simp
  have "codec (write_var_uint (word_of_nat (index - prior - 1))) (\<lambda>r. and_then (read_var_uint r) (\<lambda>(distance, r).
      and_then (back_reference ''page reference is invalid'' (take index pages) distance) (\<lambda>page. Ok (page, r)))) page"
    by (rule codec_last [OF codec_var_uint [OF n]]) (simp only: back_reference_prior [OF assms(1-3)] assms(4) and_then_simps)
  then show ?thesis
    unfolding read_entry_def [abs_def] by (intro codec_bind [OF codec_bits]) simp_all
qed

lemma page_candidates_sound:
  assumes ctx: "context_ok pages ctx index" "index < length pages" "length pages < 2 ^ 32"
    and wf: "\<forall>page\<in>set pages. wf_page width page" "width \<le> MAX_WIDTH"
  shows "extends (read_entry width (map_option sf_codes (tc_shared ctx)) (take index pages)) (pages ! index) (page_candidates ctx index width)"
proof -
  let ?get = "read_entry width (map_option sf_codes (tc_shared ctx)) (take index pages)"
  let ?page = "pages ! index"
  have pages: "tc_pages ctx = pages" using ctx(1) by (simp add: context_ok_def)
  have le: "index \<le> length pages" using ctx(2) by simp
  have set: "page_setting width ?page pages ctx index" using ctx wf by (simp add: page_setting_def)
  have "codec (\<lambda>w. and_then (write_bits 0 2 w) (write_temporal_page ?page ctx index width)) ?get ?page"
    unfolding read_entry_def [abs_def]
    by (rule codec_bind [OF codec_bits]) (use codec_temporal_page [OF set wf(1)] in simp_all)
  from candidate_of_codec [OF this] obtain normal where normal:
    "and_then (write_bits 0 2 bw_default) (write_temporal_page ?page ctx index width) = Ok normal" "candidate ?get ?page normal" by blast
  have "candidates ?get ?page (if index > 0 \<and> pages ! (index - 1) = ?page
      then and_then (write_bits 1 2 bw_default) (\<lambda>c. Ok [c]) else Ok [])"
    by (rule candidates_when) (use codec_entry_copy [OF _ le] in blast)
  then obtain copied where copied: "(if index > 0 \<and> pages ! (index - 1) = ?page
      then and_then (write_bits 1 2 bw_default) (\<lambda>c. Ok [c]) else Ok []) = Ok copied" "\<forall>c\<in>set copied. candidate ?get ?page c"
    unfolding candidates_def by blast
  have "candidates ?get ?page (case far_reference index (tc_latest_page ctx ?page) of
      Some prior \<Rightarrow> and_then (and_then (write_bits 2 2 bw_default) (write_var_uint (word_of_nat (index - prior - 1)))) (\<lambda>c. Ok [c])
    | None \<Rightarrow> Ok [])"
  proof (rule candidates_case)
    fix prior assume "far_reference index (tc_latest_page ctx ?page) = Some prior"
    from far_reference_prior [OF this] ctx(1) have "prior < index" "pages ! prior = ?page"
      unfolding context_ok_def by blast+
    then show "codec (\<lambda>w. and_then (write_bits 2 2 w) (write_var_uint (word_of_nat (index - prior - 1)))) ?get ?page"
      by (intro codec_entry_reference [OF _ le ctx(3)])
  qed
  then obtain referenced where referenced: "(case far_reference index (tc_latest_page ctx ?page) of
      Some prior \<Rightarrow> and_then (write_bits 2 2 bw_default) (\<lambda>c. and_then (write_var_uint (word_of_nat (index - prior - 1)) c) (\<lambda>c. Ok [c]))
    | None \<Rightarrow> Ok []) = Ok referenced" "\<forall>c\<in>set referenced. candidate ?get ?page c"
    unfolding candidates_def and_then_assoc by blast
  have "page_candidates ctx index width = Ok ([normal] @ copied @ referenced)"
    by (simp only: page_candidates_def Let_def pages normal(1) copied(1) referenced(1) and_then_simps)
  then show ?thesis using normal(2) copied(2) referenced(2) by (auto simp: extends_def some_candidates_def)
qed

section \<open>The page list\<close>

definition repeat_count :: "NormalizedPage list \<Rightarrow> nat \<Rightarrow> nat" where
  "repeat_count pages index = 1 + length (takeWhile (\<lambda>page. page = pages ! (index - 1)) (drop (index + 1) pages))"

lemma repeat_count_pages:
  assumes "0 < index" "index < length pages" "pages ! (index - 1) = pages ! index"
  shows "index + repeat_count pages index \<le> length pages"
    "take index pages @ replicate (repeat_count pages index) (last (take index pages)) = take (index + repeat_count pages index) pages"
proof -
  define page where "page = pages ! (index - 1)"
  define same where "same = takeWhile (\<lambda>p. p = page) (drop (index + 1) pages)"
  have count: "repeat_count pages index = Suc (length same)" by (simp add: repeat_count_def same_def page_def)
  have "length same \<le> length (drop (index + 1) pages)" unfolding same_def by (rule length_takeWhile_le)
  then show le: "index + repeat_count pages index \<le> length pages" using assms(2) by (simp add: count)
  have "\<forall>p\<in>set same. p = page" using set_takeWhileD by (fastforce simp: same_def)
  then have "replicate (length same) page = same" by (metis replicate_length_same)
  moreover have "same = take (length same) (drop (index + 1) pages)" unfolding same_def by (rule takeWhile_eq_take)
  ultimately have "replicate (Suc (length same)) page = take (Suc (length same)) (drop index pages)"
    using assms(2,3) by (simp add: Cons_nth_drop_Suc [symmetric] page_def)
  then show "take index pages @ replicate (repeat_count pages index) (last (take index pages)) = take (index + repeat_count pages index) pages"
    using last_history [of index pages] assms(1,2) take_add [of index "Suc (length same)" pages] by (simp add: count page_def)
qed

text \<open>A run is written as its tag and its length less two, and stands for pages equal to the one before.\<close>

lemma run_written:
  assumes "n \<le> 2 ^ 32"
  obtains run where "and_then (write_bits 3 2 bw_default) (write_var_uint (word_of_nat (n - 2))) = Ok run"
    "wf_writer run" "writer_bits run = nat_bits 2 3 @ var_bits (n - 2)"
proof -
  have "n - 2 < 2 ^ 32" using assms by simp
  then have "writes (\<lambda>w. and_then (write_bits 3 2 w) (write_var_uint (word_of_nat (n - 2)))) (nat_bits 2 3 @ var_bits (n - 2))"
    using writes_bits [of 2 3] by (intro writes_then writes_var_uint) simp_all
  then show thesis using that unfolding writes_def by (metis wf_writer_default writer_bits_default append_Nil)
qed

lemma repeat_run_cases:
  assumes "length pages < 2 ^ 32" "index < length pages"
  obtains (single) "repeat_run pages index = Ok None"
  | (run) n run where "repeat_run pages index = Ok (Some (n, run))" "2 \<le> n" "0 < index" "n = repeat_count pages index"
      "pages ! (index - 1) = pages ! index" "wf_writer run" "writer_bits run = nat_bits 2 3 @ var_bits (n - 2)"
proof (cases "index > 0 \<and> pages ! (index - 1) = pages ! index \<and> 2 \<le> repeat_count pages index")
  case False
  then have "repeat_run pages index = Ok None"
    unfolding repeat_run_def Let_def repeat_count_def [symmetric] by auto
  then show thesis by (rule single)
next
  case True
  then have "repeat_count pages index \<le> 2 ^ 32" using repeat_count_pages(1) [of index pages] assms by simp
  then obtain r where r: "and_then (write_bits 3 2 bw_default) (write_var_uint (word_of_nat (repeat_count pages index - 2))) = Ok r"
    "wf_writer r" "writer_bits r = nat_bits 2 3 @ var_bits (repeat_count pages index - 2)" by (rule run_written)
  have "repeat_run pages index = and_then (and_then (write_bits 3 2 bw_default) (write_var_uint (word_of_nat (repeat_count pages index - 2)))) (\<lambda>run.
      Ok (if bw_bit_len run < repeat_count pages index * 2 then Some (repeat_count pages index, run) else None))"
    using True unfolding repeat_run_def Let_def repeat_count_def [symmetric] and_then_assoc by simp
  then have "repeat_run pages index = Ok (if bw_bit_len r < repeat_count pages index * 2 then Some (repeat_count pages index, r) else None)"
    by (simp only: r(1) and_then_simps)
  then show thesis
    using single run [of "repeat_count pages index" r] True r(2,3) by (cases "bw_bit_len r < repeat_count pages index * 2") simp_all
qed

lemma parses_run:
  assumes "pages \<noteq> []" "2 \<le> n" "length pages + n \<le> page_count" "page_count < 2 ^ 32"
    and "parses (read_temporal_pages width page_count shared (pages @ replicate n (last pages))) cs result"
  shows "parses (read_temporal_pages width page_count shared pages) ((nat_bits 2 3 @ var_bits (n - 2)) @ cs) result"
  unfolding parses_def
proof (intro allI impI)
  fix r rest assume r: "reader_bits r = ((nat_bits 2 3 @ var_bits (n - 2)) @ cs) @ rest"
  obtain k where k: "n = k + 2" using assms(2) by (metis le_Suc_ex add.commute)
  then have bound: "k < 2 ^ 32" using assms(3,4) by simp
  have "parses (read_bits 2) (nat_bits 2 3) 3" using parses_bits_word [of 2 3] by simp
  then obtain r1 where r1: "read_bits 2 r = Ok (3, r1)" "reader_bits r1 = var_bits k @ cs @ rest"
    using parsesD r unfolding k by (metis append_assoc add_diff_cancel_right')
  obtain r2 where r2: "read_var_uint r1 = Ok (word_of_nat k, r2)" "reader_bits r2 = cs @ rest"
    using parsesD [OF parses_var_uint [OF bound] r1(2)] by blast
  have "read_temporal_pages width page_count shared pages r
      = read_temporal_pages width page_count shared (pages @ replicate n (last pages)) r2"
    using assms(1,3) unfolding k by (subst read_temporal_pages.simps) (auto simp: r1(1) r2(1) unat_u32 [OF bound])
  then show "\<exists>r'. read_temporal_pages width page_count shared pages r = Ok (result, r') \<and> reader_bits r' = rest"
    using assms(5) r2(2) unfolding parses_def by simp
qed

lemma codec_entry:
  assumes "codec put (read_entry width shared pages) page" "length pages < page_count"
    and "codec g (read_temporal_pages width page_count shared (pages @ [page])) result"
  shows "codec (\<lambda>w. and_then (put w) g) (read_temporal_pages width page_count shared pages) result"
proof -
  obtain bs where "writes put bs" "parses (read_entry width shared pages) bs page" using assms(1) by (auto simp: codec_def)
  from codec_prefix [OF this(1) assms(3) parses_entry [OF this(2) assms(2)]] show ?thesis .
qed

lemma codec_run:
  assumes "wf_writer run" "writer_bits run = nat_bits 2 3 @ var_bits (n - 2)"
    and "pages \<noteq> []" "2 \<le> n" "length pages + n \<le> page_count" "page_count < 2 ^ 32"
    and "codec g (read_temporal_pages width page_count shared (pages @ replicate n (last pages))) result"
  shows "codec (\<lambda>w. and_then (Ok (append_writer run w)) g) (read_temporal_pages width page_count shared pages) result"
  using codec_prefix [OF writes_append_writer [OF assms(1), unfolded assms(2)] assms(7) parses_run [OF assms(3-6)]] .

text \<open>The reader of the page list has the pages before \<open>index\<close> and finds the rest.\<close>

lemma codec_temporal_loop:
  assumes wf: "\<forall>page\<in>set pages. wf_page width page" "width \<le> MAX_WIDTH" "length pages < 2 ^ 32"
  shows "context_ok pages ctx index \<Longrightarrow> index \<le> length pages \<Longrightarrow>
    codec (write_temporal_loop width ctx index)
      (read_temporal_pages width (length pages) (map_option sf_codes (tc_shared ctx)) (take index pages)) pages"
proof (induction "length pages - index" arbitrary: ctx index rule: less_induct)
  case less
  let ?shared = "map_option sf_codes (tc_shared ctx)"
  have pages: "tc_pages ctx = pages" using less.prems(1) by (simp add: context_ok_def)
  show ?case
  proof (cases "index < length pages")
    case False
    then show ?thesis
      using less.prems(2) codec_return by (subst write_temporal_loop.simps [abs_def], subst read_temporal_pages.simps [abs_def]) (simp add: pages)
  next
    case True
    from wf(3) True show ?thesis
    proof (cases rule: repeat_run_cases)
      case single
      have loop: "write_temporal_loop width ctx index = (\<lambda>w. and_then (page_candidates ctx index width) (\<lambda>candidates.
          and_then (append_shortest candidates w) (write_temporal_loop width (record_temporal_page ctx index) (index + 1))))"
        using True single by (subst write_temporal_loop.simps [abs_def]) (simp add: pages)
      have "codec (write_temporal_loop width (record_temporal_page ctx index) (index + 1))
          (read_temporal_pages width (length pages) ?shared (take index pages @ [pages ! index])) pages"
        using less.hyps [of "index + 1" "record_temporal_page ctx index"] context_ok_record [OF less.prems(1)] True
        by (simp add: take_Suc_conv_app_nth)
      moreover obtain cs where cs: "page_candidates ctx index width = Ok cs"
        "some_candidates (read_entry width ?shared (take index pages)) (pages ! index) cs"
        using page_candidates_sound [OF less.prems(1) True wf(3,1,2)] unfolding extends_def by blast
      ultimately show ?thesis
        using codec_entry [OF codec_some_candidates [OF cs(2)]] True less.prems(2) by (simp add: loop cs(1) min_absorb2)
    next
      case (run n run)
      note count = repeat_count_pages [OF run(3) True run(5), folded run(4)]
      have "codec (write_temporal_loop width (foldl record_temporal_page ctx [index..<index + n]) (index + n))
          (read_temporal_pages width (length pages) ?shared (take index pages @ replicate n (last (take index pages)))) pages"
        using less.hyps [of "index + n" "foldl record_temporal_page ctx [index..<index + n]"] context_ok_records [OF less.prems(1), of n] count run(2) True
        by simp
      moreover have "write_temporal_loop width ctx index = (\<lambda>w. and_then (Ok (append_writer run w))
          (write_temporal_loop width (foldl record_temporal_page ctx [index..<index + n]) (index + n)))"
        using True run(1) by (subst write_temporal_loop.simps [abs_def]) (simp add: pages)
      moreover have "take index pages \<noteq> []" "length (take index pages) + n \<le> length pages"
        using run(3) count(1) True by auto
      ultimately show ?thesis using codec_run [OF run(6,7) _ run(2) _ wf(3)] by (simp only:)
    qed
  qed
qed

lemma codec_temporal_pages:
  assumes "\<forall>page\<in>set pages. wf_page width page" "width \<le> MAX_WIDTH" "length pages < 2 ^ 32"
  shows "codec (write_temporal_pages pages width shared) (read_temporal_pages width (length pages) (map_option sf_codes shared) []) pages"
  using codec_temporal_loop [OF assms, of "\<lparr>tc_pages = pages, tc_shared = shared, tc_latest_field = Map.empty,
      tc_latest_page = Map.empty, tc_latest_comment = Map.empty\<rparr>" 0]
  by (simp add: write_temporal_pages_def [abs_def] context_ok_def)

end
