(* ===== verification/PageSizes.thy ===== *)
theory PageSizes
  imports TemporalRoundTrips
begin

text \<open>
  How many bits the writers of pages use.  Every choice of a shortest candidate is bounded by the
  candidate that depends on the page alone, so a page takes at most \<open>PAGE_BITS\<close> bits and its comment,
  whatever the pages before it are.
\<close>

section \<open>Bounded writers\<close>

definition sized :: "(BitWriter \<Rightarrow> codec_fault + BitWriter) \<Rightarrow> nat \<Rightarrow> bool" where
  "sized f n \<longleftrightarrow> (\<exists>bs. writes f bs \<and> length bs \<le> n)"

lemma sized_mono: "sized f m \<Longrightarrow> m \<le> n \<Longrightarrow> sized f n"
  by (auto simp: sized_def)

lemma sized_return: "sized Ok 0"
  using writes_nothing by (auto simp: sized_def)

lemma sized_bind: "sized f m \<Longrightarrow> sized g n \<Longrightarrow> sized (\<lambda>w. and_then (f w) g) (m + n)"
  unfolding sized_def using writes_then by (metis add_mono length_append)

lemma sized_bit: "sized (\<lambda>w. Ok (write_bit b w)) 1"
  unfolding sized_def using writes_bit [of b] by (intro exI [of _ "[b]"]) simp

lemma sized_bit_then: "sized g n \<Longrightarrow> sized (\<lambda>w. g (write_bit b w)) (Suc n)"
  using sized_bind [OF sized_bit] by fastforce

lemma sized_bits: "width \<le> 32 \<Longrightarrow> unat v < 2 ^ width \<Longrightarrow> sized (write_bits v width) width"
  unfolding sized_def by (intro exI [of _ "nat_bits width (unat v)"] conjI writes_bits) simp_all

lemma length_var_bits: "length (var_bits n) \<le> 35"
  by (simp add: var_bits_def)

lemma sized_var_uint: "n < 2 ^ 32 \<Longrightarrow> sized (write_var_uint (word_of_nat n)) 35"
  using writes_var_uint length_var_bits unfolding sized_def by blast

lemma sized_signed_var_int: "zigzag v < 2 ^ 32 \<Longrightarrow> sized (write_signed_var_int v) 35"
  using writes_signed_var_int length_var_bits unfolding sized_def by blast

lemma sized_bytes: "sized (write_bytes bytes) (8 * length bytes)"
  using writes_bytes [of bytes] length_byte_bits [of bytes] unfolding sized_def by (metis mult.commute order_refl)

lemma sized_cells:
  assumes "\<forall>c\<in>set codes. c \<le> 8" "length codes < 2 ^ 32" "mode_width = 3 \<or> mode_width = 4"
  shows "sized (write_best_cell_encoding codes previous mode_width True) (mode_width + 9 + 4 * length codes)"
  using write_best_writes [of codes mode_width True previous] assms by (auto simp: sized_def valid_codes_def)

lemma sized_if: "(b \<Longrightarrow> sized f n) \<Longrightarrow> (\<not> b \<Longrightarrow> sized g n) \<Longrightarrow> sized (\<lambda>w. if b then f w else g w) n"
  by (cases b) simp_all

lemma sized_case_option:
  "(\<And>x. v = Some x \<Longrightarrow> sized (f x) n) \<Longrightarrow> (v = None \<Longrightarrow> sized g n) \<Longrightarrow>
   sized (\<lambda>w. case v of Some x \<Rightarrow> f x w | None \<Rightarrow> g w) n"
  by (cases v) simp_all

text \<open>A writer that is known to work is bounded by what it does to the empty writer.\<close>

lemma sized_of_codec:
  assumes "codec f get x" "\<And>w. f bw_default = Ok w \<Longrightarrow> bw_bit_len w \<le> n"
  shows "sized f n"
proof -
  obtain bs where bs: "writes f bs" using assms(1) by (auto simp: codec_def)
  then obtain w where "f bw_default = Ok w" "writer_bits w = bs" by (force simp: writes_def)
  then show ?thesis using assms(2) [of w] bs length_writer_bits [of w] by (auto simp: sized_def)
qed

lemma sized_default: "sized f n \<Longrightarrow> f bw_default = Ok w \<Longrightarrow> bw_bit_len w \<le> n"
  unfolding sized_def writes_def
  by (metis Inr_inject append_Nil length_writer_bits wf_writer_default writer_bits_default)

lemma bw_bit_len_append_writer: "bw_bit_len (append_writer c w) = bw_bit_len w + bw_bit_len c"
proof -
  have "bw_bit_len (foldl (\<lambda>w i. write_bit (f i) w) w is) = bw_bit_len w + length is" for f and "is" :: "nat list" and w
    by (induction "is" arbitrary: w) (simp_all add: write_bit_def Let_def)
  from this [of "\<lambda>i. bw_bytes c ! (i div 8) AND push_bit (i mod 8) 1 \<noteq> 0"] show ?thesis
    unfolding append_writer_def by simp
qed

lemma append_shortest_size:
  assumes "append_shortest cs bw_default = Ok w" "c \<in> set cs" shows "bw_bit_len w \<le> bw_bit_len c"
proof -
  obtain d ds where "cs = d # ds" using assms(2) by (cases cs) auto
  then show ?thesis
    using assms shortest_le [of c d ds]
    by (auto simp: append_shortest_def bw_bit_len_append_writer shortest_def bw_default_def)
qed

section \<open>The parts of a page\<close>

lemma sized_operation_body:
  assumes "wf_operation operation" shows "sized (write_operation_body operation) 77"
proof -
  have small: "zigzag (co_x operation) < 2 ^ 32" "zigzag (co_y operation) < 2 ^ 32"
    using wf_operation_bound [OF assms] zigzag_bound [of "co_x operation"] zigzag_bound [of "co_y operation"] by simp_all
  define rotations where "rotations = operation_rotations (co_piece operation)"
  obtain i where i: "position_of (co_rotation operation) rotations = Some i" "i < length rotations"
    using wf_operation_rotation [OF assms] position_of_Some unfolding rotations_def by metis
  have n: "length rotations \<le> 9" by (cases "co_piece operation") (simp_all add: rotations_def)
  have fits: "i < 2 ^ bits_for_choices (length rotations)" "bits_for_choices (length rotations) \<le> 4"
    using bits_for_choices_fits [OF i(2)] bits_for_choices_palette [OF n] n by simp_all
  have ui: "unat (word_of_nat i :: u32) = i" using i(2) n by (intro unat_word_of_nat) simp
  have "sized (\<lambda>w. and_then (write_bits (wire_index (co_piece operation)) 3 w) (\<lambda>w.
      and_then (write_bits (word_of_nat i) (bits_for_choices (length rotations)) w) (\<lambda>w.
        and_then (write_signed_var_int (co_x operation) w) (write_signed_var_int (co_y operation)))))
    (3 + (bits_for_choices (length rotations) + (35 + 35)))"
    using fits ui wire_index_bound small by (intro sized_bind sized_bits sized_signed_var_int) simp_all
  then have "sized (write_operation_body operation) (3 + (bits_for_choices (length rotations) + (35 + 35)))"
    by (simp add: write_operation_body_def [abs_def] i(1) Let_def flip: rotations_def)
  then show ?thesis by (rule sized_mono) (use fits(2) in simp)
qed

lemma sized_comment_literal:
  assumes "length comment \<le> MAX_COMMENT_BYTES"
  shows "sized (\<lambda>w. and_then (write_var_uint (word_of_nat (length comment)) w) (write_bytes comment)) (35 + 8 * length comment)"
  using assms by (intro sized_bind sized_var_uint sized_bytes) simp

lemma sized_height:
  assumes "height \<le> MAX_HEIGHT"
  shows "sized (\<lambda>w. case previous of
        Some previous \<Rightarrow>
          let same_height = (height = np_height previous); w = write_bit (flag same_height) w
          in if \<not> same_height then write_var_uint (word_of_nat height) w else Ok w
      | None \<Rightarrow> write_var_uint (word_of_nat height) w) 36"
proof -
  have var: "sized (write_var_uint (word_of_nat height)) 35" using assms by (intro sized_var_uint) simp
  have "sized (\<lambda>w. (\<lambda>w. if height \<noteq> np_height p then write_var_uint (word_of_nat height) w else Ok w) (write_bit b w)) (Suc 35)" for p b
    by (rule sized_bit_then) (use var sized_mono [OF sized_return] in \<open>intro sized_if; simp\<close>)
  then show ?thesis using sized_mono [OF var] by (intro sized_case_option) (simp_all add: Let_def)
qed

lemma sized_page_cells:
  assumes "wf_page width page" "width \<le> MAX_WIDTH" "mode_width = 3 \<or> mode_width = 4"
  shows "sized (write_best_cell_encoding (np_codes page) previous mode_width True) 3857"
    "sized (\<lambda>w. case np_garbage page of Some garbage \<Rightarrow> write_best_cell_encoding garbage previous mode_width True w | None \<Rightarrow> Ok w) 137"
proof -
  have "length (np_codes page) = np_height page * width" "np_height page \<le> 31" using assms(1) by (simp_all add: wf_page_def)
  then have "length (np_codes page) \<le> 961" using mult_le_mono [of "np_height page" 31 width 31] assms(2) by simp
  moreover have "\<forall>c\<in>set (np_codes page). c \<le> 8" using assms(1) by (simp add: wf_page_def)
  ultimately show "sized (write_best_cell_encoding (np_codes page) previous mode_width True) 3857"
    using assms(3) by (intro sized_mono [OF sized_cells]) auto
  have "sized (write_best_cell_encoding garbage previous mode_width True) 137" if "np_garbage page = Some garbage" for garbage
    using that assms by (intro sized_mono [OF sized_cells]) (auto simp: wf_page_def)
  then show "sized (\<lambda>w. case np_garbage page of Some garbage \<Rightarrow> write_best_cell_encoding garbage previous mode_width True w | None \<Rightarrow> Ok w) 137"
    using sized_mono [OF sized_return] by (intro sized_case_option) simp_all
qed

lemma flag_mode_bound: "unat (flag_mode flags previous) < 2 ^ 2"
  by (simp add: flag_mode_def)

abbreviation PAGE_BITS :: nat where "PAGE_BITS \<equiv> 4200"

lemma sized_compact_page:
  assumes wf: "wf_page width page" "width \<le> MAX_WIDTH"
  shows "sized (write_compact_page page previous) (PAGE_BITS + 8 * length (np_comment page))"
proof -
  define mode where "mode = flag_mode (np_flags page) (map_option np_flags previous)"
  have mode: "(if np_flags page = default_flags then 0
      else if (case previous of None \<Rightarrow> False | Some previous \<Rightarrow> np_flags previous = np_flags page) then 1 else 2) = mode"
    by (cases previous) (auto simp: mode_def flag_mode_def)
  have small: "unat mode < 2 ^ 2" unfolding mode_def by (rule flag_mode_bound)
  have parts: "np_height page \<le> MAX_HEIGHT" "length (np_comment page) \<le> MAX_COMMENT_BYTES" using wf(1) by (simp_all add: wf_page_def)
  have flags: "sized (\<lambda>w. if mode = 2 then write_bits (flags_bits (np_flags page)) 5 w else Ok w) 5"
    using flags_bits_bound [of "np_flags page"] sized_mono [OF sized_return] by (intro sized_if sized_bits) simp_all
  have comment: "sized (\<lambda>w. if np_comment page \<noteq> []
      then and_then (write_var_uint (word_of_nat (length (np_comment page))) w) (write_bytes (np_comment page)) else Ok w)
      (35 + 8 * length (np_comment page))"
    by (rule sized_if, rule sized_comment_literal [OF parts(2)], rule sized_mono [OF sized_return]) simp
  have op: "sized (\<lambda>w. case np_operation page of Some operation \<Rightarrow> write_operation_body operation w | None \<Rightarrow> Ok w) 77"
    using wf(1) sized_operation_body sized_mono [OF sized_return] by (intro sized_case_option) (auto simp: wf_page_def)
  define G where "G = (\<lambda>w. and_then
      (case previous of
         Some previous \<Rightarrow>
           let same_height = (np_height page = np_height previous); w = write_bit same_height w
           in if \<not> same_height then write_var_uint (word_of_nat (np_height page)) w else Ok w
       | None \<Rightarrow> write_var_uint (word_of_nat (np_height page)) w) (\<lambda>w.
      and_then (write_best_cell_encoding (np_codes page) (map_option np_codes previous) 3 True w) (\<lambda>w.
      and_then (case np_garbage page of Some garbage \<Rightarrow> write_best_cell_encoding garbage None 3 True w | None \<Rightarrow> Ok w) (\<lambda>w.
        and_then (if np_comment page \<noteq> []
                  then and_then (write_var_uint (word_of_nat (length (np_comment page))) w) (write_bytes (np_comment page))
                  else Ok w) (\<lambda>w. case np_operation page of Some operation \<Rightarrow> write_operation_body operation w | None \<Rightarrow> Ok w)))))"
  have "sized G (36 + (3857 + (137 + ((35 + 8 * length (np_comment page)) + 77))))"
    unfolding G_def
    by (rule sized_bind, rule sized_height [OF parts(1), where flag = "\<lambda>b. b"], rule sized_bind, rule sized_page_cells(1) [OF wf], simp,
        rule sized_bind, rule sized_page_cells(2) [OF wf], simp, rule sized_bind [OF comment op])
  from sized_bit_then [OF sized_bit_then [OF sized_bit_then [OF this]]]
  have G: "sized (\<lambda>w. G (write_bit (np_garbage page \<noteq> None) (write_bit (np_operation page \<noteq> None) (write_bit (np_comment page \<noteq> []) w))))
      (Suc (Suc (Suc (36 + (3857 + (137 + ((35 + 8 * length (np_comment page)) + 77)))))))" .
  have "sized (write_compact_page page previous) (2 + (5 + Suc (Suc (Suc (36 + (3857 + (137 + ((35 + 8 * length (np_comment page)) + 77))))))))"
    unfolding write_compact_page_def [abs_def] mode Let_def
    by (rule sized_bind [OF sized_bits [OF _ small]], simp, rule sized_bind [OF flags]) (use G in \<open>simp only: G_def Let_def\<close>)
  then show ?thesis by (rule sized_mono) simp
qed

section \<open>Temporal pages\<close>

lemma sized_temporal_flags: "sized (write_temporal_flags flags previous) 7"
proof -
  have "sized (\<lambda>w. and_then (write_bits 3 2 w) (write_bits (flags_bits flags) 5)) (2 + 5)"
    using flags_bits_bound [of flags] by (intro sized_bind sized_bits) simp_all
  moreover have "sized (write_bits 1 2) 7" "sized (\<lambda>w. Ok (write_bit False w)) 7"
    by (rule sized_mono [OF sized_bits], simp_all, rule sized_mono [OF sized_bit], simp)
  ultimately show ?thesis unfolding write_temporal_flags_def [abs_def] by (intro sized_if) simp_all
qed

lemma sized_temporal_garbage:
  assumes "wf_page width page" "width \<le> MAX_WIDTH" shows "sized (write_temporal_garbage (np_garbage page) previous) 139"
proof (cases "np_garbage page")
  case None
  then show ?thesis using sized_mono [OF sized_bit] by (simp add: write_temporal_garbage_def [abs_def])
next
  case (Some codes)
  have "sized (\<lambda>w. and_then (write_bits 3 2 w) (write_best_cell_encoding codes previous 4 True)) (2 + 137)"
    using sized_page_cells(2) [OF assms, of 4 previous] by (intro sized_bind sized_bits) (simp_all add: Some)
  moreover have "sized (write_bits 1 2) 139" by (rule sized_mono [OF sized_bits]) simp_all
  ultimately show ?thesis unfolding Some write_temporal_garbage_def [abs_def] option.case by (intro sized_if) simp_all
qed

lemma sized_temporal_operation:
  assumes "\<forall>operation\<in>set_option operation. wf_operation operation" "\<forall>operation\<in>set_option previous. wf_operation operation"
  shows "sized (write_temporal_operation operation previous) 80"
proof (cases operation)
  case None
  then show ?thesis using sized_mono [OF sized_bit] by (simp add: write_temporal_operation_def [abs_def])
next
  case (Some o')
  have literal: "sized (\<lambda>w. and_then (write_bits 7 3 w) (write_operation_body o')) (3 + 77)"
    using sized_operation_body assms(1) Some by (intro sized_bind sized_bits) simp_all
  show ?thesis
  proof (cases "previous = Some o'")
    case True
    then show ?thesis using sized_mono [OF sized_bits, of 2 1 80] by (simp add: Some write_temporal_operation_def [abs_def])
  next
    case False
    show ?thesis
    proof (rule sized_of_codec [OF codec_temporal_operation [OF assms]])
      fix w assume "write_temporal_operation operation previous bw_default = Ok w"
      then obtain c cs where "and_then (write_bits 7 3 bw_default) (write_operation_body o') = Ok c" "append_shortest ([c] @ cs) bw_default = Ok w"
        unfolding write_temporal_operation_def Some option.case if_not_P [OF False] by (auto simp only: and_then_eq_Ok_iff)
      then show "bw_bit_len w \<le> 80" using sized_default [OF literal] append_shortest_size by fastforce
    qed
  qed
qed

lemma sized_temporal_comment:
  assumes "context_ok pages ctx index" "index \<le> length pages" "length pages < 2 ^ 32"
    and "length comment \<le> MAX_COMMENT_BYTES" "is_utf8 comment"
  shows "sized (write_temporal_comment comment ctx index) (38 + 8 * length comment)"
proof (rule sized_of_codec [OF codec_temporal_comment [OF assms]])
  fix w assume w: "write_temporal_comment comment ctx index bw_default = Ok w"
  have literal: "sized (\<lambda>w. and_then (write_bits 7 3 w) (\<lambda>w. and_then (write_var_uint (word_of_nat (length comment)) w) (write_bytes comment)))
      (3 + (35 + 8 * length comment))"
    by (rule sized_bind [OF sized_bits sized_comment_literal [OF assms(4)]]) simp_all
  show "bw_bit_len w \<le> 38 + 8 * length comment"
  proof (cases "comment = []")
    case True
    then show ?thesis using w by (auto simp: write_temporal_comment_def write_bit_def Let_def bw_default_def)
  next
    case False
    then obtain c cs where "and_then (write_bits 7 3 bw_default) (\<lambda>c. and_then (write_var_uint (word_of_nat (length comment)) c) (write_bytes comment)) = Ok c"
      "append_shortest ([c] @ cs) bw_default = Ok w"
      using w unfolding write_temporal_comment_def if_not_P [OF False] by (auto simp only: and_then_eq_Ok_iff)
    then show ?thesis using sized_default [OF literal] append_shortest_size by fastforce
  qed
qed

text \<open>Candidates are only added.\<close>

definition keeps :: "BitWriter list \<Rightarrow> codec_fault + BitWriter list \<Rightarrow> bool" where
  "keeps cs r \<longleftrightarrow> (\<forall>ds. r = Ok ds \<longrightarrow> set cs \<subseteq> set ds)"

lemma keepsD: "keeps cs r \<Longrightarrow> r = Ok ds \<Longrightarrow> set cs \<subseteq> set ds"
  by (simp add: keeps_def)

lemma keeps_Ok: "keeps cs (Ok cs)"
  by (simp add: keeps_def)

lemma keeps_add: "keeps cs (add_field_candidate cs mode codes predictor distance)"
  by (auto simp: keeps_def add_field_candidate_def and_then_eq_Ok_iff)

lemma keeps_bind: "keeps cs r \<Longrightarrow> (\<And>es. keeps es (f es)) \<Longrightarrow> keeps cs (and_then r f)"
  unfolding keeps_def and_then_eq_Ok_iff by blast

lemma keeps_fold: "(\<And>cs x. keeps cs (f cs x)) \<Longrightarrow> keeps cs (try_fold f cs xs)"
  by (induction xs arbitrary: cs) (simp_all add: keeps_Ok keeps_bind)

lemma keeps_case: "(\<And>x. v = Some x \<Longrightarrow> keeps cs (f x)) \<Longrightarrow> keeps cs r \<Longrightarrow> keeps cs (case v of Some x \<Rightarrow> f x | None \<Rightarrow> r)"
  by (cases v) simp_all

lemma keeps_if: "keeps cs r \<Longrightarrow> keeps cs r' \<Longrightarrow> keeps cs (if b then r else r')"
  by simp

lemmas keeps_intros = keeps_bind keeps_fold keeps_case keeps_if keeps_Ok keeps_add

lemma write_temporal_field_keeps:
  assumes "write_temporal_field page ctx index width w = Ok w'"
  obtains first last where "add_field_candidate [] 0 (np_codes page) None None = Ok first" "set first \<subseteq> set last"
    "append_shortest last w = Ok w'"
proof -
  obtain c0 c1 c2 c3 where first: "add_field_candidate [] 0 (np_codes page) None None = Ok c0"
    and c1: "(if index > 0
      then let previous = tc_pages ctx ! (index - 1)
           in and_then (add_field_candidate c0 1 (np_codes page) (Some (fit_codes (np_codes previous) (np_height page * width))) None) (\<lambda>cs.
              and_then (add_field_candidate cs 2 (np_codes page) (Some (grayscale_codes (np_codes previous) (np_height page * width))) None) (\<lambda>cs.
              and_then (add_field_candidate cs 3 (np_codes page)
                         (Some (mirror_codes (np_codes previous) (np_height previous) width (np_height page))) None) (\<lambda>cs.
                try_fold (\<lambda>cs (mode, clear_rows, grayscale). add_field_candidate cs mode (np_codes page)
                      (Some (predict_locked_codes previous width (np_height page) clear_rows grayscale)) None)
                  cs [(4, False, False), (5, False, True), (6, True, False), (7, True, True)])))
      else Ok c0) = Ok c1"
    and c2: "try_fold (\<lambda>cs prior. let reference = tc_pages ctx ! prior; distance = index - prior
        in and_then (add_field_candidate cs 8 (np_codes page) (Some (fit_codes (np_codes reference) (np_height page * width))) (Some distance)) (\<lambda>cs.
             add_field_candidate cs 9 (np_codes page)
               (Some (mirror_codes (np_codes reference) (np_height reference) width (np_height page))) (Some distance)))
      c1 (field_references page ctx index) = Ok c2"
    and c3: "(case tc_shared ctx of
        Some shared \<Rightarrow> add_field_candidate c2 10 (np_codes page) (Some (fit_codes (sf_codes shared) (np_height page * width))) None
      | None \<Rightarrow> Ok c2) = Ok c3" and last: "append_shortest c3 w = Ok w'"
    using assms unfolding write_temporal_field_def Let_def [of "np_codes page"] Let_def [of "np_height page * width"]
    by (auto simp only: and_then_eq_Ok_iff)
  have "set c0 \<subseteq> set c1"
    by (rule keepsD [OF _ c1]) (unfold Let_def case_prod_unfold, intro keeps_intros)
  moreover have "set c1 \<subseteq> set c2" by (rule keepsD [OF _ c2]) (unfold Let_def, intro keeps_intros)
  moreover have "set c2 \<subseteq> set c3" by (rule keepsD [OF _ c3]) (intro keeps_intros)
  ultimately show thesis using that first last by blast
qed

lemma sized_temporal_field:
  assumes set: "page_setting width page pages ctx index"
  shows "sized (write_temporal_field page ctx index width) 3861"
proof (rule sized_of_codec [OF codec_temporal_field [OF set]])
  fix w assume "write_temporal_field page ctx index width bw_default = Ok w"
  then obtain c0 c3 where first: "add_field_candidate [] 0 (np_codes page) None None = Ok c0"
    and keeps: "set c0 \<subseteq> set c3" and w: "append_shortest c3 bw_default = Ok w"
    by (rule write_temporal_field_keeps)
  obtain c where c: "c0 = [c]" "and_then (write_bits 0 4 bw_default) (write_best_cell_encoding (np_codes page) None 4 True) = Ok c"
    using first by (auto simp: add_field_candidate_def and_then_eq_Ok_iff)
  have "sized (\<lambda>w. and_then (write_bits 0 4 w) (write_best_cell_encoding (np_codes page) None 4 True)) (4 + 3857)"
    using sized_page_cells(1) [of width page 4 None] set by (intro sized_bind sized_bits) (simp_all add: page_setting_def)
  from sized_default [OF this c(2)] append_shortest_size [OF w, of c] keeps c(1) show "bw_bit_len w \<le> 3861" by auto
qed

lemma sized_temporal_page:
  assumes set: "page_setting width page pages ctx index" and wf: "\<forall>page\<in>set pages. wf_page width page"
  shows "sized (write_temporal_page page ctx index width) (4161 + 8 * length (np_comment page))"
proof -
  define previous where "previous = (if index = 0 then None else Some (pages ! (index - 1)))"
  have pages: "tc_pages ctx = pages" and ctx: "context_ok pages ctx index" "index \<le> length pages" "length pages < 2 ^ 32"
    and page: "wf_page width page" "width \<le> MAX_WIDTH"
    using set by (simp_all add: page_setting_def context_ok_def)
  have "\<forall>page\<in>set_option previous. wf_page width page" using wf ctx(2) by (auto simp: previous_def)
  then have op: "\<forall>operation\<in>set_option (Option.bind previous np_operation). wf_operation operation"
    by (cases previous) (auto simp: wf_page_def)
  have parts: "np_height page \<le> MAX_HEIGHT" "length (np_comment page) \<le> MAX_COMMENT_BYTES" "is_utf8 (np_comment page)"
    "\<forall>operation\<in>set_option (np_operation page). wf_operation operation"
    using page(1) by (simp_all add: wf_page_def)
  have "sized (write_temporal_page page ctx index width) (7 + (36 + (3861 + (139 + (38 + 8 * length (np_comment page) + 80)))))"
    unfolding write_temporal_page_def [abs_def] pages previous_def [symmetric]
    by (subst Let_def, rule sized_bind [OF sized_temporal_flags], rule sized_bind, rule sized_height [OF parts(1), where flag = Not],
        rule sized_bind [OF sized_temporal_field [OF set]], rule sized_bind [OF sized_temporal_garbage [OF page]],
        rule sized_bind [OF sized_temporal_comment [OF ctx parts(2,3)] sized_temporal_operation [OF parts(4) op]])
  then show ?thesis by (rule sized_mono) simp
qed

lemma page_candidates_size:
  assumes ctx: "context_ok pages ctx index" "index < length pages" "length pages < 2 ^ 32"
    and wf: "\<forall>page\<in>set pages. wf_page width page" "width \<le> MAX_WIDTH" and cs: "page_candidates ctx index width = Ok cs"
  shows "sized (append_shortest cs) (PAGE_BITS + 8 * length (np_comment (pages ! index)))"
proof -
  have pages: "tc_pages ctx = pages" using ctx(1) by (simp add: context_ok_def)
  have set: "page_setting width (pages ! index) pages ctx index" using ctx wf by (simp add: page_setting_def)
  have normal: "sized (\<lambda>w. and_then (write_bits 0 2 w) (write_temporal_page (pages ! index) ctx index width))
      (2 + (4161 + 8 * length (np_comment (pages ! index))))"
    by (rule sized_bind [OF sized_bits sized_temporal_page [OF set wf(1)]]) simp_all
  obtain c rest where c: "cs = c # rest" "and_then (write_bits 0 2 bw_default) (write_temporal_page (pages ! index) ctx index width) = Ok c"
    using cs unfolding page_candidates_def pages Let_def by (auto simp: and_then_eq_Ok_iff)
  have "some_candidates (read_entry width (map_option sf_codes (tc_shared ctx)) (take index pages)) (pages ! index) cs"
    using page_candidates_sound [OF ctx wf] cs by (simp add: extends_def)
  then show ?thesis
    using sized_default [OF normal c(2)] append_shortest_size [of cs _ c] c(1)
    by (intro sized_of_codec [OF codec_some_candidates]) fastforce+
qed

text \<open>The pages from \<open>index\<close> on.\<close>

definition pages_bits :: "NormalizedPage list \<Rightarrow> nat" where
  "pages_bits pages = (\<Sum>page\<leftarrow>pages. PAGE_BITS + 8 * length (np_comment page))"

lemma pages_bits_simps [simp]:
  "pages_bits [] = 0" "pages_bits (page # pages) = PAGE_BITS + 8 * length (np_comment page) + pages_bits pages"
  "pages_bits (ps @ qs) = pages_bits ps + pages_bits qs"
  by (simp_all add: pages_bits_def)

lemma sized_temporal_loop:
  assumes wf: "\<forall>page\<in>set pages. wf_page width page" "width \<le> MAX_WIDTH" "length pages < 2 ^ 32"
  shows "context_ok pages ctx index \<Longrightarrow> index \<le> length pages \<Longrightarrow>
    sized (write_temporal_loop width ctx index) (pages_bits (drop index pages))"
proof (induction "length pages - index" arbitrary: ctx index rule: less_induct)
  case less
  have pages: "tc_pages ctx = pages" using less.prems(1) by (simp add: context_ok_def)
  show ?case
  proof (cases "index < length pages")
    case False
    then show ?thesis using sized_return by (subst write_temporal_loop.simps [abs_def]) (simp add: pages)
  next
    case True
    from wf(3) True show ?thesis
    proof (cases rule: repeat_run_cases)
      case single
      obtain cs where cs: "page_candidates ctx index width = Ok cs"
        using page_candidates_sound [OF less.prems(1) True wf(3,1,2)] by (auto simp: extends_def)
      have "write_temporal_loop width ctx index = (\<lambda>w. and_then (append_shortest cs w)
          (write_temporal_loop width (record_temporal_page ctx index) (index + 1)))"
        using True single cs by (subst write_temporal_loop.simps [abs_def]) (simp add: pages)
      moreover have "sized (write_temporal_loop width (record_temporal_page ctx index) (index + 1)) (pages_bits (drop (index + 1) pages))"
        using less.hyps [of "index + 1" "record_temporal_page ctx index"] context_ok_record [OF less.prems(1)] True by simp
      moreover have "drop index pages = pages ! index # drop (index + 1) pages" using True by (simp add: Cons_nth_drop_Suc)
      ultimately show ?thesis
        using sized_bind [OF page_candidates_size [OF less.prems(1) True wf(3,1,2) cs]] by simp
    next
      case (run n run)
      note count = repeat_count_pages(1) [OF run(3) True run(5), folded run(4)]
      have rest: "sized (write_temporal_loop width (foldl record_temporal_page ctx [index..<index + n]) (index + n)) (pages_bits (drop (index + n) pages))"
        using less.hyps [of "index + n" "foldl record_temporal_page ctx [index..<index + n]"] context_ok_records [OF less.prems(1), of n] count run(2) True
        by simp
      have "sized (\<lambda>w. Ok (append_writer run w)) (2 + 35)"
        using writes_append_writer [OF run(6)] length_var_bits [of "n - 2"] unfolding sized_def run(7) by (intro exI [of _ "nat_bits 2 3 @ var_bits (n - 2)"]) simp
      from sized_bind [OF this rest]
      have "sized (write_temporal_loop width ctx index) (2 + 35 + pages_bits (drop (index + n) pages))"
        using True run(1) by (subst write_temporal_loop.simps [abs_def]) (simp add: pages)
      moreover have "drop index pages = take n (drop index pages) @ drop (index + n) pages"
        by (metis append_take_drop_id drop_drop add.commute)
      then have "pages_bits (drop index pages) = pages_bits (take n (drop index pages)) + pages_bits (drop (index + n) pages)"
        by (metis pages_bits_simps(3))
      moreover have "2 + 35 \<le> pages_bits (take n (drop index pages))"
        using run(2) count by (cases "take n (drop index pages)") auto
      ultimately show ?thesis by (elim sized_mono) linarith
    qed
  qed
qed

lemma sized_temporal_pages:
  assumes "\<forall>page\<in>set pages. wf_page width page" "width \<le> MAX_WIDTH" "length pages < 2 ^ 32"
  shows "sized (write_temporal_pages pages width shared) (pages_bits pages)"
  using sized_temporal_loop [OF assms, of "\<lparr>tc_pages = pages, tc_shared = shared, tc_latest_field = Map.empty,
      tc_latest_page = Map.empty, tc_latest_comment = Map.empty\<rparr>" 0]
  by (simp add: write_temporal_pages_def [abs_def] context_ok_def)

lemma sized_linear_pages:
  assumes "\<forall>page\<in>set pages. wf_page width page" "width \<le> MAX_WIDTH" "n \<le> length pages"
  shows "sized (\<lambda>w. try_fold (\<lambda>w index. write_compact_page (pages ! index)
      (if index = 0 then None else Some (pages ! (index - 1))) w) w [0..<n]) (pages_bits (take n pages))"
  using assms(3)
proof (induction n)
  case 0
  show ?case using sized_return by simp
next
  case (Suc n)
  then have "pages ! n \<in> set pages" by simp
  then have "sized (write_compact_page (pages ! n) (if n = 0 then None else Some (pages ! (n - 1)))) (PAGE_BITS + 8 * length (np_comment (pages ! n)))"
    using assms(1,2) by (intro sized_compact_page) auto
  from sized_bind [OF Suc.IH this] Suc.prems show ?case by (simp add: try_fold_snoc take_Suc_conv_app_nth)
qed

end
