(* ===== verification/Transports.thy ===== *)
theory Transports
  imports BigNats Text
begin

text \<open>
  The text transports of the CTK3 codec (\<open>clearra-ctk3/src/transport.rs\<close>): the unpadded base-64
  and the legacy base-85 alphabet, the prefixes and bundle envelopes, and the checksum.  Texts are
  Isabelle strings; every character outside the alphabets is rejected the same way whatever its
  encoding, so a character stands for its bytes.  The lemmas show that \<open>encode_ctk64\<close> never indexes
  outside its alphabet, that decoding restores the bytes, and that a decoded text is the one
  canonical text of its bytes.
\<close>

abbreviation CTK3_PREFIX :: string where "CTK3_PREFIX \<equiv> ''ctk3_''"
abbreviation CTK3_LEGACY_PREFIX :: string where "CTK3_LEGACY_PREFIX \<equiv> ''ctk3@''"
abbreviation CTK3_BUNDLE_PREFIX :: string where "CTK3_BUNDLE_PREFIX \<equiv> ''ctk3b_''"
abbreviation MAX_PAYLOAD_BYTES :: nat where "MAX_PAYLOAD_BYTES \<equiv> 16777216"
abbreviation MAX_CTK64_CHARACTERS :: nat where "MAX_CTK64_CHARACTERS \<equiv> (MAX_PAYLOAD_BYTES * 8 + 5) div 6"
abbreviation MAX_CTK85_CHARACTERS :: nat where "MAX_CTK85_CHARACTERS \<equiv> (MAX_PAYLOAD_BYTES + 3) div 4 * 5"

definition CTK64_ALPHABET :: string where
  "CTK64_ALPHABET = ''ABCDEFGHIJKLMNOPQRSTUVWXYZabcdefghijklmnopqrstuvwxyz0123456789-_''"

definition CTK85_ALPHABET :: string where
  "CTK85_ALPHABET =
     ''0123456789abcdefghijklmnopqrstuvwxyzABCDEFGHIJKLMNOPQRSTUVWXYZ.-:+=^!/*?&<>()[]{}@%$#''"

datatype Transport = Ctk64 | Ctk85

section \<open>Base 64\<close>

text \<open>The inner loop of the encoder; an index outside the alphabet would be a panic.\<close>

function emit_digits :: "u32 \<Rightarrow> nat \<Rightarrow> string \<Rightarrow> codec_fault + u32 \<times> nat \<times> string" where
  "emit_digits v bit_count out =
     (if bit_count \<ge> 6
      then and_then (ok_or Panic (nth_opt CTK64_ALPHABET (unat (drop_bit (bit_count - 6) v)))) (\<lambda>c.
             emit_digits (v AND (push_bit (bit_count - 6) 1 - 1)) (bit_count - 6) (out @ [c]))
      else Ok (v, bit_count, out))"
  by pat_completeness auto
termination
  by (relation "measure (\<lambda>(v, bit_count, out). bit_count)") auto

declare emit_digits.simps [simp del]

definition encode_ctk64 :: "u8 list \<Rightarrow> codec_fault + string" where
  "encode_ctk64 bytes =
     and_then
       (try_fold (\<lambda>(v, bit_count, out) byte. emit_digits (v * 256 + ucast byte) (bit_count + 8) out)
          (0, 0, []) bytes)
       (\<lambda>(v, bit_count, out).
          if bit_count > 0
          then and_then (ok_or Panic (nth_opt CTK64_ALPHABET (unat (push_bit (6 - bit_count) v))))
                 (\<lambda>c. Ok (out @ [c]))
          else Ok out)"

definition validate_exact_alphabet :: "string \<Rightarrow> Transport \<Rightarrow> codec_fault + unit" where
  "validate_exact_alphabet payload transport =
     (let (alphabet, maximum, modulus) =
            (case transport of Ctk64 \<Rightarrow> (CTK64_ALPHABET, MAX_CTK64_CHARACTERS, 4)
             | Ctk85 \<Rightarrow> (CTK85_ALPHABET, MAX_CTK85_CHARACTERS, 5))
      in if payload = [] \<or> length payload > maximum \<or> length payload mod modulus = 1
            \<or> list_ex (\<lambda>c. c \<notin> set alphabet) payload
         then Err (Fault (InvalidPayload ''transport payload is invalid'')) else Ok ())"

function emit_bytes :: "u32 \<Rightarrow> nat \<Rightarrow> u8 list \<Rightarrow> u32 \<times> nat \<times> u8 list" where
  "emit_bytes v bit_count bytes =
     (if bit_count \<ge> 8
      then emit_bytes (v AND (push_bit (bit_count - 8) 1 - 1)) (bit_count - 8)
             (bytes @ [ucast (drop_bit (bit_count - 8) v)])
      else (v, bit_count, bytes))"
  by pat_completeness auto
termination
  by (relation "measure (\<lambda>(v, bit_count, bytes). bit_count)") auto

declare emit_bytes.simps [simp del]

definition decode_ctk64 :: "string \<Rightarrow> codec_fault + u8 list" where
  "decode_ctk64 encoded =
     and_then (validate_exact_alphabet encoded Ctk64) (\<lambda>_.
       and_then
         (try_fold (\<lambda>(v, bit_count, bytes) c.
              and_then (ok_or (Fault (InvalidPayload ''CTK64 character is invalid'')) (position_of c CTK64_ALPHABET))
                (\<lambda>digit. Ok (emit_bytes (v * 64 + word_of_nat digit) (bit_count + 6) bytes)))
            (0, 0, []) encoded)
         (\<lambda>(v, bit_count, bytes).
            if v \<noteq> 0 then Err (Fault (InvalidPayload ''CTK64 trailing bits are non-zero''))
            else and_then (encode_ctk64 bytes) (\<lambda>canonical.
                   if canonical \<noteq> encoded then Err (Fault (InvalidPayload ''CTK64 payload is not canonical''))
                   else Ok bytes)))"

section \<open>Base 85\<close>

definition decode_ctk85_value :: "string \<Rightarrow> codec_fault + u64" where
  "decode_ctk85_value encoded =
     try_fold (\<lambda>v c.
         and_then (ok_or (Fault (InvalidPayload ''CTK85 character is invalid'')) (position_of c CTK85_ALPHABET)) (\<lambda>digit.
           ok_or (Fault IntegerOverflow)
             (Option.bind (checked_mul v 85) (\<lambda>v. checked_add v (word_of_nat digit)))))
       0 encoded"

text \<open>The big-endian bytes of a number, and the blocks of five characters.\<close>

definition be_bytes :: "nat \<Rightarrow> u64 \<Rightarrow> u8 list" where
  "be_bytes n v = map (\<lambda>shift. ucast (drop_bit (shift * 8) v AND 255)) (rev [0..<n])"

definition decode_ctk85 :: "string \<Rightarrow> codec_fault + u8 list" where
  "decode_ctk85 encoded =
     and_then (validate_exact_alphabet encoded Ctk85) (\<lambda>_.
       let remaining = length encoded mod 5;
           complete_length = length encoded - remaining
       in and_then
            (try_fold (\<lambda>bytes block.
                 and_then (decode_ctk85_value (take 5 (drop (5 * block) encoded))) (\<lambda>v.
                   if v > ucast (- 1 :: u32) then Err (Fault (InvalidPayload ''CTK85 block overflows 32 bits''))
                   else Ok (bytes @ be_bytes 4 v)))
               [] [0..<complete_length div 5])
            (\<lambda>bytes.
               if remaining > 0
               then and_then (decode_ctk85_value (drop complete_length encoded)) (\<lambda>v.
                      if v \<ge> push_bit ((remaining - 1) * 8) 1
                      then Err (Fault (InvalidPayload ''CTK85 partial block overflows''))
                      else Ok (bytes @ be_bytes (remaining - 1) v))
               else Ok bytes))"

definition decode_payload :: "Transport \<Rightarrow> string \<Rightarrow> codec_fault + u8 list" where
  "decode_payload transport encoded =
     (case transport of Ctk64 \<Rightarrow> decode_ctk64 encoded | Ctk85 \<Rightarrow> decode_ctk85 encoded)"

section \<open>Prefixes and bundles\<close>

definition to_ascii_lowercase :: "char \<Rightarrow> char" where
  "to_ascii_lowercase c =
     (let n = (of_char c :: nat) in if 65 \<le> n \<and> n \<le> 90 then char_of (n + 32) else c)"

definition eq_ignore_ascii_case :: "string \<Rightarrow> string \<Rightarrow> bool" where
  "eq_ignore_ascii_case a b \<longleftrightarrow> map to_ascii_lowercase a = map to_ascii_lowercase b"

definition starts_with_ignore_ascii_case :: "string \<Rightarrow> string \<Rightarrow> bool" where
  "starts_with_ignore_ascii_case source prefix \<longleftrightarrow>
     length prefix \<le> length source \<and> eq_ignore_ascii_case (take (length prefix) source) prefix"

definition find_ignore_ascii_case :: "string \<Rightarrow> string \<Rightarrow> nat option" where
  "find_ignore_ascii_case source needle =
     (if length source < length needle then None
      else List.find (\<lambda>i. eq_ignore_ascii_case (take (length needle) (drop i source)) needle)
             [0..<length source - length needle + 1])"

definition extract_exact_payload :: "string \<Rightarrow> codec_fault + Transport \<times> string" where
  "extract_exact_payload input =
     (let source = trim input
      in if starts_with_ignore_ascii_case source CTK3_PREFIX
         then let payload = drop (length CTK3_PREFIX) source
              in and_then (validate_exact_alphabet payload Ctk64) (\<lambda>_. Ok (Ctk64, payload))
         else if starts_with_ignore_ascii_case source CTK3_LEGACY_PREFIX
         then let payload = drop (length CTK3_LEGACY_PREFIX) source
              in and_then (validate_exact_alphabet payload Ctk85) (\<lambda>_. Ok (Ctk85, payload))
         else Err (Fault (InvalidPayload ''no CTK3 header was found'')))"

definition extract_compatible_payload :: "string \<Rightarrow> codec_fault + Transport \<times> string" where
  "extract_compatible_payload input =
     (let source = trim input
      in and_then
           (case (find_ignore_ascii_case source CTK3_PREFIX, find_ignore_ascii_case source CTK3_LEGACY_PREFIX) of
              (Some left, Some right) \<Rightarrow>
                if left < right then Ok (Ctk64, left + length CTK3_PREFIX)
                else Ok (Ctk85, right + length CTK3_LEGACY_PREFIX)
            | (Some left, None) \<Rightarrow> Ok (Ctk64, left + length CTK3_PREFIX)
            | (None, Some right) \<Rightarrow> Ok (Ctk85, right + length CTK3_LEGACY_PREFIX)
            | (None, None) \<Rightarrow> Err (Fault (InvalidPayload ''no CTK3 header was found'')))
           (\<lambda>(transport, start).
              let alphabet = (case transport of Ctk64 \<Rightarrow> CTK64_ALPHABET | Ctk85 \<Rightarrow> CTK85_ALPHABET);
                  payload = takeWhile (\<lambda>c. c \<in> set alphabet) (drop start source)
              in if payload = [] then Err (Fault (InvalidPayload ''payload is empty''))
                 else Ok (transport, payload)))"

text \<open>The checks both bundle readers make on the payloads between the dots.\<close>

definition bundle_payloads :: "string \<Rightarrow> codec_fault + string list option" where
  "bundle_payloads body =
     (let payloads = split_on CHR ''.'' body
      in if length payloads < 2 then Err (Fault (InvalidPayload ''bundle payload is invalid''))
         else and_then (try_map (\<lambda>payload. validate_exact_alphabet payload Ctk64) payloads) (\<lambda>_. Ok (Some payloads)))"

definition extract_exact_bundle :: "string \<Rightarrow> codec_fault + string list option" where
  "extract_exact_bundle input =
     (let source = trim input
      in if \<not> starts_with_ignore_ascii_case source CTK3_BUNDLE_PREFIX then Ok None
         else bundle_payloads (drop (length CTK3_BUNDLE_PREFIX) source))"

definition extract_compatible_bundle :: "string \<Rightarrow> codec_fault + string list option" where
  "extract_compatible_bundle input =
     (let source = trim input
      in case find_ignore_ascii_case source CTK3_BUNDLE_PREFIX of
           None \<Rightarrow> Ok None
         | Some prefix \<Rightarrow>
             bundle_payloads (takeWhile (\<lambda>c. c = CHR ''.'' \<or> c \<in> set CTK64_ALPHABET)
               (drop (prefix + length CTK3_BUNDLE_PREFIX) source)))"

section \<open>The checksum\<close>

definition crc16_step :: "u16 \<Rightarrow> u16" where
  "crc16_step crc = (if crc AND 0x8000 \<noteq> 0 then push_bit 1 crc XOR 0x1021 else push_bit 1 crc)"

definition crc16 :: "u8 list \<Rightarrow> u16" where
  "crc16 bytes = foldl (\<lambda>crc byte. (crc16_step ^^ 8) (crc XOR push_bit 8 (ucast byte))) 0xffff bytes"

section \<open>Bits in reading order\<close>

definition be_bits :: "nat \<Rightarrow> nat \<Rightarrow> bool list" where
  "be_bits n v = map (bit v) (rev [0..<n])"

lemma length_be_bits [simp]: "length (be_bits n v) = n"
  by (simp add: be_bits_def)

lemma be_bits_0 [simp]: "be_bits 0 v = []"
  by (simp add: be_bits_def)

lemma be_bits_split: "be_bits (m + n) v = be_bits m (drop_bit n v) @ be_bits n (take_bit n v)"
proof -
  have "rev [0..<m + n] = map ((+) n) (rev [0..<m]) @ rev [0..<n]"
    by (rule nth_equalityI) (auto simp: nth_append rev_nth)
  then show ?thesis by (simp add: be_bits_def comp_def bit_drop_bit_eq bit_take_bit_iff)
qed

lemma be_bits_join: "b < 2 ^ n \<Longrightarrow> be_bits (m + n) (a * 2 ^ n + b) = be_bits m a @ be_bits n b"
  by (simp add: be_bits_split drop_bit_eq_div take_bit_eq_mod)

lemma be_bits_inj: "be_bits n v = be_bits n u \<Longrightarrow> v < 2 ^ n \<Longrightarrow> u < 2 ^ n \<Longrightarrow> v = u"
proof -
  assume a: "be_bits n v = be_bits n u" "v < 2 ^ n" "u < 2 ^ n"
  then have "\<forall>i<n. bit v i = bit u i" by (auto simp: be_bits_def)
  then have "take_bit n v = take_bit n u" by (intro bit_eqI) (auto simp: bit_take_bit_iff)
  then show "v = u" using a by (simp add: take_bit_nat_eq_self)
qed

lemma be_bits_zero: "be_bits n 0 = replicate n False"
  by (rule nth_equalityI) (simp_all add: be_bits_def rev_nth)

lemma be_bits_shift: "be_bits (m + n) (a * 2 ^ n) = be_bits m a @ replicate n False"
  using be_bits_join [of 0 n m a] by (simp add: be_bits_zero)

lemma low_bits:
  fixes v :: u32
  assumes "k \<le> n" "n \<le> 32" "unat v < 2 ^ n"
  shows "unat (v AND (push_bit k 1 - 1)) = take_bit k (unat v)" "unat (drop_bit k v) = drop_bit k (unat v)"
    "unat (drop_bit k v) < 2 ^ (n - k)" "take_bit k (unat v) < 2 ^ k"
proof -
  have "push_bit k 1 - 1 = (mask k :: u32)" by (simp add: mask_eq_exp_minus_1 push_bit_eq_mult)
  then show "unat (v AND (push_bit k 1 - 1)) = take_bit k (unat v)"
    by (metis take_bit_eq_mask unsigned_take_bit_eq)
  show d: "unat (drop_bit k v) = drop_bit k (unat v)" using unat_lt2p [of v] by (simp add: unsigned_drop_bit_eq take_bit_nat_eq_self)
  show "unat (drop_bit k v) < 2 ^ (n - k)"
    using assms unfolding d by (simp add: drop_bit_eq_div less_mult_imp_div_less flip: power_add)
  show "take_bit k (unat v) < 2 ^ k" by simp
qed

lemma join_value:
  fixes v x :: u32
  assumes "unat v < 2 ^ n" "unat x < 2 ^ k" "n + k \<le> 32"
  shows "unat (v * 2 ^ k + x) = unat v * 2 ^ k + unat x" "unat v * 2 ^ k + unat x < 2 ^ (n + k)"
proof -
  have "unat v + 1 \<le> 2 ^ n" using assms(1) by simp
  then have "(unat v + 1) * 2 ^ k \<le> 2 ^ n * 2 ^ k" by (rule mult_le_mono1)
  then show lt: "unat v * 2 ^ k + unat x < 2 ^ (n + k)" using assms(2) by (simp add: power_add)
  have "(2 :: nat) ^ (n + k) \<le> 2 ^ 32" using assms(3) by (intro power_increasing) simp_all
  then have "unat v * 2 ^ k + unat x < 2 ^ LENGTH(32)" using lt by simp
  then have "unat (word_of_nat (unat v * 2 ^ k + unat x) :: u32) = unat v * 2 ^ k + unat x"
    by (rule unat_word_of_nat)
  then show "unat (v * 2 ^ k + x) = unat v * 2 ^ k + unat x" by simp
qed

section \<open>The base-64 text of bytes\<close>

lemma ctk64_digit:
  assumes "d < 64"
  shows "nth_opt CTK64_ALPHABET d = Some (CTK64_ALPHABET ! d)" "position_of (CTK64_ALPHABET ! d) CTK64_ALPHABET = Some d"
    "CTK64_ALPHABET ! d \<in> set CTK64_ALPHABET"
proof -
  have len: "length CTK64_ALPHABET = 64" by code_simp
  show "nth_opt CTK64_ALPHABET d = Some (CTK64_ALPHABET ! d)" "CTK64_ALPHABET ! d \<in> set CTK64_ALPHABET"
    using assms len by (simp_all add: nth_opt_def)
  have "list_all (\<lambda>d. position_of (CTK64_ALPHABET ! d) CTK64_ALPHABET = Some d) [0..<64]" by code_simp
  then show "position_of (CTK64_ALPHABET ! d) CTK64_ALPHABET = Some d" using assms by (simp add: list_all_iff)
qed

text \<open>The digits that stand for bits, and the bits of bytes.\<close>

abbreviation digits_text :: "nat list \<Rightarrow> string" where
  "digits_text ds \<equiv> map (nth CTK64_ALPHABET) ds"

abbreviation digits_bits :: "nat list \<Rightarrow> bool list" where
  "digits_bits ds \<equiv> concat (map (be_bits 6) ds)"

abbreviation bytes_bits :: "u8 list \<Rightarrow> bool list" where
  "bytes_bits bytes \<equiv> concat (map (\<lambda>b. be_bits 8 (unat b)) bytes)"

lemma emit_digits_sound:
  "unat v < 2 ^ bit_count \<Longrightarrow> bit_count \<le> 32 \<Longrightarrow> \<forall>d\<in>set ds0. d < 64 \<Longrightarrow>
   \<exists>v' n ds. emit_digits v bit_count (digits_text ds0) = Ok (v', n, digits_text (ds0 @ ds)) \<and> n < 6 \<and> unat v' < 2 ^ n
     \<and> (\<forall>d\<in>set ds. d < 64) \<and> be_bits bit_count (unat v) = digits_bits ds @ be_bits n (unat v')"
proof (induction bit_count arbitrary: v ds0 rule: less_induct)
  case (less bit_count)
  show ?case
  proof (cases "bit_count \<ge> 6")
    case False
    then show ?thesis
      by (subst emit_digits.simps, intro exI [of _ v] exI [of _ bit_count] exI [of _ "[]"]) (use less.prems in simp)
  next
    case True
    define k where "k = bit_count - 6"
    define d where "d = unat (drop_bit k v)"
    define v1 where "v1 = v AND (push_bit k 1 - 1)"
    have k: "k \<le> bit_count" "bit_count = 6 + k" "k < bit_count" "k \<le> 32" using True less.prems(2) by (simp_all add: k_def)
    note low = low_bits [OF k(1) less.prems(2,1)]
    have d: "d < 64" using low(3) k(2) by (simp add: d_def)
    have v1: "unat v1 < 2 ^ k" using low(1,4) by (simp add: v1_def)
    have ds0: "\<forall>d'\<in>set (ds0 @ [d]). d' < 64" using less.prems(3) d by simp
    obtain v' n ds where IH: "emit_digits v1 k (digits_text (ds0 @ [d])) = Ok (v', n, digits_text ((ds0 @ [d]) @ ds))"
      "n < 6" "unat v' < 2 ^ n" "\<forall>d\<in>set ds. d < 64" "be_bits k (unat v1) = digits_bits ds @ be_bits n (unat v')"
      using less.IH [OF k(3) v1 k(4) ds0] by blast
    have "emit_digits v bit_count (digits_text ds0) = emit_digits v1 k (digits_text (ds0 @ [d]))"
      using True ctk64_digit(1) [OF d] by (subst emit_digits.simps) (simp add: d_def v1_def flip: k_def)
    moreover have "be_bits bit_count (unat v) = be_bits 6 d @ be_bits k (unat v1)"
      unfolding k(2) be_bits_split d_def v1_def low(1,2) ..
    ultimately show ?thesis
      using IH d by (intro exI [of _ v'] exI [of _ n] exI [of _ "d # ds"]) simp
  qed
qed

lemma encode_digits:
  "\<exists>v n ds. try_fold (\<lambda>(v, bit_count, out) byte. emit_digits (v * 256 + ucast byte) (bit_count + 8) out) (0, 0, []) bytes
      = Ok (v, n, digits_text ds) \<and> n < 6 \<and> unat v < 2 ^ n \<and> (\<forall>d\<in>set ds. d < 64)
     \<and> bytes_bits bytes = digits_bits ds @ be_bits n (unat v)"
proof (induction bytes rule: rev_induct)
  case Nil
  show ?case by (intro exI [of _ 0] exI [of _ 0] exI [of _ "[]"]) simp
next
  case (snoc byte bytes)
  then obtain v n ds where IH: "try_fold (\<lambda>(v, bit_count, out) byte. emit_digits (v * 256 + ucast byte) (bit_count + 8) out) (0, 0, []) bytes
      = Ok (v, n, digits_text ds)" "n < 6" "unat v < 2 ^ n" "\<forall>d\<in>set ds. d < 64" "bytes_bits bytes = digits_bits ds @ be_bits n (unat v)"
    by blast
  have byte: "unat byte < 2 ^ 8" using unat_lt2p [of byte] by simp
  have join: "unat (v * 256 + ucast byte :: u32) = unat v * 2 ^ 8 + unat byte"
    "unat v * 2 ^ 8 + unat byte < 2 ^ (n + 8)"
    using join_value [OF IH(3), of "ucast byte" 8] byte IH(2) by (simp_all add: unsigned_ucast_eq take_bit_nat_eq_self)
  then obtain v' n' ds' where e: "emit_digits (v * 256 + ucast byte) (n + 8) (digits_text ds) = Ok (v', n', digits_text (ds @ ds'))"
    "n' < 6" "unat v' < 2 ^ n'" "\<forall>d\<in>set ds'. d < 64"
    "be_bits (n + 8) (unat (v * 256 + ucast byte :: u32)) = digits_bits ds' @ be_bits n' (unat v')"
    using emit_digits_sound [of "v * 256 + ucast byte" "n + 8" ds] IH(2,4) join by auto
  have "bytes_bits (bytes @ [byte]) = digits_bits (ds @ ds') @ be_bits n' (unat v')"
    using e(5) be_bits_join [OF byte, of n "unat v"] by (simp add: IH(5) join(1))
  then show ?case
    using IH(1,4) e(1-4) by (intro exI [of _ v'] exI [of _ n'] exI [of _ "ds @ ds'"]) (auto simp: try_fold_append)
qed

lemma encode_ctk64_sound:
  "\<exists>ds pad. encode_ctk64 bytes = Ok (digits_text ds) \<and> (\<forall>d\<in>set ds. d < 64) \<and> pad < 6
     \<and> digits_bits ds = bytes_bits bytes @ replicate pad False"
proof -
  obtain v n ds where e: "try_fold (\<lambda>(v, bit_count, out) byte. emit_digits (v * 256 + ucast byte) (bit_count + 8) out) (0, 0, []) bytes
      = Ok (v, n, digits_text ds)" "n < 6" "unat v < 2 ^ n" "\<forall>d\<in>set ds. d < 64" "bytes_bits bytes = digits_bits ds @ be_bits n (unat v)"
    using encode_digits by blast
  show ?thesis
  proof (cases "n = 0")
    case True
    then show ?thesis using e by (intro exI [of _ ds] exI [of _ 0]) (simp add: encode_ctk64_def)
  next
    case False
    define d where "d = unat v * 2 ^ (6 - n)"
    have "unat (push_bit (6 - n) v) = d" and d: "d < 64"
      using join_value [OF e(3), of 0 "6 - n"] e(2) by (simp_all add: push_bit_eq_mult d_def)
    then have "encode_ctk64 bytes = Ok (digits_text (ds @ [d]))"
      using e(1) False ctk64_digit(1) [OF d] by (simp add: encode_ctk64_def)
    moreover have "digits_bits (ds @ [d]) = bytes_bits bytes @ replicate (6 - n) False"
      using be_bits_shift [of n "6 - n" "unat v"] e(2,5) by (simp add: d_def)
    ultimately show ?thesis using e(4) d False by (intro exI [of _ "ds @ [d]"] exI [of _ "6 - n"]) auto
  qed
qed

lemma emit_bytes_sound:
  "unat v < 2 ^ bit_count \<Longrightarrow> bit_count \<le> 32 \<Longrightarrow>
   \<exists>v' n bs. emit_bytes v bit_count bytes = (v', n, bytes @ bs) \<and> n < 8 \<and> unat v' < 2 ^ n
     \<and> be_bits bit_count (unat v) = bytes_bits bs @ be_bits n (unat v')"
proof (induction bit_count arbitrary: v bytes rule: less_induct)
  case (less bit_count)
  show ?case
  proof (cases "bit_count \<ge> 8")
    case False
    then show ?thesis
      by (subst emit_bytes.simps, intro exI [of _ v] exI [of _ bit_count] exI [of _ "[]"]) (use less.prems in simp)
  next
    case True
    define k where "k = bit_count - 8"
    define b where "b = (ucast (drop_bit k v) :: u8)"
    define v1 where "v1 = v AND (push_bit k 1 - 1)"
    have k: "k \<le> bit_count" "bit_count = 8 + k" "k < bit_count" "k \<le> 32" using True less.prems(2) by (simp_all add: k_def)
    note low = low_bits [OF k(1) less.prems(2,1)]
    have b: "unat b = drop_bit k (unat v)"
      using low(2,3) k(2) by (simp add: b_def unsigned_ucast_eq take_bit_nat_eq_self)
    have v1: "unat v1 < 2 ^ k" using low(1,4) by (simp add: v1_def)
    obtain v' n bs where IH: "emit_bytes v1 k (bytes @ [b]) = (v', n, (bytes @ [b]) @ bs)" "n < 8" "unat v' < 2 ^ n"
      "be_bits k (unat v1) = bytes_bits bs @ be_bits n (unat v')"
      using less.IH [OF k(3) v1 k(4)] by blast
    have "emit_bytes v bit_count bytes = emit_bytes v1 k (bytes @ [b])"
      using True by (subst emit_bytes.simps) (simp add: b_def v1_def flip: k_def)
    moreover have "be_bits bit_count (unat v) = be_bits 8 (unat b) @ be_bits k (unat v1)"
      unfolding k(2) be_bits_split b v1_def low(1) ..
    ultimately show ?thesis
      using IH by (intro exI [of _ v'] exI [of _ n] exI [of _ "b # bs"]) simp
  qed
qed

definition decode_digit :: "u32 \<times> nat \<times> u8 list \<Rightarrow> char \<Rightarrow> codec_fault + u32 \<times> nat \<times> u8 list" where
  "decode_digit = (\<lambda>(v, bit_count, bytes) c.
     and_then (ok_or (Fault (InvalidPayload ''CTK64 character is invalid'')) (position_of c CTK64_ALPHABET))
       (\<lambda>digit. Ok (emit_bytes (v * 64 + word_of_nat digit) (bit_count + 6) bytes)))"

lemma decode_digits:
  assumes "\<forall>d\<in>set ds. d < 64"
  shows "\<exists>v n bytes. try_fold decode_digit (0, 0, []) (digits_text ds) = Ok (v, n, bytes) \<and> n < 8 \<and> unat v < 2 ^ n
     \<and> digits_bits ds = bytes_bits bytes @ be_bits n (unat v)"
  using assms
proof (induction ds rule: rev_induct)
  case Nil
  show ?case by (intro exI [of _ 0] exI [of _ 0] exI [of _ "[]"]) simp
next
  case (snoc d ds)
  then obtain v n bytes where IH: "try_fold decode_digit (0, 0, []) (digits_text ds) = Ok (v, n, bytes)" "n < 8"
    "unat v < 2 ^ n" "digits_bits ds = bytes_bits bytes @ be_bits n (unat v)" by auto
  have d: "d < 2 ^ 6" using snoc.prems by simp
  then have ud: "unat (word_of_nat d :: u32) = d" by (intro unat_word_of_nat) simp
  have join: "unat (v * 64 + word_of_nat d :: u32) = unat v * 2 ^ 6 + d" "unat v * 2 ^ 6 + d < 2 ^ (n + 6)"
    using join_value [OF IH(3), of "word_of_nat d" 6] d IH(2) by (simp_all add: ud)
  then obtain v' n' bs where e: "emit_bytes (v * 64 + word_of_nat d) (n + 6) bytes = (v', n', bytes @ bs)" "n' < 8"
    "unat v' < 2 ^ n'" "be_bits (n + 6) (unat (v * 64 + word_of_nat d :: u32)) = bytes_bits bs @ be_bits n' (unat v')"
    using emit_bytes_sound [of "v * 64 + word_of_nat d" "n + 6" bytes] IH(2) by auto
  have "digits_bits (ds @ [d]) = bytes_bits (bytes @ bs) @ be_bits n' (unat v')"
    using e(4) be_bits_join [OF d, of n "unat v"] by (simp add: IH(4) join(1))
  then show ?case
    using IH(1) e(1-3) ctk64_digit(2) [of d] d
    by (intro exI [of _ v'] exI [of _ n'] exI [of _ "bytes @ bs"]) (simp add: try_fold_append decode_digit_def)
qed

lemma length_bits: "length (bytes_bits bytes) = 8 * length bytes" "length (digits_bits ds) = 6 * length ds"
  by (simp_all add: length_concat comp_def sum_list_triv)

lemma bytes_bits_inj:
  assumes "bytes_bits xs = bytes_bits ys" shows "xs = ys"
proof -
  have "length xs = length ys" using arg_cong [OF assms, of length] unfolding length_bits by simp
  then show ?thesis using assms
  proof (induction xs ys rule: list_induct2)
    case (Cons x xs y ys)
    have "be_bits 8 (unat x) = be_bits 8 (unat y)" "bytes_bits xs = bytes_bits ys"
      using Cons.prems by simp_all
    then show ?case
      using Cons.IH be_bits_inj [of 8 "unat x" "unat y"] unat_lt2p [of x] unat_lt2p [of y]
      by (simp add: word_unat_eq_iff)
  qed simp
qed

lemma decode_ctk64_fold:
  "decode_ctk64 encoded =
     and_then (validate_exact_alphabet encoded Ctk64) (\<lambda>_.
       and_then (try_fold decode_digit (0, 0, []) encoded) (\<lambda>(v, bit_count, bytes).
         if v \<noteq> 0 then Err (Fault (InvalidPayload ''CTK64 trailing bits are non-zero''))
         else and_then (encode_ctk64 bytes) (\<lambda>canonical.
                if canonical \<noteq> encoded then Err (Fault (InvalidPayload ''CTK64 payload is not canonical''))
                else Ok bytes)))"
  by (simp add: decode_ctk64_def decode_digit_def)

text \<open>The text of a payload within the size limit: non-empty, valid, and decoded to the bytes.\<close>

lemma ctk64_roundtrip:
  assumes "bytes \<noteq> []" "length bytes \<le> MAX_PAYLOAD_BYTES"
  shows "\<exists>s. encode_ctk64 bytes = Ok s \<and> s \<noteq> [] \<and> set s \<subseteq> set CTK64_ALPHABET
    \<and> validate_exact_alphabet s Ctk64 = Ok () \<and> decode_ctk64 s = Ok bytes"
proof -
  obtain ds pad where e: "encode_ctk64 bytes = Ok (digits_text ds)" "\<forall>d\<in>set ds. d < 64" "pad < 6"
    "digits_bits ds = bytes_bits bytes @ replicate pad False"
    using encode_ctk64_sound by blast
  have len: "6 * length ds = 8 * length bytes + pad"
    using arg_cong [OF e(4), of length] unfolding length_bits length_append length_replicate .
  have mod4: "length ds mod 4 \<noteq> 1"
  proof
    assume "length ds mod 4 = 1"
    then obtain q where "length ds = 4 * q + 1" by (metis mult_div_mod_eq)
    then show False using len e(3) by (cases "length bytes \<le> 3 * q") simp_all
  qed
  have ne: "ds \<noteq> []" using len assms(1) by auto
  have le: "length ds \<le> MAX_CTK64_CHARACTERS" using len e(3) assms(2) by linarith
  have alpha: "set (digits_text ds) \<subseteq> set CTK64_ALPHABET" using e(2) ctk64_digit(3) by auto
  have valid: "validate_exact_alphabet (digits_text ds) Ctk64 = Ok ()"
    unfolding validate_exact_alphabet_def using ne le mod4 alpha by (auto simp: list_ex_iff)
  obtain v n out where d: "try_fold decode_digit (0, 0, []) (digits_text ds) = Ok (v, n, out)" "n < 8" "unat v < 2 ^ n"
    "digits_bits ds = bytes_bits out @ be_bits n (unat v)"
    using decode_digits [OF e(2)] by blast
  have "6 * length ds = 8 * length out + n"
    using arg_cong [OF d(4), of length] unfolding length_bits length_append length_be_bits .
  then have "8 * length out + n = 8 * length bytes + pad" using len by simp
  then have "length out \<le> length bytes" "length bytes \<le> length out" "n = pad + 8 * length bytes - 8 * length out"
    using e(3) d(2) by linarith+
  then have same: "length (bytes_bits out) = length (bytes_bits bytes)" and pad: "n = pad" unfolding length_bits by simp_all
  have "bytes_bits out = bytes_bits bytes \<and> be_bits n (unat v) = replicate pad False"
    by (rule iffD1 [OF append_eq_append_conv [OF disjI1 [OF same]] trans [OF d(4) [symmetric] e(4)]])
  then have "bytes_bits out = bytes_bits bytes" "be_bits n (unat v) = be_bits n 0"
    by (simp_all add: be_bits_zero pad)
  then have "out = bytes" "v = 0"
    using bytes_bits_inj be_bits_inj [of n "unat v" 0] d(3) by (simp_all add: unat_eq_zero)
  then have "decode_ctk64 (digits_text ds) = Ok bytes"
    using valid d(1) e(1) by (simp add: decode_ctk64_fold)
  then show ?thesis using e(1) ne alpha valid by blast
qed

lemma decode_ctk64_canonical:
  assumes "decode_ctk64 s = Ok bytes" shows "encode_ctk64 bytes = Ok s"
  using assms by (auto simp: decode_ctk64_def and_then_eq_Ok_iff split: if_splits)

section \<open>Reading the envelope\<close>

lemma trim_id: "s \<noteq> [] \<Longrightarrow> \<not> is_whitespace (hd s) \<Longrightarrow> \<not> is_whitespace (last s) \<Longrightarrow> trim s = s"
proof -
  assume a: "s \<noteq> []" "\<not> is_whitespace (hd s)" "\<not> is_whitespace (last s)"
  have d: "dropWhile is_whitespace xs = xs" if "xs \<noteq> []" "\<not> is_whitespace (hd xs)" for xs :: string
    using that by (cases xs) auto
  have "dropWhile is_whitespace (rev s) = rev s" using a by (intro d) (simp_all add: hd_rev)
  then show "trim s = s" by (simp add: trim_def d [OF a(1,2)])
qed

lemma alphabet_chars: "c \<in> set CTK64_ALPHABET \<Longrightarrow> \<not> is_whitespace c \<and> c \<noteq> CHR ''.''"
proof -
  have "list_all (\<lambda>c. \<not> is_whitespace c \<and> c \<noteq> CHR ''.'') CTK64_ALPHABET" by code_simp
  then show "c \<in> set CTK64_ALPHABET \<Longrightarrow> \<not> is_whitespace c \<and> c \<noteq> CHR ''.''" by (simp add: list_all_iff)
qed

text \<open>A payload that passes the transport check.\<close>

definition valid_payload :: "string \<Rightarrow> bool" where
  "valid_payload p \<longleftrightarrow> validate_exact_alphabet p Ctk64 = Ok ()"

lemma valid_payloadD:
  assumes "valid_payload p" shows "p \<noteq> []" "set p \<subseteq> set CTK64_ALPHABET"
  using assms by (auto simp: valid_payload_def validate_exact_alphabet_def list_ex_iff split: if_splits)

lemma valid_payload_ends:
  assumes "valid_payload p" shows "\<not> is_whitespace (last p)" "CHR ''.'' \<notin> set p"
  using valid_payloadD [OF assms] alphabet_chars last_in_set by blast+

lemma not_whitespace_c: "\<not> is_whitespace CHR ''c''"
  by code_simp

lemma trim_payload: "valid_payload p \<Longrightarrow> trim (CTK3_PREFIX @ p) = CTK3_PREFIX @ p"
  using valid_payload_ends valid_payloadD not_whitespace_c by (intro trim_id) auto

lemma prefix_matches: "starts_with_ignore_ascii_case (prefix @ s) prefix"
  by (simp add: starts_with_ignore_ascii_case_def eq_ignore_ascii_case_def)

lemma plain_prefix_is_no_bundle: "\<not> starts_with_ignore_ascii_case (CTK3_PREFIX @ s) CTK3_BUNDLE_PREFIX"
proof -
  have "to_ascii_lowercase CHR ''_'' \<noteq> to_ascii_lowercase CHR ''b''" by code_simp
  then show ?thesis by (auto simp: starts_with_ignore_ascii_case_def eq_ignore_ascii_case_def)
qed

lemma extract_plain:
  assumes "valid_payload p"
  shows "extract_exact_payload (CTK3_PREFIX @ p) = Ok (Ctk64, p)" "extract_exact_bundle (CTK3_PREFIX @ p) = Ok None"
proof -
  have "starts_with_ignore_ascii_case (CTK3_PREFIX @ p) CTK3_PREFIX" by (rule prefix_matches)
  then show "extract_exact_payload (CTK3_PREFIX @ p) = Ok (Ctk64, p)"
    using assms unfolding extract_exact_payload_def trim_payload [OF assms] Let_def valid_payload_def by simp
  show "extract_exact_bundle (CTK3_PREFIX @ p) = Ok None"
    unfolding extract_exact_bundle_def trim_payload [OF assms] Let_def using plain_prefix_is_no_bundle by simp
qed

lemma try_map_unit: "(\<And>x. x \<in> set xs \<Longrightarrow> f x = Ok ()) \<Longrightarrow> is_ok (try_map f xs)"
  by (induction xs) (auto simp: is_ok_def split: sum.splits)

lemma join_ne: "xs \<noteq> [] \<Longrightarrow> last xs \<noteq> [] \<Longrightarrow> join d xs \<noteq> []"
  by (induction d xs rule: join.induct) auto

lemma last_join: "xs \<noteq> [] \<Longrightarrow> last xs \<noteq> [] \<Longrightarrow> last (join d xs) = last (last xs)"
  by (induction d xs rule: join.induct) (auto simp: join_ne)

lemma extract_bundle:
  assumes "\<forall>p\<in>set ps. valid_payload p" "2 \<le> length ps"
  shows "extract_exact_bundle (CTK3_BUNDLE_PREFIX @ join CHR ''.'' ps) = Ok (Some ps)"
proof -
  have ne: "ps \<noteq> []" using assms(2) by auto
  have l: "valid_payload (last ps)" using assms(1) ne by simp
  have trim: "trim (CTK3_BUNDLE_PREFIX @ join CHR ''.'' ps) = CTK3_BUNDLE_PREFIX @ join CHR ''.'' ps"
    using valid_payload_ends [OF l] valid_payloadD [OF l] ne not_whitespace_c
    by (intro trim_id) (auto simp: last_join join_ne)
  have split: "split_on CHR ''.'' (join CHR ''.'' ps) = ps"
    using assms(1) valid_payload_ends(2) ne by (intro split_on_join) auto
  obtain us where "try_map (\<lambda>payload. validate_exact_alphabet payload Ctk64) ps = Ok us"
    using try_map_unit [of ps "\<lambda>payload. validate_exact_alphabet payload Ctk64"] assms(1)
    by (auto simp: valid_payload_def is_ok_def split: sum.splits)
  then have "bundle_payloads (join CHR ''.'' ps) = Ok (Some ps)"
    using assms(2) unfolding bundle_payloads_def split Let_def by simp
  then show ?thesis
    unfolding extract_exact_bundle_def trim Let_def using prefix_matches [of CTK3_BUNDLE_PREFIX] by simp
qed

section \<open>Properties\<close>

lemma decode_ctk64_bytes:
  assumes "decode_ctk64 s = Ok bytes"
  shows "bytes \<noteq> []" "length bytes \<le> MAX_PAYLOAD_BYTES"
proof -
  have "s \<noteq> []" "length s \<le> MAX_CTK64_CHARACTERS"
    using assms by (auto simp: decode_ctk64_def validate_exact_alphabet_def and_then_eq_Ok_iff split: if_splits)
  moreover obtain ds pad where e: "encode_ctk64 bytes = Ok (digits_text ds)" "pad < 6"
    "digits_bits ds = bytes_bits bytes @ replicate pad False"
    using encode_ctk64_sound by blast
  have "6 * length ds = 8 * length bytes + pad"
    using arg_cong [OF e(3), of length] unfolding length_bits length_append length_replicate .
  moreover have "length s = length ds" using decode_ctk64_canonical [OF assms] e(1) by auto
  ultimately have "0 < length ds" "6 * length ds = 8 * length bytes + pad" "length ds \<le> MAX_CTK64_CHARACTERS"
    by (simp_all flip: length_greater_0_conv)
  with e(2) have "0 < length bytes" "length bytes \<le> MAX_PAYLOAD_BYTES" by linarith+
  then show "bytes \<noteq> []" "length bytes \<le> MAX_PAYLOAD_BYTES" by simp_all
qed

text \<open>
  C21: the base-64 transport is a bijection between the non-empty payloads within the size limit and the
  texts the decoder accepts.  Every such payload has an encoding, within the alphabet, that decodes to
  it, and a text decodes to some bytes exactly when they are such a payload and it is their encoding.
\<close>

theorem ctk64_bijective:
  shows "(bytes \<noteq> [] \<and> length bytes \<le> MAX_PAYLOAD_BYTES \<longrightarrow>
      (\<exists>s. encode_ctk64 bytes = Ok s \<and> set s \<subseteq> set CTK64_ALPHABET \<and> decode_ctk64 s = Ok bytes))
    \<and> (decode_ctk64 encoded = Ok bytes \<longleftrightarrow>
        bytes \<noteq> [] \<and> length bytes \<le> MAX_PAYLOAD_BYTES \<and> encode_ctk64 bytes = Ok encoded)"
proof -
  have "\<exists>s. encode_ctk64 bytes = Ok s \<and> set s \<subseteq> set CTK64_ALPHABET \<and> decode_ctk64 s = Ok bytes"
    if "bytes \<noteq> []" "length bytes \<le> MAX_PAYLOAD_BYTES" using ctk64_roundtrip [OF that] by blast
  then show ?thesis using decode_ctk64_bytes [of encoded bytes] decode_ctk64_canonical [of encoded bytes] by fastforce
qed

theorem ctk64_bijective_witness:
  "encode_ctk64 [195, 73] = Ok ''w0k'' \<and> decode_ctk64 ''w0k'' = Ok [195, 73]"
proof -
  have "encode_ctk64 [195, 73] = Ok ''w0k''" by code_simp
  then show ?thesis using ctk64_bijective [of "[195, 73]" "''w0k''"] by simp
qed

end
