(* ===== verification/DocumentCodecs.thy ===== *)
theory DocumentCodecs
  imports PageSizes Transports
begin

text \<open>
  Whole documents: \<open>encode_ctk3\<close>, \<open>encode_ctk3_compact\<close>, \<open>encode_ctk3_bundle\<close> and the segmented writer of
  \<open>clearra-ctk3/src/codec.rs\<close>, and the decoders of \<open>decoder.rs\<close>.  A payload is a header, the pages in one of
  three revisions, zero padding and a checksum.  The lemmas show that decoding restores every document
  up to the normal form the encoder writes, for single documents and for bundles.
\<close>

section \<open>Encoding\<close>

abbreviation MAGIC :: u32 where "MAGIC \<equiv> 0xc3"
abbreviation LEGACY_SCHEMA_REVISION :: u32 where "LEGACY_SCHEMA_REVISION \<equiv> 0"
abbreviation COMPACT_SCHEMA_REVISION :: u32 where "COMPACT_SCHEMA_REVISION \<equiv> 1"
abbreviation TEMPORAL_SCHEMA_REVISION :: u32 where "TEMPORAL_SCHEMA_REVISION \<equiv> 2"
abbreviation SHARED_FIELD_SCHEMA_REVISION :: u32 where "SHARED_FIELD_SCHEMA_REVISION \<equiv> 3"

text \<open>The pages in the form of a revision.\<close>

definition write_revision ::
  "nat \<Rightarrow> NormalizedPage list \<Rightarrow> u32 \<Rightarrow> SharedFieldPredictor option \<Rightarrow> BitWriter \<Rightarrow> codec_fault + BitWriter" where
  "write_revision width pages revision shared_field w =
     (if revision = COMPACT_SCHEMA_REVISION
      then try_fold (\<lambda>w index. write_compact_page (pages ! index) (if index = 0 then None else Some (pages ! (index - 1))) w)
             w [0..<length pages]
      else if revision = TEMPORAL_SCHEMA_REVISION then write_temporal_pages pages width None w
      else if revision = SHARED_FIELD_SCHEMA_REVISION
      then and_then (ok_or (Fault (InvalidPayload ''shared field is missing'')) shared_field) (\<lambda>shared.
             and_then (write_var_uint (word_of_nat (sf_height shared)) w) (\<lambda>w.
               and_then (write_best_cell_encoding (sf_codes shared) None 4 True w)
                 (write_temporal_pages pages width (Some shared))))
      else Err (Fault (InvalidPayload ''schema revision is unsupported'')))"

text \<open>The writer calls before the checksum.\<close>

definition write_document ::
  "nat \<Rightarrow> NormalizedPage list \<Rightarrow> u32 \<Rightarrow> SharedFieldPredictor option \<Rightarrow> BitWriter \<Rightarrow> codec_fault + BitWriter" where
  "write_document width pages revision shared_field w =
     and_then (write_bits MAGIC 8 w) (\<lambda>w.
       and_then (write_bits revision 3 w) (\<lambda>w.
         and_then (write_bits (word_of_nat (width - 1)) 5 w) (\<lambda>w.
           and_then (write_var_uint (word_of_nat (length pages)) w) (\<lambda>w.
             write_revision width pages revision shared_field (write_bit False w)))))"

definition u16_be_bytes :: "u16 \<Rightarrow> u8 list" where
  "u16_be_bytes v = [ucast (drop_bit 8 v), ucast v]"

definition u16_from_be_bytes :: "u8 \<Rightarrow> u8 \<Rightarrow> u16" where
  "u16_from_be_bytes high low = push_bit 8 (ucast high) OR ucast low"

definition encode_normalized ::
  "nat \<Rightarrow> NormalizedPage list \<Rightarrow> u32 \<Rightarrow> SharedFieldPredictor option \<Rightarrow> codec_fault + u32 \<times> u8 list" where
  "encode_normalized width pages revision shared_field =
     and_then (write_document width pages revision shared_field bw_default) (\<lambda>w.
       let body = bw_bytes w
       in and_then (ok_or (Fault IntegerOverflow) (usize_checked_add (length body) 2)) (\<lambda>payload_size.
            if payload_size > MAX_PAYLOAD_BYTES then Err (Fault (PayloadTooLarge payload_size))
            else Ok (revision, body @ u16_be_bytes (crc16 body))))"

text \<open>The shortest payload; of equally long ones the one of the lower revision.\<close>

definition select_payload :: "u32 \<times> u8 list \<Rightarrow> (u32 \<times> u8 list) list \<Rightarrow> u32 \<times> u8 list" where
  "select_payload =
     foldl (\<lambda>selected c.
       if length (snd c) < length (snd selected)
          \<or> (length (snd c) = length (snd selected) \<and> fst c < fst selected)
       then c else selected)"

definition encode_ctk3 :: "Ctk3Document \<Rightarrow> codec_fault + string" where
  "encode_ctk3 document =
     and_then (normalize_document document) (\<lambda>pages.
       and_then (encode_normalized (doc_width document) pages COMPACT_SCHEMA_REVISION None) (\<lambda>compact.
         and_then (encode_normalized (doc_width document) pages TEMPORAL_SCHEMA_REVISION None) (\<lambda>temporal.
           and_then (case build_shared_field pages (doc_width document) of
                       Some shared \<Rightarrow>
                         and_then (encode_normalized (doc_width document) pages SHARED_FIELD_SCHEMA_REVISION (Some shared))
                           (\<lambda>c. Ok [c])
                     | None \<Rightarrow> Ok []) (\<lambda>shared.
             and_then (encode_ctk64 (snd (select_payload compact ([temporal] @ shared)))) (\<lambda>encoded.
               Ok (CTK3_PREFIX @ encoded))))))"

definition encode_ctk3_compact :: "Ctk3Document \<Rightarrow> codec_fault + string" where
  "encode_ctk3_compact document =
     and_then (normalize_document document) (\<lambda>pages.
       and_then (encode_normalized (doc_width document) pages COMPACT_SCHEMA_REVISION None) (\<lambda>(_, payload).
         and_then (encode_ctk64 payload) (\<lambda>encoded. Ok (CTK3_PREFIX @ encoded))))"

section \<open>Decoding\<close>

definition read_revision :: "nat \<Rightarrow> nat \<Rightarrow> u32 \<Rightarrow> BitReader \<Rightarrow> codec_fault + NormalizedPage list \<times> BitReader" where
  "read_revision width page_count revision r =
     (if revision = TEMPORAL_SCHEMA_REVISION \<or> revision = SHARED_FIELD_SCHEMA_REVISION
      then and_then
             (if revision = SHARED_FIELD_SCHEMA_REVISION
              then and_then (read_var_uint r) (\<lambda>(height, r).
                     if unat height = 0 \<or> unat height > MAX_HEIGHT
                     then Err (Fault (InvalidPayload ''shared field height is invalid''))
                     else and_then (ok_or (Fault IntegerOverflow) (usize_checked_mul width (unat height))) (\<lambda>count.
                            and_then (read_cell_encoding count None 4 r) (\<lambda>(codes, r). Ok (Some codes, r))))
              else Ok (None, r)) (\<lambda>(shared, r). read_temporal_pages width page_count shared [] r)
      else read_linear_pages width page_count revision r)"

text \<open>The reader calls of a payload after the checksum.\<close>

definition read_document :: "BitReader \<Rightarrow> codec_fault + (nat \<times> NormalizedPage list) \<times> BitReader" where
  "read_document r =
     and_then (read_bits 8 r) (\<lambda>(magic, r).
       if magic \<noteq> MAGIC then Err (Fault (InvalidPayload ''payload header is invalid''))
       else and_then (read_bits 3 r) (\<lambda>(revision, r).
         if revision \<notin> set [LEGACY_SCHEMA_REVISION, COMPACT_SCHEMA_REVISION, TEMPORAL_SCHEMA_REVISION, SHARED_FIELD_SCHEMA_REVISION]
         then Err (Fault (InvalidPayload ''schema revision is unsupported''))
         else and_then (read_bits 5 r) (\<lambda>(width, r).
           let width = unat width + 1
           in if width = 0 \<or> width > MAX_WIDTH then Err (Fault (InvalidWidth width))
              else and_then (read_var_uint r) (\<lambda>(page_count, r).
                let page_count = unat page_count
                in if page_count = 0 \<or> page_count > CTK3_MAX_SEGMENT_PAGES then Err (Fault (InvalidPageCount page_count))
                   else and_then (read_bit r) (\<lambda>(extension, r).
                     if extension then Err (Fault (InvalidPayload ''extension block is unsupported''))
                     else and_then (read_revision width page_count revision r) (\<lambda>(pages, r). Ok ((width, pages), r)))))))"

definition decode_single_payload :: "Transport \<Rightarrow> string \<Rightarrow> codec_fault + Ctk3Document" where
  "decode_single_payload transport encoded =
     and_then (decode_payload transport encoded) (\<lambda>payload.
       if length payload < 4 \<or> length payload > MAX_PAYLOAD_BYTES
       then Err (Fault (InvalidPayload ''payload length is invalid''))
       else let body_len = length payload - 2;
                body = take body_len payload;
                expected = u16_from_be_bytes (payload ! body_len) (payload ! (body_len + 1))
            in if crc16 body \<noteq> expected then Err (Fault (InvalidPayload ''checksum does not match''))
               else and_then (read_document (br_new body)) (\<lambda>((width, normalized), r).
                      and_then (assert_zero_padding r) (\<lambda>_.
                        and_then (try_map normalized_to_page normalized) (\<lambda>pages.
                          Ok \<lparr>doc_width = width, doc_pages = pages\<rparr>))))"

section \<open>Bundles\<close>

text \<open>The width of the first document, which the later ones must have.\<close>

definition expect_width :: "nat option \<Rightarrow> nat \<Rightarrow> Ctk3Document \<Rightarrow> codec_fault + nat option" where
  "expect_width width index document =
     (case width of
        Some expected \<Rightarrow>
          if doc_width document \<noteq> expected then Err (Fault (BundleWidthMismatch index)) else Ok (Some expected)
      | None \<Rightarrow> Ok (Some (doc_width document)))"

definition decode_bundle_payloads :: "string list \<Rightarrow> codec_fault + Ctk3Document" where
  "decode_bundle_payloads payloads =
     (if length payloads > CTK3_MAX_BUNDLE_PAGES then Err (Fault BundlePageLimitExceeded)
      else and_then
             (try_fold (\<lambda>(width, pages) (index, payload).
                  and_then (decode_single_payload Ctk64 payload) (\<lambda>document.
                    and_then (expect_width width index document) (\<lambda>width.
                      if length (doc_pages document) > CTK3_MAX_BUNDLE_PAGES - length pages
                      then Err (Fault BundlePageLimitExceeded)
                      else Ok (width, pages @ doc_pages document))))
                (None, []) (enumerate 0 payloads)) (\<lambda>(width, pages).
             and_then (ok_or (Fault (InvalidPayload ''bundle is empty'')) width) (\<lambda>width.
               Ok \<lparr>doc_width = width, doc_pages = pages\<rparr>)))"

definition decode_ctk3_exact :: "string \<Rightarrow> codec_fault + Ctk3Document" where
  "decode_ctk3_exact input =
     and_then (extract_exact_bundle input) (\<lambda>bundle.
       case bundle of
         Some payloads \<Rightarrow> decode_bundle_payloads payloads
       | None \<Rightarrow> and_then (extract_exact_payload input) (\<lambda>(transport, payload). decode_single_payload transport payload))"

definition decode_ctk3 :: "string \<Rightarrow> codec_fault + Ctk3Document" where
  "decode_ctk3 input =
     and_then (extract_compatible_bundle input) (\<lambda>bundle.
       case bundle of
         Some payloads \<Rightarrow> decode_bundle_payloads payloads
       | None \<Rightarrow>
           and_then (extract_compatible_payload input) (\<lambda>(transport, payload). decode_single_payload transport payload))"

definition decode_ctk3_segment :: "string \<Rightarrow> codec_fault + Ctk3Document" where
  "decode_ctk3_segment input =
     and_then (extract_exact_bundle input) (\<lambda>exact.
       and_then (if exact \<noteq> None then Ok True
                 else and_then (extract_compatible_bundle input) (\<lambda>compatible. Ok (compatible \<noteq> None))) (\<lambda>bundled.
         if bundled then Err (Fault (InvalidPayload ''a segment cannot contain a bundle''))
         else and_then (extract_exact_payload input) (\<lambda>(transport, payload). decode_single_payload transport payload)))"




text \<open>\<open>map_err\<close> on a computation that may panic.\<close>

definition map_fault :: "('e \<Rightarrow> 'f) \<Rightarrow> 'e fault + 'a \<Rightarrow> 'f fault + 'a" where
  "map_fault f r = (case r of Inl Panic \<Rightarrow> Inl Panic | Inl (Fault e) \<Rightarrow> Inl (Fault (f e)) | Inr x \<Rightarrow> Inr x)"

definition encode_ctk3_bundle :: "string list \<Rightarrow> codec_fault + string" where
  "encode_ctk3_bundle segments =
     (if segments = [] \<or> length segments > CTK3_MAX_BUNDLE_PAGES
      then Err (Fault (InvalidBundleSegmentCount (length segments)))
      else and_then
             (try_fold (\<lambda>(width, page_count, payloads) (index, segment).
                  and_then (map_fault (\<lambda>_. InvalidBundleSegment index) (extract_exact_payload segment)) (\<lambda>(transport, payload).
                    if transport \<noteq> Ctk64 then Err (Fault (InvalidBundleSegment index))
                    else and_then (map_fault (\<lambda>_. InvalidBundleSegment index) (decode_ctk3_segment segment)) (\<lambda>document.
                      and_then (expect_width width index document) (\<lambda>width.
                        and_then (ok_or (Fault IntegerOverflow) (usize_checked_add page_count (length (doc_pages document)))) (\<lambda>page_count.
                          if page_count > CTK3_MAX_BUNDLE_PAGES then Err (Fault BundlePageLimitExceeded)
                          else Ok (width, page_count, payloads @ [payload]))))))
                (None, 0, []) (enumerate 0 segments)) (\<lambda>(_, _, payloads).
             Ok (if length payloads = 1 then CTK3_PREFIX @ payloads ! 0
                 else CTK3_BUNDLE_PREFIX @ join CHR ''.'' payloads)))"





section \<open>Documents are bit codecs\<close>

definition wf_shared :: "nat \<Rightarrow> SharedFieldPredictor \<Rightarrow> bool" where
  "wf_shared width shared \<longleftrightarrow> 0 < sf_height shared \<and> sf_height shared \<le> MAX_HEIGHT
     \<and> length (sf_codes shared) = width * sf_height shared \<and> (\<forall>c\<in>set (sf_codes shared). c \<le> 8)"

definition common_step :: "u8 list \<Rightarrow> NormalizedPage \<Rightarrow> u8 list" where
  "common_step common page =
     map (\<lambda>(index, c). if c \<noteq> 0 \<and> c \<noteq> get_or 0 (np_codes page) index then 0 else c) (enumerate 0 common)"

lemma common_step_codes:
  "length (common_step common page) = length common"
  "\<forall>c\<in>set common. c \<le> 8 \<Longrightarrow> \<forall>c\<in>set (common_step common page). c \<le> 8"
  by (auto simp: common_step_def in_set_enumerate_eq)

lemma common_codes:
  "length (foldl common_step common pages) = length common"
  "\<forall>c\<in>set common. c \<le> 8 \<Longrightarrow> \<forall>c\<in>set (foldl common_step common pages). c \<le> 8"
proof -
  show "length (foldl common_step common pages) = length common"
    by (induction pages arbitrary: common) (simp_all add: common_step_codes(1))
  show "\<forall>c\<in>set common. c \<le> 8 \<Longrightarrow> \<forall>c\<in>set (foldl common_step common pages). c \<le> 8"
  proof (induction pages arbitrary: common)
    case (Cons page pages)
    show ?case unfolding foldl.simps by (rule Cons.IH, rule common_step_codes(2), rule Cons.prems)
  qed simp
qed

lemma build_shared_field_wf:
  assumes wf: "\<forall>page\<in>set pages. wf_page width page" "0 < width" and build: "build_shared_field pages width = Some shared"
  shows "wf_shared width shared"
proof -
  define common where "common = foldl common_step (np_codes (hd pages)) (tl pages)"
  define height where "height = trimmed_height width common ((length common + width - 1) div width)"
  have pages: "pages \<noteq> []" "height \<noteq> 0" "shared = \<lparr>sf_height = height, sf_codes = take (height * width) common\<rparr>"
    using build unfolding build_shared_field_def common_step_def [symmetric] common_def [symmetric] Let_def height_def [symmetric]
    by (auto split: if_splits)
  have first: "wf_page width (hd pages)" using wf(1) pages(1) by simp
  have len: "length common = np_height (hd pages) * width" "\<forall>c\<in>set common. c \<le> 8"
    using common_codes [of "np_codes (hd pages)" "tl pages"] first by (simp_all add: common_def wf_page_def)
  have "(np_height (hd pages) * width + width - 1) div width = np_height (hd pages)"
    using wf(2) div_mult_self3 [of width "np_height (hd pages)" "width - 1"] by (simp add: add.commute)
  then have le: "height \<le> np_height (hd pages)" using trimmed_height_le by (simp add: height_def len(1))
  then have "height * width \<le> length common" by (simp add: len(1))
  then show ?thesis
    using pages(2) le first len(2) unfolding pages(3) wf_shared_def by (auto simp: wf_page_def mult.commute dest: in_set_takeD)
qed

text \<open>The revisions the encoder writes, with the shared field of revision 3.\<close>

definition wf_revision :: "nat \<Rightarrow> u32 \<Rightarrow> SharedFieldPredictor option \<Rightarrow> bool" where
  "wf_revision width revision shared_field \<longleftrightarrow>
     revision = COMPACT_SCHEMA_REVISION \<or> revision = TEMPORAL_SCHEMA_REVISION
     \<or> revision = SHARED_FIELD_SCHEMA_REVISION \<and> (\<exists>shared. shared_field = Some shared \<and> wf_shared width shared)"

definition wf_pages :: "nat \<Rightarrow> NormalizedPage list \<Rightarrow> bool" where
  "wf_pages width pages \<longleftrightarrow> 0 < width \<and> width \<le> MAX_WIDTH \<and> pages \<noteq> [] \<and> length pages \<le> CTK3_MAX_SEGMENT_PAGES
     \<and> (\<forall>page\<in>set pages. wf_page width page)"

lemma codec_shared_field:
  assumes "wf_shared width shared" "width \<le> MAX_WIDTH"
  shows "codec (\<lambda>w. and_then (write_var_uint (word_of_nat (sf_height shared)) w) (write_best_cell_encoding (sf_codes shared) None 4 True))
    (\<lambda>r. and_then (read_var_uint r) (\<lambda>(height, r).
       if unat height = 0 \<or> unat height > MAX_HEIGHT then Err (Fault (InvalidPayload ''shared field height is invalid''))
       else and_then (ok_or (Fault IntegerOverflow) (usize_checked_mul width (unat height))) (\<lambda>count.
              and_then (read_cell_encoding count None 4 r) (\<lambda>(codes, r). Ok (Some codes, r))))) (Some (sf_codes shared))"
proof -
  have h: "sf_height shared < 2 ^ 32" "sf_height shared \<noteq> 0" "\<not> MAX_HEIGHT < sf_height shared"
    using assms(1) by (simp_all add: wf_shared_def)
  have u: "unat (word_of_nat (sf_height shared) :: u32) = sf_height shared" by (rule unat_u32 [OF h(1)])
  have "width * sf_height shared \<le> 31 * 31" using assms by (intro mult_le_mono) (simp_all add: wf_shared_def)
  then have count: "usize_checked_mul width (sf_height shared) = Some (width * sf_height shared)" "width * sf_height shared < 2 ^ 32"
    by (simp_all add: usize_checked_mul_def USIZE_MAX_def)
  have "codec (write_best_cell_encoding (sf_codes shared) None 4 True) (read_cell_encoding (width * sf_height shared) None 4) (sf_codes shared)"
    using assms(1) count(2) by (intro codec_cells) (simp_all add: wf_shared_def)
  from codec_map [OF this, of Some] show ?thesis
    by (intro codec_bind [OF codec_var_uint [OF h(1)]]) (simp add: u h(2,3) count(1))
qed

lemma codec_revision:
  assumes pages: "wf_pages width pages" and revision: "wf_revision width revision shared_field"
  shows "codec (write_revision width pages revision shared_field) (read_revision width (length pages) revision) pages"
proof -
  have wf: "\<forall>page\<in>set pages. wf_page width page" "width \<le> MAX_WIDTH" "length pages < 2 ^ 32"
    using pages by (simp_all add: wf_pages_def)
  consider "revision = COMPACT_SCHEMA_REVISION" | "revision = TEMPORAL_SCHEMA_REVISION"
    | shared where "revision = SHARED_FIELD_SCHEMA_REVISION" "shared_field = Some shared" "wf_shared width shared"
    using revision by (auto simp: wf_revision_def)
  then show ?thesis
  proof cases
    case 1
    then show ?thesis
      using codec_linear_pages [OF wf(1,2) order_refl]
      by (simp add: write_revision_def [abs_def] read_revision_def [abs_def])
  next
    case 2
    then show ?thesis
      using codec_temporal_pages [OF wf, of None] by (simp add: write_revision_def [abs_def] read_revision_def [abs_def])
  next
    case 3
    have "codec (\<lambda>w. and_then (and_then (write_var_uint (word_of_nat (sf_height shared)) w)
        (write_best_cell_encoding (sf_codes shared) None 4 True)) (write_temporal_pages pages width (Some shared)))
      (\<lambda>r. and_then (and_then (read_var_uint r) (\<lambda>(height, r).
         if unat height = 0 \<or> unat height > MAX_HEIGHT then Err (Fault (InvalidPayload ''shared field height is invalid''))
         else and_then (ok_or (Fault IntegerOverflow) (usize_checked_mul width (unat height))) (\<lambda>count.
                and_then (read_cell_encoding count None 4 r) (\<lambda>(codes, r). Ok (Some codes, r)))))
        (\<lambda>(shared, r). read_temporal_pages width (length pages) shared [] r)) pages"
      by (rule codec_bind [OF codec_shared_field [OF 3(3) wf(2)]]) (use codec_temporal_pages [OF wf, of "Some shared"] in simp)
    then show ?thesis
      using 3(1,2) by (simp add: write_revision_def [abs_def] read_revision_def [abs_def] and_then_assoc)
  qed
qed

lemma codec_document_body:
  assumes pages: "wf_pages width pages" and revision: "wf_revision width revision shared_field"
  shows "codec (\<lambda>w. and_then (write_bits (word_of_nat (width - 1)) 5 w) (\<lambda>w.
      and_then (write_var_uint (word_of_nat (length pages)) w) (\<lambda>w.
        write_revision width pages revision shared_field (write_bit False w))))
    (\<lambda>r. and_then (read_bits 5 r) (\<lambda>(width, r).
       if unat width + 1 = 0 \<or> unat width + 1 > MAX_WIDTH then Err (Fault (InvalidWidth (unat width + 1)))
       else and_then (read_var_uint r) (\<lambda>(page_count, r).
         if unat page_count = 0 \<or> unat page_count > CTK3_MAX_SEGMENT_PAGES then Err (Fault (InvalidPageCount (unat page_count)))
         else and_then (read_bit r) (\<lambda>(extension, r).
           if extension then Err (Fault (InvalidPayload ''extension block is unsupported''))
           else and_then (read_revision (unat width + 1) (unat page_count) revision r)
             (\<lambda>(pages, r). Ok ((unat width + 1, pages), r)))))) (width, pages)"
proof -
  have small: "width - 1 < 2 ^ 5" "length pages < 2 ^ 32" using pages by (auto simp: wf_pages_def)
  have w: "unat (word_of_nat (width - 1) :: u32) = width - 1" by (rule unat_u32) (use small(1) in simp)
  have width: "unat (word_of_nat (width - 1) :: u32) + 1 = width" using w pages by (simp add: wf_pages_def)
  have n: "unat (word_of_nat (length pages) :: u32) = length pages" by (rule unat_u32 [OF small(2)])
  define q where "q = (\<lambda>extension r. if extension then Err (Fault (InvalidPayload ''extension block is unsupported''))
      else and_then (read_revision width (length pages) revision r) (\<lambda>(pages, r). Ok ((width, pages), r)))"
  have "codec (write_revision width pages revision shared_field) (q False) (width, pages)"
    using codec_map [OF codec_revision [OF assms], of "Pair width"] by (simp add: q_def)
  then have bit: "codec (\<lambda>w. write_revision width pages revision shared_field (write_bit False w))
      (\<lambda>r. and_then (read_bit r) (\<lambda>(extension, r). q extension r)) (width, pages)"
    by (rule codec_bit_then [where q = q])
  have ok: "\<not> (width = 0 \<or> MAX_WIDTH < width)" "\<not> (length pages = 0 \<or> CTK3_MAX_SEGMENT_PAGES < length pages)"
    using pages by (auto simp: wf_pages_def)
  show ?thesis
    by (rule codec_bind [OF codec_bits], simp, simp only: w small(1), simp only: width if_not_P [OF ok(1)],
        rule codec_bind [OF codec_var_uint [OF small(2)]], simp only: n if_not_P [OF ok(2)])
      (use bit in \<open>simp only: q_def\<close>)
qed

lemma revision_listed:
  "wf_revision width revision shared_field \<Longrightarrow> unat revision < 2 ^ 3
   \<and> revision \<in> set [LEGACY_SCHEMA_REVISION, COMPACT_SCHEMA_REVISION, TEMPORAL_SCHEMA_REVISION, SHARED_FIELD_SCHEMA_REVISION]"
  by (auto simp: wf_revision_def)

lemma codec_document:
  assumes pages: "wf_pages width pages" and revision: "wf_revision width revision shared_field"
  shows "codec (write_document width pages revision shared_field) read_document (width, pages)"
proof -
  have small: "unat MAGIC < 2 ^ 8" "unat revision < 2 ^ 3"
    "revision \<in> set [LEGACY_SCHEMA_REVISION, COMPACT_SCHEMA_REVISION, TEMPORAL_SCHEMA_REVISION, SHARED_FIELD_SCHEMA_REVISION]"
    using revision_listed [OF revision] by simp_all
  show ?thesis
    unfolding write_document_def [abs_def] read_document_def [abs_def] Let_def
    by (rule codec_bind [OF codec_bits [OF _ small(1)]], simp, simp only: simp_thms if_False,
        rule codec_bind [OF codec_bits [OF _ small(2)]], simp, simp only: small(3) simp_thms if_False,
        rule codec_document_body [OF assms])
qed

interpretation document: bit_codec "\<lambda>(width, pages). write_document width pages revision (shared_field pages)" read_document
  "\<lambda>(width, pages). wf_pages width pages \<and> wf_revision width revision (shared_field pages)" for revision shared_field
  by unfold_locales (auto intro: codec_document)

section \<open>Normal forms of documents\<close>

lemma normalize_page_index: "normalize_page width i page = Ok normal \<Longrightarrow> normalize_page width j page = Ok normal"
  by (auto simp: normalize_page_def normalize_operation_def normalize_garbage_def and_then_eq_Ok_iff Let_def ok_or_def
      split: if_splits option.splits)

definition utf8_comments :: "Ctk3Document \<Rightarrow> bool" where
  "utf8_comments document \<longleftrightarrow> (\<forall>page\<in>set (doc_pages document). is_utf8 (pg_comment page))"

lemma normalize_document_pages:
  assumes "normalize_document document = Ok pages"
  shows "list_all2 (\<lambda>page normal. normalize_page (doc_width document) 0 page = Ok normal) (doc_pages document) pages"
    "0 < doc_width document" "doc_width document \<le> MAX_WIDTH" "doc_pages document \<noteq> []"
    "length (doc_pages document) \<le> CTK3_MAX_SEGMENT_PAGES"
proof -
  have "list_all2 (\<lambda>(index, page) normal. normalize_page (doc_width document) index page = Ok normal) (enumerate 0 (doc_pages document)) pages"
    using assms by (auto simp: normalize_document_def try_map_eq_Ok_iff case_prod_unfold split: if_splits)
  then have pages: "length (doc_pages document) = length pages"
    "\<forall>i<length pages. normalize_page (doc_width document) i (doc_pages document ! i) = Ok (pages ! i)"
    by (auto simp: list_all2_conv_all_nth nth_enumerate_eq)
  show "list_all2 (\<lambda>page normal. normalize_page (doc_width document) 0 page = Ok normal) (doc_pages document) pages"
    using pages by (auto simp: list_all2_conv_all_nth intro: normalize_page_index)
  show "0 < doc_width document" "doc_width document \<le> MAX_WIDTH" "doc_pages document \<noteq> []"
    "length (doc_pages document) \<le> CTK3_MAX_SEGMENT_PAGES"
    using assms by (auto simp: normalize_document_def split: if_splits)
qed

lemma normalize_document_wf:
  assumes "normalize_document document = Ok pages" "utf8_comments document"
  shows "wf_pages (doc_width document) pages" "\<forall>page\<in>set pages. fixed_page (doc_width document) page"
proof -
  note n = normalize_document_pages [OF assms(1)]
  have len: "length pages = length (doc_pages document)" using list_all2_lengthD [OF n(1)] by simp
  have "wf_page (doc_width document) normal \<and> fixed_page (doc_width document) normal" if normal: "normal \<in> set pages" for normal
  proof -
    obtain i where i: "i < length pages" "normal = pages ! i" using normal by (auto simp: in_set_conv_nth)
    define page where "page = doc_pages document ! i"
    have "page \<in> set (doc_pages document)" "normalize_page (doc_width document) 0 page = Ok normal"
      using i len list_all2_nthD2 [OF n(1) i(1)] by (simp_all add: page_def)
    then show ?thesis using normalize_page_wf assms(2) by (auto simp: utf8_comments_def)
  qed
  then show "wf_pages (doc_width document) pages" "\<forall>page\<in>set pages. fixed_page (doc_width document) page"
    using n len by (auto simp: wf_pages_def)
qed

text \<open>Well-formed pages have documents whose normal form they are.\<close>

lemma restore_pages:
  assumes "\<forall>page\<in>set pages. wf_page width page \<and> fixed_page width page" "width \<le> MAX_WIDTH"
  obtains restored where "try_map normalized_to_page pages = Ok restored"
    "list_all2 (\<lambda>page normal. \<forall>index. normalize_page width index page = Ok normal) restored pages"
proof -
  have "\<exists>restored. try_map normalized_to_page pages = Ok restored
      \<and> list_all2 (\<lambda>page normal. \<forall>index. normalize_page width index page = Ok normal) restored pages"
    using assms(1)
  proof (induction pages)
    case (Cons page pages)
    then obtain restored where r: "try_map normalized_to_page pages = Ok restored"
      "list_all2 (\<lambda>page normal. \<forall>index. normalize_page width index page = Ok normal) restored pages" by auto
    obtain p where "normalized_to_page page = Ok p" "normalize_page width 0 p = Ok page"
      using normalized_to_page_fixed [of width page 0] Cons.prems assms(2) by auto
    moreover from this(2) have "\<forall>index. normalize_page width index p = Ok page" by (auto intro: normalize_page_index)
    ultimately show ?case using r by (intro exI [of _ "p # restored"]) simp
  qed simp
  then show thesis using that by blast
qed

lemma restore_document:
  assumes "normalize_document document = Ok pages" "utf8_comments document"
  obtains restored where "try_map normalized_to_page pages = Ok restored"
    "normalize_document \<lparr>doc_width = doc_width document, doc_pages = restored\<rparr> = Ok pages"
    "list_all2 (\<lambda>page page'. normalize_page (doc_width document) 0 page' = normalize_page (doc_width document) 0 page)
       (doc_pages document) restored"
proof -
  note wf = normalize_document_wf [OF assms] and n = normalize_document_pages [OF assms(1)]
  obtain restored where r: "try_map normalized_to_page pages = Ok restored"
    "list_all2 (\<lambda>page normal. \<forall>index. normalize_page (doc_width document) index page = Ok normal) restored pages"
    using restore_pages [of pages "doc_width document"] wf n(3) by (auto simp: wf_pages_def)
  have len: "length restored = length pages" "length pages = length (doc_pages document)"
    using list_all2_lengthD [OF r(2)] list_all2_lengthD [OF n(1)] by simp_all
  have "normalize_document \<lparr>doc_width = doc_width document, doc_pages = restored\<rparr> = Ok pages"
    using n len r(2) by (auto simp: normalize_document_def try_map_eq_Ok_iff list_all2_conv_all_nth nth_enumerate_eq)
  moreover have "list_all2 (\<lambda>page page'. normalize_page (doc_width document) 0 page' = normalize_page (doc_width document) 0 page)
      (doc_pages document) restored"
    using n(1) r(2) len by (simp add: list_all2_conv_all_nth)
  ultimately show thesis using that r(1) by blast
qed

section \<open>Payloads\<close>

lemma u16_be_roundtrip: "u16_from_be_bytes (ucast (drop_bit 8 v)) (ucast v) = v"
  unfolding u16_from_be_bytes_def
  by (rule bit_word_eqI) (auto simp: bit_or_iff bit_push_bit_iff bit_ucast_iff bit_drop_bit_eq not_le)

lemma written_document:
  assumes "wf_pages width pages" "wf_revision width revision shared_field"
  obtains w where "write_document width pages revision shared_field bw_default = Ok w" "2 \<le> length (bw_bytes w)"
    "8 * length (bw_bytes w) \<le> USIZE_MAX \<Longrightarrow>
       \<exists>r. read_document (br_new (bw_bytes w)) = Ok ((width, pages), r) \<and> is_ok (assert_zero_padding r)"
proof -
  obtain w where w: "write_document width pages revision shared_field bw_default = Ok w" "wf_writer w"
    "8 * length (bw_bytes w) \<le> USIZE_MAX \<Longrightarrow>
       \<exists>r. read_document (br_new (bw_bytes w)) = Ok ((width, pages), r) \<and> is_ok (assert_zero_padding r)"
    using document.stream_roundtrip [where x = "(width, pages)" and revision = revision and shared_field = "\<lambda>_. shared_field"] assms by auto
  obtain bs where "writes (\<lambda>w. and_then (write_bits (word_of_nat (width - 1)) 5 w) (\<lambda>w.
      and_then (write_var_uint (word_of_nat (length pages)) w) (\<lambda>w.
        write_revision width pages revision shared_field (write_bit False w)))) bs"
    using codec_document_body [OF assms] by (auto simp: codec_def)
  then have "writes (write_document width pages revision shared_field) (nat_bits 8 (unat MAGIC) @ nat_bits 3 (unat revision) @ bs)"
    unfolding write_document_def [abs_def]
    using revision_listed [OF assms(2)] by (intro writes_then writes_bits) simp_all
  then have "writer_bits w = nat_bits 8 (unat MAGIC) @ nat_bits 3 (unat revision) @ bs"
    using w(1) unfolding writes_def by (metis Inr_inject wf_writer_default writer_bits_default append_Nil)
  from arg_cong [OF this, of length] w(2) have "2 \<le> length (bw_bytes w)" by (simp add: wf_writer_def)
  then show thesis using that w by blast
qed

text \<open>How large a body is.\<close>

lemma sized_revision:
  assumes pages: "wf_pages width pages" and revision: "wf_revision width revision shared_field"
  shows "sized (write_revision width pages revision shared_field) (3892 + pages_bits pages)"
proof -
  have wf: "\<forall>page\<in>set pages. wf_page width page" "width \<le> MAX_WIDTH" "length pages < 2 ^ 32"
    using pages by (simp_all add: wf_pages_def)
  consider "revision = COMPACT_SCHEMA_REVISION" | "revision = TEMPORAL_SCHEMA_REVISION"
    | shared where "revision = SHARED_FIELD_SCHEMA_REVISION" "shared_field = Some shared" "wf_shared width shared"
    using revision by (auto simp: wf_revision_def)
  then show ?thesis
  proof cases
    case 1
    then show ?thesis
      using sized_linear_pages [OF wf(1,2) order_refl] by (simp add: write_revision_def [abs_def] sized_mono)
  next
    case 2
    then show ?thesis using sized_temporal_pages [OF wf, of None] by (simp add: write_revision_def [abs_def] sized_mono)
  next
    case 3
    have "length (sf_codes shared) \<le> 961" "\<forall>c\<in>set (sf_codes shared). c \<le> 8" "sf_height shared < 2 ^ 32"
      using 3(3) wf(2) mult_le_mono [of width 31 "sf_height shared" 31] by (auto simp: wf_shared_def)
    then have "sized (\<lambda>w. and_then (write_var_uint (word_of_nat (sf_height shared)) w) (\<lambda>w.
        and_then (write_best_cell_encoding (sf_codes shared) None 4 True w) (write_temporal_pages pages width (Some shared))))
      (35 + (3857 + pages_bits pages))"
      using sized_temporal_pages [OF wf, of "Some shared"]
      by (intro sized_bind sized_var_uint sized_mono [OF sized_cells [of "sf_codes shared" 4 None]]) simp_all
    then show ?thesis using 3(1,2) by (simp add: write_revision_def [abs_def] add.assoc [symmetric])
  qed
qed

lemma sized_document:
  assumes "wf_pages width pages" "wf_revision width revision shared_field"
  shows "sized (write_document width pages revision shared_field) (3944 + pages_bits pages)"
proof -
  have small: "unat MAGIC < 2 ^ 8" "unat revision < 2 ^ 3" "length pages < 2 ^ 32" "width - 1 < 2 ^ 5"
    using assms(1) revision_listed [OF assms(2)] by (auto simp: wf_pages_def)
  have "unat (word_of_nat (width - 1) :: u32) = width - 1" by (rule unat_u32) (use small(4) in simp)
  with small have "sized (write_document width pages revision shared_field) (8 + (3 + (5 + (35 + Suc (3892 + pages_bits pages)))))"
    unfolding write_document_def [abs_def] using sized_revision [OF assms]
    by (intro sized_bind sized_bits sized_var_uint sized_bit_then) simp_all
  then show ?thesis by (rule sized_mono) simp
qed

lemma encode_normalized_ok:
  assumes wf: "wf_pages width pages" "wf_revision width revision shared_field" and size: "pages_bits pages \<le> 134213000"
  shows "is_ok (encode_normalized width pages revision shared_field)"
proof -
  obtain bs where bs: "writes (write_document width pages revision shared_field) bs" "length bs \<le> 3944 + pages_bits pages"
    using sized_document [OF wf] by (auto simp: sized_def)
  from bs(1) obtain w where w: "write_document width pages revision shared_field bw_default = Ok w" "wf_writer w" "writer_bits w = bs"
    by (force simp: writes_def)
  have "length (bw_bytes w) = (bw_bit_len w + 7) div 8" "bw_bit_len w \<le> 3944 + pages_bits pages"
    using w(2,3) bs(2) length_writer_bits [of w] by (auto simp: wf_writer_def)
  then have "length (bw_bytes w) + 2 \<le> MAX_PAYLOAD_BYTES" using size by simp
  then show ?thesis
    by (simp add: encode_normalized_def w(1) Let_def usize_checked_add_def USIZE_MAX_def is_ok_def)
qed

text \<open>What the encoder makes of a body within the limit is read back as the pages in it.\<close>

lemma encoded_payload:
  assumes wf: "wf_pages width pages" "wf_revision width revision shared_field"
    and encoded: "encode_normalized width pages revision shared_field = Ok (tag, payload)"
    and restored: "try_map normalized_to_page pages = Ok restored"
  obtains encoded where "encode_ctk64 payload = Ok encoded" "valid_payload encoded"
    "decode_single_payload Ctk64 encoded = Ok \<lparr>doc_width = width, doc_pages = restored\<rparr>"
proof -
  obtain w where w: "write_document width pages revision shared_field bw_default = Ok w" "2 \<le> length (bw_bytes w)"
    "8 * length (bw_bytes w) \<le> USIZE_MAX \<Longrightarrow>
       \<exists>r. read_document (br_new (bw_bytes w)) = Ok ((width, pages), r) \<and> is_ok (assert_zero_padding r)"
    using written_document [OF wf] by blast
  define body where "body = bw_bytes w"
  have payload: "payload = body @ u16_be_bytes (crc16 body)" and size: "length body + 2 \<le> MAX_PAYLOAD_BYTES"
    using encoded w(1) by (auto simp: encode_normalized_def Let_def body_def and_then_eq_Ok_iff ok_or_def usize_checked_add_def split: if_splits)
  obtain r where r: "read_document (br_new body) = Ok ((width, pages), r)" "is_ok (assert_zero_padding r)"
    using w(3) size unfolding body_def by (auto simp: USIZE_MAX_def)
  have len: "length payload = length body + 2" by (simp add: payload u16_be_bytes_def)
  then have "payload \<noteq> []" "length payload \<le> MAX_PAYLOAD_BYTES" using size by auto
  from ctk64_roundtrip [OF this] obtain encoded where e: "encode_ctk64 payload = Ok encoded"
    "validate_exact_alphabet encoded Ctk64 = Ok ()" "decode_ctk64 encoded = Ok payload" by blast
  have parts: "take (length payload - 2) payload = body"
    "u16_from_be_bytes (payload ! (length payload - 2)) (payload ! (length payload - 2 + 1)) = crc16 body"
    by (simp_all add: len) (simp_all add: payload u16_be_bytes_def nth_append u16_be_roundtrip)
  have "decode_single_payload Ctk64 encoded = Ok \<lparr>doc_width = width, doc_pages = restored\<rparr>"
    using w(2) size r unfolding decode_single_payload_def decode_payload_def Transport.case e(3) and_then_simps Let_def parts
    by (auto simp: len body_def restored is_ok_def split: sum.splits)
  then show thesis using that e by (auto simp: valid_payload_def)
qed

section \<open>Encoded documents\<close>

lemma decode_plain:
  assumes "valid_payload p" shows "decode_ctk3_exact (CTK3_PREFIX @ p) = decode_single_payload Ctk64 p"
  using extract_plain [OF assms] by (simp only: decode_ctk3_exact_def and_then_simps option.case case_prod_conv)

definition comment_bytes :: "Ctk3Document \<Rightarrow> nat" where
  "comment_bytes document = (\<Sum>page\<leftarrow>doc_pages document. length (pg_comment page))"

lemma normalize_page_comment: "normalize_page width index page = Ok normal \<Longrightarrow> np_comment normal = pg_comment page"
  by (auto simp: normalize_page_def and_then_eq_Ok_iff Let_def split: if_splits)

lemma pages_bits_comments:
  assumes "list_all2 (\<lambda>page normal. normalize_page width 0 page = Ok normal) ps pages"
  shows "pages_bits pages = PAGE_BITS * length ps + 8 * (\<Sum>page\<leftarrow>ps. length (pg_comment page))"
  using assms by (induction rule: list_all2_induct) (simp_all add: normalize_page_comment)

lemma document_bits:
  assumes "normalize_document document = Ok pages" "comment_bytes document \<le> 14000000"
  shows "pages_bits pages \<le> 134213000"
proof -
  note n = normalize_document_pages [OF assms(1)]
  have "PAGE_BITS * length (doc_pages document) \<le> PAGE_BITS * 4096" using n(5) by (intro mult_le_mono2) simp
  then show ?thesis using pages_bits_comments [OF n(1)] assms(2) by (simp add: comment_bytes_def)
qed

text \<open>The payloads \<open>encode_ctk3\<close> chooses from.\<close>

definition payload_of :: "Ctk3Document \<Rightarrow> NormalizedPage list \<Rightarrow> u32 \<times> u8 list \<Rightarrow> bool" where
  "payload_of document pages c \<longleftrightarrow> (\<exists>revision shared. wf_revision (doc_width document) revision shared
     \<and> encode_normalized (doc_width document) pages revision shared = Ok c)"

lemma select_payload_of:
  "payload_of document pages c \<Longrightarrow> \<forall>c\<in>set cs. payload_of document pages c \<Longrightarrow> payload_of document pages (select_payload c cs)"
  unfolding select_payload_def by (induction cs arbitrary: c) simp_all

lemma payload_ofI:
  "encode_normalized (doc_width document) pages COMPACT_SCHEMA_REVISION None = Ok c \<Longrightarrow> payload_of document pages c"
  "encode_normalized (doc_width document) pages TEMPORAL_SCHEMA_REVISION None = Ok c \<Longrightarrow> payload_of document pages c"
  "wf_shared (doc_width document) shared \<Longrightarrow>
   encode_normalized (doc_width document) pages SHARED_FIELD_SCHEMA_REVISION (Some shared) = Ok c \<Longrightarrow> payload_of document pages c"
  unfolding payload_of_def wf_revision_def by blast+

lemma encode_ctk3_selects:
  assumes norm: "normalize_document document = Ok pages" and wf: "wf_pages (doc_width document) pages"
    and encode: "encode_ctk3 document = Ok encoded"
  obtains tag payload body where "payload_of document pages (tag, payload)" "encode_ctk64 payload = Ok body" "encoded = CTK3_PREFIX @ body"
proof -
  have shared: "wf_shared (doc_width document) shared" if "build_shared_field pages (doc_width document) = Some shared" for shared
    using build_shared_field_wf that wf by (auto simp: wf_pages_def)
  obtain c1 c2 c3 body where c: "encode_normalized (doc_width document) pages COMPACT_SCHEMA_REVISION None = Ok c1"
    "encode_normalized (doc_width document) pages TEMPORAL_SCHEMA_REVISION None = Ok c2"
    "(case build_shared_field pages (doc_width document) of
        Some shared \<Rightarrow> and_then (encode_normalized (doc_width document) pages SHARED_FIELD_SCHEMA_REVISION (Some shared)) (\<lambda>c. Ok [c])
      | None \<Rightarrow> Ok []) = Ok c3"
    and body: "encode_ctk64 (snd (select_payload c1 ([c2] @ c3))) = Ok body" "encoded = CTK3_PREFIX @ body"
    using encode unfolding encode_ctk3_def norm and_then_simps Let_def by (auto simp only: and_then_eq_Ok_iff sum.inject)
  have "payload_of document pages c1" "payload_of document pages c2" using payload_ofI(1,2) c(1,2) by blast+
  moreover have "\<forall>c\<in>set c3. payload_of document pages c"
    using c(3) shared by (auto simp: and_then_eq_Ok_iff split: option.splits intro: payload_ofI(3))
  ultimately have "payload_of document pages (select_payload c1 ([c2] @ c3))" using select_payload_of by simp
  then show thesis using that [of "fst (select_payload c1 ([c2] @ c3))" "snd (select_payload c1 ([c2] @ c3))" body] body by simp
qed

lemma payload_decodes:
  assumes norm: "normalize_document document = Ok pages" and utf8: "utf8_comments document"
    and payload: "payload_of document pages (tag, payload)"
  obtains body restored where "encode_ctk64 payload = Ok body" "valid_payload body" "decode_single_payload Ctk64 body = Ok restored"
    "doc_width restored = doc_width document" "normalize_document restored = Ok pages"
    "list_all2 (\<lambda>page page'. normalize_page (doc_width document) 0 page' = normalize_page (doc_width document) 0 page)
       (doc_pages document) (doc_pages restored)"
proof -
  obtain restored where r: "try_map normalized_to_page pages = Ok restored"
    "normalize_document \<lparr>doc_width = doc_width document, doc_pages = restored\<rparr> = Ok pages"
    "list_all2 (\<lambda>page page'. normalize_page (doc_width document) 0 page' = normalize_page (doc_width document) 0 page)
       (doc_pages document) restored"
    by (rule restore_document [OF norm utf8])
  obtain revision shared where c: "wf_revision (doc_width document) revision shared"
    "encode_normalized (doc_width document) pages revision shared = Ok (tag, payload)"
    using payload by (auto simp: payload_of_def)
  obtain body where b: "encode_ctk64 payload = Ok body" "valid_payload body"
    "decode_single_payload Ctk64 body = Ok \<lparr>doc_width = doc_width document, doc_pages = restored\<rparr>"
    by (rule encoded_payload [OF normalize_document_wf(1) [OF norm utf8] c r(1)])
  then show thesis using that r by simp
qed

lemma encode_ctk3_ok:
  assumes norm: "normalize_document document = Ok pages" and utf8: "utf8_comments document" and size: "comment_bytes document \<le> 14000000"
  shows "is_ok (encode_ctk3 document)"
proof -
  note wf = normalize_document_wf(1) [OF norm utf8]
  note ok = encode_normalized_ok [OF wf _ document_bits [OF norm size]]
  obtain c1 c2 where c: "encode_normalized (doc_width document) pages COMPACT_SCHEMA_REVISION None = Ok c1"
    "encode_normalized (doc_width document) pages TEMPORAL_SCHEMA_REVISION None = Ok c2"
    using ok [of COMPACT_SCHEMA_REVISION None] ok [of TEMPORAL_SCHEMA_REVISION None]
    by (auto simp: wf_revision_def is_ok_def split: sum.splits)
  have "\<exists>c3. (case build_shared_field pages (doc_width document) of
        Some shared \<Rightarrow> and_then (encode_normalized (doc_width document) pages SHARED_FIELD_SCHEMA_REVISION (Some shared)) (\<lambda>c. Ok [c])
      | None \<Rightarrow> Ok []) = Ok c3 \<and> (\<forall>c\<in>set c3. payload_of document pages c)"
  proof (cases "build_shared_field pages (doc_width document)")
    case (Some shared)
    have shared: "wf_shared (doc_width document) shared" using build_shared_field_wf Some wf by (auto simp: wf_pages_def)
    then have "is_ok (encode_normalized (doc_width document) pages SHARED_FIELD_SCHEMA_REVISION (Some shared))"
      by (intro ok) (simp add: wf_revision_def)
    then show ?thesis using Some payload_ofI(3) [OF shared] by (auto simp: is_ok_def split: sum.splits)
  qed simp
  then obtain c3 where c3: "(case build_shared_field pages (doc_width document) of
        Some shared \<Rightarrow> and_then (encode_normalized (doc_width document) pages SHARED_FIELD_SCHEMA_REVISION (Some shared)) (\<lambda>c. Ok [c])
      | None \<Rightarrow> Ok []) = Ok c3" "\<forall>c\<in>set c3. payload_of document pages c" by blast
  have "payload_of document pages (select_payload c1 ([c2] @ c3))"
    using payload_ofI(1) [OF c(1)] payload_ofI(2) [OF c(2)] c3(2) by (intro select_payload_of) simp_all
  then obtain body where "encode_ctk64 (snd (select_payload c1 ([c2] @ c3))) = Ok body"
    using payload_decodes [OF norm utf8, of "fst (select_payload c1 ([c2] @ c3))" "snd (select_payload c1 ([c2] @ c3))"]
    unfolding prod.collapse by blast
  then show ?thesis
    by (simp only: encode_ctk3_def norm c c3(1) and_then_simps Let_def is_ok_def sum.case)
qed

lemma encode_ctk3_compact_ok:
  assumes "is_ok (normalize_document document)" "utf8_comments document" "comment_bytes document \<le> 14000000"
  shows "is_ok (encode_ctk3_compact document)"
proof -
  obtain pages where norm: "normalize_document document = Ok pages" using assms(1) by (auto simp: is_ok_def split: sum.splits)
  have "is_ok (encode_normalized (doc_width document) pages COMPACT_SCHEMA_REVISION None)"
    by (rule encode_normalized_ok [OF normalize_document_wf(1) [OF norm assms(2)] _ document_bits [OF norm assms(3)]])
      (simp add: wf_revision_def)
  then obtain tag payload where c: "encode_normalized (doc_width document) pages COMPACT_SCHEMA_REVISION None = Ok (tag, payload)"
    by (auto simp: is_ok_def split: sum.splits)
  obtain body where "encode_ctk64 payload = Ok body" by (rule payload_decodes [OF norm assms(2) payload_ofI(1) [OF c]])
  then show ?thesis by (simp add: encode_ctk3_compact_def norm c is_ok_def)
qed

lemma select_payload_shortest: "d \<in> set (c # cs) \<Longrightarrow> length (snd (select_payload c cs)) \<le> length (snd d)"
  unfolding select_payload_def
  by (induction cs arbitrary: d rule: rev_induct) (fastforce simp: not_less intro: order_trans)+

lemma encode_ctk64_length:
  assumes "encode_ctk64 xs = Ok s" "encode_ctk64 ys = Ok t" "length xs \<le> length ys" shows "length s \<le> length t"
proof -
  obtain ds p where d: "s = digits_text ds" "p < 6" "digits_bits ds = bytes_bits xs @ replicate p False"
    using encode_ctk64_sound [of xs] assms(1) by auto
  obtain es q where e: "t = digits_text es" "q < 6" "digits_bits es = bytes_bits ys @ replicate q False"
    using encode_ctk64_sound [of ys] assms(2) by auto
  have "6 * length ds = 8 * length xs + p" "6 * length es = 8 * length ys + q"
    using arg_cong [OF d(3), of length] arg_cong [OF e(3), of length] by (simp_all only: length_append length_replicate length_bits)
  then show ?thesis using assms(3) d(1,2) e(1) by simp
qed

lemma encode_ctk3_no_longer:
  assumes "encode_ctk3 document = Ok encoded" "encode_ctk3_compact document = Ok compact"
  shows "length encoded \<le> length compact"
proof -
  obtain pages c1 c2 c3 s t where "normalize_document document = Ok pages"
    and c: "encode_normalized (doc_width document) pages COMPACT_SCHEMA_REVISION None = Ok c1"
    and s: "encode_ctk64 (snd (select_payload c1 ([c2] @ c3))) = Ok s" "encoded = CTK3_PREFIX @ s"
    and t: "encode_ctk64 (snd c1) = Ok t" "compact = CTK3_PREFIX @ t"
    using assms by (auto simp: encode_ctk3_def encode_ctk3_compact_def and_then_eq_Ok_iff split: prod.splits)
  have "length (snd (select_payload c1 ([c2] @ c3))) \<le> length (snd c1)" by (rule select_payload_shortest) simp
  from encode_ctk64_length [OF s(1) t(1) this] show ?thesis by (simp add: s(2) t(2))
qed

section \<open>Segments\<close>





text \<open>What the payloads of a bundle decode to.\<close>

definition decodes_to :: "nat \<Rightarrow> string list \<Rightarrow> Ctk3Document list \<Rightarrow> bool" where
  "decodes_to width payloads documents \<longleftrightarrow>
     list_all2 (\<lambda>payload document. decode_single_payload Ctk64 payload = Ok document \<and> doc_width document = width) payloads documents"

lemma decodes_to_simps [simp]:
  "decodes_to width [] documents \<longleftrightarrow> documents = []"
  "decodes_to width (payload # payloads) documents \<longleftrightarrow> (\<exists>document rest. documents = document # rest
     \<and> decode_single_payload Ctk64 payload = Ok document \<and> doc_width document = width \<and> decodes_to width payloads rest)"
  by (auto simp: decodes_to_def list_all2_Cons1)

lemma expect_width_same [simp]:
  "doc_width document = width \<Longrightarrow> expect_width None index document = Ok (Some width)"
  "doc_width document = width \<Longrightarrow> expect_width (Some width) index document = Ok (Some width)"
  by (simp_all add: expect_width_def)








section \<open>Bundle prefixes inside payloads\<close>

text \<open>
  \<open>decode_ctk3_segment\<close> looks for the bundle prefix anywhere in the text and in any case.  The letters of
  the prefix belong to the alphabet of payloads, so a valid text of one document can contain it; such
  a text is rejected although the exact decoder reads it.  An example is
  \<open>ctk3_wwmCLQIDUkctK3B_aqM\<close>, the encoding of a page with the comment bytes 71, 45, 43, 112, 127.
\<close>

lemma find_in_suffix:
  assumes "eq_ignore_ascii_case (take (length needle) (drop i s)) needle" "i + length needle \<le> length s"
  shows "find_ignore_ascii_case (before @ s) needle \<noteq> None"
proof -
  have "length before + i \<in> set [0..<length (before @ s) - length needle + 1]"
    "eq_ignore_ascii_case (take (length needle) (drop (length before + i) (before @ s))) needle"
    using assms by auto
  then have "List.find (\<lambda>i. eq_ignore_ascii_case (take (length needle) (drop i (before @ s))) needle)
      [0..<length (before @ s) - length needle + 1] \<noteq> None"
    unfolding find_None_iff by blast
  moreover have fits: "\<not> length (before @ s) < length needle" using assms(2) by simp
  ultimately show ?thesis unfolding find_ignore_ascii_case_def if_not_P [OF fits] by blast
qed

lemma split_on_single: "d \<notin> set s \<Longrightarrow> split_on d s = [s]"
  by (induction s) auto

lemma bundle_payloads_single:
  "CHR ''.'' \<notin> set body \<Longrightarrow> bundle_payloads body = Err (Fault (InvalidPayload ''bundle payload is invalid''))"
  by (simp add: bundle_payloads_def split_on_single)

lemma segment_decoder_rejects:
  assumes "valid_payload p" "i + 6 \<le> length p" "eq_ignore_ascii_case (take 6 (drop i p)) CTK3_BUNDLE_PREFIX"
  shows "decode_ctk3_segment (CTK3_PREFIX @ p) = Err (Fault (InvalidPayload ''bundle payload is invalid''))"
    "decode_ctk3_exact (CTK3_PREFIX @ p) = decode_single_payload Ctk64 p"
proof -
  define source where "source = CTK3_PREFIX @ p"
  have "length CTK3_BUNDLE_PREFIX = 6" by simp
  then obtain j where j: "find_ignore_ascii_case source CTK3_BUNDLE_PREFIX = Some j"
    using find_in_suffix [of CTK3_BUNDLE_PREFIX i p CTK3_PREFIX] assms(2,3) unfolding source_def by (metis not_None_eq)
  have "CHR ''.'' \<notin> set source" using valid_payload_ends(2) [OF assms(1)] by (simp add: source_def)
  then have "CHR ''.'' \<notin> set (takeWhile P (drop k source))" for P k using set_takeWhileD in_set_dropD by metis
  then have "extract_compatible_bundle source = Err (Fault (InvalidPayload ''bundle payload is invalid''))"
    unfolding extract_compatible_bundle_def trim_payload [OF assms(1), folded source_def] Let_def j option.case
    by (rule bundle_payloads_single)
  then show "decode_ctk3_segment (CTK3_PREFIX @ p) = Err (Fault (InvalidPayload ''bundle payload is invalid''))"
    unfolding decode_ctk3_segment_def extract_plain(2) [OF assms(1)] source_def by simp
  show "decode_ctk3_exact (CTK3_PREFIX @ p) = decode_single_payload Ctk64 p" by (rule decode_plain [OF assms(1)])
qed







section \<open>Properties\<close>

text \<open>
  C2: Every document that has a normal form and at most 14,000,000 bytes of comments is encoded, and decoding the
  text gives a document of the same width and normal form, which is encoded as the same text; the text
  is not longer than the compact one.  Nothing panics and no size limit is met on the way.
\<close>

theorem document_roundtrip:
  assumes "normalize_document document = Ok pages" "utf8_comments document" "comment_bytes document \<le> 14000000"
  shows "\<exists>encoded restored. encode_ctk3 document = Ok encoded \<and> decode_ctk3_exact encoded = Ok restored
    \<and> doc_width restored = doc_width document \<and> normalize_document restored = Ok pages \<and> encode_ctk3 restored = Ok encoded
    \<and> (\<exists>compact. encode_ctk3_compact document = Ok compact \<and> length encoded \<le> length compact)"
proof -
  obtain encoded where e: "encode_ctk3 document = Ok encoded"
    using encode_ctk3_ok [OF assms] by (auto simp: is_ok_def split: sum.splits)
  obtain tag payload body where p: "payload_of document pages (tag, payload)" "encode_ctk64 payload = Ok body" "encoded = CTK3_PREFIX @ body"
    by (rule encode_ctk3_selects [OF assms(1) normalize_document_wf(1) [OF assms(1,2)] e])
  obtain restored where r: "valid_payload body" "decode_single_payload Ctk64 body = Ok restored"
    "doc_width restored = doc_width document" "normalize_document restored = Ok pages"
    using payload_decodes [OF assms(1,2) p(1)] p(2) by (metis Inr_inject)
  have "encode_ctk3 restored = encode_ctk3 document" unfolding encode_ctk3_def r(3,4) assms(1) by (rule refl)
  moreover obtain compact where "encode_ctk3_compact document = Ok compact"
    using encode_ctk3_compact_ok [OF _ assms(2,3)] assms(1) by (auto simp: is_ok_def split: sum.splits)
  ultimately show ?thesis using e r decode_plain [OF r(1)] encode_ctk3_no_longer [OF e] p(3) by auto
qed

definition example_document :: Ctk3Document where
  "example_document = \<lparr>doc_width = 2, doc_pages = [\<lparr>pg_height = 1, pg_cells = [Gray, Empty], pg_comment = [65],
     pg_operation = None, pg_flags = default_flags, pg_garbage = None\<rparr>]\<rparr>"

definition example_pages :: "NormalizedPage list" where
  "example_pages = [\<lparr>np_height = 1, np_codes = [1, 0], np_comment = [65], np_operation = None, np_flags = default_flags, np_garbage = None\<rparr>]"

lemma example_normal: "normalize_document example_document = Ok example_pages"
  by (simp add: example_document_def example_pages_def normalize_document_def normalize_page_def usize_checked_mul_def USIZE_MAX_def
      normalize_operation_def normalize_garbage_def)

lemma example_comments: "utf8_comments example_document" "comment_bytes example_document \<le> 14000000"
proof -
  have "is_utf8 [65]" by code_simp
  then show "utf8_comments example_document" "comment_bytes example_document \<le> 14000000"
    by (simp_all add: utf8_comments_def comment_bytes_def example_document_def)
qed

theorem document_roundtrip_witness:
  "\<exists>encoded restored. encode_ctk3 example_document = Ok encoded \<and> decode_ctk3_exact encoded = Ok restored
    \<and> doc_width restored = 2 \<and> normalize_document restored = Ok example_pages \<and> encode_ctk3 restored = Ok encoded"
  using document_roundtrip [OF example_normal example_comments] by (auto simp: example_document_def)



end
