(* ===== verification/Spec2Isabelle.thy ===== *)
theory Spec2Isabelle
  imports Pieces Occupancy Leases Tilings CoverBuilders DocumentCodecs
begin

text \<open>
  \<^bold>\<open>Clearra: boards, tilings, exact covers, piece sets, leases and the CTK3 codec.\<close>

  Clearra solves perfect-clear problems on Tetris boards.  This library models the
  crates that every search of the program stands on: the core domain (boards,
  pieces, tiling keys and resource leases), the piece registry (shapes, custom
  pieces, mixed sets and bags), the area part of the geometry crate, the exact-cover
  crate (problem schemas, bridges and the two solvers), and CTK3, the text format in
  which boards and solutions are exchanged.  Paths below are relative to
  \<^verbatim>\<open>src/crates/\<close>.

  \<^bold>\<open>How the parts interact.\<close>  A board is a mask of cells and a placement is a mask
  too.  The registry gives the shapes of the pieces; a bridge numbers the cells of
  the region that is to be filled, turns every placement into a set of columns and
  asks an exact-cover solver for sets of placements that fill the region; a
  solution becomes a tiling identity, which has a canonical textual key.  The
  searches run under leases of a shared resource authority.  Documents of pages, each a
  board with an optional piece, comment and garbage row, leave and enter the program
  as CTK3 texts.

  \<^bold>\<open>Conventions.\<close>  \<^verbatim>\<open>u8\<close> to \<^verbatim>\<open>u128\<close> are words, \<^verbatim>\<open>i8\<close> is an 8-bit word read by
  \<^const>\<open>sint\<close>, \<^verbatim>\<open>usize\<close> is \<^typ>\<open>nat\<close> with its bound written where it matters.
  \<^verbatim>\<open>Result\<close> is a sum with the error on the left, a panic is a value
  (\<^const>\<open>Panic\<close> or \<^const>\<open>None\<close>), and arithmetic whose overflow depends on the
  build profile takes a flag \<^verbatim>\<open>overflow_checks\<close>.  A struct is a record or a datatype
  and its accessors are the selectors.

  \<^bold>\<open>The theories.\<close>

  \<^item> \<^verbatim>\<open>Prelude\<close>: results, checked arithmetic, the bits of a mask; the collections of
    simplification rules the components share.
  \<^item> \<^verbatim>\<open>CellMasks\<close>: the locale \<^verbatim>\<open>cell_mask\<close>, the contract of a mask over numbered
    cells.  \<^verbatim>\<open>Boards\<close> and \<^verbatim>\<open>WideBoards\<close> interpret it on \<^verbatim>\<open>BoardMask\<close> and
    \<^verbatim>\<open>Board256Mask\<close>.
  \<^item> \<^verbatim>\<open>Boards\<close>, \<^verbatim>\<open>WideBoards\<close>: \<^verbatim>\<open>clearra-core-domain/src/board\<close>.  A mask built from
    cells holds exactly those cells, its words are decoded exactly, reflection
    moves every cell to the mirrored column.
  \<^item> \<^verbatim>\<open>Pieces\<close>: piece kinds, rotations and perfect-clear targets (\<^verbatim>\<open>piece\<close>, \<^verbatim>\<open>pc\<close>).
  \<^item> \<^verbatim>\<open>Occupancy\<close>: \<^verbatim>\<open>field\<close>, the text row parser and the parity observation.  The
    parser is exact on fields of at most 64 cells; an occupied cell beyond bit 63
    makes it panic with overflow checks, and return the size error without them.
    Every counter of the observation is the number of cells it names.
  \<^item> \<^verbatim>\<open>Text\<close>: decimal and hexadecimal printing and parsing as the code uses them.
  \<^item> \<^verbatim>\<open>Resources\<close>: the execution availability of \<^verbatim>\<open>resource\<close>, CPU discovery and
    the execution partition.  Every candidate has exactly one owner.
  \<^item> \<^verbatim>\<open>Leases\<close>: \<^verbatim>\<open>resource/shared_resource_lease.rs\<close>.  The state behind the mutex is
    a record, every handle operation is a function on it, and a run of the system
    is a sequence of labelled steps.  In each reachable state the account of every
    lease is exact and the entries that are not tombstones are exactly the open
    handles; no step faults, and dropping all handles frees everything.
  \<^item> \<^verbatim>\<open>ExtendedTilings\<close>, \<^verbatim>\<open>Tilings\<close>: \<^verbatim>\<open>solution/extended_tiling_solution.rs\<close> and
    \<^verbatim>\<open>normalized_tiling_solution.rs\<close>.  Parsers accept exactly the canonical keys,
    every codec round-trips, and comparing identities is comparing their texts.
  \<^item> \<^verbatim>\<open>ExactCovers\<close>: \<^verbatim>\<open>clearra-exact-cover/src/model\<close> and \<^verbatim>\<open>solver\<close>.  The locale
    \<^verbatim>\<open>cover_store\<close> is the contract of the solvers' choose and undo steps,
    interpreted on the DLX store and on the bitset store.  The DLX search reports
    each exact cover once, up to its limits, and both solvers agree on solvability.
  \<^item> \<^verbatim>\<open>PieceShapes\<close>, \<^verbatim>\<open>PieceSets\<close>: \<^verbatim>\<open>clearra-piece-registry/src\<close>.  The shape tables are
    the rotations of one another, a custom piece is accepted exactly when its cells
    are well formed, and an accepted piece has an operation table.
  \<^item> \<^verbatim>\<open>Areas\<close>: \<^verbatim>\<open>clearra-geometry/src/area\<close> and the area constraints of the
    exact-cover crate.  The subset-sum table is exact.
  \<^item> \<^verbatim>\<open>CoverBuilders\<close>: \<^verbatim>\<open>clearra-exact-cover/src/builder\<close>, the problem schema and
    \<^verbatim>\<open>bridge\<close>.  The tilings a bridge returns are the exact fillings of the region.
  \<^item> \<^verbatim>\<open>BigNats\<close>, \<^verbatim>\<open>BitStreams\<close>: \<^verbatim>\<open>clearra-ctk3/src/big_nat.rs\<close> and \<^verbatim>\<open>bitstream.rs\<close>.  The
    limb arithmetic refines the natural numbers without a panic, ranking and
    unranking of combinations are inverse, and the locale \<^verbatim>\<open>bit_codec\<close> states what a
    writer and a reader promise each other; its lemmas give the round trip through
    padded bytes.
  \<^item> \<^verbatim>\<open>CellCodecs\<close>, \<^verbatim>\<open>CellRoundTrips\<close>, \<^verbatim>\<open>CellChoices\<close>: \<^verbatim>\<open>cell.rs\<close>, the twelve encodings of a
    field of colours.  Each is a \<^verbatim>\<open>bit_codec\<close>, and so is the choice of the shortest,
    within a bound of four bits a cell.
  \<^item> \<^verbatim>\<open>Transports\<close>: \<^verbatim>\<open>transport.rs\<close>, the text form of bytes, prefixes, bundles and the
    checksum.  The base-64 transport is a bijection.
  \<^item> \<^verbatim>\<open>Pages\<close>: \<^verbatim>\<open>lib.rs\<close> and \<^verbatim>\<open>geometry.rs\<close>, pages and their normal form.  Operations have
    unique canonical forms, and restoring a normal page and normalising it again
    gives the same page.
  \<^item> \<^verbatim>\<open>PageCodecs\<close>: the page writers of \<^verbatim>\<open>codec.rs\<close> and the readers of \<^verbatim>\<open>decoder.rs\<close>;
    \<^verbatim>\<open>PageRoundTrips\<close> and \<^verbatim>\<open>TemporalRoundTrips\<close> show that pages are read back, on their
    own and against earlier pages, whichever candidate is shortest; \<^verbatim>\<open>PageSizes\<close>
    bounds what they take.
  \<^item> \<^verbatim>\<open>DocumentCodecs\<close>: the public functions of \<^verbatim>\<open>codec.rs\<close> and \<^verbatim>\<open>decoder.rs\<close>.  Every valid
    document within the comment bound is encoded, decoding restores it up to its
    normal form, and the same holds for segmented bundles.
  \<^bold>\<open>Bounds and fuel.\<close>  The DLX search recurses with fuel, one more than the number of
  columns; every chosen row covers a column that was open, so the fuel is proved
  never to run out.  All other loops are structural or have a termination proof.
  The CTK3 writers fail when a payload exceeds 16 MiB.  A page other than its comment
  takes at most 4200 bits and a document has at most 4096 pages, so that comments of
  14,000,000 bytes in total always fit; the round trips assume that bound and prove
  that encoding succeeds.
  \<^bold>\<open>Not modelled.\<close>  The mutex itself and atomic flags (operations are atomic steps),
  display strings and the error messages' wording, and the value types of the core
  domain that only store their arguments (pruning ledger, resource budgets and
  reports, identifiers, policies).  Of the CTK3 crate \<^verbatim>\<open>transform.rs\<close>, which edits
  documents, and the writers that only forward an encoded text to a sink.  Sums of
  \<^verbatim>\<open>usize\<close> lengths (\<^verbatim>\<open>column_count\<close>, \<^verbatim>\<open>bag_size\<close>, the length of the subset-sum table)
  are unbounded, and strings are Latin-1.
  Outside the modelled crates: the native C core and the executor that drives it,
  the forward, setup and spin searches, supply automata, rules and scoring, output
  formats other than CTK3, the command line and the desktop, web and GPU hosts.  They are either
  input and output, tables of data, or searches built over the modelled crates that
  need the C core's contract.
\<close>

end
